(* ===== verification/Prelude.thy ===== *)
theory Prelude
  imports Main "HOL-Library.Word" "HOL-Library.Sublist" "HOL-Library.Code_Target_Nat"
begin

text \<open>
  Shared vocabulary of the development: the byte and machine-word types of the C
  sources, the status codes of the public header, the two result types (one for the
  lexical routines, which only move the cursor, and one for the routines that also
  change the document), names for the ASCII codes the sources compare with, and the
  generic list and word lemmas the components share.
\<close>

unbundle bit_operations_syntax

subsection \<open>Machine types\<close>

type_synonym byte = "8 word"
type_synonym bytes = "8 word list"
type_synonym u32 = "32 word"
type_synonym u64 = "64 word"
type_synonym size_t = "64 word"

text \<open>\<open>teptris_status\<close> of the public header.\<close>

datatype status =
    ST_OK
  | ERR_ALLOC
  | ERR_SYNTAX
  | ERR_SEMANTIC
  | ERR_ENCODING
  | ERR_DEPTH
  | ERR_ARG
  | ERR_STATE

text \<open>String literals of the sources as bytes.\<close>

definition lit :: "string \<Rightarrow> bytes" where
  "lit s = map of_char s"

text \<open>The character codes the sources compare with.\<close>

abbreviation (input) TAB :: byte where "TAB \<equiv> 0x09"
abbreviation (input) LF :: byte where "LF \<equiv> 0x0A"
abbreviation (input) CR :: byte where "CR \<equiv> 0x0D"
abbreviation (input) SPACE :: byte where "SPACE \<equiv> 0x20"
abbreviation (input) DQUOTE :: byte where "DQUOTE \<equiv> 0x22"
abbreviation (input) HASH :: byte where "HASH \<equiv> 0x23"
abbreviation (input) SQUOTE :: byte where "SQUOTE \<equiv> 0x27"
abbreviation (input) PLUS :: byte where "PLUS \<equiv> 0x2B"
abbreviation (input) COMMA :: byte where "COMMA \<equiv> 0x2C"
abbreviation (input) MINUS :: byte where "MINUS \<equiv> 0x2D"
abbreviation (input) DOT :: byte where "DOT \<equiv> 0x2E"
abbreviation (input) COLON :: byte where "COLON \<equiv> 0x3A"
abbreviation (input) EQUALS :: byte where "EQUALS \<equiv> 0x3D"
abbreviation (input) LBRACK :: byte where "LBRACK \<equiv> 0x5B"
abbreviation (input) BACKSLASH :: byte where "BACKSLASH \<equiv> 0x5C"
abbreviation (input) RBRACK :: byte where "RBRACK \<equiv> 0x5D"
abbreviation (input) UNDERSCORE :: byte where "UNDERSCORE \<equiv> 0x5F"
abbreviation (input) LBRACE :: byte where "LBRACE \<equiv> 0x7B"
abbreviation (input) RBRACE :: byte where "RBRACE \<equiv> 0x7D"
abbreviation (input) DEL :: byte where "DEL \<equiv> 0x7F"

subsection \<open>Results of the lexical routines\<close>

text \<open>
  The cursor of the parser is the list of the bytes from \<open>ps->p\<close> up to \<open>ps->end\<close>. A
  routine that only reads the input and moves the cursor returns its value with the new
  cursor, or the arguments of its \<open>tep_fail_at\<close> call with the cursor at that call.
\<close>

datatype 'a lex =
    LErr status bytes bytes
  | LOk 'a bytes

fun lex_rest :: "'a lex \<Rightarrow> bytes" where
  "lex_rest (LErr st msg p) = p"
| "lex_rest (LOk a p) = p"

subsection \<open>Collections of facts\<close>

named_theorems suffix_intros \<open>cursor facts: what a routine leaves is a suffix of what it got\<close>
named_theorems model_defs \<open>definitions to unfold when a concrete input is evaluated\<close>

subsection \<open>Words\<close>

lemma unat_lt_2_64: "unat (x :: 64 word) < 18446744073709551616"
  using unsigned_less [of x, where ?'a = nat] by simp

lemma unat_lt_2_32: "unat (x :: 32 word) < 4294967296"
  using unsigned_less [of x, where ?'a = nat] by simp

lemma unat_lt_2_8: "unat (x :: 8 word) < 256"
  using unsigned_less [of x, where ?'a = nat] by simp

lemma unat_add_64:
  "unat x + unat y < 18446744073709551616 \<Longrightarrow> unat (x + y :: 64 word) = unat x + unat y"
  by (simp add: unat_word_ariths)

text \<open>Bit fields as arithmetic: masks are remainders, an \<open>OR\<close> of disjoint fields is a sum.\<close>

lemma nat_or_add: "y < 2 ^ k \<Longrightarrow> (2 ^ k * q) OR y = 2 ^ k * q + (y :: nat)"
proof -
  assume "y < 2 ^ k"
  then have "take_bit k y = y" by (simp add: take_bit_nat_eq_self)
  then have "\<not> bit y n" if "k \<le> n" for n
    using that by (metis bit_take_bit_iff not_less)
  then have "push_bit k q AND y = 0" by (auto simp: bit_eq_iff bit_simps)
  then have "push_bit k q OR y = push_bit k q + y" by (simp add: disjunctive_add_eq_or)
  then show ?thesis by (simp add: push_bit_eq_mult mult.commute)
qed

lemma unat_or_add:
  "unat a = 2 ^ k * q \<Longrightarrow> unat b < 2 ^ k \<Longrightarrow> unat (a OR b) = unat a + unat b"
  for a b :: "'a::len word"
  by (simp add: unsigned_or_eq nat_or_add)

lemma unat_and_mask: "unat (a AND mask k) = unat a mod 2 ^ k"
  by (metis take_bit_eq_mask take_bit_eq_mod unsigned_take_bit_eq)

lemma unat_drop: "unat (drop_bit k a) = unat a div 2 ^ k"
  by (metis drop_bit_eq_div unat_drop_bit_eq)

lemma unat_and_not_mask:
  assumes "m = NOT (mask k)"
  shows "unat ((a :: 'a::len word) AND m) = unat a div 2 ^ k * 2 ^ k"
proof -
  have "a AND NOT (mask k) = push_bit k (drop_bit k a)"
    by (rule bit_word_eqI) (auto simp: bit_simps)
  moreover have "unat a div 2 ^ k * 2 ^ k < 2 ^ LENGTH('a)"
    using div_times_less_eq_dividend [of "unat a" "2 ^ k"] unsigned_less [of a]
    by (rule le_less_trans)
  moreover have "unat (push_bit k (drop_bit k a)) = take_bit LENGTH('a) (push_bit k (unat (drop_bit k a)))"
    by (rule unsigned_push_bit_eq)
  moreover have "push_bit k (unat (drop_bit k a)) = unat a div 2 ^ k * 2 ^ k"
    by (simp only: push_bit_eq_mult unat_drop)
  ultimately show ?thesis by (simp add: assms take_bit_nat_eq_self)
qed

lemma unat_ucast_8: "unat (ucast (a :: 32 word) :: 8 word) = unat a mod 256"
  by (simp add: unsigned_ucast_eq take_bit_eq_mod)

lemma unat_ucast_32: "unat (ucast (a :: 8 word) :: 32 word) = unat a"
  using unat_lt_2_8 [of a] by (simp add: unsigned_ucast_eq take_bit_eq_mod)

subsection \<open>Lists\<close>

lemma suffix_tlI [suffix_intros]: "suffix (tl xs) xs"
  by (simp add: suffix_tl)

lemma suffix_dropI [suffix_intros]: "suffix (drop n xs) xs"
  by (rule suffix_drop)

lemma suffix_dropWhileI [suffix_intros]: "suffix (dropWhile P xs) xs"
  by (rule suffix_dropWhile)

lemma suffix_length_less: "suffix xs ys \<Longrightarrow> xs \<noteq> ys \<Longrightarrow> length xs < length ys"
  by (auto simp: suffix_def)

lemma suffix_drop_eq: "suffix xs ys \<Longrightarrow> xs = drop (length ys - length xs) ys"
  by (auto simp: suffix_def)

lemma length_takeWhile_dropWhile:
  "length (takeWhile P xs) + length (dropWhile P xs) = length xs"
  by (metis length_append takeWhile_dropWhile_id)

lemma drop_length_takeWhile: "drop (length (takeWhile P xs)) xs = dropWhile P xs"
  by (metis append_eq_conv_conj takeWhile_dropWhile_id)

end
