(* ===== verification/Arena.thy ===== *)
theory Arena
  imports Prelude
begin

text \<open>
  The per-document bump arena of \<open>memory/arena.h\<close> and \<open>memory/arena.c\<close>. A block is the
  header the C code keeps at the front of each \<open>malloc\<close>ed block; its address is the
  number of the \<open>malloc\<close> call that made it. A pointer into the arena is a block and an
  offset into the block's data area. Sizes are \<open>size_t\<close>, that is 64-bit words, with the
  wrap-around of the C arithmetic. \<open>malloc\<close> is modelled by the number of bytes it can
  still hand out: it fails exactly when the request exceeds them, so that every
  out-of-memory path of the callers is reachable.
\<close>

record block =
  b_id :: nat
  b_used :: size_t
  b_cap :: size_t

record arena =
  a_blocks :: "block list"
  a_avail :: nat
  a_next :: nat

type_synonym ptr = "nat \<times> size_t"

abbreviation (input) ARENA_BLOCK_SIZE :: size_t where "ARENA_BLOCK_SIZE \<equiv> 65536"
abbreviation (input) ARENA_ALIGN :: size_t where "ARENA_ALIGN \<equiv> 16"
abbreviation (input) SIZEOF_ARENA_BLOCK :: size_t where "SIZEOF_ARENA_BLOCK \<equiv> 24"

subsection \<open>Operations\<close>

definition round_up :: "size_t \<Rightarrow> size_t \<Rightarrow> size_t" where
  "round_up n align = (n + align - 1) AND NOT (align - 1)"

definition block_data_offset :: size_t where
  "block_data_offset = round_up SIZEOF_ARENA_BLOCK ARENA_ALIGN"

definition arena_init :: "nat \<Rightarrow> arena" where
  "arena_init avail = \<lparr>a_blocks = [], a_avail = avail, a_next = 0\<rparr>"

definition block_new :: "size_t \<Rightarrow> arena \<Rightarrow> (block \<times> arena) option" where
  "block_new cap a =
    (let request = unat (block_data_offset + cap)
     in if request \<le> a_avail a
        then Some (\<lparr>b_id = a_next a, b_used = 0, b_cap = cap\<rparr>,
                   a\<lparr>a_avail := a_avail a - request, a_next := Suc (a_next a)\<rparr>)
        else None)"

definition arena_new_cap :: "arena \<Rightarrow> size_t \<Rightarrow> size_t" where
  "arena_new_cap a need =
    (let cap = ARENA_BLOCK_SIZE;
         cap = (if need > cap then need else cap)
     in case a_blocks a of
          [] \<Rightarrow> cap
        | h # _ \<Rightarrow> (if b_cap h * 2 > cap then b_cap h * 2 else cap))"

definition arena_alloc_block :: "arena \<Rightarrow> size_t \<Rightarrow> (ptr \<times> arena) option" where
  "arena_alloc_block a need =
    (case block_new (arena_new_cap a need) a of
       None \<Rightarrow> None
     | Some (nb, a') \<Rightarrow>
         Some ((b_id nb, b_used nb),
               a'\<lparr>a_blocks := nb\<lparr>b_used := b_used nb + need\<rparr> # a_blocks a'\<rparr>))"

definition arena_alloc :: "arena \<Rightarrow> size_t \<Rightarrow> (ptr \<times> arena) option" where
  "arena_alloc a sz =
    (let need = round_up sz ARENA_ALIGN
     in case a_blocks a of
          [] \<Rightarrow> arena_alloc_block a need
        | b # bs \<Rightarrow>
            (if b_used b + need \<le> b_cap b
             then Some ((b_id b, b_used b),
                        a\<lparr>a_blocks := b\<lparr>b_used := b_used b + need\<rparr> # bs\<rparr>)
             else arena_alloc_block a need))"

text \<open>The inline bump of the header: the cursor moves first, the result is read back.\<close>

definition arena_fast_alloc :: "arena \<Rightarrow> size_t \<Rightarrow> (ptr \<times> arena) option" where
  "arena_fast_alloc a sz =
    (let need = (sz + 15) AND NOT 15
     in case a_blocks a of
          [] \<Rightarrow> arena_alloc a sz
        | b # bs \<Rightarrow>
            (if b_used b + need \<le> b_cap b
             then (let b' = b\<lparr>b_used := b_used b + need\<rparr>
                   in Some ((b_id b', b_used b' - need), a\<lparr>a_blocks := b' # bs\<rparr>))
             else arena_alloc a sz))"

text \<open>\<open>lst\<close> is \<open>None\<close> for the null pointer.\<close>

definition arena_try_grow ::
    "arena \<Rightarrow> ptr option \<Rightarrow> size_t \<Rightarrow> size_t \<Rightarrow> (ptr \<times> arena) option" where
  "arena_try_grow a lst old_size new_size =
    (case (a_blocks a, lst) of
       (b # bs, Some p) \<Rightarrow>
         (let old_rounded = round_up old_size ARENA_ALIGN;
              new_rounded = round_up new_size ARENA_ALIGN
          in if new_size < old_size then None
             else if fst p = b_id b \<and> snd p + old_rounded = b_used b
                     \<and> b_used b + (new_rounded - old_rounded) \<le> b_cap b
             then Some (p, a\<lparr>a_blocks :=
                               b\<lparr>b_used := b_used b + (new_rounded - old_rounded)\<rparr> # bs\<rparr>)
             else None)
     | _ \<Rightarrow> None)"

definition arena_destroy :: "arena \<Rightarrow> arena" where
  "arena_destroy a =
    a\<lparr>a_blocks := [],
      a_avail := a_avail a +
        sum_list (map (\<lambda>b. unat (block_data_offset + b_cap b)) (a_blocks a))\<rparr>"

lemmas arena_op_defs [model_defs] =
  round_up_def block_data_offset_def arena_init_def block_new_def arena_new_cap_def
  arena_alloc_block_def arena_alloc_def arena_fast_alloc_def arena_try_grow_def

subsection \<open>Rounding\<close>

lemma round_up_16: "round_up n 16 = (n + 15) AND - 16"
proof -
  have "n + 16 - 1 = n + 15" and "NOT (16 - 1) = (- 16 :: size_t)"
    by simp_all
  then show ?thesis by (simp only: round_up_def)
qed

lemma unat_and_minus_16: "unat ((x :: size_t) AND - 16) = unat x div 16 * 16"
proof -
  have "x AND NOT (mask 4) = push_bit 4 (drop_bit 4 x)"
    by (rule bit_word_eqI) (auto simp: bit_simps)
  then have eq: "x AND - 16 = push_bit 4 (drop_bit 4 x)"
    by (simp add: mask_eq_exp_minus_1)
  have "unat x div 16 * 16 < 2 ^ 64"
    using unat_lt_2_64 [of x] by simp
  then show ?thesis
    by (simp add: eq push_bit_eq_mult unat_word_ariths unat_drop_bit_eq drop_bit_eq_div
        mult.commute)
qed

lemma unat_round_up:
  assumes "unat n < 2 ^ 64 - 16"
  shows "unat (round_up n 16) = (unat n + 15) div 16 * 16"
  using assms by (simp add: round_up_16 unat_and_minus_16 unat_word_ariths)

lemma round_up_ge: "unat n < 2 ^ 64 - 16 \<Longrightarrow> unat n \<le> unat (round_up n 16)"
  by (simp add: unat_round_up)

lemma round_up_dvd: "unat n < 2 ^ 64 - 16 \<Longrightarrow> 16 dvd unat (round_up n 16)"
  by (simp add: unat_round_up)

lemma round_up_lt: "unat n \<le> 2 ^ 61 \<Longrightarrow> unat (round_up n 16) \<le> 2 ^ 61"
proof -
  assume n: "unat n \<le> 2 ^ 61"
  then have "(unat n + 15) div 16 \<le> 2 ^ 57" by simp
  with n show ?thesis by (simp add: unat_round_up)
qed

lemma block_data_offset_eq: "block_data_offset = 32"
  by (simp add: block_data_offset_def round_up_def)

text \<open>The inline bump of the header takes the branch of the out-of-line allocator.\<close>

lemma arena_fast_alloc_eq: "arena_fast_alloc a sz = arena_alloc a sz"
proof -
  have "NOT 15 = (- 16 :: size_t)" by simp
  then show ?thesis
    unfolding arena_fast_alloc_def arena_alloc_def round_up_16 Let_def
    by (auto split: list.split)
qed

subsection \<open>The allocator invariant\<close>

text \<open>
  Sizes stay far below the word size: a block that \<open>malloc\<close> granted fits the bytes it had,
  and the requests of the document layer are bounded by the input. Under these bounds
  no sum in the allocator wraps.
\<close>

definition block_ok :: "arena \<Rightarrow> block \<Rightarrow> bool" where
  "block_ok a b \<longleftrightarrow> b_id b < a_next a \<and> unat (b_used b) \<le> unat (b_cap b)
     \<and> 16 dvd unat (b_used b) \<and> unat (b_cap b) \<le> 2 ^ 62"

definition arena_ok :: "arena \<Rightarrow> bool" where
  "arena_ok a \<longleftrightarrow> distinct (map b_id (a_blocks a)) \<and> (\<forall>b \<in> set (a_blocks a). block_ok a b)
     \<and> a_avail a \<le> 2 ^ 62"

text \<open>The bytes handed out so far, and the bytes of one allocation.\<close>

definition allocated :: "arena \<Rightarrow> (nat \<times> nat) set" where
  "allocated a = (\<Union>b \<in> set (a_blocks a). {b_id b} \<times> {..<unat (b_used b)})"

definition region :: "ptr \<Rightarrow> nat \<Rightarrow> (nat \<times> nat) set" where
  "region p n = {fst p} \<times> {unat (snd p)..<unat (snd p) + n}"

definition in_block :: "arena \<Rightarrow> ptr \<Rightarrow> nat \<Rightarrow> bool" where
  "in_block a p n \<longleftrightarrow> 16 dvd unat (snd p) \<and>
     (\<exists>b \<in> set (a_blocks a). b_id b = fst p \<and> unat (snd p) + n \<le> unat (b_used b))"

lemma in_block_region: "in_block a p n \<Longrightarrow> region p n \<subseteq> allocated a"
  by (force simp: in_block_def region_def allocated_def)

lemma arena_ok_init: "avail \<le> 2 ^ 62 \<Longrightarrow> arena_ok (arena_init avail)"
  by (simp add: arena_ok_def arena_init_def)

lemma allocated_init: "allocated (arena_init avail) = {}"
  by (simp add: allocated_def arena_init_def)

text \<open>
  What a successful allocation does: \<open>n\<close> bytes at \<open>p\<close> that nobody had become allocated,
  they lie in one block at an aligned offset, and older allocations stay where they are.
\<close>

definition grants :: "arena \<Rightarrow> ptr \<Rightarrow> nat \<Rightarrow> arena \<Rightarrow> bool" where
  "grants a p n a' \<longleftrightarrow> arena_ok a' \<and> allocated a' = allocated a \<union> region p n
     \<and> region p n \<inter> allocated a = {} \<and> (\<forall>q k. in_block a q k \<longrightarrow> in_block a' q k)
     \<and> in_block a' p n"

lemma grants_in_block: "grants a p n a' \<Longrightarrow> in_block a q k \<Longrightarrow> in_block a' q k"
  unfolding grants_def by blast

text \<open>Moving the bump cursor of the newest block by \<open>n\<close> rounded bytes.\<close>

lemma bump_head:
  assumes ok: "arena_ok a" and bs: "a_blocks a = b # bs"
    and n: "unat n \<le> 2 ^ 61" "16 dvd unat n" and fits: "b_used b + n \<le> b_cap b"
  defines "a' \<equiv> a\<lparr>a_blocks := b\<lparr>b_used := b_used b + n\<rparr> # bs\<rparr>"
  shows "unat (b_used b + n) = unat (b_used b) + unat n"
    and "grants a (b_id b, b_used b) (unat n) a'"
proof -
  have b: "block_ok a b" and other: "\<And>c. c \<in> set bs \<Longrightarrow> block_ok a c \<and> b_id c \<noteq> b_id b"
    using ok bs by (auto simp: arena_ok_def) (metis image_eqI)
  show sum: "unat (b_used b + n) = unat (b_used b) + unat n"
    using b n by (intro unat_add_64) (simp add: block_ok_def)
  have "block_ok a' (b\<lparr>b_used := b_used b + n\<rparr>)"
    using b n fits sum by (simp add: block_ok_def a'_def word_le_nat_alt)
  moreover have "\<And>c. c \<in> set bs \<Longrightarrow> block_ok a' c"
    using other by (simp add: block_ok_def a'_def)
  ultimately have "arena_ok a'"
    using ok bs by (auto simp: arena_ok_def a'_def)
  moreover have "allocated a' = allocated a \<union> region (b_id b, b_used b) (unat n)"
    using sum by (auto simp: allocated_def a'_def bs region_def)
  moreover have "region (b_id b, b_used b) (unat n) \<inter> allocated a = {}"
    using other by (fastforce simp: allocated_def bs region_def)
  moreover have "in_block a' p k" if "in_block a p k" for p k
    using that sum by (auto simp: in_block_def a'_def bs)
  moreover have "in_block a' (b_id b, b_used b) (unat n)"
    using b sum by (simp add: in_block_def a'_def block_ok_def)
  ultimately show "grants a (b_id b, b_used b) (unat n) a'"
    by (simp add: grants_def)
qed

text \<open>A new block: its capacity is at least the request, and nothing below it moves.\<close>

lemma arena_new_cap_bounds:
  assumes "arena_ok a" and "unat need \<le> 2 ^ 61"
  shows "unat need \<le> unat (arena_new_cap a need)" and "unat (arena_new_cap a need) \<le> 2 ^ 63"
proof -
  have dbl: "unat (b_cap h * 2) = unat (b_cap h) * 2 \<and> unat (b_cap h) * 2 \<le> 2 ^ 63"
    if "a_blocks a = h # bs" for h bs
    using assms that by (auto simp: arena_ok_def block_ok_def unat_word_ariths)
  show "unat need \<le> unat (arena_new_cap a need)" "unat (arena_new_cap a need) \<le> 2 ^ 63"
    using assms(2) dbl
    by (auto simp: arena_new_cap_def Let_def word_less_nat_alt split: list.split)
qed

lemma alloc_block:
  assumes ok: "arena_ok a" and n: "unat n \<le> 2 ^ 61" "16 dvd unat n"
    and new: "arena_alloc_block a n = Some (p, a')"
  shows "grants a p (unat n) a'"
proof -
  define cap where "cap = arena_new_cap a n"
  have cap: "unat n \<le> unat cap" "unat cap \<le> 2 ^ 63"
    using arena_new_cap_bounds [OF ok n(1)] by (simp_all add: cap_def)
  have req: "unat (block_data_offset + cap) = 32 + unat cap"
    using cap by (simp add: block_data_offset_eq unat_word_ariths)
  have p: "p = (a_next a, 0)"
    and a': "a' = a\<lparr>a_avail := a_avail a - (32 + unat cap), a_next := Suc (a_next a),
               a_blocks := \<lparr>b_id = a_next a, b_used = n, b_cap = cap\<rparr> # a_blocks a\<rparr>"
    and le: "32 + unat cap \<le> a_avail a"
    using new
    by (auto simp: arena_alloc_block_def block_new_def Let_def req simp flip: cap_def
        split: if_splits)
  have avail: "a_avail a \<le> 2 ^ 62" using ok by (simp add: arena_ok_def)
  have fresh: "b_id b < a_next a" if "b \<in> set (a_blocks a)" for b
    using ok that by (simp add: arena_ok_def block_ok_def)
  have old: "block_ok a' b" if "b \<in> set (a_blocks a)" for b
    using ok that by (auto simp: arena_ok_def block_ok_def a')
  have new_ok: "block_ok a' \<lparr>b_id = a_next a, b_used = n, b_cap = cap\<rparr>"
    using n cap le avail by (simp add: block_ok_def a')
  have "arena_ok a'"
    using ok old new_ok avail by (auto simp: arena_ok_def a' dest: fresh)
  moreover have "allocated a' = allocated a \<union> region p (unat n)"
    by (auto simp: allocated_def a' p region_def)
  moreover have "region p (unat n) \<inter> allocated a = {}"
    by (auto simp: allocated_def p region_def dest: fresh)
  moreover have "in_block a' q k" if "in_block a q k" for q k
    using that by (auto simp: in_block_def a')
  moreover have "in_block a' p (unat n)"
    by (simp add: in_block_def a' p)
  ultimately show ?thesis by (simp add: grants_def)
qed

lemma arena_alloc_cases:
  assumes "arena_alloc a sz = Some (p, a')"
  obtains b bs where "a_blocks a = b # bs" and "b_used b + round_up sz 16 \<le> b_cap b"
      and "p = (b_id b, b_used b)"
      and "a' = a\<lparr>a_blocks := b\<lparr>b_used := b_used b + round_up sz 16\<rparr> # bs\<rparr>"
  | "arena_alloc_block a (round_up sz 16) = Some (p, a')"
proof (cases "a_blocks a")
  case Nil
  then show ?thesis using assms that(2) by (simp add: arena_alloc_def Let_def)
next
  case (Cons b bs)
  show ?thesis
  proof (cases "b_used b + round_up sz 16 \<le> b_cap b")
    case True
    with assms Cons have "p = (b_id b, b_used b)"
      "a' = a\<lparr>a_blocks := b\<lparr>b_used := b_used b + round_up sz 16\<rparr> # bs\<rparr>"
      by (simp_all add: arena_alloc_def Let_def)
    with Cons True show ?thesis by (rule that(1))
  next
    case False
    with Cons show ?thesis using assms that(2) by (simp add: arena_alloc_def Let_def)
  qed
qed

lemma arena_alloc_grants:
  assumes ok: "arena_ok a" and sz: "unat sz \<le> 2 ^ 61" and al: "arena_alloc a sz = Some (p, a')"
  shows "grants a p (unat (round_up sz 16)) a'"
proof -
  have n: "unat (round_up sz 16) \<le> 2 ^ 61" "16 dvd unat (round_up sz 16)"
    using round_up_lt [OF sz] sz by (simp_all add: round_up_dvd)
  from al show ?thesis
  proof (cases rule: arena_alloc_cases)
    case (1 b bs)
    then show ?thesis using bump_head(2) [OF ok 1(1) n 1(2)] by simp
  next
    case 2
    then show ?thesis by (rule alloc_block [OF ok n])
  qed
qed

lemma arena_try_grow_cases:
  assumes "arena_try_grow a (Some p) old new = Some (p', a')"
  obtains b bs where "a_blocks a = b # bs" and "p' = p" and "old \<le> new"
      and "fst p = b_id b" and "snd p + round_up old 16 = b_used b"
      and "b_used b + (round_up new 16 - round_up old 16) \<le> b_cap b"
      and "a' = a\<lparr>a_blocks := b\<lparr>b_used := b_used b + (round_up new 16 - round_up old 16)\<rparr> # bs\<rparr>"
  using assms by (auto simp: arena_try_grow_def Let_def not_less split: list.splits if_splits)

text \<open>
  Growing the allocation at the tail grants the bytes between its rounded old and new size.
\<close>

lemma arena_try_grow_grants:
  assumes ok: "arena_ok a" and sz: "unat new \<le> 2 ^ 61"
    and live: "in_block a p (unat (round_up old 16))"
    and gr: "arena_try_grow a (Some p) old new = Some (p', a')"
  defines "d \<equiv> round_up new 16 - round_up old 16"
  shows "p' = p \<and> old \<le> new"
    and "unat (round_up new 16) = unat (round_up old 16) + unat d"
    and "grants a (fst p, snd p + round_up old 16) (unat d) a'"
    and "unat (snd p + round_up old 16) = unat (snd p) + unat (round_up old 16)"
    and "in_block a' p (unat (round_up new 16))"
proof -
  obtain b bs where bs: "a_blocks a = b # bs" and p': "p' = p" and le: "old \<le> new"
    and idp: "fst p = b_id b" and tail: "snd p + round_up old 16 = b_used b"
    and fits: "b_used b + d \<le> b_cap b"
    and a': "a' = a\<lparr>a_blocks := b\<lparr>b_used := b_used b + d\<rparr> # bs\<rparr>"
    using gr unfolding d_def by (cases rule: arena_try_grow_cases)
  have old: "unat old \<le> 2 ^ 61" using le sz by (simp add: word_le_nat_alt)
  have mono: "unat (round_up old 16) \<le> unat (round_up new 16)"
    using le old sz by (simp add: unat_round_up word_le_nat_alt div_le_mono)
  then have dn: "unat d = unat (round_up new 16) - unat (round_up old 16)"
    by (simp add: d_def unat_sub word_le_nat_alt)
  with mono show split: "unat (round_up new 16) = unat (round_up old 16) + unat d"
    by simp
  have d: "unat d \<le> 2 ^ 61" "16 dvd unat d"
    using round_up_lt [OF sz] round_up_dvd [of old] round_up_dvd [of new] old sz
    by (simp_all add: dn)
  obtain c where "c \<in> set (a_blocks a)" "b_id c = b_id b"
    and room: "unat (snd p) + unat (round_up old 16) \<le> unat (b_used c)"
    using live idp by (auto simp: in_block_def)
  then have "c = b" using ok bs by (auto simp: arena_ok_def) (metis image_eqI)
  then show pos: "unat (snd p + round_up old 16) = unat (snd p) + unat (round_up old 16)"
    using room le_less_trans [OF _ unat_lt_2_64 [of "b_used b"]] by (intro unat_add_64) simp
  note bump = bump_head [OF ok bs d fits]
  then show "grants a (fst p, snd p + round_up old 16) (unat d) a'"
    by (simp add: a' idp tail)
  have "16 dvd unat (snd p)" using live by (simp add: in_block_def)
  moreover have "unat (b_used b + d) = unat (snd p) + unat (round_up new 16)"
    using bump(1) pos tail split by simp
  ultimately show "in_block a' p (unat (round_up new 16))"
    by (simp add: in_block_def a' idp)
  show "p' = p \<and> old \<le> new" using p' le by simp
qed

subsection \<open>Runs of the allocator\<close>

text \<open>
  The allocations a client has made, with the size it asked for last. A step is one call
  of \<open>teptris_arena_alloc\<close> (or of its inline copy) or one successful
  \<open>teptris_arena_try_grow\<close> of a live allocation with the size it has.
\<close>

inductive arena_reach :: "arena \<Rightarrow> (ptr \<times> size_t) list \<Rightarrow> bool" where
  init: "avail \<le> 2 ^ 62 \<Longrightarrow> arena_reach (arena_init avail) []"
| alloc: "arena_reach a rs \<Longrightarrow> unat sz \<le> 2 ^ 61 \<Longrightarrow> arena_alloc a sz = Some (p, a') \<Longrightarrow>
    arena_reach a' ((p, sz) # rs)"
| grow: "arena_reach a (xs @ (p, old) # ys) \<Longrightarrow> unat new \<le> 2 ^ 61 \<Longrightarrow>
    arena_try_grow a (Some p) old new = Some (p', a') \<Longrightarrow>
    arena_reach a' (xs @ (p', new) # ys)"

definition extent :: "ptr \<times> size_t \<Rightarrow> (nat \<times> nat) set" where
  "extent r = region (fst r) (unat (round_up (snd r) 16))"

definition separated :: "(ptr \<times> size_t) list \<Rightarrow> bool" where
  "separated rs = sorted_wrt (\<lambda>r s. extent r \<inter> extent s = {}) rs"

definition live_ok :: "arena \<Rightarrow> ptr \<times> size_t \<Rightarrow> bool" where
  "live_ok a r \<longleftrightarrow> unat (snd r) \<le> 2 ^ 61 \<and> in_block a (fst r) (unat (round_up (snd r) 16))"

lemma live_ok_extent: "live_ok a r \<Longrightarrow> extent r \<subseteq> allocated a"
  by (simp add: live_ok_def extent_def in_block_region)

lemma separated_grow:
  assumes sep: "separated (xs @ r # ys)" and live: "\<forall>s \<in> set (xs @ r # ys). extent s \<subseteq> A"
    and new: "extent r' = extent r \<union> N" "N \<inter> A = {}"
  shows "separated (xs @ r' # ys)"
proof -
  have "extent s \<inter> N = {}" if "s \<in> set xs \<union> set ys" for s
    using live new(2) that by fastforce
  then show ?thesis
    using sep by (auto simp: separated_def sorted_wrt_append new(1) Int_Un_distrib Int_Un_distrib2
        Int_commute)
qed

lemma arena_reach_inv:
  "arena_reach a rs \<Longrightarrow> arena_ok a \<and> separated rs \<and> (\<forall>r \<in> set rs. live_ok a r)"
proof (induction rule: arena_reach.induct)
  case (init avail)
  then show ?case by (simp add: arena_ok_init separated_def)
next
  case (alloc a rs sz p a')
  then have gr: "grants a p (unat (round_up sz 16)) a'"
    by (intro arena_alloc_grants) simp_all
  have "extent (p, sz) \<inter> extent r = {}" if "r \<in> set rs" for r
    using alloc.IH that gr live_ok_extent [of a r] by (fastforce simp: extent_def grants_def)
  then show ?case
    using alloc.IH alloc.hyps(2) gr
    by (simp add: separated_def live_ok_def grants_in_block [OF gr]) (simp add: grants_def)
next
  case (grow a xs p old ys new p' a')
  have ok: "arena_ok a" and sep: "separated (xs @ (p, old) # ys)"
    and live: "\<forall>r \<in> set (xs @ (p, old) # ys). live_ok a r"
    using grow.IH by auto
  then have "in_block a p (unat (round_up old 16))" by (simp add: live_ok_def)
  note spec = arena_try_grow_grants [OF ok grow.hyps(2) this grow.hyps(3)]
  have "separated (xs @ (p, new) # ys)"
  proof (rule separated_grow [OF sep])
    show "\<forall>s \<in> set (xs @ (p, old) # ys). extent s \<subseteq> allocated a"
      using live live_ok_extent by blast
    show "extent (p, new) = extent (p, old)
        \<union> region (fst p, snd p + round_up old 16) (unat (round_up new 16 - round_up old 16))"
      using spec(2,4) by (auto simp: extent_def region_def)
    show "region (fst p, snd p + round_up old 16) (unat (round_up new 16 - round_up old 16))
        \<inter> allocated a = {}"
      using spec(3) by (simp add: grants_def)
  qed
  moreover have "\<forall>r \<in> set (xs @ (p, new) # ys). live_ok a' r"
    using live spec(5) grow.hyps(2) by (simp add: live_ok_def grants_in_block [OF spec(3)])
  ultimately show ?case using spec(1,3) unfolding grants_def by blast
qed

end
