(* ===== verification/Dom.thy ===== *)
theory Dom
  imports Arena
begin

text \<open>
  The document model of \<open>dom/dom.h\<close> and \<open>dom/dom.c\<close>: nodes, tables with their linear-probing
  hash index, arrays, and the operations the parser and the builder construct documents
  with. Nodes live in the document's arena; the model keeps them in one list and a node
  pointer is a position of that list, so that two references to one node alias as they
  do in C. Every allocation goes through the arena, with the sizes of the C structures
  on a 64-bit target, so that each \<open>TEPTRIS_ERR_ALLOC\<close> return of the source is a branch of
  the model. The loops over the hash index get as much fuel as the index has slots; a
  result \<open>None\<close> means that the C loop would not stop, and the lemmas show that it does.
\<close>

subsection \<open>Data\<close>

datatype kind =
    K_STRING
  | K_INTEGER
  | K_FLOAT
  | K_BOOLEAN
  | K_DATETIME_OFFSET
  | K_DATETIME_LOCAL
  | K_DATE_LOCAL
  | K_TIME_LOCAL
  | K_ARRAY
  | K_TABLE

text \<open>
  A view is a pointer with a length. What it points at is either the parse input (then the
  offset is known) or memory of its own (an arena copy); the bytes are those it shows.
\<close>

datatype view = View (v_loc: "nat option") (v_bytes: bytes)

record datetime =
  dt_year :: u32
  dt_month :: byte
  dt_day :: byte
  dt_hour :: byte
  dt_minute :: byte
  dt_second :: byte
  dt_nanosecond :: u32
  dt_offset_seconds :: u32

definition dt_zero :: datetime where
  "dt_zero = \<lparr>dt_year = 0, dt_month = 0, dt_day = 0, dt_hour = 0, dt_minute = 0,
     dt_second = 0, dt_nanosecond = 0, dt_offset_seconds = 0\<rparr>"

type_synonym addr = nat

record entry =
  e_key :: view
  e_value :: addr
  e_hash :: u64

text \<open>
  \<open>t_entries\<close> is \<open>entries[0..len)\<close>, \<open>t_index\<close> is \<open>index[0..idx_cap)\<close>; the pointers record where
  the arrays are in the arena, which decides whether they can grow in place.
\<close>

record table =
  t_entries :: "entry list"
  t_cap :: nat
  t_ptr :: "ptr option"
  t_index :: "u32 list"

record array =
  ar_items :: "addr list"
  ar_cap :: nat
  ar_ptr :: "ptr option"

datatype payload =
    P_Str bytes
  | P_Int u64
  | P_Float u64
  | P_Bool bool
  | P_Dt datetime
  | P_Table table
  | P_Array array

record node =
  n_kind :: kind
  n_flags :: byte
  n_as :: payload

abbreviation (input) TBL_EXPLICIT :: byte where "TBL_EXPLICIT \<equiv> 0x01"
abbreviation (input) TBL_IMPLICIT :: byte where "TBL_IMPLICIT \<equiv> 0x02"
abbreviation (input) TBL_DOTTED :: byte where "TBL_DOTTED \<equiv> 0x04"
abbreviation (input) TBL_INLINE :: byte where "TBL_INLINE \<equiv> 0x08"
abbreviation (input) ARR_AOT :: byte where "ARR_AOT \<equiv> 0x10"

definition has_flag :: "node \<Rightarrow> byte \<Rightarrow> bool" where
  "has_flag n f \<longleftrightarrow> n_flags n AND f \<noteq> 0"

record perror =
  pe_status :: status
  pe_line :: nat
  pe_column :: nat
  pe_message :: bytes
  pe_start :: nat
  pe_end :: nat

record document =
  d_arena :: arena
  d_nodes :: "node list"
  d_root :: "addr option"
  d_err :: perror
  d_max_depth :: u32

text \<open>Sizes of the C structures on an LP64 target.\<close>

abbreviation (input) SIZEOF_NODE :: size_t where "SIZEOF_NODE \<equiv> 48"
abbreviation (input) SIZEOF_ENTRY :: nat where "SIZEOF_ENTRY \<equiv> 32"
abbreviation (input) SIZEOF_INDEX :: nat where "SIZEOF_INDEX \<equiv> 4"
abbreviation (input) SIZEOF_PTR :: nat where "SIZEOF_PTR \<equiv> 8"

definition empty_table :: table where
  "empty_table = \<lparr>t_entries = [], t_cap = 0, t_ptr = None, t_index = []\<rparr>"

definition empty_array :: array where
  "empty_array = \<lparr>ar_items = [], ar_cap = 0, ar_ptr = None\<rparr>"

text \<open>A zeroed node of each kind: the arm of the union that the kind selects, all bits 0.\<close>

fun zero_payload :: "kind \<Rightarrow> payload" where
  "zero_payload K_STRING = P_Str []"
| "zero_payload K_INTEGER = P_Int 0"
| "zero_payload K_FLOAT = P_Float 0"
| "zero_payload K_BOOLEAN = P_Bool False"
| "zero_payload K_ARRAY = P_Array empty_array"
| "zero_payload K_TABLE = P_Table empty_table"
| "zero_payload _ = P_Dt dt_zero"

fun payload_table :: "payload \<Rightarrow> table" where
  "payload_table (P_Table t) = t"
| "payload_table _ = empty_table"

fun payload_array :: "payload \<Rightarrow> array" where
  "payload_array (P_Array a) = a"
| "payload_array _ = empty_array"

abbreviation (input) the_node :: "document \<Rightarrow> addr \<Rightarrow> node" where
  "the_node doc n \<equiv> d_nodes doc ! n"

abbreviation (input) the_table :: "document \<Rightarrow> addr \<Rightarrow> table" where
  "the_table doc n \<equiv> payload_table (n_as (d_nodes doc ! n))"

abbreviation (input) the_array :: "document \<Rightarrow> addr \<Rightarrow> array" where
  "the_array doc n \<equiv> payload_array (n_as (d_nodes doc ! n))"

definition set_payload :: "document \<Rightarrow> addr \<Rightarrow> payload \<Rightarrow> document" where
  "set_payload doc n v = doc\<lparr>d_nodes := (d_nodes doc)[n := (d_nodes doc ! n)\<lparr>n_as := v\<rparr>]\<rparr>"

definition set_flags :: "document \<Rightarrow> addr \<Rightarrow> byte \<Rightarrow> document" where
  "set_flags doc n f = doc\<lparr>d_nodes := (d_nodes doc)[n := (d_nodes doc ! n)\<lparr>n_flags := f\<rparr>]\<rparr>"

subsection \<open>Constructors\<close>

definition key_hash :: "bytes \<Rightarrow> u64" where
  "key_hash key = foldl (\<lambda>h c. (h XOR ucast c) * 1099511628211) 1469598103934665603 key"

definition dom_new_node :: "document \<Rightarrow> kind \<Rightarrow> (addr \<times> document) option" where
  "dom_new_node doc k =
    (case arena_fast_alloc (d_arena doc) SIZEOF_NODE of
       None \<Rightarrow> None
     | Some (p, a) \<Rightarrow>
         Some (length (d_nodes doc),
               doc\<lparr>d_arena := a,
                   d_nodes := d_nodes doc @ [\<lparr>n_kind = k, n_flags = 0, n_as = zero_payload k\<rparr>]\<rparr>))"

definition dom_new_table :: "document \<Rightarrow> byte \<Rightarrow> (addr \<times> document) option" where
  "dom_new_table doc fl =
    (case dom_new_node doc K_TABLE of
       None \<Rightarrow> None
     | Some (n, doc') \<Rightarrow> Some (n, set_flags doc' n fl))"

definition dom_new_array :: "document \<Rightarrow> byte \<Rightarrow> (addr \<times> document) option" where
  "dom_new_array doc fl =
    (case dom_new_node doc K_ARRAY of
       None \<Rightarrow> None
     | Some (n, doc') \<Rightarrow> Some (n, set_flags doc' n fl))"

subsection \<open>The hash index\<close>

text \<open>
  The three probing loops of the source have one shape: from a slot, step by one modulo the
  capacity until an exit condition holds.
\<close>

fun walk :: "nat \<Rightarrow> nat \<Rightarrow> (nat \<Rightarrow> bool) \<Rightarrow> nat \<Rightarrow> nat option" where
  "walk 0 msk stop slot = None"
| "walk (Suc n) msk stop slot =
    (if stop slot then Some slot else walk n msk stop ((slot + 1) AND msk))"

definition index_insert :: "u32 list \<Rightarrow> nat \<Rightarrow> u64 \<Rightarrow> u32 list option" where
  "index_insert idx entry_idx h =
    (let msk = length idx - 1
     in case walk (length idx) msk (\<lambda>s. idx ! s = 0) (unat h AND msk) of
          None \<Rightarrow> None
        | Some slot \<Rightarrow> Some (idx[slot := of_nat entry_idx + 1]))"

fun index_fill :: "u32 list \<Rightarrow> nat \<Rightarrow> entry list \<Rightarrow> u32 list option" where
  "index_fill idx i [] = Some idx"
| "index_fill idx i (e # es) =
    (case index_insert idx i (e_hash e) of
       None \<Rightarrow> None
     | Some idx' \<Rightarrow> index_fill idx' (Suc i) es)"

definition index_rebuild :: "arena \<Rightarrow> table \<Rightarrow> nat \<Rightarrow> (status \<times> arena \<times> table) option" where
  "index_rebuild a t new_cap =
    (case arena_alloc a (of_nat (new_cap * SIZEOF_INDEX)) of
       None \<Rightarrow> Some (ERR_ALLOC, a, t)
     | Some (p, a') \<Rightarrow>
         (case index_fill (replicate new_cap 0) 0 (t_entries t) of
            None \<Rightarrow> None
          | Some idx \<Rightarrow> Some (ST_OK, a', t\<lparr>t_index := idx\<rparr>)))"

definition slot_entry :: "table \<Rightarrow> nat \<Rightarrow> entry" where
  "slot_entry t slot = t_entries t ! unat (t_index t ! slot - 1)"

text \<open>\<open>teptris_dom_table_find_h\<close>, for a table node: compares keys only.\<close>

definition table_find_h :: "table \<Rightarrow> bytes \<Rightarrow> (entry option \<times> u64) option" where
  "table_find_h t key =
    (let h = key_hash key; idx = t_index t; msk = length idx - 1
     in if idx = [] then Some (None, h)
        else case walk (length idx) msk
                    (\<lambda>s. idx ! s = 0 \<or> v_bytes (e_key (slot_entry t s)) = key)
                    (unat h AND msk) of
               None \<Rightarrow> None
             | Some s \<Rightarrow> Some (if idx ! s = 0 then None else Some (slot_entry t s), h))"

text \<open>\<open>teptris_dom_table_probe_slot\<close>: compares the cached hash first, and reports the slot.\<close>

definition table_probe_slot ::
    "table \<Rightarrow> u64 \<Rightarrow> bytes \<Rightarrow> (entry option \<times> nat option) option" where
  "table_probe_slot t h key =
    (let idx = t_index t; msk = length idx - 1
     in if idx = [] then Some (None, None)
        else case walk (length idx) msk
                    (\<lambda>s. idx ! s = 0 \<or> (e_hash (slot_entry t s) = h
                                         \<and> v_bytes (e_key (slot_entry t s)) = key))
                    (unat h AND msk) of
               None \<Rightarrow> None
             | Some s \<Rightarrow>
                 Some (if idx ! s = 0 then (None, Some s) else (Some (slot_entry t s), None)))"

subsection \<open>Insertion\<close>

text \<open>Growing the entry array: in place when it is the arena's tail, by copying otherwise.\<close>

definition table_reserve :: "arena \<Rightarrow> table \<Rightarrow> status \<times> arena \<times> table" where
  "table_reserve a t =
    (if length (t_entries t) = t_cap t
     then (let ncap = (if t_cap t \<noteq> 0 then t_cap t * 2 else 8)
           in case arena_try_grow a (t_ptr t) (of_nat (t_cap t * SIZEOF_ENTRY))
                     (of_nat (ncap * SIZEOF_ENTRY)) of
                Some (p, a') \<Rightarrow> (ST_OK, a', t\<lparr>t_cap := ncap\<rparr>)
              | None \<Rightarrow>
                  (case arena_alloc a (of_nat (ncap * SIZEOF_ENTRY)) of
                     None \<Rightarrow> (ERR_ALLOC, a, t)
                   | Some (p, a') \<Rightarrow> (ST_OK, a', t\<lparr>t_ptr := Some p, t_cap := ncap\<rparr>)))
     else (ST_OK, a, t))"

definition table_append ::
    "table \<Rightarrow> view \<Rightarrow> u64 \<Rightarrow> addr \<Rightarrow> nat option \<Rightarrow> table option" where
  "table_append t key hash v slot =
    (let i = length (t_entries t);
         t' = t\<lparr>t_entries := t_entries t @ [\<lparr>e_key = key, e_value = v, e_hash = hash\<rparr>]\<rparr>
     in case slot of
          Some s \<Rightarrow> Some (t'\<lparr>t_index := (t_index t)[s := of_nat i + 1]\<rparr>)
        | None \<Rightarrow>
            (case index_insert (t_index t) i hash of
               None \<Rightarrow> None
             | Some idx \<Rightarrow> Some (t'\<lparr>t_index := idx\<rparr>)))"

definition table_insert_slot ::
    "arena \<Rightarrow> table \<Rightarrow> view \<Rightarrow> u64 \<Rightarrow> addr \<Rightarrow> nat option \<Rightarrow> (status \<times> arena \<times> table) option" where
  "table_insert_slot a t key hash v slot =
    (let full = (length (t_entries t) + 1) * 10 \<ge> length (t_index t) * 7;
         ncap = (if t_index t \<noteq> [] then length (t_index t) * 2 else 16);
         slot' = (if full then None else slot)
     in case (if full then index_rebuild a t ncap else Some (ST_OK, a, t)) of
          None \<Rightarrow> None
        | Some (st, a1, t1) \<Rightarrow>
            (if st \<noteq> ST_OK then Some (st, a1, t1)
             else case table_reserve a1 t1 of (st2, a2, t2) \<Rightarrow>
               (if st2 \<noteq> ST_OK then Some (st2, a2, t2)
                else case table_append t2 key hash v slot' of
                       None \<Rightarrow> None
                     | Some t3 \<Rightarrow> Some (ST_OK, a2, t3))))"

definition table_insert_h ::
    "arena \<Rightarrow> table \<Rightarrow> view \<Rightarrow> u64 \<Rightarrow> addr \<Rightarrow> (status \<times> arena \<times> table) option" where
  "table_insert_h a t key hash v = table_insert_slot a t key hash v None"

definition table_insert ::
    "arena \<Rightarrow> table \<Rightarrow> view \<Rightarrow> addr \<Rightarrow> (status \<times> arena \<times> table) option" where
  "table_insert a t key v = table_insert_h a t key (key_hash (v_bytes key)) v"

subsection \<open>The operations on a document\<close>

definition dom_table_find :: "document \<Rightarrow> addr \<Rightarrow> bytes \<Rightarrow> entry option option" where
  "dom_table_find doc t key =
    (if n_kind (the_node doc t) \<noteq> K_TABLE then Some None
     else map_option fst (table_find_h (the_table doc t) key))"

definition dom_table_probe_slot ::
    "document \<Rightarrow> addr \<Rightarrow> u64 \<Rightarrow> bytes \<Rightarrow> (entry option \<times> nat option) option" where
  "dom_table_probe_slot doc t h key =
    (if n_kind (the_node doc t) \<noteq> K_TABLE then Some (None, None)
     else table_probe_slot (the_table doc t) h key)"

definition dom_table_insert_slot ::
    "document \<Rightarrow> addr \<Rightarrow> view \<Rightarrow> u64 \<Rightarrow> addr \<Rightarrow> nat option \<Rightarrow> (status \<times> document) option" where
  "dom_table_insert_slot doc t key hash v slot =
    (case table_insert_slot (d_arena doc) (the_table doc t) key hash v slot of
       None \<Rightarrow> None
     | Some (st, a, tb) \<Rightarrow> Some (st, set_payload (doc\<lparr>d_arena := a\<rparr>) t (P_Table tb)))"

definition dom_array_push :: "document \<Rightarrow> addr \<Rightarrow> addr \<Rightarrow> status \<times> document" where
  "dom_array_push doc n v =
    (let ar = the_array doc n;
         push = (\<lambda>ar'. P_Array (ar'\<lparr>ar_items := ar_items ar' @ [v]\<rparr>))
     in if length (ar_items ar) = ar_cap ar
        then (let ncap = (if ar_cap ar \<noteq> 0 then ar_cap ar * 2 else 8)
              in case arena_try_grow (d_arena doc) (ar_ptr ar) (of_nat (ar_cap ar * SIZEOF_PTR))
                        (of_nat (ncap * SIZEOF_PTR)) of
                   Some (p, a') \<Rightarrow>
                     (ST_OK, set_payload (doc\<lparr>d_arena := a'\<rparr>) n (push (ar\<lparr>ar_cap := ncap\<rparr>)))
                 | None \<Rightarrow>
                     (case arena_alloc (d_arena doc) (of_nat (ncap * SIZEOF_PTR)) of
                        None \<Rightarrow> (ERR_ALLOC, doc)
                      | Some (p, a') \<Rightarrow>
                          (ST_OK, set_payload (doc\<lparr>d_arena := a'\<rparr>) n
                                    (push (ar\<lparr>ar_ptr := Some p, ar_cap := ncap\<rparr>)))))
        else (ST_OK, set_payload doc n (push ar)))"

end
