(* ===== verification/Chartype.thy ===== *)
theory Chartype
  imports Prelude
begin

text \<open>
  The character classes of \<open>common/chartype.h\<close> and \<open>common/chartype.c\<close>: one table of
  flag bytes, indexed by the byte, and the four predicates that test a flag. The table
  is written by ranges of the byte where the C file lists its designated initialisers
  one by one; bytes that are not listed have no flag.
\<close>

abbreviation (input) CT_BAREKEY :: byte where "CT_BAREKEY \<equiv> 0x01"
abbreviation (input) CT_WS :: byte where "CT_WS \<equiv> 0x02"
abbreviation (input) CT_DEC :: byte where "CT_DEC \<equiv> 0x04"
abbreviation (input) CT_HEX :: byte where "CT_HEX \<equiv> 0x08"
abbreviation (input) CT_ALPHA :: byte where "CT_ALPHA \<equiv> 0x10"

definition chartype_table :: "byte \<Rightarrow> byte" where
  "chartype_table c =
    (if 0x30 \<le> c \<and> c \<le> 0x39 then CT_BAREKEY OR CT_DEC OR CT_HEX
     else if 0x61 \<le> c \<and> c \<le> 0x66 then CT_BAREKEY OR CT_HEX OR CT_ALPHA
     else if 0x67 \<le> c \<and> c \<le> 0x7A then CT_BAREKEY OR CT_ALPHA
     else if 0x41 \<le> c \<and> c \<le> 0x46 then CT_BAREKEY OR CT_HEX OR CT_ALPHA
     else if 0x47 \<le> c \<and> c \<le> 0x5A then CT_BAREKEY OR CT_ALPHA
     else if c = UNDERSCORE \<or> c = MINUS then CT_BAREKEY
     else if c = SPACE \<or> c = TAB then CT_WS
     else 0)"

definition ct_has :: "byte \<Rightarrow> byte \<Rightarrow> bool" where
  "ct_has c fl \<longleftrightarrow> (chartype_table c AND fl) \<noteq> 0"

definition is_barekey :: "byte \<Rightarrow> bool" where
  "is_barekey c = ct_has c CT_BAREKEY"

definition is_ws :: "byte \<Rightarrow> bool" where
  "is_ws c = ct_has c CT_WS"

definition is_dec :: "byte \<Rightarrow> bool" where
  "is_dec c = ct_has c CT_DEC"

definition is_hex :: "byte \<Rightarrow> bool" where
  "is_hex c = ct_has c CT_HEX"

text \<open>What the flags mean, byte by byte: these are the equations the components use.\<close>

lemma is_dec_iff: "is_dec c \<longleftrightarrow> 0x30 \<le> c \<and> c \<le> 0x39"
  by (simp add: is_dec_def ct_has_def chartype_table_def)

lemma is_hex_iff:
  "is_hex c \<longleftrightarrow> (0x30 \<le> c \<and> c \<le> 0x39) \<or> (0x61 \<le> c \<and> c \<le> 0x66) \<or> (0x41 \<le> c \<and> c \<le> 0x46)"
  unfolding is_hex_def ct_has_def chartype_table_def
  by (simp; unat_arith; simp)

lemma is_ws_iff: "is_ws c \<longleftrightarrow> c = SPACE \<or> c = TAB"
  by (auto simp add: is_ws_def ct_has_def chartype_table_def)

lemma is_barekey_iff:
  "is_barekey c \<longleftrightarrow> (0x30 \<le> c \<and> c \<le> 0x39) \<or> (0x61 \<le> c \<and> c \<le> 0x7A)
      \<or> (0x41 \<le> c \<and> c \<le> 0x5A) \<or> c = UNDERSCORE \<or> c = MINUS"
  unfolding is_barekey_def ct_has_def chartype_table_def
  by (simp, auto simp: word_le_nat_alt)

lemma is_dec_barekey: "is_dec c \<Longrightarrow> is_barekey c"
  by (simp add: is_dec_iff is_barekey_iff)

end
