(* ===== verification/Utf8.thy ===== *)
theory Utf8
  imports Prelude
begin

text \<open>
  The UTF-8 layer of the parser: \<open>utf8_invalid_at\<close> of \<open>parse/parser.c\<close>, with its
  eight-bytes-at-a-time ASCII skip, and \<open>utf8_put\<close> of \<open>parse/scalars.c\<close>, which writes the
  code points of escapes. The writer goes through \<open>PUTCH\<close>, whose output is either only
  counted (a null buffer) or stored; storing past the end of the buffer, which the C code
  would do silently, is a result of its own here. The theorems relate the two: the
  validator accepts exactly the sequences that the writer produces for Unicode scalar
  values.
\<close>

subsection \<open>The output of the scanners\<close>

datatype sink =
    Count nat
  | Buf bytes nat
  | Overrun

fun putch :: "byte \<Rightarrow> sink \<Rightarrow> sink" where
  "putch ch (Count n) = Count (Suc n)"
| "putch ch (Buf out n) = (if n < length out then Buf (out[n := ch]) (Suc n) else Overrun)"
| "putch ch Overrun = Overrun"

fun put_all :: "bytes \<Rightarrow> sink \<Rightarrow> sink" where
  "put_all [] s = s"
| "put_all (c # cs) s = put_all cs (putch c s)"

definition utf8_put :: "u32 \<Rightarrow> sink \<Rightarrow> sink" where
  "utf8_put cp s =
    (if cp < 0x80 then putch (ucast cp) s
     else if cp < 0x800 then
       putch (ucast (0x80 OR (cp AND 0x3F))) (putch (ucast (0xC0 OR drop_bit 6 cp)) s)
     else if cp < 0x10000 then
       putch (ucast (0x80 OR (cp AND 0x3F)))
         (putch (ucast (0x80 OR (drop_bit 6 cp AND 0x3F)))
           (putch (ucast (0xE0 OR drop_bit 12 cp)) s))
     else
       putch (ucast (0x80 OR (cp AND 0x3F)))
         (putch (ucast (0x80 OR (drop_bit 6 cp AND 0x3F)))
           (putch (ucast (0x80 OR (drop_bit 12 cp AND 0x3F)))
             (putch (ucast (0xF0 OR drop_bit 18 cp)) s))))"

subsection \<open>The validator\<close>

text \<open>\<open>memcpy(&w, data + i, 8)\<close> on a little-endian machine.\<close>

fun load64 :: "bytes \<Rightarrow> u64" where
  "load64 [] = 0"
| "load64 (b # bs) = ucast b OR push_bit 8 (load64 bs)"

function swar_skip :: "bytes \<Rightarrow> bytes" where
  "swar_skip r =
    (if 8 \<le> length r \<and> load64 (take 8 r) AND 0x8080808080808080 = 0
     then swar_skip (drop 8 r) else r)"
  by pat_completeness auto
termination by (relation "measure length") auto

declare swar_skip.simps [simp del]

lemma swar_skip_length: "length (swar_skip r) \<le> length r"
proof (induction r rule: swar_skip.induct)
  case (1 r)
  then show ?case by (subst swar_skip.simps) auto
qed

definition utf8_lead :: "byte \<Rightarrow> (nat \<times> u32) option" where
  "utf8_lead c =
    (if c AND 0xE0 = 0xC0 then Some (1, ucast (c AND 0x1F))
     else if c AND 0xF0 = 0xE0 then Some (2, ucast (c AND 0x0F))
     else if c AND 0xF8 = 0xF0 then Some (3, ucast (c AND 0x07))
     else None)"

fun utf8_cont :: "nat \<Rightarrow> u32 \<Rightarrow> bytes \<Rightarrow> u32 option" where
  "utf8_cont 0 cp r = Some cp"
| "utf8_cont (Suc k) cp (cc # r) =
    (if cc AND 0xC0 \<noteq> 0x80 then None
     else utf8_cont k (push_bit 6 cp OR (ucast cc AND 0x3F)) r)"
| "utf8_cont (Suc k) cp [] = None"

lemma utf8_cont_code [code]:
  "utf8_cont n cp r =
    (if n = 0 then Some cp
     else case r of
            [] \<Rightarrow> None
          | cc # r' \<Rightarrow>
              (if cc AND 0xC0 \<noteq> 0x80 then None
               else utf8_cont (n - 1) (push_bit 6 cp OR (ucast cc AND 0x3F)) r'))"
  by (cases n; cases r) auto

fun utf8_min :: "nat \<Rightarrow> u32" where
  "utf8_min need = (if need = 1 then 0x80 else if need = 2 then 0x800 else 0x10000)"

text \<open>One multibyte sequence at the front: the bytes after it, or that it is invalid.\<close>

definition utf8_multi :: "byte \<Rightarrow> bytes \<Rightarrow> bytes option" where
  "utf8_multi c cs =
    (case utf8_lead c of
       None \<Rightarrow> None
     | Some (need, cp0) \<Rightarrow>
         (if need \<ge> Suc (length cs) then None
          else case utf8_cont need cp0 cs of
                 None \<Rightarrow> None
               | Some cp \<Rightarrow>
                   (if cp < utf8_min need \<or> (0xD800 \<le> cp \<and> cp \<le> 0xDFFF) \<or> 0x10FFFF < cp
                    then None else Some (drop need cs))))"

lemma utf8_multi_length: "utf8_multi c cs = Some r \<Longrightarrow> length r \<le> length cs"
  by (auto simp: utf8_multi_def split: option.splits if_splits)

text \<open>What is left from the first invalid byte on; nothing when the bytes are valid.\<close>

function utf8_stop :: "bytes \<Rightarrow> bytes" where
  "utf8_stop r0 =
    (case swar_skip r0 of
       [] \<Rightarrow> []
     | c # cs \<Rightarrow>
         (if c < 0x80 then utf8_stop cs
          else case utf8_multi c cs of
                 None \<Rightarrow> c # cs
               | Some r \<Rightarrow> utf8_stop r))"
  by pat_completeness auto

termination
proof (relation "measure length", goal_cases)
  case (2 r0 c cs)
  then show ?case using swar_skip_length [of r0] by simp
next
  case (3 r0 c cs r)
  then show ?case using swar_skip_length [of r0] utf8_multi_length [of c cs r] by simp
qed simp

declare utf8_stop.simps [simp del]

definition utf8_invalid_at :: "bytes \<Rightarrow> nat" where
  "utf8_invalid_at data = length data - length (utf8_stop data)"

subsection \<open>Sinks\<close>

lemma put_all_append: "put_all (xs @ ys) s = put_all ys (put_all xs s)"
  by (induction xs arbitrary: s) auto

lemma put_all_Count: "put_all bs (Count n) = Count (n + length bs)"
  by (induction bs arbitrary: n) auto

lemma put_all_Overrun: "put_all bs Overrun = Overrun"
  by (induction bs) auto

lemma put_all_Buf:
  "n + length bs \<le> length out \<Longrightarrow>
   put_all bs (Buf out n) = Buf (take n out @ bs @ drop (n + length bs) out) (n + length bs)"
proof (induction bs arbitrary: out n)
  case Nil
  then show ?case by simp
next
  case (Cons b bs)
  then have n: "n < length out" by simp
  have "take (Suc n) (out[n := b]) = take n out @ [b]"
    using n by (simp add: take_Suc_conv_app_nth)
  with Cons n show ?case by simp
qed

definition utf8_bytes :: "u32 \<Rightarrow> bytes" where
  "utf8_bytes cp =
    (if cp < 0x80 then [ucast cp]
     else if cp < 0x800 then [ucast (0xC0 OR drop_bit 6 cp), ucast (0x80 OR (cp AND 0x3F))]
     else if cp < 0x10000 then
       [ucast (0xE0 OR drop_bit 12 cp), ucast (0x80 OR (drop_bit 6 cp AND 0x3F)),
        ucast (0x80 OR (cp AND 0x3F))]
     else
       [ucast (0xF0 OR drop_bit 18 cp), ucast (0x80 OR (drop_bit 12 cp AND 0x3F)),
        ucast (0x80 OR (drop_bit 6 cp AND 0x3F)), ucast (0x80 OR (cp AND 0x3F))])"

lemma utf8_put_bytes: "utf8_put cp s = put_all (utf8_bytes cp) s"
  by (simp add: utf8_put_def utf8_bytes_def)

subsection \<open>The bit fields as numbers\<close>

lemma lead_masks:
  "(0xE0 :: byte) = NOT (mask 5)" "(0xF0 :: byte) = NOT (mask 4)"
  "(0xF8 :: byte) = NOT (mask 3)" "(0xC0 :: byte) = NOT (mask 6)"
  by code_simp+

lemma lead2_iff: "(c :: byte) AND 0xE0 = 0xC0 \<longleftrightarrow> unat c div 32 = 6"
  using unat_and_not_mask [OF lead_masks(1), of c] by (auto simp: word_unat_eq_iff)

lemma lead3_iff: "(c :: byte) AND 0xF0 = 0xE0 \<longleftrightarrow> unat c div 16 = 14"
  using unat_and_not_mask [OF lead_masks(2), of c] by (auto simp: word_unat_eq_iff)

lemma lead4_iff: "(c :: byte) AND 0xF8 = 0xF0 \<longleftrightarrow> unat c div 8 = 30"
  using unat_and_not_mask [OF lead_masks(3), of c] by (auto simp: word_unat_eq_iff)

lemma cont_iff: "(c :: byte) AND 0xC0 = 0x80 \<longleftrightarrow> unat c div 64 = 2"
  using unat_and_not_mask [OF lead_masks(4), of c] by (auto simp: word_unat_eq_iff)

lemma lead_fields:
  "unat ((c :: byte) AND 0x1F) = unat c mod 32" "unat (c AND 0x0F) = unat c mod 16"
  "unat (c AND 0x07) = unat c mod 8"
  using unat_and_mask [of c 5] unat_and_mask [of c 4] unat_and_mask [of c 3]
  by (simp_all add: mask_eq_exp_minus_1)

lemma unat_and_3F: "unat ((x :: u32) AND 0x3F) = unat x mod 64"
  using unat_and_mask [of x 6] by (simp add: mask_eq_exp_minus_1)

lemma cont_field:
  assumes "unat cp < 2 ^ 26"
  shows "unat (push_bit 6 cp OR (ucast (cc :: byte) AND 0x3F) :: u32) = 64 * unat cp + unat cc mod 64"
proof -
  have "unat (push_bit 6 cp) = 2 ^ 6 * unat cp"
    using assms by (simp add: push_bit_eq_mult unat_word_ariths mult.commute)
  moreover have "unat (ucast cc AND 0x3F :: u32) = unat cc mod 64"
    by (simp add: unat_and_3F unat_ucast_32)
  ultimately show ?thesis using unat_or_add [of "push_bit 6 cp" 6 "unat cp"] by simp
qed

lemma out_cont: "unat (ucast (0x80 OR ((x :: u32) AND 0x3F)) :: byte) = 128 + unat x mod 64"
proof -
  have "unat (0x80 OR (x AND 0x3F)) = 128 + unat x mod 64"
    using unat_or_add [of "0x80 :: u32" 7 1 "x AND 0x3F"]
    by (simp add: unat_and_3F trans_less_add1 order_less_trans [OF mod_less_divisor])
  then show ?thesis using mod_less_divisor [of 64 "unat x"] by (simp add: unat_ucast_8)
qed

lemma out_lead:
  "unat cp < 2 ^ 12 \<Longrightarrow> unat (ucast (0xC0 OR drop_bit 6 cp) :: byte) = 192 + unat cp div 64"
  "unat cp < 2 ^ 17 \<Longrightarrow> unat (ucast (0xE0 OR drop_bit 12 cp) :: byte) = 224 + unat cp div 4096"
  "unat cp < 2 ^ 22 \<Longrightarrow> unat (ucast (0xF0 OR drop_bit 18 cp) :: byte) = 240 + unat cp div 262144"
  for cp :: u32
  using unat_or_add [of "0xC0 :: u32" 6 3 "drop_bit 6 cp"]
    unat_or_add [of "0xE0 :: u32" 5 7 "drop_bit 12 cp"]
    unat_or_add [of "0xF0 :: u32" 4 15 "drop_bit 18 cp"]
  by (simp_all add: unat_drop unat_ucast_8)

lemma out_ascii: "cp < 0x80 \<Longrightarrow> unat (ucast (cp :: u32) :: byte) = unat cp"
  by (simp add: unat_ucast_8 word_less_nat_alt)

subsection \<open>The eight-byte skip\<close>

lemma load64_ascii:
  "length bs \<le> 8 \<Longrightarrow>
   load64 bs AND 0x8080808080808080 = 0 \<longleftrightarrow> (\<forall>j < length bs. \<not> bit (bs ! j) 7)"
proof -
  have bits: "bit (load64 bs) n \<longleftrightarrow> n div 8 < length bs \<and> bit (bs ! (n div 8)) (n mod 8)"
    if "n < 64" "length bs \<le> 8" for bs n
    using that
  proof (induction bs arbitrary: n)
    case Nil
    then show ?case by simp
  next
    case (Cons b bs)
    show ?case
    proof (cases "n < 8")
      case True
      then show ?thesis by (simp add: bit_simps)
    next
      case False
      then have "bit (load64 (b # bs)) n \<longleftrightarrow> bit (load64 bs) (n - 8)"
        using Cons.prems by (auto simp: bit_simps dest: bit_imp_le_length)
      moreover have "n div 8 = Suc ((n - 8) div 8)" "n mod 8 = (n - 8) mod 8"
        using False by (simp_all add: le_div_geq le_mod_geq)
      ultimately show ?thesis using Cons by simp
    qed
  qed
  assume len: "length bs \<le> 8"
  have m: "bit (0x8080808080808080 :: u64) n \<longleftrightarrow> n mod 8 = 7" if "n < 64" for n
  proof -
    have "\<forall>n \<in> set [0..<64]. bit (0x8080808080808080 :: u64) n \<longleftrightarrow> n mod 8 = 7"
      by code_simp
    then show ?thesis using that by simp
  qed
  have "load64 bs AND 0x8080808080808080 = 0 \<longleftrightarrow>
      (\<forall>n < 64. \<not> (bit (load64 bs) n \<and> n mod 8 = 7))"
    using m by (auto simp: bit_eq_iff bit_simps)
  also have "\<dots> \<longleftrightarrow> (\<forall>j < length bs. \<not> bit (bs ! j) 7)"
  proof
    assume A: "\<forall>n < 64. \<not> (bit (load64 bs) n \<and> n mod 8 = 7)"
    show "\<forall>j < length bs. \<not> bit (bs ! j) 7"
    proof (intro allI impI)
      fix j assume "j < length bs"
      then have "8 * j + 7 < 64" "(8 * j + 7) mod 8 = 7" "(8 * j + 7) div 8 = j"
        using len by simp_all
      then show "\<not> bit (bs ! j) 7" using A bits [of "8 * j + 7" bs] len \<open>j < length bs\<close> by metis
    qed
  next
    assume "\<forall>j < length bs. \<not> bit (bs ! j) 7"
    then show "\<forall>n < 64. \<not> (bit (load64 bs) n \<and> n mod 8 = 7)" using bits len by auto
  qed
  finally show ?thesis .
qed

lemma not_bit_7: "\<not> bit (c :: byte) 7 \<longleftrightarrow> c < 0x80"
proof -
  have "bit (unat c) 7 \<longleftrightarrow> bit c 7" by (simp add: bit_unsigned_iff)
  moreover have "bit (unat c) 7 \<longleftrightarrow> odd (unat c div 2 ^ 7)" by (rule bit_iff_odd)
  ultimately have "bit c 7 \<longleftrightarrow> odd (unat c div 128)" by simp
  moreover have "unat c div 128 = (if 128 \<le> unat c then 1 else 0)"
    using unat_lt_2_8 [of c] by (auto intro!: div_nat_eqI)
  ultimately show ?thesis by (simp add: word_less_nat_alt)
qed

lemma swar_skip_ascii: "\<exists>as. r = as @ swar_skip r \<and> (\<forall>c \<in> set as. c < 0x80)"
proof (induction r rule: swar_skip.induct)
  case (1 r)
  show ?case
  proof (cases "8 \<le> length r \<and> load64 (take 8 r) AND 0x8080808080808080 = 0")
    case True
    then obtain as where "drop 8 r = as @ swar_skip (drop 8 r)" "\<forall>c \<in> set as. c < 0x80"
      using "1.IH" by auto
    moreover have "\<forall>c \<in> set (take 8 r). c < 0x80"
      using True load64_ascii [of "take 8 r"] by (auto simp: in_set_conv_nth not_bit_7)
    moreover have "swar_skip r = swar_skip (drop 8 r)" using True by (subst swar_skip.simps) simp
    ultimately show ?thesis
      by (intro exI [of _ "take 8 r @ as"]) (metis Un_iff append.assoc append_take_drop_id set_append)
  next
    case False
    then have "swar_skip r = r" by (subst swar_skip.simps) auto
    then show ?thesis by simp
  qed
qed

lemma utf8_stop_Nil: "utf8_stop [] = []"
  by (simp add: utf8_stop.simps [of "[]"] swar_skip.simps [of "[]"])

lemma utf8_stop_unskipped:
  "swar_skip (c # cs) = c # cs \<Longrightarrow>
   utf8_stop (c # cs) = (if c < 0x80 then utf8_stop cs
      else case utf8_multi c cs of None \<Rightarrow> c # cs | Some r \<Rightarrow> utf8_stop r)"
  by (subst utf8_stop.simps) simp

lemma utf8_stop_ascii:
  "\<forall>c \<in> set as. c < 0x80 \<Longrightarrow> utf8_stop (as @ r) = utf8_stop r"
proof (induction "length (as @ r)" arbitrary: as r rule: less_induct)
  case less
  show ?case
  proof (cases as)
    case Nil
    then show ?thesis by simp
  next
    case (Cons c as')
    define r0 where "r0 = as @ r"
    show ?thesis
    proof (cases "8 \<le> length r0 \<and> load64 (take 8 r0) AND 0x8080808080808080 = 0")
      case False
      then have "swar_skip r0 = r0" by (subst swar_skip.simps) auto
      then have "utf8_stop r0 = utf8_stop (as' @ r)"
        using less.prems by (simp add: r0_def Cons utf8_stop_unskipped)
      then show ?thesis using less Cons by (simp add: r0_def)
    next
      case True
      then have "swar_skip r0 = swar_skip (drop 8 r0)" by (subst swar_skip.simps) simp
      then have skip: "utf8_stop r0 = utf8_stop (drop 8 r0)"
        by (simp add: utf8_stop.simps [of r0] utf8_stop.simps [of "drop 8 r0"])
      have ascii: "\<forall>c \<in> set (take 8 r0). c < 0x80"
        using True load64_ascii [of "take 8 r0"] by (auto simp: in_set_conv_nth not_bit_7)
      show ?thesis
      proof (cases "length as \<le> 8")
        case True
        define k where "k = 8 - length as"
        have "take 8 r0 = as @ take k r" "drop 8 r0 = drop k r"
          using True by (simp_all add: r0_def k_def)
        moreover have "utf8_stop (take k r @ drop k r) = utf8_stop (drop k r)"
          using Cons ascii calculation by (intro less.hyps) auto
        ultimately show ?thesis using skip by (simp add: r0_def)
      next
        case False
        then have "drop 8 r0 = drop 8 as @ r" by (simp add: r0_def)
        moreover have "utf8_stop (drop 8 as @ r) = utf8_stop r"
          using False less.prems by (intro less.hyps) (auto dest: in_set_dropD)
        ultimately show ?thesis using skip by (simp add: r0_def)
      qed
    qed
  qed
qed

text \<open>The validator without the skip: one code point at a time.\<close>

lemma utf8_stop_Cons:
  "utf8_stop (c # cs) = (if c < 0x80 then utf8_stop cs
     else case utf8_multi c cs of None \<Rightarrow> c # cs | Some r \<Rightarrow> utf8_stop r)"
proof (cases "c < 0x80")
  case True
  then show ?thesis using utf8_stop_ascii [of "[c]" cs] by simp
next
  case False
  have "swar_skip (c # cs) = c # cs"
  proof -
    obtain as where as: "c # cs = as @ swar_skip (c # cs)" "\<forall>x \<in> set as. x < 0x80"
      using swar_skip_ascii by blast
    then have "as = []" using False by (cases as) auto
    with as show ?thesis by simp
  qed
  then show ?thesis by (rule utf8_stop_unskipped)
qed

lemma utf8_stop_suffix: "\<exists>ps. r = ps @ utf8_stop r"
proof (induction "length r" arbitrary: r rule: less_induct)
  case less
  show ?case
  proof (cases r)
    case Nil
    then show ?thesis by (simp add: utf8_stop_Nil)
  next
    case (Cons c cs)
    have multi: "\<exists>n. r' = drop n cs" if "utf8_multi c cs = Some r'" for r'
      using that by (auto simp: utf8_multi_def split: option.splits if_splits)
    show ?thesis
    proof (cases "c < 0x80 \<or> utf8_multi c cs \<noteq> None")
      case True
      then have "\<exists>n. utf8_stop r = utf8_stop (drop n cs)"
        using multi by (cases "c < 0x80") (auto simp: Cons utf8_stop_Cons intro: exI [of _ 0])
      then obtain n where n: "utf8_stop r = utf8_stop (drop n cs)" ..
      have "length (drop n cs) < length r" by (simp add: Cons)
      then obtain ps where "drop n cs = ps @ utf8_stop (drop n cs)"
        using less by blast
      then have "r = (c # take n cs @ ps) @ utf8_stop r"
        by (metis Cons append_Cons append_assoc append_take_drop_id n)
      then show ?thesis ..
    next
      case False
      then show ?thesis by (simp add: Cons utf8_stop_Cons)
    qed
  qed
qed

subsection \<open>The validator against the writer\<close>

definition scalar :: "u32 \<Rightarrow> bool" where
  "scalar cp \<longleftrightarrow> cp \<le> 0x10FFFF \<and> \<not> (0xD800 \<le> cp \<and> cp \<le> 0xDFFF)"

definition utf8_valid :: "bytes \<Rightarrow> bool" where
  "utf8_valid data \<longleftrightarrow> (\<exists>cps. list_all scalar cps \<and> data = concat (map utf8_bytes cps))"

text \<open>The bytes of a code point as numbers.\<close>

lemma utf8_bytes_2:
  assumes "128 \<le> unat cp" "unat cp < 2048"
  obtains a b where "utf8_bytes cp = [a, b]" "unat a = 192 + unat cp div 64"
    "unat b = 128 + unat cp mod 64"
  using assms by (intro that) (auto simp: utf8_bytes_def word_less_nat_alt out_lead out_cont)

lemma utf8_bytes_3:
  assumes "2048 \<le> unat cp" "unat cp < 65536"
  obtains a b c where "utf8_bytes cp = [a, b, c]" "unat a = 224 + unat cp div 4096"
    "unat b = 128 + unat cp div 64 mod 64" "unat c = 128 + unat cp mod 64"
  using assms
  by (intro that) (auto simp: utf8_bytes_def word_less_nat_alt out_lead out_cont unat_drop)

lemma utf8_bytes_4:
  assumes "65536 \<le> unat cp" "unat cp < 2 ^ 22"
  obtains a b c d where "utf8_bytes cp = [a, b, c, d]" "unat a = 240 + unat cp div 262144"
    "unat b = 128 + unat cp div 4096 mod 64" "unat c = 128 + unat cp div 64 mod 64"
    "unat d = 128 + unat cp mod 64"
  using assms
  by (intro that) (auto simp: utf8_bytes_def word_less_nat_alt out_lead out_cont unat_drop)

lemma utf8_lead_nat:
  "utf8_lead c =
    (if unat c div 32 = 6 then Some (1, ucast (c AND 0x1F))
     else if unat c div 16 = 14 then Some (2, ucast (c AND 0x0F))
     else if unat c div 8 = 30 then Some (3, ucast (c AND 0x07))
     else None)"
  by (simp add: utf8_lead_def lead2_iff lead3_iff lead4_iff)

lemma utf8_cont_step:
  "unat c div 64 = 2 \<Longrightarrow>
   utf8_cont (Suc k) cp (c # r) = utf8_cont k (push_bit 6 cp OR (ucast c AND 0x3F)) r"
  by (simp add: cont_iff)

lemma utf8_cont_2:
  assumes "unat b div 64 = 2" "unat c div 64 = 2"
  shows "utf8_cont 2 cp (b # c # r) =
    Some (push_bit 6 (push_bit 6 cp OR (ucast b AND 0x3F)) OR (ucast c AND 0x3F))"
proof -
  have "utf8_cont (Suc (Suc 0)) cp (b # c # r) =
    Some (push_bit 6 (push_bit 6 cp OR (ucast b AND 0x3F)) OR (ucast c AND 0x3F))"
    by (simp only: utf8_cont_step assms utf8_cont.simps(1))
  then show ?thesis by (simp only: numeral_2_eq_2)
qed

lemma utf8_cont_3:
  assumes "unat b div 64 = 2" "unat c div 64 = 2" "unat d div 64 = 2"
  shows "utf8_cont 3 cp (b # c # d # r) =
    Some (push_bit 6 (push_bit 6 (push_bit 6 cp OR (ucast b AND 0x3F)) OR (ucast c AND 0x3F))
      OR (ucast d AND 0x3F))"
proof -
  have "utf8_cont (Suc (Suc (Suc 0))) cp (b # c # d # r) =
    Some (push_bit 6 (push_bit 6 (push_bit 6 cp OR (ucast b AND 0x3F)) OR (ucast c AND 0x3F))
      OR (ucast d AND 0x3F))"
    by (simp only: utf8_cont_step assms utf8_cont.simps(1))
  then show ?thesis by (simp only: numeral_3_eq_3)
qed

lemma lead_numbers:
  "q < 32 \<Longrightarrow> (192 + q) div 32 = 6 \<and> (192 + q) mod 32 = q"
  "q < 16 \<Longrightarrow> (224 + q) div 32 = 7 \<and> (224 + q) div 16 = 14 \<and> (224 + q) mod 16 = q"
  "q < 8 \<Longrightarrow> (240 + q) div 32 = 7 \<and> (240 + q) div 16 = 15 \<and> (240 + q) div 8 = 30
     \<and> (240 + q) mod 8 = q"
  "q < 64 \<Longrightarrow> (128 + q) div 64 = 2 \<and> (128 + q) mod 64 = q"
  for q :: nat
  by (auto intro!: div_nat_eqI mod_nat_eqI)

lemma cont_number: "(128 + m mod 64) mod 64 = m mod (64 :: nat)" "(128 + m mod 64) div 64 = (2 :: nat)"
  using lead_numbers(4) [of "m mod 64"] by simp_all

lemma shift_numbers:
  "64 * (m div 4096) + m div 64 mod 64 = m div (64 :: nat)"
  "64 * (m div 262144) + m div 4096 mod 64 = m div (4096 :: nat)"
  using mult_div_mod_eq [of 64 "m div 64"] mult_div_mod_eq [of 64 "m div 4096"]
  by (simp_all flip: div_mult2_eq)

lemma utf8_multi_encode:
  assumes "scalar cp" and "128 \<le> unat cp"
  shows "\<exists>c cs. utf8_bytes cp = c # cs \<and> \<not> c < 0x80 \<and> utf8_multi c (cs @ r) = Some r"
proof -
  have top: "unat cp \<le> 1114111" "\<not> (55296 \<le> unat cp \<and> unat cp \<le> 57343)"
    using assms(1) by (simp_all add: scalar_def word_le_nat_alt)
  consider "unat cp < 2048" | "2048 \<le> unat cp" "unat cp < 65536" | "65536 \<le> unat cp" by linarith
  then show ?thesis
  proof cases
    case 1
    obtain a b where ab: "utf8_bytes cp = [a, b]" "unat a = 192 + unat cp div 64"
      "unat b = 128 + unat cp mod 64" using utf8_bytes_2 assms(2) 1 by blast
    define cp0 where "cp0 = (ucast (a AND 0x1F) :: u32)"
    have 0: "unat cp0 = unat cp div 64"
      using ab 1 lead_numbers(1) [of "unat cp div 64"]
      by (simp add: cp0_def unat_ucast_32 lead_fields)
    have "unat (push_bit 6 cp0 OR (ucast b AND 0x3F)) = unat cp"
      using ab 0 1 by (subst cont_field) (simp_all add: cont_number)
    then have "push_bit 6 cp0 OR (ucast b AND 0x3F) = cp" by (simp only: word_unat_eq_iff)
    moreover have "utf8_lead a = Some (1, cp0)"
      using ab 1 lead_numbers(1) [of "unat cp div 64"] by (simp add: utf8_lead_nat cp0_def)
    moreover have "unat b div 64 = 2" using ab by (simp add: cont_number)
    ultimately have "utf8_multi a ([b] @ r) = Some r"
      using top assms(2) utf8_cont_step [of b 0 cp0 r]
      by (simp add: utf8_multi_def word_less_nat_alt word_le_nat_alt)
    with ab show ?thesis by (simp add: word_less_nat_alt)
  next
    case 2
    obtain a b c where ab: "utf8_bytes cp = [a, b, c]" "unat a = 224 + unat cp div 4096"
      "unat b = 128 + unat cp div 64 mod 64" "unat c = 128 + unat cp mod 64"
      using utf8_bytes_3 2 by blast
    define cp0 where "cp0 = (ucast (a AND 0x0F) :: u32)"
    define cp1 where "cp1 = push_bit 6 cp0 OR (ucast b AND 0x3F)"
    have 0: "unat cp0 = unat cp div 4096"
      using ab 2 lead_numbers(2) [of "unat cp div 4096"]
      by (simp add: cp0_def unat_ucast_32 lead_fields)
    have 1: "unat cp1 = unat cp div 64"
      using ab 0 2 unfolding cp1_def by (subst cont_field) (simp_all add: cont_number shift_numbers)
    have "unat (push_bit 6 cp1 OR (ucast c AND 0x3F)) = unat cp"
      using ab 1 2 by (subst cont_field) (simp_all add: cont_number)
    then have "push_bit 6 cp1 OR (ucast c AND 0x3F) = cp" by (simp only: word_unat_eq_iff)
    moreover have "utf8_lead a = Some (2, cp0)"
      using ab 2 lead_numbers(2) [of "unat cp div 4096"] by (simp add: utf8_lead_nat cp0_def)
    moreover have "unat b div 64 = 2" "unat c div 64 = 2" using ab by (simp_all add: cont_number)
    ultimately have "utf8_multi a ([b, c] @ r) = Some r"
      using top 2 utf8_cont_2 [of b c cp0 r]
      by (simp add: utf8_multi_def word_less_nat_alt word_le_nat_alt cp1_def)
    with ab show ?thesis by (simp add: word_less_nat_alt)
  next
    case 3
    obtain a b c d where ab: "utf8_bytes cp = [a, b, c, d]" "unat a = 240 + unat cp div 262144"
      "unat b = 128 + unat cp div 4096 mod 64" "unat c = 128 + unat cp div 64 mod 64"
      "unat d = 128 + unat cp mod 64"
      by (rule utf8_bytes_4 [of cp]) (use 3 top in auto)
    define cp0 where "cp0 = (ucast (a AND 0x07) :: u32)"
    define cp1 where "cp1 = push_bit 6 cp0 OR (ucast b AND 0x3F)"
    define cp2 where "cp2 = push_bit 6 cp1 OR (ucast c AND 0x3F)"
    have 0: "unat cp0 = unat cp div 262144"
      using ab top lead_numbers(3) [of "unat cp div 262144"]
      by (simp add: cp0_def unat_ucast_32 lead_fields)
    have 1: "unat cp1 = unat cp div 4096"
      using ab 0 top unfolding cp1_def by (subst cont_field) (simp_all add: cont_number shift_numbers)
    have 2: "unat cp2 = unat cp div 64"
      using ab 1 top unfolding cp2_def by (subst cont_field) (simp_all add: cont_number shift_numbers)
    have "unat (push_bit 6 cp2 OR (ucast d AND 0x3F)) = unat cp"
      using ab 2 top by (subst cont_field) (simp_all add: cont_number)
    then have "push_bit 6 cp2 OR (ucast d AND 0x3F) = cp" by (simp only: word_unat_eq_iff)
    moreover have "utf8_lead a = Some (3, cp0)"
      using ab top lead_numbers(3) [of "unat cp div 262144"] by (simp add: utf8_lead_nat cp0_def)
    moreover have "unat b div 64 = 2" "unat c div 64 = 2" "unat d div 64 = 2" using ab by (simp_all add: cont_number)
    ultimately have "utf8_multi a ([b, c, d] @ r) = Some r"
      using top 3 utf8_cont_3 [of b c d cp0 r]
      by (simp add: utf8_multi_def word_less_nat_alt word_le_nat_alt cp1_def cp2_def)
    with ab show ?thesis by (simp add: word_less_nat_alt)
  qed
qed

lemma utf8_cont_inv:
  "utf8_cont (Suc k) cp r = Some x \<longleftrightarrow>
   (\<exists>b r'. r = b # r' \<and> unat b div 64 = 2 \<and>
      utf8_cont k (push_bit 6 cp OR (ucast b AND 0x3F)) r' = Some x)"
  by (cases r) (auto simp: cont_iff)

lemma lead_split:
  "unat c = 32 * (unat c div 32) + unat c mod 32" "unat c = 16 * (unat c div 16) + unat c mod 16"
  "unat c = 8 * (unat c div 8) + unat c mod 8" "unat c = 64 * (unat c div 64) + unat c mod 64"
  for c :: byte
  by simp_all

lemma digits_64:
  "r < 64 \<Longrightarrow> (64 * q + r) div 64 = q \<and> (64 * q + r) mod 64 = r" for q r :: nat
  by (auto intro!: div_nat_eqI mod_nat_eqI)

lemma utf8_multi_decode:
  assumes "utf8_multi c cs = Some r"
  shows "\<exists>cp. scalar cp \<and> 128 \<le> unat cp \<and> c # cs = utf8_bytes cp @ r"
proof -
  obtain need cp0 cp where need: "utf8_lead c = Some (need, cp0)" "need \<le> length cs"
    and cont: "utf8_cont need cp0 cs = Some cp" and r: "r = drop need cs"
    and ok: "\<not> cp < utf8_min need" "scalar cp"
    using assms by (auto simp: utf8_multi_def scalar_def split: option.splits if_splits)
  have top: "unat cp \<le> 1114111" using ok(2) by (simp add: scalar_def word_le_nat_alt)
  have m: "unat b mod 64 < 64" for b :: byte by simp
  consider (1) "need = 1" "unat c div 32 = 6" "cp0 = ucast (c AND 0x1F)"
    | (2) "need = 2" "unat c div 16 = 14" "cp0 = ucast (c AND 0x0F)"
    | (3) "need = 3" "unat c div 8 = 30" "cp0 = ucast (c AND 0x07)"
    using need(1) by (auto simp: utf8_lead_nat split: if_splits)
  then show ?thesis
  proof cases
    case 1
    obtain b cs' where cs: "cs = b # cs'" "unat b div 64 = 2"
      and cp: "cp = push_bit 6 cp0 OR (ucast b AND 0x3F)"
      using cont 1(1) by (auto simp: utf8_cont_inv)
    have c0: "unat cp0 = unat c mod 32" by (simp add: 1 unat_ucast_32 lead_fields)
    then have "unat cp = 64 * (unat c mod 32) + unat b mod 64"
      unfolding cp by (subst cont_field) (auto intro: order_less_trans [OF mod_less_divisor])
    then have n: "unat cp div 64 = unat c mod 32" "unat cp mod 64 = unat b mod 64"
      using digits_64 [OF m [of b]] by simp_all
    have lo: "128 \<le> unat cp" using ok(1) 1(1) by (simp add: word_less_nat_alt)
    moreover have "unat cp < 2048" using n(1) mod_less_divisor [of 32 "unat c"] by linarith
    ultimately obtain a' b' where "utf8_bytes cp = [a', b']" "unat a' = 192 + unat cp div 64"
      "unat b' = 128 + unat cp mod 64" using utf8_bytes_2 by blast
    moreover have "unat a' = unat c" "unat b' = unat b"
      using calculation n 1(2) cs(2) lead_split(1) [of c] lead_split(4) [of b] by linarith+
    ultimately have "c # cs = utf8_bytes cp @ r" using cs r 1(1) by (simp add: word_unat_eq_iff)
    with lo ok(2) show ?thesis by blast
  next
    case 2
    have "utf8_cont (Suc (Suc 0)) cp0 cs = Some cp" using cont 2(1) by (simp add: numeral_2_eq_2)
    then obtain b d cs' where cs: "cs = b # d # cs'" "unat b div 64 = 2" "unat d div 64 = 2"
      and cp: "cp = push_bit 6 (push_bit 6 cp0 OR (ucast b AND 0x3F)) OR (ucast d AND 0x3F)"
      by (auto simp: utf8_cont_inv simp del: utf8_cont.simps(2))
    define cp1 where "cp1 = push_bit 6 cp0 OR (ucast b AND 0x3F)"
    have c0: "unat cp0 = unat c mod 16" by (simp add: 2 unat_ucast_32 lead_fields)
    then have c1: "unat cp1 = 64 * (unat c mod 16) + unat b mod 64"
      unfolding cp1_def by (subst cont_field) (auto intro: order_less_trans [OF mod_less_divisor])
    have small: "unat cp1 < 1024"
      using c1 mod_less_divisor [of 16 "unat c"] m [of b] by linarith
    then have "unat cp = 64 * unat cp1 + unat d mod 64"
      unfolding cp cp1_def [symmetric] by (subst cont_field) simp_all
    then have n: "unat cp div 64 = unat cp1" "unat cp mod 64 = unat d mod 64"
      using digits_64 [OF m [of d]] by simp_all
    have n1: "unat cp1 div 64 = unat c mod 16" "unat cp1 mod 64 = unat b mod 64"
      using digits_64 [OF m [of b]] c1 by simp_all
    have n2: "unat cp div 4096 = unat c mod 16" using n n1 div_mult2_eq [of "unat cp" 64 64] by simp
    have lo: "2048 \<le> unat cp" using ok(1) 2(1) by (simp add: word_less_nat_alt)
    moreover have "unat cp < 65536" using n(1) small by linarith
    ultimately obtain a' b' d' where "utf8_bytes cp = [a', b', d']"
      "unat a' = 224 + unat cp div 4096" "unat b' = 128 + unat cp div 64 mod 64"
      "unat d' = 128 + unat cp mod 64" using utf8_bytes_3 by blast
    moreover have "unat b' = 128 + unat b mod 64" "unat d' = 128 + unat d mod 64"
      using calculation by (simp_all add: n n1)
    moreover have "unat a' = unat c" "unat b' = unat b" "unat d' = unat d"
      using calculation n n1 n2 2(2) cs(2,3) lead_split(2) [of c] lead_split(4) [of b]
        lead_split(4) [of d] by linarith+
    ultimately have "c # cs = utf8_bytes cp @ r" using cs r 2(1) by (simp add: word_unat_eq_iff)
    with lo ok(2) show ?thesis by (intro exI [of _ cp]) simp
  next
    case 3
    have "utf8_cont (Suc (Suc (Suc 0))) cp0 cs = Some cp" using cont 3(1) by (simp add: numeral_3_eq_3)
    then obtain b d e cs' where cs: "cs = b # d # e # cs'" "unat b div 64 = 2" "unat d div 64 = 2"
        "unat e div 64 = 2"
      and cp: "cp = push_bit 6 (push_bit 6 (push_bit 6 cp0 OR (ucast b AND 0x3F))
        OR (ucast d AND 0x3F)) OR (ucast e AND 0x3F)"
      by (auto simp: utf8_cont_inv simp del: utf8_cont.simps(2))
    define cp1 where "cp1 = push_bit 6 cp0 OR (ucast b AND 0x3F)"
    define cp2 where "cp2 = push_bit 6 cp1 OR (ucast d AND 0x3F)"
    have c0: "unat cp0 = unat c mod 8" by (simp add: 3 unat_ucast_32 lead_fields)
    then have c1: "unat cp1 = 64 * (unat c mod 8) + unat b mod 64"
      unfolding cp1_def by (subst cont_field) (auto intro: order_less_trans [OF mod_less_divisor])
    have small1: "unat cp1 < 512"
      using c1 mod_less_divisor [of 8 "unat c"] m [of b] by linarith
    then have c2: "unat cp2 = 64 * unat cp1 + unat d mod 64"
      unfolding cp2_def by (subst cont_field) simp_all
    have small2: "unat cp2 < 32768" using c2 small1 m [of d] by linarith
    then have "unat cp = 64 * unat cp2 + unat e mod 64"
      unfolding cp cp1_def [symmetric] cp2_def [symmetric] by (subst cont_field) simp_all
    then have n: "unat cp div 64 = unat cp2" "unat cp mod 64 = unat e mod 64"
      using digits_64 [OF m [of e]] by simp_all
    have n2: "unat cp2 div 64 = unat cp1" "unat cp2 mod 64 = unat d mod 64"
      using digits_64 [OF m [of d]] c2 by simp_all
    have n1: "unat cp1 div 64 = unat c mod 8" "unat cp1 mod 64 = unat b mod 64"
      using digits_64 [OF m [of b]] c1 by simp_all
    have k1: "unat cp div 4096 = unat cp1" using n n2 div_mult2_eq [of "unat cp" 64 64] by simp
    have k2: "unat cp div 262144 = unat c mod 8"
      using k1 n1 div_mult2_eq [of "unat cp" 4096 64] by simp
    have lo: "65536 \<le> unat cp" using ok(1) 3(1) by (simp add: word_less_nat_alt)
    then obtain a' b' d' e' where ab: "utf8_bytes cp = [a', b', d', e']"
      "unat a' = 240 + unat cp div 262144" "unat b' = 128 + unat cp div 4096 mod 64"
      "unat d' = 128 + unat cp div 64 mod 64" "unat e' = 128 + unat cp mod 64"
      by (rule utf8_bytes_4) (use top in simp)
    have "unat a' = unat c" using ab(2) k2 3(2) lead_split(3) [of c] by linarith
    moreover have "unat b' = unat b"
      using ab(3) k1 n1(2) cs(2) lead_split(4) [of b] by simp
    moreover have "unat d' = unat d"
      using ab(4) n(1) n2(2) cs(3) lead_split(4) [of d] by simp
    moreover have "unat e' = unat e" using ab(5) n(2) cs(4) lead_split(4) [of e] by simp
    ultimately have "c # cs = utf8_bytes cp @ r"
      using cs(1) r 3(1) ab(1) by (simp add: word_unat_eq_iff)
    with lo ok(2) show ?thesis by (intro exI [of _ cp]) simp
  qed
qed

lemma utf8_bytes_ascii: "unat cp < 128 \<Longrightarrow> utf8_bytes cp = [ucast cp] \<and> (ucast cp :: byte) < 0x80"
  by (simp add: utf8_bytes_def word_less_nat_alt unat_ucast_8)

lemma utf8_bytes_not_Nil: "utf8_bytes cp \<noteq> []"
  by (simp add: utf8_bytes_def)

lemma ascii_bytes: "c < 0x80 \<Longrightarrow> [c] = utf8_bytes (ucast c) \<and> scalar (ucast c)"
  by (simp add: utf8_bytes_def scalar_def word_less_nat_alt word_le_nat_alt word_unat_eq_iff
      unat_ucast_32 unat_ucast_8)

lemma utf8_stop_bytes:
  assumes "scalar cp"
  shows "utf8_stop (utf8_bytes cp @ r) = utf8_stop r"
proof (cases "unat cp < 128")
  case True
  then show ?thesis using utf8_stop_ascii [of "utf8_bytes cp" r] utf8_bytes_ascii [of cp] by simp
next
  case False
  then obtain c cs where "utf8_bytes cp = c # cs" "\<not> c < 0x80" "utf8_multi c (cs @ r) = Some r"
    using utf8_multi_encode [OF assms, of r] by auto
  then show ?thesis by (simp add: utf8_stop_Cons)
qed

lemma utf8_stop_valid:
  "list_all scalar cps \<Longrightarrow> utf8_stop (concat (map utf8_bytes cps) @ r) = utf8_stop r"
  by (induction cps) (auto simp: utf8_stop_bytes)

lemma utf8_front:
  "r \<noteq> [] \<Longrightarrow> (\<exists>cp r'. scalar cp \<and> r = utf8_bytes cp @ r') \<or> utf8_stop r = r"
proof (cases r)
  case (Cons c cs)
  show ?thesis
  proof (cases "c < 0x80")
    case True
    then show ?thesis using ascii_bytes [of c] Cons by (metis append_Cons append_Nil)
  next
    case False
    then show ?thesis
    proof (cases "utf8_multi c cs")
      case None
      with False Cons show ?thesis by (simp add: utf8_stop_Cons)
    next
      case (Some r')
      then show ?thesis using utf8_multi_decode [OF Some] Cons by blast
    qed
  qed
qed simp

lemma utf8_stop_fixed:
  assumes "utf8_stop r = r" "scalar cp" shows "r \<noteq> utf8_bytes cp @ r'"
proof
  assume "r = utf8_bytes cp @ r'"
  then have "suffix r r'" using assms utf8_stop_bytes [of cp r'] utf8_stop_suffix [of r'] by simp
  then show False
    using \<open>r = _\<close> utf8_bytes_not_Nil [of cp] by (auto dest: suffix_length_le)
qed

lemma utf8_stop_split:
  "\<exists>cps. list_all scalar cps \<and> r = concat (map utf8_bytes cps) @ utf8_stop r
     \<and> utf8_stop (utf8_stop r) = utf8_stop r"
proof (induction "length r" arbitrary: r rule: less_induct)
  case less
  show ?case
  proof (cases "utf8_stop r = r")
    case True
    then show ?thesis by (intro exI [of _ "[]"]) simp
  next
    case False
    then obtain cp r' where cp: "scalar cp" "r = utf8_bytes cp @ r'"
      using utf8_front [of r] utf8_stop_Nil by fastforce
    then have "length r' < length r" using utf8_bytes_not_Nil by simp
    from less.hyps [OF this] obtain cps where "list_all scalar cps"
      "r' = concat (map utf8_bytes cps) @ utf8_stop r'" "utf8_stop (utf8_stop r') = utf8_stop r'"
      by blast
    then show ?thesis
      using cp utf8_stop_bytes [OF cp(1), of r'] by (intro exI [of _ "cp # cps"]) simp
  qed
qed

lemma utf8_invalid_at_take:
  "take (utf8_invalid_at data) data @ utf8_stop data = data"
  "drop (utf8_invalid_at data) data = utf8_stop data"
proof -
  obtain ps where "data = ps @ utf8_stop data" using utf8_stop_suffix by blast
  moreover from this have "length data = length ps + length (utf8_stop data)"
    by (metis length_append)
  ultimately show "take (utf8_invalid_at data) data @ utf8_stop data = data"
    "drop (utf8_invalid_at data) data = utf8_stop data"
    by (metis add_diff_cancel_right' append_eq_conv_conj utf8_invalid_at_def)+
qed

lemma utf8_valid_stop: "utf8_valid data \<longleftrightarrow> utf8_stop data = []"
proof
  assume "utf8_valid data"
  then show "utf8_stop data = []"
    using utf8_stop_valid [where r = "[]"] by (auto simp: utf8_valid_def utf8_stop_Nil)
next
  assume "utf8_stop data = []"
  then show "utf8_valid data" using utf8_stop_split [of data] by (auto simp: utf8_valid_def)
qed

subsection \<open>Properties\<close>

text \<open>C1: the encoding check (with its eight-byte ASCII skip) accepts an input exactly when
  it is a sequence of UTF-8 encodings of Unicode scalar values, as \<open>utf8_put\<close> writes them:
  overlong forms, surrogates and code points above U+10FFFF are all refused.\<close>

theorem utf8_accepts_iff: "utf8_invalid_at data = length data \<longleftrightarrow> utf8_valid data"
proof -
  have "length data = utf8_invalid_at data + length (utf8_stop data)"
    using utf8_stop_suffix [of data] by (metis add_diff_cancel_right' add.commute
        diff_le_self le_add_diff_inverse2 length_append utf8_invalid_at_def)
  then show ?thesis by (simp add: utf8_valid_stop)
qed

text \<open>The offset reported for a bad input is that of its first bad byte: everything before
  it is well-formed UTF-8, and no encoded scalar value starts at it.\<close>

theorem utf8_first_bad:
  "utf8_valid (take (utf8_invalid_at data) data) \<and>
   (\<nexists>cp r. scalar cp \<and> drop (utf8_invalid_at data) data = utf8_bytes cp @ r)"
proof -
  obtain cps where cps: "list_all scalar cps" "data = concat (map utf8_bytes cps) @ utf8_stop data"
    "utf8_stop (utf8_stop data) = utf8_stop data" using utf8_stop_split [of data] by blast
  then have "take (utf8_invalid_at data) data = concat (map utf8_bytes cps)"
    using utf8_invalid_at_take(1) [of data] by (metis append_same_eq)
  then show ?thesis
    using cps utf8_stop_fixed [OF cps(3)] by (auto simp: utf8_valid_def utf8_invalid_at_take(2))
qed

end
