(* ===== verification/Cursor.thy ===== *)
theory Cursor
  imports Dom Chartype Utf8
begin

text \<open>
  The parser state of \<open>parse/parse.h\<close> and the routines of \<open>parse/parser.c\<close> that move its
  cursor: failure recording with the lazily computed line and column (\<open>tep_fail_at\<close>), the
  skippers for blanks, comments, newlines and array gaps, the end-of-line rule, and the
  encoding check at the entry. The cursor \<open>ps->p\<close> is the list of the bytes from it to
  \<open>ps->end\<close>, so the end test is the test for the empty list and an offset into the input is
  a difference of lengths.
\<close>

subsection \<open>The parser state and its results\<close>

record parser =
  ps_doc :: document
  ps_src :: bytes
  ps_p :: bytes
  ps_depth :: u32
  ps_max_depth :: u32
  ps_cur :: addr
  ps_cur_path :: view

text \<open>
  What a routine ends with: a value, a status that the caller hands on, behaviour that the C
  standard leaves undefined (a store past a buffer, a read outside an object), or, for the
  recursive routines of the model, fuel that did not suffice.
\<close>

datatype 'a res =
    Ok 'a parser
  | Fail status parser
  | Undef
  | NoFuel

fun res_bind :: "'a res \<Rightarrow> ('a \<Rightarrow> parser \<Rightarrow> 'b res) \<Rightarrow> 'b res" where
  "res_bind (Ok a ps) f = f a ps"
| "res_bind (Fail st ps) f = Fail st ps"
| "res_bind Undef f = Undef"
| "res_bind NoFuel f = NoFuel"

definition cursor_offset :: "parser \<Rightarrow> nat" where
  "cursor_offset ps = length (ps_src ps) - length (ps_p ps)"

definition set_p :: "bytes \<Rightarrow> parser \<Rightarrow> parser" where
  "set_p p ps = ps\<lparr>ps_p := p\<rparr>"

definition set_doc :: "document \<Rightarrow> parser \<Rightarrow> parser" where
  "set_doc doc ps = ps\<lparr>ps_doc := doc\<rparr>"

subsection \<open>Failures\<close>

text \<open>The scan from the start of the input to the position: line, and offset of its start.\<close>

fun err_scan :: "bytes \<Rightarrow> nat \<Rightarrow> nat \<Rightarrow> nat \<Rightarrow> nat \<times> nat" where
  "err_scan [] i line bol = (line, bol)"
| "err_scan (c # cs) i line bol =
    (if c = LF then err_scan cs (Suc i) (Suc line) (Suc i) else err_scan cs (Suc i) line bol)"

text \<open>\<open>vsnprintf\<close> into \<open>err_msg[192]\<close>, and a \<open>%.*s\<close> argument.\<close>

definition err_msg_text :: "bytes \<Rightarrow> bytes" where
  "err_msg_text msg = take 191 msg"

definition fmt_s :: "bytes \<Rightarrow> bytes" where
  "fmt_s bs = takeWhile (\<lambda>c. c \<noteq> 0) bs"

definition error_at :: "bytes \<Rightarrow> nat \<Rightarrow> status \<Rightarrow> bytes \<Rightarrow> perror" where
  "error_at src pos code msg =
    (let (line, bol) = err_scan (take pos src) 0 1 0
     in \<lparr>pe_status = code, pe_line = line, pe_column = pos - bol + 1,
         pe_message = err_msg_text msg, pe_start = pos, pe_end = pos\<rparr>)"

definition fail_at :: "parser \<Rightarrow> bytes option \<Rightarrow> status \<Rightarrow> bytes \<Rightarrow> 'a res" where
  "fail_at ps at code msg =
    (let pos = (case at of Some q \<Rightarrow> length (ps_src ps) - length q | None \<Rightarrow> cursor_offset ps)
     in Fail code (set_doc ((ps_doc ps)\<lparr>d_err := error_at (ps_src ps) pos code msg\<rparr>) ps))"

text \<open>A lexical routine run on the parser.\<close>

fun run_lex :: "parser \<Rightarrow> 'a lex \<Rightarrow> 'a res" where
  "run_lex ps (LErr st msg p) = fail_at (set_p p ps) None st msg"
| "run_lex ps (LOk a p) = Ok a (set_p p ps)"

fun lex_bind :: "'a lex \<Rightarrow> ('a \<Rightarrow> bytes \<Rightarrow> 'b lex) \<Rightarrow> 'b lex" where
  "lex_bind (LErr st msg p) f = LErr st msg p"
| "lex_bind (LOk a p) f = f a p"

lemma lex_bind_LOk:
  "lex_bind m f = LOk b r \<longleftrightarrow> (\<exists>a p. m = LOk a p \<and> f a p = LOk b r)"
  by (cases m) auto

subsection \<open>Skipping\<close>

definition adv :: "nat \<Rightarrow> bytes \<Rightarrow> bytes" where
  "adv n p = drop n p"

definition skip_ws :: "bytes \<Rightarrow> bytes" where
  "skip_ws p = dropWhile is_ws p"

definition starts :: "byte \<Rightarrow> bytes \<Rightarrow> bool" where
  "starts c p = (case p of [] \<Rightarrow> False | b # bs \<Rightarrow> b = c)"

definition is_ctrl :: "byte \<Rightarrow> bool" where
  "is_ctrl c \<longleftrightarrow> (c < 0x20 \<and> c \<noteq> TAB) \<or> c = DEL"

fun comment_body :: "bytes \<Rightarrow> unit lex" where
  "comment_body [] = LOk () []"
| "comment_body (c # cs) =
    (if c = LF then LOk () (c # cs)
     else if c = CR then
       (if starts LF cs then LOk () (c # cs)
        else LErr ERR_SYNTAX (lit ''lone carriage return in comment'') (c # cs))
     else if is_ctrl c then LErr ERR_SYNTAX (lit ''control character in comment'') (c # cs)
     else comment_body cs)"

definition skip_comment :: "bytes \<Rightarrow> unit lex" where
  "skip_comment p = comment_body (adv 1 p)"

lemma comment_body_shorter: "length (lex_rest (comment_body p)) \<le> length p"
  by (induction p rule: comment_body.induct) auto

function skip_ws_nl :: "bytes \<Rightarrow> unit lex" where
  "skip_ws_nl [] = LOk () []"
| "skip_ws_nl (c # cs) =
    (if is_ws c then skip_ws_nl cs
     else if c = LF then skip_ws_nl cs
     else if c = CR \<and> starts LF cs then skip_ws_nl (adv 1 cs)
     else if c = HASH then
       (case skip_comment (c # cs) of
          LErr st msg p \<Rightarrow> LErr st msg p
        | LOk _ p \<Rightarrow> skip_ws_nl p)
     else LOk () (c # cs))"
  by pat_completeness auto
termination
proof (relation "measure length", goal_cases)
  case (5 c cs u p)
  then show ?case using comment_body_shorter [of cs] by (simp add: skip_comment_def adv_def)
qed (auto simp: adv_def)

definition at_eol :: "bytes \<Rightarrow> bool" where
  "at_eol p \<longleftrightarrow> p = [] \<or> starts LF p \<or> (starts CR p \<and> starts LF (tl p))"

definition finish_line :: "bytes \<Rightarrow> unit lex" where
  "finish_line p0 =
    (let p = skip_ws p0
     in lex_bind (if starts HASH p then skip_comment p else LOk () p) (\<lambda>_ p.
          if p = [] then LOk () p
          else if starts LF p then LOk () (adv 1 p)
          else if starts CR p \<and> starts LF (tl p) then LOk () (adv 2 p)
          else LErr ERR_SYNTAX (lit ''expected newline after value'') p))"

text \<open>The gap between array elements: blanks and newlines inline, the rest by \<open>skip_ws_nl\<close>.\<close>

function skip_array_gap :: "bytes \<Rightarrow> unit lex" where
  "skip_array_gap p0 =
    (case dropWhile (\<lambda>c. c = SPACE \<or> c = TAB) p0 of
       [] \<Rightarrow> LOk () []
     | c # cs \<Rightarrow>
         (if c = LF then skip_array_gap cs
          else if c = HASH then skip_ws_nl (c # cs)
          else if c = CR then skip_ws_nl (c # cs)
          else LOk () (c # cs)))"
  by pat_completeness auto
termination
proof (relation "measure length", goal_cases)
  case (2 p0 c cs)
  then show ?case using length_dropWhile_le [of "\<lambda>c. c = SPACE \<or> c = TAB" p0] by simp
qed simp

declare skip_array_gap.simps [simp del]

subsection \<open>The encoding check\<close>

definition validate_utf8 :: "document \<Rightarrow> bytes \<Rightarrow> status \<times> document" where
  "validate_utf8 doc data =
    (let bad = utf8_invalid_at data
     in if bad = length data then (ST_OK, doc)
        else (let (line, bol) = err_scan (take bad data) 0 1 0
              in (ERR_ENCODING,
                  doc\<lparr>d_err := \<lparr>pe_status = ERR_ENCODING, pe_line = line,
                        pe_column = bad - bol + 1,
                        pe_message = err_msg_text (lit ''invalid UTF-8 sequence''),
                        pe_start = bad, pe_end = bad\<rparr>\<rparr>)))"

end
