(* ===== verification/Strings.thy ===== *)
theory Strings
  imports Cursor
begin

text \<open>
  The string scanners of \<open>parse/scalars.c\<close>: \<open>read_hex\<close>, \<open>tep_scan_basic\<close>,
  \<open>tep_scan_literal\<close>, the plain-body fast path with the vector kernel of
  \<open>common/simd.h\<close>, and \<open>parse_string\<close> with its two passes (count, allocate, decode).
\<close>

subsection \<open>Escapes\<close>

definition hex_digit :: "byte \<Rightarrow> u32" where
  "hex_digit c = (if c \<le> 0x39 then ucast c - 0x30 else ucast (c OR 0x20) - 0x61 + 10)"

fun read_hex :: "nat \<Rightarrow> u32 \<Rightarrow> bytes \<Rightarrow> u32 lex" where
  "read_hex 0 v p = LOk v p"
| "read_hex (Suc k) v [] = LErr ERR_SYNTAX (lit ''invalid unicode escape'') []"
| "read_hex (Suc k) v (c # cs) =
    (if \<not> is_hex c then LErr ERR_SYNTAX (lit ''invalid unicode escape'') (c # cs)
     else read_hex k (v * 16 + hex_digit c) cs)"

lemma read_hex_code [code]:
  "read_hex n v p =
    (if n = 0 then LOk v p
     else case p of
            [] \<Rightarrow> LErr ERR_SYNTAX (lit ''invalid unicode escape'') []
          | c # cs \<Rightarrow>
              (if \<not> is_hex c then LErr ERR_SYNTAX (lit ''invalid unicode escape'') (c # cs)
               else read_hex (n - 1) (v * 16 + hex_digit c) cs))"
  by (cases n; cases p) auto

text \<open>The one-letter escapes: b, t, n, f, r, the quote, the backslash, and e.\<close>

definition simple_escape :: "byte \<Rightarrow> byte option" where
  "simple_escape e =
    (if e = 0x62 then Some 0x08
     else if e = 0x74 then Some TAB
     else if e = 0x6E then Some LF
     else if e = 0x66 then Some 0x0C
     else if e = 0x72 then Some CR
     else if e = DQUOTE then Some DQUOTE
     else if e = BACKSLASH then Some BACKSLASH
     else if e = 0x65 then Some 0x1B
     else None)"

text \<open>The whitespace and newlines that a line-ending backslash removes.\<close>

fun trim_lines :: "bytes \<Rightarrow> bytes" where
  "trim_lines [] = []"
| "trim_lines (w # ws) =
    (if w = SPACE \<or> w = TAB \<or> w = LF then trim_lines ws
     else if w = CR then
       (case ws of [] \<Rightarrow> [w] | n # ws' \<Rightarrow> if n = LF then trim_lines ws' else w # ws)
     else w # ws)"

text \<open>The line-ending backslash of a multi-line string.\<close>

definition scan_line_end :: "bytes \<Rightarrow> sink \<Rightarrow> sink lex" where
  "scan_line_end p s =
    (let q = dropWhile (\<lambda>c. c = SPACE \<or> c = TAB) p
     in if q = [] \<or> (\<not> starts LF q \<and> \<not> (starts CR q \<and> starts LF (tl q)))
        then LErr ERR_SYNTAX (lit ''invalid escape'') p
        else LOk s (trim_lines p))"

text \<open>The code-point escapes x, u and U, and the letters that are not escapes.\<close>

definition scan_code_point :: "byte \<Rightarrow> bytes \<Rightarrow> sink \<Rightarrow> sink lex" where
  "scan_code_point e es s =
    (if e = 0x78 then
       lex_bind (read_hex 2 0 es) (\<lambda>cp r. LOk (utf8_put cp s) r)
     else if e = 0x75 \<or> e = 0x55 then
       lex_bind (read_hex (if e = 0x75 then 4 else 8) 0 es) (\<lambda>cp r.
         if (0xD800 \<le> cp \<and> cp \<le> 0xDFFF) \<or> 0x10FFFF < cp
         then LErr ERR_SYNTAX (lit ''invalid unicode scalar value'') r
         else LOk (utf8_put cp s) r)
     else LErr ERR_SYNTAX (lit ''invalid escape'') (e # es))"

text \<open>The body of the backslash case: the cursor is behind the backslash.\<close>

definition scan_escape :: "bool \<Rightarrow> bytes \<Rightarrow> sink \<Rightarrow> sink lex" where
  "scan_escape ml p s =
    (case p of
       [] \<Rightarrow> LErr ERR_SYNTAX (lit ''unterminated escape'') p
     | e # es \<Rightarrow>
         (if ml \<and> (e = SPACE \<or> e = TAB \<or> e = LF \<or> e = CR) then scan_line_end p s
          else case simple_escape e of
                 Some ch \<Rightarrow> LOk (putch ch s) es
               | None \<Rightarrow> scan_code_point e es s))"

subsection \<open>The two scanners\<close>

text \<open>A run of the closing quote in a multi-line string: the content quotes and the end.\<close>

definition quote_run :: "byte \<Rightarrow> bytes \<Rightarrow> sink \<Rightarrow> (sink \<times> bool) lex" where
  "quote_run quo p s =
    (let run = length (takeWhile (\<lambda>c. c = quo) p)
     in if run \<ge> 6 then LErr ERR_SYNTAX (lit ''too many consecutive quotes'') p
        else (let content = (if run \<ge> 3 then run - 3 else run)
              in LOk (put_all (replicate content quo) s, run > 2) (adv run p)))"

lemma quote_run_shorter:
  "quote_run quo (quo # cs) s = LOk r p \<Longrightarrow> length p \<le> length cs"
  by (auto simp: quote_run_def Let_def adv_def split: if_splits)

lemma read_hex_shorter: "read_hex k v p = LOk r p' \<Longrightarrow> length p' \<le> length p"
  by (induction k v p rule: read_hex.induct) (auto split: if_splits)

lemma trim_lines_shorter: "length (trim_lines p) \<le> length p"
proof (induction "length p" arbitrary: p rule: less_induct)
  case less
  show ?case
  proof (cases p)
    case (Cons w ws)
    have IH: "length (trim_lines ws) \<le> length ws" using less [of ws] Cons by simp
    show ?thesis
    proof (cases ws)
      case Nil
      with Cons show ?thesis by simp
    next
      case (Cons n ws')
      have "length (trim_lines ws') \<le> length ws'"
        using less [of ws'] \<open>p = _\<close> Cons by simp
      with IH \<open>p = _\<close> Cons show ?thesis by (simp only: trim_lines.simps list.case) simp
    qed
  qed simp
qed

lemma scan_line_end_shorter: "scan_line_end p s = LOk s' p' \<Longrightarrow> length p' \<le> length p"
  using trim_lines_shorter [of p] by (auto simp: scan_line_end_def Let_def split: if_splits)

lemma scan_code_point_shorter: "scan_code_point e es s = LOk s' p' \<Longrightarrow> length p' \<le> length es"
  by (auto simp: scan_code_point_def lex_bind_LOk split: if_split_asm dest: read_hex_shorter)

lemma scan_escape_shorter:
  assumes "scan_escape ml p s = LOk s' p'"
  shows "length p' \<le> length p"
proof (cases p)
  case Nil
  with assms show ?thesis by (simp add: scan_escape_def)
next
  case (Cons e es)
  show ?thesis
  proof (cases "ml \<and> (e = SPACE \<or> e = TAB \<or> e = LF \<or> e = CR)")
    case True
    then show ?thesis
      using assms Cons scan_line_end_shorter [of p s s' p'] by (simp add: scan_escape_def)
  next
    case False
    then have "(case simple_escape e of Some ch \<Rightarrow> LOk (putch ch s) es
        | None \<Rightarrow> scan_code_point e es s) = LOk s' p'"
      using assms Cons unfolding scan_escape_def by (simp only: list.case if_False)
    then show ?thesis
      using Cons scan_code_point_shorter [of e es s s' p'] by (cases "simple_escape e") auto
  qed
qed

function scan_basic :: "bool \<Rightarrow> bytes \<Rightarrow> sink \<Rightarrow> sink lex" where
  "scan_basic ml [] s = LErr ERR_SYNTAX (lit ''unterminated string'') []"
| "scan_basic ml (c # cs) s =
    (if c = DQUOTE then
       (if \<not> ml then LOk s cs
        else case quote_run c (c # cs) s of
               LErr st msg p \<Rightarrow> LErr st msg p
             | LOk (s', fin) p \<Rightarrow> (if fin then LOk s' p else scan_basic ml p s'))
     else if c = BACKSLASH then
       (case scan_escape ml cs s of
          LErr st msg p \<Rightarrow> LErr st msg p
        | LOk s' p \<Rightarrow> scan_basic ml p s')
     else if c = LF then
       (if \<not> ml then LErr ERR_SYNTAX (lit ''unterminated string'') (c # cs)
        else scan_basic ml cs (putch LF s))
     else if c = CR then
       (if ml \<and> starts LF cs then scan_basic ml (adv 1 cs) (putch LF s)
        else LErr ERR_SYNTAX (lit ''control character in string'') (c # cs))
     else if is_ctrl c then LErr ERR_SYNTAX (lit ''control character in string'') (c # cs)
     else scan_basic ml cs (putch c s))"
  by pat_completeness auto
termination
proof (relation "measure (\<lambda>(ml, p, s). length p)", goal_cases)
  case (2 ml c cs s r p s' fin)
  then show ?case using quote_run_shorter [of c cs s r p] by simp
next
  case (3 ml c cs s s' p)
  then show ?case using scan_escape_shorter [of ml cs s s' p] by simp
qed (auto simp: adv_def)

function scan_literal :: "bool \<Rightarrow> bytes \<Rightarrow> sink \<Rightarrow> sink lex" where
  "scan_literal ml [] s = LErr ERR_SYNTAX (lit ''unterminated string'') []"
| "scan_literal ml (c # cs) s =
    (if c = SQUOTE then
       (if \<not> ml then LOk s cs
        else case quote_run c (c # cs) s of
               LErr st msg p \<Rightarrow> LErr st msg p
             | LOk (s', fin) p \<Rightarrow> (if fin then LOk s' p else scan_literal ml p s'))
     else if c = LF then
       (if \<not> ml then LErr ERR_SYNTAX (lit ''unterminated string'') (c # cs)
        else scan_literal ml cs (putch LF s))
     else if c = CR then
       (if ml \<and> starts LF cs then scan_literal ml (adv 1 cs) (putch LF s)
        else LErr ERR_SYNTAX (lit ''control character in string'') (c # cs))
     else if is_ctrl c then LErr ERR_SYNTAX (lit ''control character in string'') (c # cs)
     else scan_literal ml cs (putch c s))"
  by pat_completeness auto
termination
proof (relation "measure (\<lambda>(ml, p, s). length p)", goal_cases)
  case (2 ml c cs s r p s' fin)
  then show ?case using quote_run_shorter [of c cs s r p] by simp
qed (auto simp: adv_def)

definition scan_quoted :: "bool \<Rightarrow> bool \<Rightarrow> bytes \<Rightarrow> sink \<Rightarrow> sink lex" where
  "scan_quoted basic ml p s = (if basic then scan_basic ml p s else scan_literal ml p s)"

subsection \<open>The vector kernel and the plain-body path\<close>

text \<open>
  The SSE2 loop of \<open>tep_simd_str_stop\<close>, lane by lane: the saturating subtraction, the
  exclusion of blank and tab, the optional extra bytes; then the move-mask and the count
  of its trailing zeros.
\<close>

definition lane_stop :: "byte \<Rightarrow> byte \<Rightarrow> byte \<Rightarrow> bool" where
  "lane_stop q e v =
    (let subs = (if v < 0x20 then 0 else v - 0x20);
         below = (subs = 0);
         ctrl = (\<not> (v = SPACE \<or> v = TAB) \<and> below)
     in ctrl \<or> v = DEL \<or> (q \<noteq> 0 \<and> v = q) \<or> (e \<noteq> 0 \<and> v = e))"

fun movemask :: "bool list \<Rightarrow> u32" where
  "movemask [] = 0"
| "movemask (b # bs) = (if b then 1 else 0) OR push_bit 1 (movemask bs)"

definition ctz32 :: "u32 \<Rightarrow> nat" where
  "ctz32 x = length (takeWhile (\<lambda>i. \<not> bit x i) [0..<32])"

text \<open>
  The tail compares the \<open>unsigned char\<close> it read with the \<open>char\<close> parameters, both promoted to
  \<open>int\<close>: on the SSE2 target \<open>char\<close> is signed, so a stop byte outside ASCII is never met there.
\<close>

definition tail_stop :: "byte \<Rightarrow> byte \<Rightarrow> byte \<Rightarrow> bool" where
  "tail_stop q e c \<longleftrightarrow>
     uint c = sint q \<or> uint c = sint e \<or> (c < 0x20 \<and> c \<noteq> TAB) \<or> c = DEL"

fun str_stop_tail :: "bytes \<Rightarrow> byte \<Rightarrow> byte \<Rightarrow> nat" where
  "str_stop_tail [] q e = 0"
| "str_stop_tail (c # cs) q e = (if tail_stop q e c then 0 else Suc (str_stop_tail cs q e))"

function simd_str_stop :: "bytes \<Rightarrow> byte \<Rightarrow> byte \<Rightarrow> nat" where
  "simd_str_stop p q e =
    (if 16 \<le> length p
     then (let m = movemask (map (lane_stop q e) (take 16 p))
           in if m \<noteq> 0 then ctz32 m else 16 + simd_str_stop (drop 16 p) q e)
     else str_stop_tail p q e)"
  by pat_completeness auto
termination by (relation "measure (\<lambda>(p, q, e). length p)") auto

declare simd_str_stop.simps [simp del]

fun plain_loop :: "byte \<Rightarrow> bytes \<Rightarrow> nat option" where
  "plain_loop close [] = None"
| "plain_loop close (c # cs) =
    (if c = close then Some 0
     else if c = BACKSLASH \<or> c = DEL \<or> (c < 0x20 \<and> c \<noteq> TAB) then None
     else map_option Suc (plain_loop close cs))"

text \<open>The content of a body without escapes and controls, when the closing quote is found.\<close>

definition try_plain_body :: "byte \<Rightarrow> bytes \<Rightarrow> bytes option" where
  "try_plain_body close p =
    (if 32 \<le> length p
     then (let off = length (takeWhile (\<lambda>c. c \<noteq> close) p)
           in if off = length p then None
              else (let esc = (if close = DQUOTE then BACKSLASH else 0);
                        bad = simd_str_stop (take off p) esc 0
                    in if bad < off then None else Some (take off p)))
     else map_option (\<lambda>n. take n p) (plain_loop close p))"

subsection \<open>String values\<close>

fun sink_len :: "sink \<Rightarrow> nat" where
  "sink_len (Count n) = n"
| "sink_len (Buf out n) = n"
| "sink_len Overrun = 0"

definition oom :: "parser \<Rightarrow> 'a res" where
  "oom ps = fail_at ps None ERR_ALLOC (lit ''out of memory'')"

definition doc_alloc :: "parser \<Rightarrow> nat \<Rightarrow> parser option" where
  "doc_alloc ps n =
    (case arena_alloc (d_arena (ps_doc ps)) (of_nat n) of
       None \<Rightarrow> None
     | Some (p, a) \<Rightarrow> Some (set_doc ((ps_doc ps)\<lparr>d_arena := a\<rparr>) ps))"

text \<open>A node of a kind with its value, or the out-of-memory failure.\<close>

definition value_node :: "parser \<Rightarrow> kind \<Rightarrow> payload \<Rightarrow> addr res" where
  "value_node ps k v =
    (case dom_new_node (ps_doc ps) k of
       None \<Rightarrow> oom ps
     | Some (n, doc) \<Rightarrow> Ok n (set_doc (set_payload doc n v) ps))"

text \<open>Count the decoded bytes, allocate them and their terminator, decode into the buffer.\<close>

definition decode_body :: "parser \<Rightarrow> bool \<Rightarrow> bool \<Rightarrow> bytes res" where
  "decode_body ps basic ml =
    (case scan_quoted basic ml (ps_p ps) (Count 0) of
       LErr st msg p \<Rightarrow> fail_at (set_p p ps) None st msg
     | LOk s p \<Rightarrow>
         (case doc_alloc ps (sink_len s + 1) of
            None \<Rightarrow> oom (set_p p ps)
          | Some ps' \<Rightarrow>
              (case scan_quoted basic ml (ps_p ps') (Buf (replicate (sink_len s + 1) 0) 0) of
                 LErr st msg p' \<Rightarrow> fail_at (set_p p' ps') None st msg
               | LOk (Buf out n) p' \<Rightarrow>
                   (if n < length out then Ok (take n out) (set_p p' ps') else Undef)
               | LOk _ p' \<Rightarrow> Undef)))"

definition parse_string :: "parser \<Rightarrow> addr res" where
  "parse_string ps0 =
    (let d = hd (ps_p ps0);
         basic = (d = DQUOTE);
         ml = (length (ps_p ps0) \<ge> 3 \<and> ps_p ps0 ! 1 = d \<and> ps_p ps0 ! 2 = d);
         ps = set_p (adv (if ml then 3 else 1) (ps_p ps0)) ps0;
         p = ps_p ps;
         slow = (\<lambda>ps. res_bind (decode_body ps basic ml) (\<lambda>str ps. value_node ps K_STRING (P_Str str)))
     in if ml then
          (if starts CR p \<and> starts LF (tl p) then slow (set_p (adv 2 p) ps)
           else if starts LF p then slow (set_p (adv 1 p) ps)
           else slow ps)
        else
          (case try_plain_body (if basic then DQUOTE else SQUOTE) p of
             Some content \<Rightarrow>
               (case dom_new_node (ps_doc ps) K_STRING of
                  None \<Rightarrow> oom ps
                | Some (n, doc) \<Rightarrow>
                    (case doc_alloc (set_doc doc ps) (length content + 1) of
                       None \<Rightarrow> oom (set_doc doc ps)
                     | Some ps' \<Rightarrow>
                         Ok n (set_p (drop (length content + 1) p)
                                (set_doc (set_payload (ps_doc ps') n (P_Str content)) ps'))))
           | None \<Rightarrow> slow ps))"

end
