(* ===== verification/String_Props.thy ===== *)
theory String_Props
  imports Strings
begin

text \<open>
  The string scanners against their specification: the two passes of a decoded string see
  the same bytes, so the counted buffer is exactly filled; the vector kernel stops where
  the scalar loop stops; and the plain-body path takes what the scanners would decode.
\<close>

subsection \<open>The two passes\<close>

text \<open>A scanner that puts the same bytes into any sink, or fails in the same way.\<close>

fun into :: "sink \<Rightarrow> bytes lex \<Rightarrow> sink lex" where
  "into s (LErr st msg p) = LErr st msg p"
| "into s (LOk bs p) = LOk (put_all bs s) p"

definition streams :: "(sink \<Rightarrow> sink lex) \<Rightarrow> bool" where
  "streams f \<longleftrightarrow> (\<exists>r. \<forall>s. f s = into s r)"

lemma streamsI: "(\<And>s. f s = into s r) \<Longrightarrow> streams f"
  by (auto simp: streams_def)

lemma streams_put: "streams (\<lambda>s. LOk (put_all bs s) p)"
  by (rule streamsI [of _ "LOk bs p"]) simp

lemma streams_putch: "streams (\<lambda>s. LOk (putch c s) p)"
  using streams_put [of "[c]" p] by simp

lemma streams_id: "streams (\<lambda>s. LOk s p)"
  using streams_put [of "[]" p] by simp

lemma streams_err: "streams (\<lambda>s. LErr st msg p)"
  by (rule streamsI [of _ "LErr st msg p"]) simp

lemma streams_if:
  "(P \<Longrightarrow> streams f) \<Longrightarrow> (\<not> P \<Longrightarrow> streams g) \<Longrightarrow> streams (\<lambda>s. if P then f s else g s)"
  by (cases P) simp_all

text \<open>One scanner after another, and after single bytes.\<close>

lemma streams_bind:
  assumes f: "streams f" and g: "\<And>s bs p. f s = LOk (put_all bs s) p \<Longrightarrow> streams (g p)"
  shows "streams (\<lambda>s. case f s of LErr st msg p \<Rightarrow> LErr st msg p | LOk s' p \<Rightarrow> g p s')"
proof -
  obtain r where r: "\<And>s. f s = into s r" using f by (auto simp: streams_def)
  show ?thesis
  proof (cases r)
    case (LOk bs p)
    then have "f (Count 0) = LOk (put_all bs (Count 0)) p" by (simp add: r)
    from g [OF this] obtain r' where r': "\<And>s. g p s = into s r'" by (auto simp: streams_def)
    show ?thesis
    proof (cases r')
      case (LErr st msg q)
      then show ?thesis using r r' LOk by (intro streamsI [of _ "LErr st msg q"]) simp
    next
      case (LOk bs' q)
      then show ?thesis using r r' \<open>r = _\<close>
        by (intro streamsI [of _ "LOk (bs @ bs') q"]) (simp add: put_all_append)
    qed
  qed (simp add: r streams_err)
qed

lemma streams_after:
  assumes "streams f"
  shows "streams (\<lambda>s. f (putch c s))"
proof -
  have "streams (\<lambda>s. case LOk (putch c s) [] of LErr st msg p \<Rightarrow> LErr st msg p | LOk s' p \<Rightarrow> f s')"
    by (rule streams_bind [OF streams_putch]) (rule assms)
  then show ?thesis by simp
qed

lemma streams_utf8_put: "streams (\<lambda>s. LOk (utf8_put cp s) p)"
  unfolding utf8_put_bytes by (rule streams_put)

lemma streams_scan_line_end: "streams (scan_line_end p)"
  unfolding scan_line_end_def Let_def by (intro streams_if streams_err streams_id)

lemma streams_scan_code_point: "streams (scan_code_point e es)"
proof -
  have "streams (\<lambda>s. lex_bind l (\<lambda>cp r. if P cp then LErr st (m r) r else LOk (utf8_put cp s) r))"
    for l :: "u32 lex" and P :: "u32 \<Rightarrow> bool" and st and m :: "bytes \<Rightarrow> bytes"
    by (cases l) (auto intro: streams_if streams_err streams_utf8_put)
  from this [of _ "\<lambda>_. False"] this show ?thesis
    unfolding scan_code_point_def by (intro streams_if streams_err) simp_all
qed

lemma streams_scan_escape: "streams (scan_escape ml p)"
proof (cases p)
  case (Cons e es)
  have "streams (\<lambda>s. case simple_escape e of Some ch \<Rightarrow> LOk (putch ch s) es | None \<Rightarrow> scan_code_point e es s)"
    by (cases "simple_escape e") (simp_all add: streams_putch streams_scan_code_point)
  then show ?thesis
    unfolding scan_escape_def Cons list.case by (intro streams_if streams_scan_line_end)
qed (auto simp: scan_escape_def intro!: streamsI [of _ "LErr ERR_SYNTAX (lit ''unterminated escape'') []"])

lemma streams_quote_run:
  assumes "\<And>s bs p. quote_run c q s = LOk (put_all bs s, False) p \<Longrightarrow> streams (g p)"
  shows "streams (\<lambda>s. case quote_run c q s of LErr st msg p \<Rightarrow> LErr st msg p
    | LOk (s', fin) p \<Rightarrow> if fin then LOk s' p else g p s')"
proof -
  define n where "n = length (takeWhile (\<lambda>x. x = c) q)"
  define k where "k = (if n \<ge> 3 then n - 3 else n)"
  have run: "quote_run c q s = (if n \<ge> 6 then LErr ERR_SYNTAX (lit ''too many consecutive quotes'') q
      else LOk (put_all (replicate k c) s, n > 2) (adv n q))" for s
    unfolding quote_run_def Let_def n_def k_def ..
  show ?thesis
  proof (cases "n \<ge> 6 \<or> n > 2")
    case True
    then show ?thesis by (cases "n \<ge> 6") (simp_all add: run streams_err streams_put)
  next
    case False
    then have q: "quote_run c q s = LOk (put_all (replicate k c) s, False) (adv n q)" for s by (simp add: run)
    have "streams (\<lambda>s. case LOk (put_all (replicate k c) s) (adv n q) of LErr st msg p \<Rightarrow> LErr st msg p
      | LOk s' p \<Rightarrow> g p s')"
      by (rule streams_bind [OF streams_put]) (use assms q in auto)
    then show ?thesis by (simp add: q)
  qed
qed

lemma streams_scan_basic: "streams (scan_basic ml p)"
proof (induction "length p" arbitrary: p rule: less_induct)
  case less
  show ?case
  proof (cases p)
    case (Cons c cs)
    have rest: "streams (scan_basic ml cs)" "streams (scan_basic ml (adv 1 cs))"
      by (rule less; simp add: Cons adv_def)+
    have qr: "streams (\<lambda>s. case quote_run c (c # cs) s of LErr st msg p \<Rightarrow> LErr st msg p
      | LOk (s', fin) p \<Rightarrow> if fin then LOk s' p else scan_basic ml p s')"
      by (rule streams_quote_run) (use less quote_run_shorter in \<open>fastforce simp: Cons\<close>)
    have esc: "streams (\<lambda>s. case scan_escape ml cs s of LErr st msg p \<Rightarrow> LErr st msg p
      | LOk s' p \<Rightarrow> scan_basic ml p s')"
      by (rule streams_bind [OF streams_scan_escape]) (use less scan_escape_shorter in \<open>fastforce simp: Cons\<close>)
    show ?thesis
      unfolding Cons scan_basic.simps
      by (intro streams_if streams_err streams_id qr esc rest streams_after [OF rest(1)] streams_after [OF rest(2)])
  qed (auto intro!: streamsI [of _ "LErr ERR_SYNTAX (lit ''unterminated string'') []"])
qed

lemma streams_scan_literal: "streams (scan_literal ml p)"
proof (induction "length p" arbitrary: p rule: less_induct)
  case less
  show ?case
  proof (cases p)
    case (Cons c cs)
    have rest: "streams (scan_literal ml cs)" "streams (scan_literal ml (adv 1 cs))"
      by (rule less; simp add: Cons adv_def)+
    have qr: "streams (\<lambda>s. case quote_run c (c # cs) s of LErr st msg p \<Rightarrow> LErr st msg p
      | LOk (s', fin) p \<Rightarrow> if fin then LOk s' p else scan_literal ml p s')"
      by (rule streams_quote_run) (use less quote_run_shorter in \<open>fastforce simp: Cons\<close>)
    show ?thesis
      unfolding Cons scan_literal.simps
      by (intro streams_if streams_err streams_id qr rest streams_after [OF rest(1)] streams_after [OF rest(2)])
  qed (auto intro!: streamsI [of _ "LErr ERR_SYNTAX (lit ''unterminated string'') []"])
qed

lemma streams_scan_quoted: "streams (scan_quoted basic ml p)"
  unfolding scan_quoted_def by (intro streams_if streams_scan_basic streams_scan_literal)

text \<open>The counted length is the decoded length, and the buffer of the second pass holds it.\<close>

lemma decode_body_split:
  assumes "scan_quoted basic ml (ps_p ps) (Count 0) = LOk (Count n) p"
  obtains bs where "length bs = n"
    and "\<And>s. scan_quoted basic ml (ps_p ps) s = LOk (put_all bs s) p"
proof -
  obtain r where r: "\<And>s. scan_quoted basic ml (ps_p ps) s = into s r"
    using streams_scan_quoted [of basic ml "ps_p ps"] unfolding streams_def by blast
  obtain bs q where "r = LOk bs q" using assms r [of "Count 0"] by (cases r) auto
  then show thesis using that [of bs] assms r by (simp add: put_all_Count)
qed

lemma doc_alloc_p: "doc_alloc ps n = Some ps' \<Longrightarrow> ps_p ps' = ps_p ps"
  by (auto simp: doc_alloc_def set_doc_def split: option.splits)

lemma decode_body_result:
  "\<exists>r. (\<forall>s. scan_quoted basic ml (ps_p ps) s = into s r) \<and>
    decode_body ps basic ml =
      (case r of
         LErr st msg p \<Rightarrow> fail_at (set_p p ps) None st msg
       | LOk bs p \<Rightarrow> (case doc_alloc ps (length bs + 1) of
           None \<Rightarrow> oom (set_p p ps)
         | Some ps' \<Rightarrow> Ok bs (set_p p ps')))"
proof -
  obtain r where r: "\<And>s. scan_quoted basic ml (ps_p ps) s = into s r"
    using streams_scan_quoted [of basic ml "ps_p ps"] unfolding streams_def by blast
  have "decode_body ps basic ml = (case r of
         LErr st msg p \<Rightarrow> fail_at (set_p p ps) None st msg
       | LOk bs p \<Rightarrow> (case doc_alloc ps (length bs + 1) of
           None \<Rightarrow> oom (set_p p ps)
         | Some ps' \<Rightarrow> Ok bs (set_p p ps')))"
  proof (cases r)
    case (LOk bs p)
    show ?thesis
    proof (cases "doc_alloc ps (length bs + 1)")
      case (Some ps')
      have "drop (length bs) (replicate (length bs + 1) (0 :: byte)) = [0]" by (subst drop_replicate) simp
      then have "put_all bs (Buf (replicate (length bs + 1) 0) 0) = Buf (bs @ [0]) (length bs)"
        by (subst put_all_Buf) simp_all
      then show ?thesis
        using Some by (simp add: decode_body_def r LOk put_all_Count doc_alloc_p [OF Some])
    qed (simp add: decode_body_def r LOk put_all_Count)
  qed (simp add: decode_body_def r)
  then show ?thesis using r by blast
qed

subsection \<open>The vector kernel\<close>

lemma bit_movemask: "n < 32 \<Longrightarrow> bit (movemask bs) n \<longleftrightarrow> n < length bs \<and> bs ! n"
proof (induction bs arbitrary: n)
  case (Cons b bs)
  have "bit (push_bit 1 (movemask bs)) n \<longleftrightarrow> 0 < n \<and> bit (movemask bs) (n - 1)"
    using Cons.prems by (subst bit_push_bit_iff) auto
  moreover have "bit (if b then 1 else 0 :: u32) n \<longleftrightarrow> n = 0 \<and> b"
    by (simp add: bit_1_iff)
  ultimately show ?case
    using Cons by (cases n) (simp_all only: movemask.simps bit_or_iff, auto)
qed simp

lemma movemask_zero:
  assumes "length bs \<le> 32"
  shows "movemask bs = 0 \<longleftrightarrow> \<not> (\<exists>i < length bs. bs ! i)"
proof -
  have "movemask bs = 0 \<longleftrightarrow> (\<forall>n < 32. \<not> bit (movemask bs) n)"
  proof
    assume "\<forall>n < 32. \<not> bit (movemask bs) n"
    then show "movemask bs = 0" by (intro bit_word_eqI) simp
  qed simp
  then show ?thesis using assms bit_movemask by (auto intro: less_le_trans)
qed

text \<open>A promoted \<open>unsigned char\<close> equals a promoted \<open>char\<close> only on an ASCII byte.\<close>

lemma char_eq_iff [simp]: "uint (c :: byte) = sint (q :: byte) \<longleftrightarrow> c = q \<and> q < 0x80"
proof
  assume eq: "uint c = sint q"
  have "q = word_of_int (sint q)" by simp
  then have c: "c = q" by (simp flip: eq)
  then have "uint q < 128" using sint_lt [of q] eq by simp
  then show "c = q \<and> q < 0x80" using c by (simp add: word_less_def)
next
  assume a: "c = q \<and> q < 0x80"
  then have lt: "uint q < 128" by (simp add: word_less_def)
  have "- 128 \<le> uint q" using uint_ge_0 [of q] by linarith
  then show "uint c = sint q" using a lt by (simp add: sint_uint signed_take_bit_int_eq_self)
qed

lemma tail_stop_iff:
  "tail_stop q e c \<longleftrightarrow>
    c = q \<and> q < 0x80 \<or> c = e \<and> e < 0x80 \<or> (c < 0x20 \<and> c \<noteq> TAB) \<or> c = DEL"
  by (simp only: tail_stop_def char_eq_iff)

lemma tail_stop_ascii:
  "q < 0x80 \<Longrightarrow> e < 0x80 \<Longrightarrow>
   tail_stop q e c \<longleftrightarrow> c = q \<or> c = e \<or> (c < 0x20 \<and> c \<noteq> TAB) \<or> c = DEL"
  by (simp add: tail_stop_iff)

lemma lane_stop_eq:
  assumes "q < 0x80" "e < 0x80"
  shows "lane_stop q e v = tail_stop q e v"
proof -
  have "(v < 0x20 \<or> v = 0x20) = ((if v < 0x20 then 0 else v - 0x20) = 0)" by auto
  then show ?thesis
    using assms unfolding lane_stop_def tail_stop_def Let_def char_eq_iff by (auto split: if_splits)
qed

text \<open>Outside ASCII the two disagree: the lanes meet the byte, the tail runs over it.\<close>

lemma lane_stop_high:
  assumes "0x80 \<le> q"
  shows "lane_stop q 0 q" "\<not> tail_stop q 0 q"
proof -
  have "q \<noteq> 0" "\<not> q < 0x20" "q \<noteq> DEL" using assms by (auto simp: word_less_nat_alt word_le_nat_alt)
  then show "lane_stop q 0 q" "\<not> tail_stop q 0 q" using assms by (auto simp: lane_stop_def tail_stop_iff)
qed

lemma str_stop_tail_eq: "str_stop_tail p q e = length (takeWhile (\<lambda>c. \<not> tail_stop q e c) p)"
  by (induction p) simp_all

lemma takeWhile_Not_nth: "i < length (takeWhile Not bs) \<Longrightarrow> \<not> bs ! i"
  by (induction bs arbitrary: i) (auto simp: nth_Cons' split: if_splits)

lemma first_upt:
  assumes "\<And>i. i < k \<Longrightarrow> P i" "\<not> P k" "k < n"
  shows "length (takeWhile P [0..<n]) = k"
proof -
  have "takeWhile P [0..<n] = take k [0..<n]"
    using assms by (intro takeWhile_eq_take_P_nth) auto
  then show ?thesis using assms(3) by simp
qed

lemma ctz32_movemask:
  assumes "length bs \<le> 32" "\<exists>i < length bs. bs ! i"
  shows "ctz32 (movemask bs) = length (takeWhile Not bs)"
proof -
  let ?k = "length (takeWhile Not bs)"
  have "\<exists>x \<in> set bs. \<not> Not x" using assms(2) by (metis nth_mem)
  then have "takeWhile Not bs \<noteq> bs" unfolding takeWhile_eq_all_conv by blast
  then have k: "?k < length bs"
    using length_takeWhile_le [of Not bs] takeWhile_eq_take [of Not bs] by (metis le_neq_implies_less take_all_iff)
  have kth: "bs ! ?k" using nth_length_takeWhile [OF k] by blast
  have k32: "?k < 32" using k assms(1) by simp
  show ?thesis
    unfolding ctz32_def
  proof (rule first_upt [OF _ _ k32])
    show "\<not> bit (movemask bs) i" if "i < ?k" for i
      using takeWhile_Not_nth [OF that] bit_movemask [of i bs] that k32 by auto
    show "\<not> \<not> bit (movemask bs) ?k" using k kth bit_movemask [OF k32] by blast
  qed
qed

lemma takeWhile_map_Not: "length (takeWhile Not (map P xs)) = length (takeWhile (\<lambda>x. \<not> P x) xs)"
  by (induction xs) simp_all

lemma simd_str_stop_eq:
  assumes "q < 0x80" "e < 0x80"
  shows "simd_str_stop p q e = length (takeWhile (\<lambda>c. \<not> tail_stop q e c) p)"
  using assms
proof (induction p q e rule: simd_str_stop.induct)
  case (1 p q e)
  let ?P = "\<lambda>c. \<not> tail_stop q e c" let ?bs = "map (lane_stop q e) (take 16 p)"
  show ?case
  proof (cases "16 \<le> length p")
    case True
    have len: "length ?bs = 16" using True by simp
    have mz: "movemask ?bs = 0 \<longleftrightarrow> \<not> (\<exists>i < length ?bs. ?bs ! i)" by (rule movemask_zero) (simp only: len)
    have bs: "?bs = map (tail_stop q e) (take 16 p)" using "1.prems" by (simp add: lane_stop_eq)
    have p: "takeWhile ?P p = takeWhile ?P (take 16 p @ drop 16 p)" by simp
    show ?thesis
    proof (cases "movemask ?bs = 0")
      case False
      with mz have ex: "\<exists>i < length ?bs. ?bs ! i" by blast
      then have "\<exists>x \<in> set ?bs. x" by (metis nth_mem)
      then obtain x where "x \<in> set (take 16 p)" "tail_stop q e x"
        using "1.prems" by (auto simp: lane_stop_eq)
      then have "takeWhile ?P p = takeWhile ?P (take 16 p)" unfolding p by (simp only: takeWhile_append1 simp_thms)
      then show ?thesis
        using True False ctz32_movemask [OF _ ex] len
        by (subst simd_str_stop.simps) (simp add: bs takeWhile_map_Not)
    next
      case zero: True
      with mz have "\<not> (\<exists>x \<in> set ?bs. x)" by (metis in_set_conv_nth)
      then have "\<forall>x \<in> set (take 16 p). ?P x" using "1.prems" by (auto simp: lane_stop_eq)
      then have "takeWhile ?P p = take 16 p @ takeWhile ?P (drop 16 p)"
        unfolding p by (intro takeWhile_append2) blast
      then show ?thesis
        using True zero "1.IH" [OF True refl _ "1.prems"] by (subst simd_str_stop.simps) simp
    qed
  qed (subst simd_str_stop.simps, simp add: str_stop_tail_eq)
qed

subsection \<open>The plain-body path\<close>

definition clean :: "byte \<Rightarrow> byte \<Rightarrow> bool" where
  "clean close c \<longleftrightarrow> c \<noteq> close \<and> \<not> is_ctrl c \<and> (close = DQUOTE \<longrightarrow> c \<noteq> BACKSLASH)"

lemma clean_ctrl: "clean close c \<Longrightarrow> c \<noteq> LF \<and> c \<noteq> CR \<and> \<not> is_ctrl c"
  by (auto simp: clean_def is_ctrl_def)

lemma scan_basic_clean:
  "list_all (clean DQUOTE) w \<Longrightarrow> scan_basic ml (w @ r) s = scan_basic ml r (put_all w s)"
proof (induction w arbitrary: s)
  case (Cons c w)
  then have "c \<noteq> DQUOTE" "c \<noteq> BACKSLASH" "c \<noteq> LF" "c \<noteq> CR" "\<not> is_ctrl c"
    using clean_ctrl [of DQUOTE c] by (simp_all add: clean_def)
  then show ?case using Cons by simp
qed simp

lemma scan_literal_clean:
  "list_all (clean SQUOTE) w \<Longrightarrow> scan_literal ml (w @ r) s = scan_literal ml r (put_all w s)"
proof (induction w arbitrary: s)
  case (Cons c w)
  then have "c \<noteq> SQUOTE" "c \<noteq> LF" "c \<noteq> CR" "\<not> is_ctrl c"
    using clean_ctrl [of SQUOTE c] by (simp_all add: clean_def)
  then show ?case using Cons by simp
qed simp

lemma scan_quoted_clean:
  assumes "close = DQUOTE \<or> close = SQUOTE" "list_all (clean close) w"
  shows "scan_quoted (close = DQUOTE) False (w @ close # r) s = LOk (put_all w s) r"
  using assms(1)
proof
  assume "close = DQUOTE"
  then show ?thesis
    using scan_basic_clean [of w False "close # r" s] assms(2) by (simp add: scan_quoted_def)
next
  assume "close = SQUOTE"
  then show ?thesis
    using scan_literal_clean [of w False "close # r" s] assms(2) by (simp add: scan_quoted_def)
qed

lemma plain_loop_Some:
  "plain_loop close p = Some n \<Longrightarrow> n < length p \<and> p ! n = close \<and> list_all (clean close) (take n p)"
proof (induction p arbitrary: n)
  case (Cons c cs)
  then show ?case
    by (cases n) (auto simp: clean_def is_ctrl_def split: if_splits)
qed simp

lemma takeWhile_full: "\<not> length (takeWhile P w) < length w \<Longrightarrow> \<forall>x \<in> set w. P x"
  by (induction w) (auto split: if_splits)

lemma takeWhile_then:
  assumes "length (takeWhile (\<lambda>c. c \<noteq> x) p) \<noteq> length p"
  shows "\<exists>r. p = takeWhile (\<lambda>c. c \<noteq> x) p @ x # r"
  using assms by (induction p) auto

lemma try_plain_body_Some:
  assumes "try_plain_body close p = Some w" "close = DQUOTE \<or> close = SQUOTE"
  shows "\<exists>r. p = w @ close # r \<and> list_all (clean close) w"
proof (cases "32 \<le> length p")
  case True
  let ?w = "takeWhile (\<lambda>c. c \<noteq> close) p" let ?esc = "if close = DQUOTE then BACKSLASH else 0"
  have esc: "?esc < 0x80" and zero: "(0 :: byte) < 0x80" by simp_all
  have off: "length ?w \<noteq> length p" and w: "w = take (length ?w) p"
    and bad: "\<not> simd_str_stop (take (length ?w) p) ?esc 0 < length ?w"
    using assms(1) True by (auto simp: try_plain_body_def Let_def split: if_splits)
  have w': "w = ?w" by (subst w) (rule takeWhile_eq_take [symmetric])
  obtain r where r: "p = ?w @ close # r" using takeWhile_then [OF off] by blast
  have "\<not> length (takeWhile (\<lambda>c. \<not> tail_stop ?esc 0 c) w) < length w"
    using bad unfolding simd_str_stop_eq [OF esc zero] w [symmetric] by (simp only: w' not_False_eq_True)
  then have "\<forall>c \<in> set w. \<not> tail_stop ?esc 0 c" by (rule takeWhile_full)
  moreover have "\<forall>c \<in> set w. c \<noteq> close" unfolding w' by (auto dest: set_takeWhileD)
  ultimately have "list_all (clean close) w"
    using assms(2) by (auto simp: list_all_iff clean_def tail_stop_ascii [OF esc zero] is_ctrl_def)
  then show ?thesis using r w' by auto
next
  case False
  then obtain n where n: "plain_loop close p = Some n" and w: "w = take n p"
    using assms(1) by (auto simp: try_plain_body_def)
  have "p = take n p @ p ! n # drop (Suc n) p"
    using plain_loop_Some [OF n] by (intro id_take_nth_drop) simp
  then show ?thesis using plain_loop_Some [OF n] w by auto
qed

lemma try_plain_body_clean:
  assumes "close = DQUOTE \<or> close = SQUOTE" "list_all (clean close) w"
    and "close = SQUOTE \<Longrightarrow> 31 \<le> length (w @ r) \<or> BACKSLASH \<notin> set w"
  shows "try_plain_body close (w @ close # r) = Some w"
proof -
  have ne: "\<forall>c \<in> set w. c \<noteq> close" using assms(2) by (auto simp: list_all_iff clean_def)
  have tw: "takeWhile (\<lambda>c. c \<noteq> close) (w @ close # r) = w" using ne by (simp add: takeWhile_append2)
  let ?esc = "if close = DQUOTE then BACKSLASH else 0"
  have esc: "?esc < 0x80" and zero: "(0 :: byte) < 0x80" by simp_all
  have "\<forall>c \<in> set w. \<not> tail_stop ?esc 0 c"
    using assms(1,2) by (auto simp: list_all_iff clean_def tail_stop_ascii [OF esc zero] is_ctrl_def)
  then have "takeWhile (\<lambda>c. \<not> tail_stop ?esc 0 c) w = w" by (simp add: takeWhile_eq_all_conv)
  then have long: "simd_str_stop w ?esc 0 = length w" by (simp only: simd_str_stop_eq [OF esc zero])
  have "plain_loop close (w @ close # r) = Some (length w)" if "BACKSLASH \<notin> set w \<or> close = DQUOTE"
    using that assms(2) by (induction w) (auto simp: clean_def is_ctrl_def)
  then show ?thesis using assms(1,3) tw long by (auto simp: try_plain_body_def Let_def)
qed

subsection \<open>Properties\<close>

text \<open>C12: the counting pass and the decoding pass of a quoted string see the same bytes: the
  buffer, allocated for the count and a terminator, is filled to the count and never
  overrun, so decoding a body returns the decoded bytes, an error at the place of the first
  pass, or out of memory, and nothing else.\<close>

theorem decode_two_passes:
  "\<exists>r. (\<forall>s. scan_quoted basic ml (ps_p ps) s = into s r) \<and>
    decode_body ps basic ml =
      (case r of
         LErr st msg p \<Rightarrow> fail_at (set_p p ps) None st msg
       | LOk bs p \<Rightarrow> (case doc_alloc ps (length bs + 1) of
           None \<Rightarrow> oom (set_p p ps)
         | Some ps' \<Rightarrow> Ok bs (set_p p ps')))"
  by (rule decode_body_result)

text \<open>C13: for the stop bytes of ASCII, the vector kernel (saturating subtraction, comparisons,
  move-mask, trailing-zero count, sixteen lanes at a time) stops at the same byte as the
  scalar loop of its tail, whose comparisons are of an unsigned with a signed \<open>char\<close>.\<close>

theorem vector_stop_scalar:
  assumes "q < 0x80" "e < 0x80"
  shows "simd_str_stop p q e = str_stop_tail p q e"
  using assms by (simp add: simd_str_stop_eq str_stop_tail_eq)

lemma vector_stop_scalar_witness:
  "simd_str_stop (replicate 17 0x61 @ [BACKSLASH, LF]) BACKSLASH 0 = 17"
proof -
  have "str_stop_tail (replicate 17 0x61 @ [BACKSLASH, LF]) BACKSLASH 0 = 17" by code_simp
  moreover have "BACKSLASH < (0x80 :: byte)" by simp
  ultimately show ?thesis
    using vector_stop_scalar [of BACKSLASH 0 "replicate 17 0x61 @ [BACKSLASH, LF]"] by simp
qed

lemma plain_body_scan:
  assumes "try_plain_body close p = Some w" "close = DQUOTE \<or> close = SQUOTE"
  shows "scan_quoted (close = DQUOTE) False p s = LOk (put_all w s) (drop (length w + 1) p)"
proof -
  obtain r where "p = w @ close # r" "list_all (clean close) w"
    using try_plain_body_Some [OF assms] by blast
  then show ?thesis using scan_quoted_clean [OF assms(2)] by simp
qed

text \<open>C14: a body the fast path claims is the one the scanners decode: same content, same rest.\<close>

theorem plain_body_decodes:
  assumes "try_plain_body close p = Some w" "close = DQUOTE \<or> close = SQUOTE"
  shows "scan_quoted (close = DQUOTE) False p s = LOk (put_all w s) (drop (length w + 1) p)"
  using plain_body_scan [OF assms] .

lemma plain_body_decodes_witness:
  "scan_quoted True False (lit ''ab'' @ [DQUOTE, LF]) (Count 0) = LOk (Count 2) [LF]"
proof -
  have "try_plain_body DQUOTE (lit ''ab'' @ [DQUOTE, LF]) = Some (lit ''ab'')" by code_simp
  from plain_body_decodes [OF this, of "Count 0"] show ?thesis by (simp add: lit_def)
qed

end
