(* ===== verification/Numbers.thy ===== *)
theory Numbers
  imports Strings
begin

text \<open>
  The number parser of \<open>parse/scalars.c\<close>: \<open>expect_word\<close>, the digit scanners with
  their underscore rules, \<open>mag_from\<close> with its overflow test, the plain-digits fast path, the
  zero-copy float path with the one-multiplication case, the copying float path and the slow
  decimal path. Doubles are their 64 bits; the arithmetic the fast path uses on them is
  IEEE round-to-nearest-even, written out. The number library under \<open>common/ryu\<close> and
  \<open>strtod\<close> are parameters of the routines that call them.
\<close>

subsection \<open>Doubles\<close>

text \<open>The functions of other libraries: \<open>teptris_ryu_s2d_n\<close> (or its failure), \<open>strtod\<close>.\<close>

record fops =
  s2d_n :: "bytes \<Rightarrow> u64 option"
  strtod :: "bytes \<Rightarrow> u64"

abbreviation (input) F64_INF :: u64 where "F64_INF \<equiv> 0x7FF0000000000000"
abbreviation (input) F64_NAN :: u64 where "F64_NAN \<equiv> 0x7FF8000000000000"

definition f64_neg :: "u64 \<Rightarrow> u64" where
  "f64_neg x = x XOR 0x8000000000000000"

fun bitlen :: "nat \<Rightarrow> nat" where
  "bitlen n = (if n = 0 then 0 else Suc (bitlen (n div 2)))"

declare bitlen.simps [simp del]

text \<open>The quotient to the nearest integer, ties to even.\<close>

definition round_div :: "nat \<Rightarrow> nat \<Rightarrow> nat" where
  "round_div a b =
    (let q = a div b; r = a mod b
     in if 2 * r < b then q else if 2 * r > b then Suc q else if even q then q else Suc q)"

text \<open>
  The positive double nearest to \<open>num / den\<close>: the exponent \<open>e\<close> puts the significand
  between 2^52 and 2^53, or is the smallest one; the bits are the exponent field, counted
  from that smallest exponent, plus the significand, capped at infinity.
\<close>

definition scaled :: "nat \<Rightarrow> nat \<Rightarrow> int \<Rightarrow> nat \<times> nat" where
  "scaled num den e = (if 0 \<le> e then (num, den * 2 ^ nat e) else (num * 2 ^ nat (- e), den))"

definition f64_exp :: "nat \<Rightarrow> nat \<Rightarrow> int" where
  "f64_exp num den =
    (let e0 = int (bitlen num) - int (bitlen den) - 52;
         (n, d) = scaled num den e0
     in max (- 1074) (if n < 2 ^ 52 * d then e0 - 1 else e0))"

definition f64_round :: "nat \<Rightarrow> nat \<Rightarrow> u64" where
  "f64_round num den =
    (if num = 0 then 0
     else (let e = f64_exp num den;
               (n, d) = scaled num den e;
               bits = nat (e + 1074) * 2 ^ 52 + round_div n d
           in if bits \<ge> 0x7FF0000000000000 then F64_INF else of_nat bits))"

text \<open>The value of a positive finite double as a fraction, and the operations on such values.\<close>

definition f64_frac :: "u64 \<Rightarrow> nat \<times> nat" where
  "f64_frac x =
    (let ex = unat x div 2 ^ 52 mod 2048; m = unat x mod 2 ^ 52;
         sig = (if ex = 0 then m else 2 ^ 52 + m);
         e = (if ex = 0 then 1 else ex)
     in if e \<ge> 1075 then (sig * 2 ^ (e - 1075), 1) else (sig, 2 ^ (1075 - e)))"

definition f64_of_u64 :: "u64 \<Rightarrow> u64" where
  "f64_of_u64 n = f64_round (unat n) 1"

definition f64_mul :: "u64 \<Rightarrow> u64 \<Rightarrow> u64" where
  "f64_mul x y =
    (let (a, b) = f64_frac x; (c, d) = f64_frac y in f64_round (a * c) (b * d))"

definition f64_div :: "u64 \<Rightarrow> u64 \<Rightarrow> u64" where
  "f64_div x y =
    (let (a, b) = f64_frac x; (c, d) = f64_frac y in f64_round (a * d) (b * c))"

text \<open>The table \<open>pow10\<close> of the source: the literals \<open>1e0\<close> to \<open>1e22\<close>.\<close>

definition pow10 :: "nat \<Rightarrow> u64" where
  "pow10 k = f64_round (10 ^ k) 1"

subsection \<open>Words and digits\<close>

definition expect_word :: "bytes \<Rightarrow> bytes \<Rightarrow> unit lex" where
  "expect_word w p =
    (if length p < length w \<or> take (length w) p \<noteq> w
     then LErr ERR_SYNTAX (lit ''invalid value'') p
     else LOk () (adv (length w) p))"

definition digit_for :: "byte \<Rightarrow> nat \<Rightarrow> bool" where
  "digit_for c radix =
    (if radix = 10 then is_dec c
     else if radix = 16 then is_hex c
     else if radix = 8 then 0x30 \<le> c \<and> c \<le> 0x37
     else if radix = 2 then c = 0x30 \<or> c = 0x31
     else False)"

definition hexval :: "byte \<Rightarrow> u32" where
  "hexval c = (if c \<le> 0x39 then ucast c - 0x30 else ucast (c OR 0x20) - 0x61 + 10)"

abbreviation (input) TEP_NUM_MAX :: nat where "TEP_NUM_MAX \<equiv> 512"

text \<open>The loop of \<open>scan_run\<close>: the buffer so far and whether the last byte was a digit.\<close>

fun scan_run_loop :: "nat \<Rightarrow> bytes \<Rightarrow> bool \<Rightarrow> bytes \<Rightarrow> (bytes \<times> bool) lex" where
  "scan_run_loop radix buf prev [] = LOk (buf, prev) []"
| "scan_run_loop radix buf prev (c # cs) =
    (if digit_for c radix then
       (if length buf = TEP_NUM_MAX - 1
        then LErr ERR_SYNTAX (lit ''number too long'') (c # cs)
        else scan_run_loop radix (buf @ [c]) True cs)
     else if c = UNDERSCORE then
       (if \<not> prev then LErr ERR_SYNTAX (lit ''underscore must be between digits'') (c # cs)
        else scan_run_loop radix buf False cs)
     else LOk (buf, prev) (c # cs))"

definition scan_run :: "nat \<Rightarrow> bytes \<Rightarrow> bytes lex" where
  "scan_run radix p =
    lex_bind (scan_run_loop radix [] False p) (\<lambda>(buf, prev) r.
      if buf = [] then LErr ERR_SYNTAX (lit ''expected digits'') r
      else if \<not> prev then LErr ERR_SYNTAX (lit ''trailing underscore in number'') r
      else LOk buf r)"

fun mag_from :: "u64 \<Rightarrow> bytes \<Rightarrow> u32 \<Rightarrow> u64 option" where
  "mag_from v [] radix = Some v"
| "mag_from v (c # cs) radix =
    (let d = hexval c
     in if v > (0xFFFFFFFFFFFFFFFF - ucast d) div ucast radix then None
        else mag_from (v * ucast radix + ucast d) cs radix)"

text \<open>The Horner loops over plain digits.\<close>

fun dec_run :: "u64 \<Rightarrow> bytes \<Rightarrow> u64 \<times> bytes" where
  "dec_run mag [] = (mag, [])"
| "dec_run mag (c # cs) =
    (if is_dec c then dec_run (mag * 10 + ucast (c - 0x30)) cs else (mag, c # cs))"

fun frac_run :: "u64 \<Rightarrow> nat \<Rightarrow> bytes \<Rightarrow> u64 \<times> nat \<times> bytes" where
  "frac_run fmag fdig [] = (fmag, fdig, [])"
| "frac_run fmag fdig (c # cs) =
    (if is_dec c then
       (if fdig < 18 then frac_run (fmag * 10 + ucast (c - 0x30)) (Suc fdig) cs
        else frac_run fmag fdig cs)
     else (fmag, fdig, c # cs))"

fun exp_run :: "int \<Rightarrow> bytes \<Rightarrow> int \<times> bytes" where
  "exp_run e10 [] = (e10, [])"
| "exp_run e10 (c # cs) =
    (if is_dec c then exp_run (if e10 < 100000 then e10 * 10 + (uint c - 48) else e10) cs
     else (e10, c # cs))"

subsection \<open>Floats without copying\<close>

text \<open>The peek over the fraction and the exponent; \<open>None\<close> is \<open>ok = false\<close>.\<close>

definition peek_frac :: "u64 \<Rightarrow> bytes \<Rightarrow> (u64 \<times> nat \<times> bytes) option" where
  "peek_frac mag q =
    (if starts DOT q then
       (case tl q of
          [] \<Rightarrow> None
        | c # cs \<Rightarrow>
            (if is_dec c then
               (case frac_run mag 0 (c # cs) of
                  (fmag, fdig, r) \<Rightarrow> (if starts UNDERSCORE r then None else Some (fmag, fdig, r)))
             else None))
     else Some (mag, 0, q))"

definition starts_exp :: "bytes \<Rightarrow> bool" where
  "starts_exp q \<longleftrightarrow> starts 0x65 q \<or> starts 0x45 q"

definition peek_exp :: "bytes \<Rightarrow> (int \<times> bytes) option" where
  "peek_exp q =
    (if starts_exp q then
       (let q1 = tl q;
            eneg = starts MINUS q1;
            q2 = (if starts PLUS q1 \<or> starts MINUS q1 then tl q1 else q1)
        in case q2 of
             [] \<Rightarrow> None
           | c # cs \<Rightarrow>
               (if is_dec c then
                  (case exp_run 0 (c # cs) of
                     (e10, r) \<Rightarrow>
                       (if starts UNDERSCORE r then None
                        else Some (if eneg then - e10 else e10, r)))
                else None))
     else Some (0, q))"

text \<open>One exact multiplication or division by a power of ten.\<close>

definition clinger :: "bool \<Rightarrow> u64 \<Rightarrow> int \<Rightarrow> u64" where
  "clinger neg fmag dexp =
    (let base = f64_of_u64 fmag;
         dv = (if 0 \<le> dexp then f64_mul base (pow10 (nat dexp))
               else f64_div base (pow10 (nat (- dexp))))
     in if neg then f64_neg dv else dv)"

text \<open>
  The zero-copy path: \<open>dstart\<close> is the cursor at the first digit, \<open>q\<close> the cursor behind the
  integer digits. Some value with the cursor behind the number, or fall through.
\<close>

definition peek_float :: "fops \<Rightarrow> bool \<Rightarrow> bytes \<Rightarrow> nat \<Rightarrow> u64 \<Rightarrow> bytes \<Rightarrow> (u64 \<times> bytes) option" where
  "peek_float fo neg dstart dlen mag q0 =
    (case peek_frac mag q0 of
       None \<Rightarrow> None
     | Some (fmag, fdig, q1) \<Rightarrow>
         (case peek_exp q1 of
            None \<Rightarrow> None
          | Some (e10, q) \<Rightarrow>
              (let e_of = (e10 > 400 \<or> e10 < - 400);
                   dexp = e10 - int fdig;
                   sig = dlen + fdig
               in if \<not> e_of \<and> sig \<le> 15 \<and> - 22 \<le> dexp \<and> dexp \<le> 22
                  then Some (clinger neg fmag dexp, q)
                  else (let span = (if neg then [MINUS] else []) @
                                     take (length dstart - length q) dstart
                        in map_option (\<lambda>dv. (dv, q)) (s2d_n fo span)))))"

subsection \<open>Floats through the buffer\<close>

abbreviation (input) FBUF_SIZE :: nat where "FBUF_SIZE \<equiv> 1032"

fun copy_digits :: "nat \<Rightarrow> sink \<Rightarrow> bytes \<Rightarrow> sink \<times> bytes" where
  "copy_digits limit s [] = (s, [])"
| "copy_digits limit s (c # cs) =
    (if is_dec c then copy_digits limit (if sink_len s < limit then putch c s else s) cs
     else (s, c # cs))"

text \<open>
  The bounded copy of fraction and exponent. \<open>LOk None\<close> is the jump to \<open>slow_decimal\<close>.
\<close>

definition copy_frac :: "sink \<Rightarrow> bytes \<Rightarrow> sink option lex" where
  "copy_frac s p =
    (if starts DOT p then
       (case copy_digits (FBUF_SIZE - 24) (putch DOT s) (tl p) of
          (s', r) \<Rightarrow>
            (if length r = length (tl p) then LErr ERR_SYNTAX (lit ''expected digits'') r
             else if starts UNDERSCORE r then LOk None r
             else LOk (Some s') r))
     else LOk (Some s) p)"

definition copy_exp :: "sink \<Rightarrow> bytes \<Rightarrow> sink option lex" where
  "copy_exp s p =
    (if starts_exp p then
       (let s1 = putch 0x65 s; p1 = tl p;
            sgn = (starts PLUS p1 \<or> starts MINUS p1);
            s2 = (if sgn then putch (hd p1) s1 else s1);
            p2 = (if sgn then tl p1 else p1)
        in case copy_digits (FBUF_SIZE - 8) s2 p2 of
             (s', r) \<Rightarrow>
               (if length r = length p2 then LErr ERR_SYNTAX (lit ''expected digits'') r
                else if starts UNDERSCORE r then LOk None r
                else LOk (Some s') r))
     else LOk (Some s) p)"

text \<open>The terminated buffer handed to the number library; \<open>None\<close> when a store was outside.\<close>

fun fbuf_text :: "sink \<Rightarrow> bytes option" where
  "fbuf_text (Buf out n) = (if n < length out then Some (take n out) else None)"
| "fbuf_text _ = None"

definition fbuf_new :: sink where
  "fbuf_new = Buf (replicate FBUF_SIZE 0) 0"

definition fbuf_value :: "fops \<Rightarrow> bytes \<Rightarrow> u64" where
  "fbuf_value fo txt = (case s2d_n fo txt of Some d \<Rightarrow> d | None \<Rightarrow> strtod fo txt)"

definition float_from_buf :: "fops \<Rightarrow> parser \<Rightarrow> sink \<Rightarrow> addr res" where
  "float_from_buf fo ps s =
    (case fbuf_text s of
       None \<Rightarrow> Undef
     | Some txt \<Rightarrow> value_node ps K_FLOAT (P_Float (fbuf_value fo txt)))"

subsection \<open>The slow decimal path\<close>

text \<open>\<open>slow_decimal\<close>: separate the digit runs, check, and store them one after another.\<close>

definition slow_frac :: "sink \<Rightarrow> bytes \<Rightarrow> sink lex" where
  "slow_frac s p =
    (if starts DOT p
     then lex_bind (scan_run 10 (adv 1 p)) (\<lambda>frac r. LOk (put_all frac (putch DOT s)) r)
     else LOk s p)"

definition slow_exp :: "sink \<Rightarrow> bytes \<Rightarrow> sink lex" where
  "slow_exp s p =
    (if starts_exp p then
       (let p1 = adv 1 p;
            sgn = (starts PLUS p1 \<or> starts MINUS p1);
            s1 = putch 0x65 s;
            s2 = (if sgn then putch (hd p1) s1 else s1);
            p2 = (if sgn then adv 1 p1 else p1)
        in lex_bind (scan_run 10 p2) (\<lambda>ex r. LOk (put_all ex s2) r))
     else LOk s p)"

definition slow_float :: "fops \<Rightarrow> parser \<Rightarrow> bool \<Rightarrow> bytes \<Rightarrow> addr res" where
  "slow_float fo ps neg buf =
    (let s0 = put_all buf (if neg then putch MINUS fbuf_new else fbuf_new)
     in res_bind (run_lex ps (lex_bind (slow_frac s0 (ps_p ps)) slow_exp))
          (\<lambda>s ps. float_from_buf fo ps s))"

definition syntax_fail :: "parser \<Rightarrow> string \<Rightarrow> 'a res" where
  "syntax_fail ps msg = fail_at ps None ERR_SYNTAX (lit msg)"

text \<open>The node is made first; the range of the signed value is checked after it.\<close>

definition int_node :: "parser \<Rightarrow> bool \<Rightarrow> u64 \<Rightarrow> addr res" where
  "int_node ps neg mag =
    (case dom_new_node (ps_doc ps) K_INTEGER of
       None \<Rightarrow> oom ps
     | Some (n, doc) \<Rightarrow>
         (if mag > (if neg then 9223372036854775808 else 0x7FFFFFFFFFFFFFFF)
          then syntax_fail (set_doc doc ps) ''integer out of range''
          else Ok n (set_doc (set_payload doc n (P_Int
                 (if \<not> neg then mag
                  else if mag = 9223372036854775808 then 0x8000000000000000 else - mag))) ps)))"

definition slow_decimal :: "fops \<Rightarrow> parser \<Rightarrow> bool \<Rightarrow> addr res" where
  "slow_decimal fo ps0 neg =
    res_bind (run_lex ps0 (scan_run 10 (ps_p ps0))) (\<lambda>buf ps.
      if hd buf = 0x30 \<and> length buf > 1 then syntax_fail ps ''leading zero in number''
      else if starts DOT (ps_p ps) \<or> starts_exp (ps_p ps) then slow_float fo ps neg buf
      else case mag_from 0 buf 10 of
             None \<Rightarrow> syntax_fail ps ''integer out of range''
           | Some mag \<Rightarrow> int_node ps neg mag)"

subsection \<open>The fast paths and the dispatch\<close>

text \<open>The float branch of the plain path, the cursor behind the integer digits.\<close>

definition plain_float :: "fops \<Rightarrow> parser \<Rightarrow> bool \<Rightarrow> bool \<Rightarrow> bytes \<Rightarrow> nat \<Rightarrow> u64 \<Rightarrow> addr res" where
  "plain_float fo ps neg sgd dstart dlen mag =
    (case (if \<not> sgd \<or> neg then peek_float fo neg dstart dlen mag (ps_p ps) else None) of
       Some (dv, q) \<Rightarrow>
         res_bind (value_node ps K_FLOAT (P_Float dv)) (\<lambda>n ps'. Ok n (set_p q ps'))
     | None \<Rightarrow>
         (let s0 = put_all (take dlen dstart) (if neg then putch MINUS fbuf_new else fbuf_new)
          in res_bind (run_lex ps (lex_bind (copy_frac s0 (ps_p ps)) (\<lambda>sf p.
                 case sf of None \<Rightarrow> LOk None p | Some s \<Rightarrow> copy_exp s p)))
               (\<lambda>sf ps'. case sf of
                    None \<Rightarrow> slow_decimal fo (set_p dstart ps') neg
                  | Some s \<Rightarrow> float_from_buf fo ps' s)))"

definition parse_decimal :: "fops \<Rightarrow> parser \<Rightarrow> bool \<Rightarrow> bool \<Rightarrow> addr res" where
  "parse_decimal fo ps neg sgd =
    (let dstart = ps_p ps;
         (mag, q) = dec_run 0 dstart;
         ps' = set_p q ps;
         dlen = length dstart - length q;
         plain = (dlen > 0 \<and> dlen \<le> 18 \<and> \<not> starts UNDERSCORE q)
     in if plain then
          (if hd dstart = 0x30 \<and> dlen > 1 then syntax_fail ps' ''leading zero in number''
           else if \<not> (starts DOT q \<or> starts_exp q)
           then value_node ps' K_INTEGER (P_Int (if neg then - mag else mag))
           else plain_float fo ps' neg sgd dstart dlen mag)
        else slow_decimal fo (set_p dstart ps') neg)"

definition parse_radix :: "parser \<Rightarrow> bool \<Rightarrow> byte \<Rightarrow> addr res" where
  "parse_radix ps0 sgd r =
    (if sgd then syntax_fail ps0 ''sign not allowed on radix integer''
     else (let radix = (if r = 0x78 then 16 else if r = 0x6F then 8 else 2)
           in res_bind (run_lex ps0 (scan_run (unat radix) (adv 2 (ps_p ps0)))) (\<lambda>buf ps.
                case mag_from 0 buf radix of
                  None \<Rightarrow> syntax_fail ps ''integer out of range''
                | Some mag \<Rightarrow>
                    (if mag > 0x7FFFFFFFFFFFFFFF then syntax_fail ps ''integer out of range''
                     else value_node ps K_INTEGER (P_Int mag)))))"

definition parse_number :: "fops \<Rightarrow> parser \<Rightarrow> bool \<Rightarrow> addr res" where
  "parse_number fo ps0 sgd =
    (let neg = (sgd \<and> starts MINUS (ps_p ps0));
         ps = (if sgd then set_p (adv 1 (ps_p ps0)) ps0 else ps0)
     in case ps_p ps of
          [] \<Rightarrow> syntax_fail ps ''invalid number''
        | c # cs \<Rightarrow>
            (if c = 0x69 then
               res_bind (run_lex ps (expect_word (lit ''inf'') (c # cs))) (\<lambda>_ ps.
                 value_node ps K_FLOAT (P_Float (if neg then f64_neg F64_INF else F64_INF)))
             else if c = 0x6E then
               res_bind (run_lex ps (expect_word (lit ''nan'') (c # cs))) (\<lambda>_ ps.
                 value_node ps K_FLOAT (P_Float F64_NAN))
             else if \<not> is_dec c then syntax_fail ps ''invalid number''
             else if c = 0x30 \<and> (starts 0x78 cs \<or> starts 0x6F cs \<or> starts 0x62 cs)
             then parse_radix ps sgd (hd cs)
             else parse_decimal fo ps neg sgd))"

end
