(* ===== verification/Emit_Buf.thy ===== *)
theory Emit_Buf
  imports Numbers
begin

text \<open>
  The shared emit layer, \<open>emit/emit_shared.h\<close>: the growing output buffer and the writers of
  integers, floats, dates, strings and keys that the document emitters and the streaming
  writer call. The block behind \<open>b->p\<close> is its first \<open>b->len\<close> bytes with the capacity;
  \<open>eb_avail\<close> is the largest block \<open>realloc\<close> and \<open>malloc\<close> still give, \<open>eb_p\<close> says that the
  pointer is not null. After a failed \<open>realloc\<close> the block is gone. Every store goes through
  \<open>eb_store\<close>; the ghost field \<open>eb_wild\<close> records that one of them went through the null
  pointer or past the capacity.
\<close>

subsection \<open>The buffer\<close>

record ebuf =
  eb_bytes :: bytes
  eb_cap :: nat
  eb_st :: status
  eb_avail :: nat
  eb_p :: bool
  eb_wild :: bool

definition eb_init :: "nat \<Rightarrow> ebuf" where
  "eb_init avail = \<lparr>eb_bytes = [], eb_cap = 0, eb_st = ST_OK, eb_avail = avail, eb_p = False,
     eb_wild = False\<rparr>"

text \<open>The doubling loop; a capacity is never 0 there.\<close>

function grow_cap :: "nat \<Rightarrow> nat \<Rightarrow> nat" where
  "grow_cap need cap = (if need \<le> cap \<or> cap = 0 then cap else grow_cap need (cap * 2))"
  by pat_completeness auto
termination by (relation "measure (\<lambda>(need, cap). need - cap)") auto

declare grow_cap.simps [simp del]

definition eb_reserve :: "ebuf \<Rightarrow> nat \<Rightarrow> ebuf" where
  "eb_reserve b extra =
    (if eb_st b \<noteq> ST_OK then b
     else if length (eb_bytes b) + extra + 1 \<le> eb_cap b then b
     else (let ncap = grow_cap (length (eb_bytes b) + extra + 1) (if eb_cap b \<noteq> 0 then eb_cap b else 256)
           in if ncap > eb_avail b then b\<lparr>eb_st := ERR_ALLOC, eb_p := False\<rparr>
              else b\<lparr>eb_cap := ncap, eb_p := True\<rparr>))"

text \<open>The copy to \<open>b->p + b->len\<close> and the advance of \<open>b->len\<close>.\<close>

definition eb_store :: "ebuf \<Rightarrow> bytes \<Rightarrow> ebuf" where
  "eb_store b s = b\<lparr>eb_bytes := eb_bytes b @ s,
     eb_wild := eb_wild b \<or> \<not> eb_p b \<or> eb_cap b < length (eb_bytes b) + length s\<rparr>"

definition eb_put :: "ebuf \<Rightarrow> bytes \<Rightarrow> ebuf" where
  "eb_put b s =
    (if eb_st b \<noteq> ST_OK then b
     else if length (eb_bytes b) + length s + 1 \<le> eb_cap b then eb_store b s
     else (let b' = eb_reserve b (length s)
           in if eb_st b' \<noteq> ST_OK then b' else eb_store b' s))"

definition eb_c :: "ebuf \<Rightarrow> byte \<Rightarrow> ebuf" where
  "eb_c b c =
    (if eb_st b = ST_OK \<and> length (eb_bytes b) + 2 \<le> eb_cap b then eb_store b [c]
     else eb_put b [c])"

definition eb_sep2 :: "ebuf \<Rightarrow> ebuf" where
  "eb_sep2 b =
    (if eb_st b = ST_OK \<and> length (eb_bytes b) + 3 \<le> eb_cap b
     then eb_store b [COMMA, SPACE]
     else eb_put b [COMMA, SPACE])"

definition eb_str :: "ebuf \<Rightarrow> string \<Rightarrow> ebuf" where
  "eb_str b s = eb_put b (lit s)"

subsection \<open>Numbers\<close>

text \<open>Decimal digits, filled from the end of a buffer.\<close>

definition digit_char :: "u64 \<Rightarrow> byte" where
  "digit_char d = ucast (0x30 + d)"

function dec_digits :: "u64 \<Rightarrow> bytes \<Rightarrow> bytes" where
  "dec_digits mag acc =
    (let acc' = digit_char (mag mod 10) # acc
     in if mag div 10 = 0 then acc' else dec_digits (mag div 10) acc')"
  by pat_completeness auto
termination
proof (relation "measure (\<lambda>(mag, acc). unat mag)", goal_cases)
  case (2 mag acc x)
  then have "unat mag \<noteq> 0" by (auto simp: unat_eq_0)
  then show ?case by (simp add: unat_div)
qed simp

declare dec_digits.simps [simp del]

definition i64_text :: "u64 \<Rightarrow> bytes" where
  "i64_text v =
    (let neg = (v <s 0);
         mag = (if neg then - (v + 1) + 1 else v);
         q = dec_digits mag []
     in if neg then MINUS # q else q)"

definition emit_i64 :: "ebuf \<Rightarrow> u64 \<Rightarrow> ebuf" where
  "emit_i64 b v = eb_put b (i64_text v)"

definition f64_isnan :: "u64 \<Rightarrow> bool" where
  "f64_isnan f \<longleftrightarrow> f AND F64_INF = F64_INF \<and> f AND 0x000FFFFFFFFFFFFF \<noteq> 0"

definition f64_isinf :: "u64 \<Rightarrow> bool" where
  "f64_isinf f \<longleftrightarrow> f AND 0x7FFFFFFFFFFFFFFF = F64_INF"

text \<open>\<open>strtol\<close> in base 10: blanks, a sign, digits, the value clamped to \<open>long\<close>.\<close>

definition strtol10 :: "bytes \<Rightarrow> int" where
  "strtol10 s =
    (let t = dropWhile (\<lambda>c. c = SPACE \<or> (9 \<le> c \<and> c \<le> 13)) s;
         neg = (t \<noteq> [] \<and> hd t = MINUS);
         u = (if t \<noteq> [] \<and> (hd t = MINUS \<or> hd t = PLUS) then tl t else t);
         v = foldl (\<lambda>a c. a * 10 + (int (unat c) - 48)) 0 (takeWhile is_dec u)
     in max (- (2 ^ 63)) (min (2 ^ 63 - 1) (if neg then - v else v)))"

definition int_text :: "int \<Rightarrow> bytes" where
  "int_text v = (if v < 0 then MINUS # dec_digits (of_int (- v)) [] else dec_digits (of_int v) [])"

text \<open>
  A float from the text of \<open>teptris_ryu_d2s_buffered_n\<close>, \<open>D[.DD]E[X]\<close>: fixed-point when it is
  compact, scientific otherwise. The converter is the argument \<open>d2s\<close>.
\<close>

definition float_text :: "bytes \<Rightarrow> bytes" where
  "float_text tmp =
    (let neg = (tmp \<noteq> [] \<and> hd tmp = MINUS);
         t = (if neg then tl tmp else tmp);
         digits = filter (\<lambda>c. c \<noteq> DOT) (takeWhile (\<lambda>c. c \<noteq> 0x45) t);
         r = dropWhile (\<lambda>c. c \<noteq> 0x45) t;
         nd = int (length digits);
         sci_exp = (if r \<noteq> [] then strtol10 (tl r) else 0);
         e10 = sci_exp - nd + 1
     in (if neg then [MINUS] else []) @
        (if e10 \<ge> 0 \<and> e10 + nd \<le> 16 then digits @ replicate (nat e10) 0x30 @ [DOT, 0x30]
         else if e10 < 0 \<and> - e10 \<le> nd then
           (let ip = nat (nd + e10)
            in if ip > 0 then take ip digits @ [DOT] @ drop ip digits
               else [0x30, DOT] @ digits)
         else if e10 < 0 \<and> - e10 - nd \<le> 6 then
           [0x30, DOT] @ replicate (nat (- e10 - nd)) 0x30 @ digits
         else [hd digits] @ (if nd > 1 then DOT # tl digits else []) @ [0x65] @ int_text sci_exp))"

definition emit_float :: "(u64 \<Rightarrow> bytes) \<Rightarrow> ebuf \<Rightarrow> u64 \<Rightarrow> ebuf" where
  "emit_float d2s b f =
    (if f64_isnan f then eb_str b ''nan''
     else if f64_isinf f then eb_str b (if f <s 0 then ''-inf'' else ''inf'')
     else eb_put b (float_text (d2s f)))"

subsection \<open>Dates and times\<close>

definition put_digits2 :: "u32 \<Rightarrow> bytes" where
  "put_digits2 v = [ucast (0x30 + v div 10), ucast (0x30 + v mod 10)]"

definition put_digits4 :: "u32 \<Rightarrow> bytes" where
  "put_digits4 v = put_digits2 (v div 100) @ put_digits2 (v mod 100)"

fun nano_digits :: "nat \<Rightarrow> u32 \<Rightarrow> bytes \<Rightarrow> bytes" where
  "nano_digits 0 v acc = acc"
| "nano_digits (Suc i) v acc = nano_digits i (v div 10) (ucast (0x30 + v mod 10) # acc)"

definition offset_text :: "u32 \<Rightarrow> bytes" where
  "offset_text off =
    (if off = 0 then [0x5A]
     else (let a = (if off <s 0 then - off else off)
           in [if off <s 0 then MINUS else PLUS] @ put_digits2 (a div 3600) @ [COLON]
              @ put_digits2 (a mod 3600 div 60)))"

definition dt_text :: "datetime \<Rightarrow> kind \<Rightarrow> bytes" where
  "dt_text dt k =
    (let date = (if k \<noteq> K_TIME_LOCAL
                 then put_digits4 (dt_year dt) @ [MINUS] @ put_digits2 (ucast (dt_month dt)) @ [MINUS]
                      @ put_digits2 (ucast (dt_day dt)) @ (if k \<noteq> K_DATE_LOCAL then [0x54] else [])
                 else []);
         time = (if k \<noteq> K_DATE_LOCAL
                 then put_digits2 (ucast (dt_hour dt)) @ [COLON] @ put_digits2 (ucast (dt_minute dt))
                      @ [COLON] @ put_digits2 (ucast (dt_second dt))
                 else []);
         tmp = date @ time;
         tmp = (if dt_nanosecond dt \<noteq> 0 \<and> k \<noteq> K_DATE_LOCAL
                then rev (dropWhile (\<lambda>c. c = 0x30) (rev (tmp @ [DOT] @ nano_digits 9 (dt_nanosecond dt) [])))
                else tmp)
     in if k = K_DATETIME_OFFSET then tmp @ offset_text (dt_offset_seconds dt) else tmp)"

definition emit_dt :: "ebuf \<Rightarrow> datetime \<Rightarrow> kind \<Rightarrow> ebuf" where
  "emit_dt b dt k = eb_put b (dt_text dt k)"

subsection \<open>Strings and keys\<close>

definition hex_char :: "byte \<Rightarrow> byte" where
  "hex_char d = (if d < 10 then 0x30 + d else 0x41 + (d - 10))"

text \<open>\<open>\u%04X\<close> of a byte.\<close>

definition u_escape :: "byte \<Rightarrow> bytes" where
  "u_escape c = [BACKSLASH, 0x75, 0x30, 0x30, hex_char (drop_bit 4 c), hex_char (c AND 0xF)]"

definition short_escape :: "byte \<Rightarrow> bytes option" where
  "short_escape c =
    (if c = DQUOTE then Some [BACKSLASH, DQUOTE]
     else if c = BACKSLASH then Some [BACKSLASH, BACKSLASH]
     else if c = 8 then Some [BACKSLASH, 0x62]
     else if c = TAB then Some [BACKSLASH, 0x74]
     else if c = LF then Some [BACKSLASH, 0x6E]
     else if c = 12 then Some [BACKSLASH, 0x66]
     else if c = CR then Some [BACKSLASH, 0x72]
     else None)"

definition needs_escape :: "byte \<Rightarrow> bool" where
  "needs_escape c \<longleftrightarrow> c = DQUOTE \<or> c = BACKSLASH \<or> c < 0x20 \<or> c = DEL"

text \<open>The clean run up to the next byte to escape goes out at once.\<close>

function basic_body :: "ebuf \<Rightarrow> bytes \<Rightarrow> ebuf" where
  "basic_body b s =
    (if s = [] then b
     else (let b1 = eb_put b (takeWhile (\<lambda>c. \<not> needs_escape c) s);
               r = dropWhile (\<lambda>c. \<not> needs_escape c) s
           in case r of
                [] \<Rightarrow> b1
              | c # cs \<Rightarrow>
                  basic_body
                    (case short_escape c of
                       Some e \<Rightarrow> eb_put b1 e
                     | None \<Rightarrow> if c < 0x20 \<or> c = DEL then eb_put b1 (u_escape c) else b1) cs))"
  by pat_completeness auto
termination
proof (relation "measure (\<lambda>(b, s). length s)", goal_cases)
  case (2 b s b1 r c cs)
  then have "length (c # cs) \<le> length s" by (metis length_dropWhile_le)
  then show ?case by simp
qed simp

declare basic_body.simps [simp del]

definition emit_basic_bytes :: "ebuf \<Rightarrow> bytes \<Rightarrow> ebuf" where
  "emit_basic_bytes b s = eb_c (basic_body (eb_c b DQUOTE) s) DQUOTE"

text \<open>A literal string holds no quote and no control byte but the tab.\<close>

definition literal_ok :: "bytes \<Rightarrow> bool" where
  "literal_ok s \<longleftrightarrow> list_all (\<lambda>c. \<not> (c = SQUOTE \<or> (c < 0x20 \<and> c \<noteq> TAB) \<or> c = DEL)) s"

definition emit_string_value :: "ebuf \<Rightarrow> bytes \<Rightarrow> ebuf" where
  "emit_string_value b s =
    (if literal_ok s then eb_c (eb_put (eb_c b SQUOTE) s) SQUOTE else emit_basic_bytes b s)"

definition key_buf_cap :: "bytes \<Rightarrow> nat" where
  "key_buf_cap key = length key * 6 + 4"

definition key_escape :: "byte \<Rightarrow> bytes" where
  "key_escape c =
    (if c = DQUOTE then [BACKSLASH, DQUOTE]
     else if c = BACKSLASH then [BACKSLASH, BACKSLASH]
     else if c < 0x20 then u_escape c
     else [c])"

definition key_to_buf :: "bytes \<Rightarrow> bytes" where
  "key_to_buf key =
    (if key \<noteq> [] \<and> list_all is_barekey key then key
     else if literal_ok key then [SQUOTE] @ key @ [SQUOTE]
     else [DQUOTE] @ concat (map key_escape key) @ [DQUOTE])"

definition emit_key :: "ebuf \<Rightarrow> bytes \<Rightarrow> ebuf" where
  "emit_key b key =
    (if key_buf_cap key \<le> 256 then eb_put b (key_to_buf key)
     else if key_buf_cap key > eb_avail b then b\<lparr>eb_st := ERR_ALLOC\<rparr>
     else eb_put b (key_to_buf key))"

subsection \<open>What a writer appends\<close>

text \<open>
  The invariant of the buffer: no store was wild, the block is not larger than what memory
  gives, and without an error there is room for the terminator. \<open>renders b s b'\<close>: if no allocation failed, \<open>b'\<close> is \<open>b\<close> with \<open>s\<close> behind it, and no
  allocation fails while six times the text and a start block fit the memory.
\<close>

definition eb_ok :: "ebuf \<Rightarrow> bool" where
  "eb_ok b \<longleftrightarrow> \<not> eb_wild b \<and> eb_cap b \<le> eb_avail b \<and> (eb_st b = ST_OK \<longrightarrow>
     length (eb_bytes b) + 1 \<le> eb_cap b \<and> eb_p b \<or> eb_bytes b = [] \<and> eb_cap b = 0 \<and> \<not> eb_p b)"

definition roomy :: "ebuf \<Rightarrow> bytes \<Rightarrow> bool" where
  "roomy b s \<longleftrightarrow> eb_st b = ST_OK \<and> 6 * length (eb_bytes b @ s) + 260 \<le> eb_avail b"

definition renders :: "ebuf \<Rightarrow> bytes \<Rightarrow> ebuf \<Rightarrow> bool" where
  "renders b s b' \<longleftrightarrow> eb_avail b' = eb_avail b \<and> (eb_ok b \<longrightarrow> eb_ok b')
     \<and> (eb_st b' = ST_OK \<longrightarrow> eb_st b = ST_OK \<and> eb_bytes b' = eb_bytes b @ s)
     \<and> (roomy b s \<longrightarrow> eb_st b' = ST_OK)"

lemma renders_trans [trans]:
  assumes ab: "renders a s b" and bc: "renders b t c"
  shows "renders a (s @ t) c"
proof -
  have "eb_st c = ST_OK" if "roomy a (s @ t)"
  proof -
    have "roomy a s" using that by (simp add: roomy_def)
    then have "eb_st b = ST_OK" "eb_bytes b = eb_bytes a @ s" "eb_avail b = eb_avail a"
      using ab by (simp_all add: renders_def)
    then have "roomy b t" using that by (simp add: roomy_def)
    then show ?thesis using bc by (simp add: renders_def)
  qed
  then show ?thesis using ab bc by (auto simp: renders_def)
qed

lemma renders_refl: "renders b [] b"
  by (simp add: renders_def roomy_def)

lemma grow_cap_bounds:
  assumes "0 < cap"
  shows "need \<le> grow_cap need cap" "cap \<le> grow_cap need cap" "grow_cap need cap \<le> max cap (2 * need)"
  using assms by (induction need cap rule: grow_cap.induct; subst grow_cap.simps; force)+

lemma eb_put_renders: "renders b s (eb_put b s)"
proof -
  let ?cap = "if eb_cap b \<noteq> 0 then eb_cap b else 256" let ?need = "length (eb_bytes b) + length s + 1"
  have cap: "0 < ?cap" by simp
  note g = grow_cap_bounds [OF cap, of ?need]
  show ?thesis
    using g by (auto simp: renders_def eb_put_def eb_reserve_def eb_store_def Let_def eb_ok_def roomy_def)
qed

lemma eb_c_eq: "eb_c b c = eb_put b [c]"
  by (auto simp: eb_c_def eb_put_def)

lemma eb_sep2_eq: "eb_sep2 b = eb_put b [COMMA, SPACE]"
  by (auto simp: eb_sep2_def eb_put_def)

lemma eb_c_renders: "renders b [c] (eb_c b c)"
  unfolding eb_c_eq by (rule eb_put_renders)

lemma eb_sep2_renders: "renders b [COMMA, SPACE] (eb_sep2 b)"
  unfolding eb_sep2_eq by (rule eb_put_renders)

lemma eb_str_renders: "renders b (lit s) (eb_str b s)"
  unfolding eb_str_def by (rule eb_put_renders)

definition basic_escape :: "byte \<Rightarrow> bytes" where
  "basic_escape c =
    (case short_escape c of Some e \<Rightarrow> e
     | None \<Rightarrow> if c < 0x20 \<or> c = DEL then u_escape c else [c])"

definition basic_text :: "bytes \<Rightarrow> bytes" where
  "basic_text s = [DQUOTE] @ concat (map basic_escape s) @ [DQUOTE]"

definition string_text :: "bytes \<Rightarrow> bytes" where
  "string_text s = (if literal_ok s then [SQUOTE] @ s @ [SQUOTE] else basic_text s)"

definition f64_text :: "(u64 \<Rightarrow> bytes) \<Rightarrow> u64 \<Rightarrow> bytes" where
  "f64_text d2s f =
    (if f64_isnan f then lit ''nan''
     else if f64_isinf f then lit (if f <s 0 then ''-inf'' else ''inf'')
     else float_text (d2s f))"

lemma basic_escape_plain: "\<not> needs_escape c \<Longrightarrow> basic_escape c = [c]"
  by (auto simp: needs_escape_def basic_escape_def short_escape_def)

lemma basic_escape_run: "\<forall>c \<in> set s. \<not> needs_escape c \<Longrightarrow> concat (map basic_escape s) = s"
  by (induction s) (simp_all add: basic_escape_plain)

lemma basic_body_renders: "renders b (concat (map basic_escape s)) (basic_body b s)"
proof (induction b s rule: basic_body.induct)
  case (1 b s)
  let ?w = "takeWhile (\<lambda>c. \<not> needs_escape c) s" and ?r = "dropWhile (\<lambda>c. \<not> needs_escape c) s"
  have s: "concat (map basic_escape s) = ?w @ concat (map basic_escape ?r)"
    using basic_escape_run [of ?w] set_takeWhileD
    by (metis (no_types, lifting) concat_append map_append takeWhile_dropWhile_id)
  have run: "renders b ?w (eb_put b ?w)" by (rule eb_put_renders)
  show ?case
  proof (cases ?r)
    case Nil
    then show ?thesis
      using run s by (subst basic_body.simps) (cases "s = []"; simp add: Let_def renders_refl Nil)
  next
    case (Cons c cs)
    let ?b2 = "case short_escape c of Some e \<Rightarrow> eb_put (eb_put b ?w) e
      | None \<Rightarrow> if c < 0x20 \<or> c = DEL then eb_put (eb_put b ?w) (u_escape c) else eb_put b ?w"
    have ne: "s \<noteq> []" using Cons by auto
    have "needs_escape c" using Cons by (metis hd_dropWhile list.distinct(1) list.sel(1))
    then have "renders (eb_put b ?w) (basic_escape c) ?b2"
      by (auto simp: basic_escape_def needs_escape_def short_escape_def eb_put_renders split: option.split)
    then have "renders b (?w @ basic_escape c) ?b2" by (rule renders_trans [OF run])
    from renders_trans [OF this "1.IH" [OF ne refl refl Cons]]
    have "renders b (concat (map basic_escape s)) (basic_body ?b2 cs)" by (simp add: s Cons)
    then show ?thesis using ne by (subst basic_body.simps) (simp add: Cons Let_def)
  qed
qed

lemma emit_basic_renders: "renders b (basic_text s) (emit_basic_bytes b s)"
  unfolding basic_text_def emit_basic_bytes_def
  by (rule renders_trans [OF eb_c_renders renders_trans [OF basic_body_renders eb_c_renders]])

lemma emit_string_renders: "renders b (string_text s) (emit_string_value b s)"
proof -
  have "renders b ([SQUOTE] @ s @ [SQUOTE]) (eb_c (eb_put (eb_c b SQUOTE) s) SQUOTE)"
    by (rule renders_trans [OF eb_c_renders renders_trans [OF eb_put_renders eb_c_renders]])
  then show ?thesis using emit_basic_renders by (simp add: emit_string_value_def string_text_def)
qed

lemma emit_i64_renders: "renders b (i64_text v) (emit_i64 b v)"
  unfolding emit_i64_def by (rule eb_put_renders)

lemma emit_float_renders: "renders b (f64_text d2s f) (emit_float d2s b f)"
  by (simp add: emit_float_def f64_text_def eb_put_renders eb_str_renders)

lemma emit_dt_renders: "renders b (dt_text dt k) (emit_dt b dt k)"
  unfolding emit_dt_def by (rule eb_put_renders)

lemma key_escape_length: "1 \<le> length (key_escape c) \<and> length (key_escape c) \<le> 6"
  by (auto simp: key_escape_def u_escape_def)

lemma concat_map_bounds:
  assumes "\<And>x. 1 \<le> length (f x) \<and> length (f x) \<le> k"
  shows "length xs \<le> length (concat (map f xs)) \<and> length (concat (map f xs)) \<le> k * length xs"
proof (induction xs)
  case (Cons x xs)
  then show ?case using assms [of x] by simp
qed simp

lemma key_to_buf_length: "length key \<le> length (key_to_buf key) \<and> length (key_to_buf key) \<le> key_buf_cap key"
  using concat_map_bounds [of key_escape 6 key, OF key_escape_length] by (auto simp: key_to_buf_def key_buf_cap_def)

lemma emit_key_renders: "renders b (key_to_buf key) (emit_key b key)"
proof -
  have fail: "renders b (key_to_buf key) (b\<lparr>eb_st := ERR_ALLOC\<rparr>)" if "key_buf_cap key > eb_avail b"
    using that key_to_buf_length [of key] by (auto simp: renders_def eb_ok_def roomy_def key_buf_cap_def)
  then show ?thesis using eb_put_renders by (simp add: emit_key_def)
qed

end
