(* ===== verification/Keys.thy ===== *)
theory Keys
  imports Strings
begin

text \<open>
  The key parser of \<open>parse/keys.c\<close>: quoted keys, decoded into the arena like strings, and
  dotted paths of bare and quoted parts. The parts array starts in a buffer of the caller
  and moves into the arena when it is full; only the allocations of that growth are
  state, so the model keeps the parts as a list with the capacity and, once the array
  is in the arena, its pointer.
\<close>

definition quoted_key :: "parser \<Rightarrow> view res" where
  "quoted_key ps0 =
    (let basic = (hd (ps_p ps0) = DQUOTE);
         ps = set_p (adv 1 (ps_p ps0)) ps0
     in case try_plain_body (if basic then DQUOTE else SQUOTE) (ps_p ps) of
          Some content \<Rightarrow>
            (case doc_alloc ps (length content + 1) of
               None \<Rightarrow> oom ps
             | Some ps' \<Rightarrow>
                 Ok (View None content) (set_p (adv (length content + 1) (ps_p ps)) ps'))
        | None \<Rightarrow> res_bind (decode_body ps basic False) (\<lambda>str ps. Ok (View None str) ps))"

definition bare_key :: "parser \<Rightarrow> view res" where
  "bare_key ps =
    Ok (View (Some (cursor_offset ps)) (takeWhile is_barekey (ps_p ps)))
       (set_p (dropWhile is_barekey (ps_p ps)) ps)"

definition key_part :: "parser \<Rightarrow> view res" where
  "key_part ps =
    (case ps_p ps of
       [] \<Rightarrow> fail_at ps None ERR_SYNTAX (lit ''expected key'')
     | c # cs \<Rightarrow>
         (if c = DQUOTE \<or> c = SQUOTE then quoted_key ps
          else if is_barekey c then bare_key ps
          else fail_at ps None ERR_SYNTAX (lit ''expected key (bare or quoted)'')))"

record parts =
  pt_views :: "view list"
  pt_cap :: nat
  pt_ptr :: "ptr option"

abbreviation (input) SIZEOF_VIEW :: nat where "SIZEOF_VIEW \<equiv> 16"

definition parts_reserve :: "parser \<Rightarrow> parts \<Rightarrow> parts res" where
  "parts_reserve ps v =
    (if length (pt_views v) = pt_cap v then
       (let ncap = pt_cap v * 2; doc = ps_doc ps
        in case arena_try_grow (d_arena doc) (pt_ptr v) (of_nat (pt_cap v * SIZEOF_VIEW))
                  (of_nat (ncap * SIZEOF_VIEW)) of
             Some (p, a) \<Rightarrow>
               Ok (v\<lparr>pt_cap := ncap\<rparr>) (set_doc (doc\<lparr>d_arena := a\<rparr>) ps)
           | None \<Rightarrow>
               (case arena_alloc (d_arena doc) (of_nat (ncap * SIZEOF_VIEW)) of
                  None \<Rightarrow> oom ps
                | Some (p, a) \<Rightarrow>
                    Ok (v\<lparr>pt_cap := ncap, pt_ptr := Some p\<rparr>) (set_doc (doc\<lparr>d_arena := a\<rparr>) ps)))
     else Ok v ps)"

text \<open>One round of the path loop: a part, room for it, the depth cap, the dot.\<close>

definition key_step :: "parser \<Rightarrow> parts \<Rightarrow> (parts \<times> bool) res" where
  "key_step ps v =
    res_bind (key_part (set_p (skip_ws (ps_p ps)) ps)) (\<lambda>key ps.
    res_bind (parts_reserve ps v) (\<lambda>v ps.
      (let v' = v\<lparr>pt_views := pt_views v @ [key]\<rparr>
       in if length (pt_views v') > unat (ps_max_depth ps)
          then fail_at ps None ERR_DEPTH (lit ''key path too deep'')
          else (let p = skip_ws (ps_p ps)
                in if starts DOT p then Ok (v', True) (set_p (adv 1 p) ps)
                   else Ok (v', False) (set_p p ps)))))"

text \<open>Each round takes at least one byte, so the fuel is the number of bytes left.\<close>

fun key_path_loop :: "nat \<Rightarrow> parser \<Rightarrow> parts \<Rightarrow> view list res" where
  "key_path_loop 0 ps v = NoFuel"
| "key_path_loop (Suc n) ps v =
    res_bind (key_step ps v) (\<lambda>(v, again) ps.
      if again then key_path_loop n ps v else Ok (pt_views v) ps)"

definition parse_key_path :: "parser \<Rightarrow> view list res" where
  "parse_key_path ps =
    key_path_loop (Suc (length (ps_p ps))) ps \<lparr>pt_views = [], pt_cap = 8, pt_ptr = None\<rparr>"

end
