(* ===== verification/Tables.thy ===== *)
theory Tables
  imports Keys
begin

text \<open>
  The define semantics of \<open>parse/parser.c\<close>: where a dotted key and a table header may
  insert, which tables they may extend, and what is a redefinition. \<open>insert_dotted\<close>,
  \<open>resolve_header\<close> and \<open>parse_header\<close> are the general path; \<open>try_header_fast\<close> is the fused
  scan for headers of bare keys, which may decline and leave the line to the general path.
\<close>

datatype 'a fast =
    Declined parser
  | Taken "'a res"

subsection \<open>The document operations of the parser\<close>

text \<open>Failures of these leave no error record, as in the source: the status is handed on.\<close>

definition new_table :: "parser \<Rightarrow> byte \<Rightarrow> addr res" where
  "new_table ps fl =
    (case dom_new_table (ps_doc ps) fl of
       None \<Rightarrow> Fail ERR_ALLOC ps
     | Some (n, doc) \<Rightarrow> Ok n (set_doc doc ps))"

definition new_array :: "parser \<Rightarrow> byte \<Rightarrow> addr res" where
  "new_array ps fl =
    (case dom_new_array (ps_doc ps) fl of
       None \<Rightarrow> Fail ERR_ALLOC ps
     | Some (n, doc) \<Rightarrow> Ok n (set_doc doc ps))"

definition probe :: "parser \<Rightarrow> addr \<Rightarrow> view \<Rightarrow> u64 \<Rightarrow> (entry option \<times> nat option) res" where
  "probe ps t key h =
    (case dom_table_probe_slot (ps_doc ps) t h (v_bytes key) of
       None \<Rightarrow> NoFuel
     | Some r \<Rightarrow> Ok r ps)"

definition insert_slot :: "parser \<Rightarrow> addr \<Rightarrow> view \<Rightarrow> u64 \<Rightarrow> addr \<Rightarrow> nat option \<Rightarrow> unit res" where
  "insert_slot ps t key h v slot =
    (case dom_table_insert_slot (ps_doc ps) t key h v slot of
       None \<Rightarrow> NoFuel
     | Some (st, doc) \<Rightarrow> (if st \<noteq> ST_OK then Fail st (set_doc doc ps) else Ok () (set_doc doc ps)))"

definition array_push :: "parser \<Rightarrow> addr \<Rightarrow> addr \<Rightarrow> unit res" where
  "array_push ps arr v =
    (case dom_array_push (ps_doc ps) arr v of
       (st, doc) \<Rightarrow> (if st \<noteq> ST_OK then Fail st (set_doc doc ps) else Ok () (set_doc doc ps)))"

definition semantic_fail :: "parser \<Rightarrow> bytes \<Rightarrow> 'a res" where
  "semantic_fail ps msg = fail_at ps None ERR_SEMANTIC msg"

text \<open>A message with one argument between single quotes.\<close>

definition msg_with :: "string \<Rightarrow> bytes \<Rightarrow> string \<Rightarrow> bytes" where
  "msg_with a key b = lit a @ [SQUOTE] @ fmt_s key @ [SQUOTE] @ lit b"

subsection \<open>Dotted keys\<close>

fun dotted_walk :: "parser \<Rightarrow> addr \<Rightarrow> view list \<Rightarrow> addr res" where
  "dotted_walk ps t [] = Ok t ps"
| "dotted_walk ps t (part # rest) =
    (let h = key_hash (v_bytes part)
     in res_bind (probe ps t part h) (\<lambda>(eo, slot) ps.
          case eo of
            None \<Rightarrow>
              res_bind (new_table ps TBL_DOTTED) (\<lambda>child ps.
              res_bind (insert_slot ps t part h child slot) (\<lambda>_ ps.
                dotted_walk ps child rest))
          | Some e \<Rightarrow>
              (let v = the_node (ps_doc ps) (e_value e)
               in if n_kind v \<noteq> K_TABLE
                  then semantic_fail ps (msg_with ''key '' (v_bytes part) '' is not a table'')
                  else if has_flag v TBL_INLINE
                  then semantic_fail ps (msg_with ''cannot extend inline table '' (v_bytes part) '''')
                  else if has_flag v (TBL_IMPLICIT OR TBL_EXPLICIT)
                  then semantic_fail ps
                         (msg_with ''cannot extend table '' (v_bytes part) '' defined by a header'')
                  else dotted_walk ps (e_value e) rest)))"

text \<open>
  The text \<open>%.*s\<close> prints for the parent path: the pointer of the first part with the
  distance to the end of the last but one. Between parts of different objects (a quoted
  part is an arena copy) the distance is undefined.
\<close>

definition parent_text :: "bytes \<Rightarrow> view list \<Rightarrow> bytes option" where
  "parent_text src parts =
    (let a = hd parts; b = parts ! (length parts - 2)
     in if length parts = 2 then Some (v_bytes a)
        else case (v_loc a, v_loc b) of
               (Some i, Some j) \<Rightarrow> Some (take (j - i + length (v_bytes b)) (drop i src))
             | _ \<Rightarrow> None)"

definition insert_dotted :: "parser \<Rightarrow> addr \<Rightarrow> view list \<Rightarrow> addr \<Rightarrow> unit res" where
  "insert_dotted ps0 table parts value =
    res_bind (dotted_walk ps0 table (butlast parts)) (\<lambda>t ps.
      (let lst = last parts; hlast = key_hash (v_bytes lst)
       in res_bind (probe ps t lst hlast) (\<lambda>(eo, slot) ps.
            case eo of
              Some e \<Rightarrow>
                (if length parts > 1 then
                   (case parent_text (ps_src ps) parts of
                      None \<Rightarrow> Undef
                    | Some path \<Rightarrow>
                        semantic_fail ps (msg_with ''duplicate key '' (v_bytes lst) '' in table ''
                                          @ msg_with '''' path ''''))
                 else semantic_fail ps (msg_with ''duplicate key '' (v_bytes lst) ''''))
            | None \<Rightarrow> insert_slot ps t lst hlast value slot)))"

subsection \<open>Headers\<close>

text \<open>The walk over all but the last part; \<open>items[len - 1]\<close> of an empty array is undefined.\<close>

fun header_walk :: "parser \<Rightarrow> addr \<Rightarrow> view list \<Rightarrow> addr res" where
  "header_walk ps t [] = Ok t ps"
| "header_walk ps t (part # rest) =
    (let h = key_hash (v_bytes part)
     in res_bind (probe ps t part h) (\<lambda>(eo, slot) ps.
          case eo of
            None \<Rightarrow>
              res_bind (new_table ps TBL_IMPLICIT) (\<lambda>child ps.
              res_bind (insert_slot ps t part h child slot) (\<lambda>_ ps.
                header_walk ps child rest))
          | Some e \<Rightarrow>
              (let v = the_node (ps_doc ps) (e_value e)
               in if n_kind v = K_ARRAY then
                    (if \<not> has_flag v ARR_AOT
                     then semantic_fail ps (msg_with ''cannot extend plain array '' (v_bytes part) '''')
                     else if ar_items (payload_array (n_as v)) = [] then Undef
                     else (let lst = last (ar_items (payload_array (n_as v)))
                           in if n_kind (the_node (ps_doc ps) lst) \<noteq> K_TABLE
                              then fail_at ps None ERR_STATE (lit ''corrupt array of tables'')
                              else header_walk ps lst rest))
                  else if n_kind v = K_TABLE then
                    (if has_flag v TBL_INLINE
                     then semantic_fail ps (msg_with ''cannot extend inline table '' (v_bytes part) '''')
                     else header_walk ps (e_value e) rest)
                  else semantic_fail ps (msg_with ''key '' (v_bytes part) '' is not a table''))))"

definition resolve_aot :: "parser \<Rightarrow> addr \<Rightarrow> view \<Rightarrow> u64 \<Rightarrow> entry option \<Rightarrow> nat option \<Rightarrow> addr res" where
  "resolve_aot ps0 t lst hlast eo slot =
    res_bind
      (case eo of
         None \<Rightarrow>
           res_bind (new_array ps0 ARR_AOT) (\<lambda>arr ps.
           res_bind (insert_slot ps t lst hlast arr slot) (\<lambda>_ ps. Ok arr ps))
       | Some e \<Rightarrow>
           (let arr = the_node (ps_doc ps0) (e_value e)
            in if n_kind arr \<noteq> K_ARRAY \<or> \<not> has_flag arr ARR_AOT
               then semantic_fail ps0
                      (msg_with ''cannot redefine '' (v_bytes lst) '' as an array of tables'')
               else Ok (e_value e) ps0))
      (\<lambda>arr ps.
        res_bind (new_table ps TBL_EXPLICIT) (\<lambda>elem ps.
        res_bind (array_push ps arr elem) (\<lambda>_ ps. Ok elem ps)))"

definition resolve_table :: "parser \<Rightarrow> addr \<Rightarrow> view \<Rightarrow> u64 \<Rightarrow> entry option \<Rightarrow> nat option \<Rightarrow> addr res" where
  "resolve_table ps0 t lst hlast eo slot =
    (case eo of
       None \<Rightarrow>
         res_bind (new_table ps0 TBL_EXPLICIT) (\<lambda>tbl ps.
         res_bind (insert_slot ps t lst hlast tbl slot) (\<lambda>_ ps. Ok tbl ps))
     | Some e \<Rightarrow>
         (let v = the_node (ps_doc ps0) (e_value e)
          in if n_kind v = K_TABLE \<and> has_flag v TBL_IMPLICIT
             then Ok (e_value e)
                    (set_doc (set_flags (ps_doc ps0) (e_value e)
                       ((n_flags v AND NOT TBL_IMPLICIT) OR TBL_EXPLICIT)) ps0)
             else semantic_fail ps0 (msg_with ''table '' (v_bytes lst) '' defined more than once'')))"

definition resolve_header :: "parser \<Rightarrow> addr \<Rightarrow> view list \<Rightarrow> bool \<Rightarrow> addr res" where
  "resolve_header ps0 root parts aot =
    res_bind (header_walk ps0 root (butlast parts)) (\<lambda>t ps.
      (let lst = last parts; hlast = key_hash (v_bytes lst)
       in res_bind (probe ps t lst hlast) (\<lambda>(eo, slot) ps.
            if aot then resolve_aot ps t lst hlast eo slot
            else resolve_table ps t lst hlast eo slot)))"

text \<open>The header text from \<open>hstart\<close> up to \<open>hend\<close>.\<close>

definition input_span :: "parser \<Rightarrow> bytes \<Rightarrow> bytes \<Rightarrow> view" where
  "input_span ps a b =
    View (Some (length (ps_src ps) - length a)) (take (length a - length b) a)"

definition parse_header :: "addr \<Rightarrow> parser \<Rightarrow> unit res" where
  "parse_header root ps0 =
    (let p1 = adv 1 (ps_p ps0);
         aot = starts LBRACK p1;
         hstart = (if aot then adv 1 p1 else p1)
     in res_bind (parse_key_path (set_p (skip_ws hstart) ps0)) (\<lambda>parts ps.
          (let hend = skip_ws (ps_p ps); ps = set_p hend ps
           in if aot \<and> \<not> (starts RBRACK hend \<and> starts RBRACK (tl hend))
              then fail_at ps None ERR_SYNTAX (lit ''expected '' @ [SQUOTE] @ lit '']]'' @ [SQUOTE])
              else if \<not> aot \<and> \<not> starts RBRACK hend
              then fail_at ps None ERR_SYNTAX (lit ''expected '' @ [SQUOTE] @ lit '']'' @ [SQUOTE])
              else
                res_bind (resolve_header (set_p (adv (if aot then 2 else 1) hend) ps) root parts aot)
                  (\<lambda>target ps.
                    Ok () (ps\<lparr>ps_cur := target, ps_cur_path := input_span ps hstart hend\<rparr>)))))"

subsection \<open>The fast header path\<close>

text \<open>The hash fused into the scan of a bare key.\<close>

fun fnv_run :: "u64 \<Rightarrow> bytes \<Rightarrow> u64 \<times> bytes" where
  "fnv_run h [] = (h, [])"
| "fnv_run h (c # cs) =
    (if is_barekey c then fnv_run ((h XOR ucast c) * 1099511628211) cs else (h, c # cs))"

text \<open>The parts of a dotted path of bare keys with their hashes, at most as many as fit.\<close>

fun fast_path :: "nat \<Rightarrow> parser \<Rightarrow> bytes \<Rightarrow> ((view \<times> u64) list \<times> bytes) option" where
  "fast_path 0 ps q = None"
| "fast_path (Suc k) ps q =
    (if q = [] \<or> \<not> is_barekey (hd q) then None
     else (let (h, r) = fnv_run 1469598103934665603 q; part = (input_span ps q r, h)
           in if starts DOT r
              then map_option (\<lambda>(parts, r'). (part # parts, r')) (fast_path k ps (tl r))
              else Some ([part], r)))"

fun fast_walk :: "bytes \<Rightarrow> parser \<Rightarrow> addr \<Rightarrow> (view \<times> u64) list \<Rightarrow> addr res" where
  "fast_walk q1 ps t [] = Ok t ps"
| "fast_walk q1 ps t ((part, h) # rest) =
    res_bind (probe ps t part h) (\<lambda>(eo, slot) ps.
      case eo of
        None \<Rightarrow>
          res_bind (new_table ps TBL_IMPLICIT) (\<lambda>child ps.
          res_bind (insert_slot ps t part h child slot) (\<lambda>_ ps.
            fast_walk q1 ps child rest))
      | Some e \<Rightarrow>
          (let v = the_node (ps_doc ps) (e_value e)
           in if n_kind v = K_ARRAY then
                (if \<not> has_flag v ARR_AOT
                 then semantic_fail (set_p q1 ps)
                        (msg_with ''cannot extend plain array '' (v_bytes part) '''')
                 else if ar_items (payload_array (n_as v)) = [] then Undef
                 else fast_walk q1 ps (last (ar_items (payload_array (n_as v)))) rest)
              else if n_kind v = K_TABLE then
                (if has_flag v TBL_INLINE
                 then semantic_fail (set_p q1 ps)
                        (msg_with ''cannot extend inline table '' (v_bytes part) '''')
                 else fast_walk q1 ps (e_value e) rest)
              else semantic_fail (set_p q1 ps) (msg_with ''key '' (v_bytes part) '' is not a table'')))"

text \<open>The resolution after the shape of the header is confirmed; \<open>q1\<close> is behind the bracket.\<close>

definition fast_commit :: "addr \<Rightarrow> parser \<Rightarrow> (view \<times> u64) list \<Rightarrow> bytes \<Rightarrow> addr fast" where
  "fast_commit root ps0 parts q1 =
    (case fast_walk q1 ps0 root (butlast parts) of
       Ok t ps \<Rightarrow>
         (let (lst, hlast) = last parts
          in case probe ps t lst hlast of
               Ok (Some e, slot) ps \<Rightarrow> Declined ps
             | Ok (None, slot) ps \<Rightarrow>
                 Taken (res_bind (new_table ps TBL_EXPLICIT) (\<lambda>tbl ps.
                        res_bind (insert_slot ps t lst hlast tbl slot) (\<lambda>_ ps.
                          Ok tbl (set_p q1 ps))))
             | Fail st ps \<Rightarrow> Taken (Fail st ps)
             | Undef \<Rightarrow> Taken Undef
             | NoFuel \<Rightarrow> Taken NoFuel)
     | r \<Rightarrow> Taken r)"

definition try_header_fast :: "addr \<Rightarrow> parser \<Rightarrow> addr fast" where
  "try_header_fast root ps =
    (let q = tl (ps_p ps)
     in if \<not> starts LBRACK (ps_p ps) \<or> q = [] \<or> starts LBRACK q then Declined ps
        else case fast_path 8 ps q of
               None \<Rightarrow> Declined ps
             | Some (parts, r) \<Rightarrow>
                 (if \<not> starts RBRACK r then Declined ps
                  else fast_commit root (ps\<lparr>ps_cur_path := input_span ps q r\<rparr>) parts (tl r)))"

end
