(* ===== verification/Datetimes.thy ===== *)
theory Datetimes
  imports Strings
begin

text \<open>
  The date and time parser of \<open>parse/datetime.c\<close>. The C function reads from a local
  pointer and moves the parser's cursor only when it has a node, so every failure is
  reported at the start of the value; \<open>datetime_lex\<close> returns that start with the failure.
\<close>

definition d2 :: "bytes \<Rightarrow> int" where
  "d2 p = (uint (p ! 0) - 48) * 10 + (uint (p ! 1) - 48)"

definition num4 :: "bytes \<Rightarrow> int" where
  "num4 p = d2 p * 100 + d2 (drop 2 p)"

definition is_dig :: "bytes \<Rightarrow> nat \<Rightarrow> bool" where
  "is_dig p i = is_dec (p ! i)"

definition leap_year :: "int \<Rightarrow> bool" where
  "leap_year y \<longleftrightarrow> (y mod 4 = 0 \<and> y mod 100 \<noteq> 0) \<or> y mod 400 = 0"

definition days_in_month :: "int \<Rightarrow> int \<Rightarrow> int" where
  "days_in_month y m =
    (if m = 2 then (if leap_year y then 29 else 28)
     else [31, 28, 31, 30, 31, 30, 31, 31, 30, 31, 30, 31] ! nat (m - 1))"

definition datetime_lookahead :: "bytes \<Rightarrow> bool" where
  "datetime_lookahead p =
    (if length p \<ge> 10 \<and> p ! 4 = MINUS \<and> p ! 7 = MINUS \<and> is_dig p 0 \<and> is_dig p 1 \<and> is_dig p 2
        \<and> is_dig p 3 \<and> is_dig p 5 \<and> is_dig p 6 \<and> is_dig p 8 \<and> is_dig p 9 then True
     else length p \<ge> 5 \<and> p ! 2 = COLON \<and> is_dig p 0 \<and> is_dig p 1 \<and> is_dig p 3 \<and> is_dig p 4)"

definition time_shape :: "bytes \<Rightarrow> bool" where
  "time_shape p \<longleftrightarrow> length p \<ge> 6 \<and> is_dig p 1 \<and> is_dig p 2 \<and> p ! 3 = COLON \<and> is_dig p 4 \<and> is_dig p 5"

text \<open>The fraction digits: nine of them scale into nanoseconds, the rest are only checked.\<close>

fun frac_ns :: "u32 \<Rightarrow> u32 \<Rightarrow> bytes \<Rightarrow> u32 \<times> bytes" where
  "frac_ns scale ns [] = (ns, [])"
| "frac_ns scale ns (c # cs) =
    (if is_dec c then
       (if scale > 0 then frac_ns (scale div 10) (ns + (ucast c - 48) * scale) cs
        else frac_ns scale ns cs)
     else (ns, c # cs))"

definition frac_part :: "bytes \<Rightarrow> datetime \<Rightarrow> bytes \<Rightarrow> datetime lex" where
  "frac_part start dt p =
    (if starts DOT p then
       (let p1 = tl p
        in if p1 = [] \<or> \<not> is_dec (hd p1)
           then LErr ERR_SYNTAX (lit ''expected fractional digits'') start
           else (case frac_ns 100000000 0 p1 of
                   (ns, r) \<Rightarrow> LOk (dt\<lparr>dt_nanosecond := ns\<rparr>) r))
     else LOk dt p)"

text \<open>The range checks of the time fields, after the optional seconds were read.\<close>

definition time_fields :: "bytes \<Rightarrow> datetime \<Rightarrow> bytes \<Rightarrow> int \<Rightarrow> int \<Rightarrow> int \<Rightarrow> datetime lex" where
  "time_fields start dt p h mi s =
    (if h > 23 then LErr ERR_SYNTAX (lit ''invalid hour'') start
     else if mi > 59 then LErr ERR_SYNTAX (lit ''invalid minute'') start
     else if s > 60 then LErr ERR_SYNTAX (lit ''invalid second'') start
     else LOk (dt\<lparr>dt_hour := word_of_int h, dt_minute := word_of_int mi, dt_second := word_of_int s\<rparr>) p)"

text \<open>The offset after the time of a date-time.\<close>

definition offset_part :: "bytes \<Rightarrow> datetime \<Rightarrow> bytes \<Rightarrow> (kind \<times> datetime) lex" where
  "offset_part start dt p =
    (if starts 0x5A p \<or> starts 0x7A p
     then LOk (K_DATETIME_OFFSET, dt\<lparr>dt_offset_seconds := 0\<rparr>) (tl p)
     else if (starts PLUS p \<or> starts MINUS p) \<and> time_shape p
     then (let sign = (if starts MINUS p then - 1 else 1);
               oh = d2 (drop 1 p); om = d2 (drop 4 p)
           in if oh > 23 \<or> om > 59
              then LErr ERR_SYNTAX (lit ''invalid UTC offset'') start
              else LOk (K_DATETIME_OFFSET,
                        dt\<lparr>dt_offset_seconds := word_of_int (sign * (oh * 3600 + om * 60))\<rparr>)
                     (drop 6 p))
     else LOk (K_DATETIME_LOCAL, dt) p)"

definition date_time_lex :: "bytes \<Rightarrow> (kind \<times> datetime) lex" where
  "date_time_lex start =
    (let y = num4 start; mo = d2 (drop 5 start); da = d2 (drop 8 start)
     in if mo < 1 \<or> mo > 12 then LErr ERR_SYNTAX (lit ''invalid month'') start
        else if da < 1 \<or> da > days_in_month y mo
        then LErr ERR_SYNTAX (lit ''invalid day'') start
        else
          (let dt = dt_zero\<lparr>dt_year := word_of_int y, dt_month := word_of_int mo,
                            dt_day := word_of_int da\<rparr>;
               p = drop 10 start
           in if \<not> ((starts 0x54 p \<or> starts 0x74 p \<or> starts SPACE p) \<and> time_shape p)
              then LOk (K_DATE_LOCAL, dt) p
              else
                (let p = drop 1 p; h = d2 p; mi = d2 (drop 3 p)
                 in lex_bind
                      (if length p \<ge> 6 \<and> p ! 5 = COLON then
                         (if length p < 8 \<or> \<not> is_dig p 6 \<or> \<not> is_dig p 7
                          then LErr ERR_SYNTAX (lit ''invalid second'') start
                          else time_fields start dt (drop 8 p) h mi (d2 (drop 6 p)))
                       else time_fields start dt (drop 5 p) h mi 0)
                      (\<lambda>dt p. lex_bind (frac_part start dt p) (offset_part start)))))"

definition time_lex :: "bytes \<Rightarrow> (kind \<times> datetime) lex" where
  "time_lex start =
    (let h = d2 start; mi = d2 (drop 3 start)
     in lex_bind
          (if length start \<ge> 8 \<and> start ! 5 = COLON then
             (if \<not> is_dig start 6 \<or> \<not> is_dig start 7
              then LErr ERR_SYNTAX (lit ''invalid second'') start
              else time_fields start dt_zero (drop 8 start) h mi (d2 (drop 6 start)))
           else time_fields start dt_zero (drop 5 start) h mi 0)
          (\<lambda>dt p. lex_bind (frac_part start dt p) (\<lambda>dt p. LOk (K_TIME_LOCAL, dt) p)))"

definition datetime_lex :: "bytes \<Rightarrow> (kind \<times> datetime) lex" where
  "datetime_lex start = (if start ! 4 = MINUS then date_time_lex start else time_lex start)"

text \<open>\<open>finish_node\<close> allocates before it moves the cursor.\<close>

definition parse_datetime :: "parser \<Rightarrow> addr res" where
  "parse_datetime ps =
    (case datetime_lex (ps_p ps) of
       LErr st msg p \<Rightarrow> fail_at ps None st msg
     | LOk (k, dt) p \<Rightarrow>
         res_bind (value_node ps k (P_Dt dt)) (\<lambda>n ps'. Ok n (set_p p ps')))"

end
