(* ===== verification/Values.thy ===== *)
theory Values
  imports Tables Numbers Datetimes
begin

text \<open>
  Value dispatch and the composite values: \<open>teptris_parse_value\<close> and its hot-path variant
  \<open>teptris_parse_value_fast\<close> of \<open>parse/scalars.c\<close>, \<open>teptris_parse_array\<close>,
  \<open>teptris_parse_inline\<close>, \<open>try_keyval_fast\<close> and \<open>parse_keyval\<close> of \<open>parse/parser.c\<close>. The C
  functions are mutually recursive; here the composite parsers take the value parser as an
  argument and \<open>parse_any\<close> ties the knot, its fuel being the nesting it may still descend.
  The loops over elements have the bytes left as fuel, since each round takes some.
\<close>

text \<open>The value parser, with the hot path (\<open>True\<close>) or without.\<close>

type_synonym value_parser = "bool \<Rightarrow> parser \<Rightarrow> addr res"

subsection \<open>Key and value\<close>

abbreviation (input) is_blank :: "byte \<Rightarrow> bool" where
  "is_blank c \<equiv> c = SPACE \<or> c = TAB"

definition duplicate_fail :: "parser \<Rightarrow> view \<Rightarrow> 'a res" where
  "duplicate_fail ps key =
    (if length (v_bytes (ps_cur_path ps)) > 0
     then semantic_fail ps (msg_with ''duplicate key '' (v_bytes key) '' in table ''
                            @ msg_with '''' (v_bytes (ps_cur_path ps)) '''')
     else semantic_fail ps (msg_with ''duplicate key '' (v_bytes key) ''''))"

definition try_keyval_fast :: "value_parser \<Rightarrow> parser \<Rightarrow> addr \<Rightarrow> unit fast" where
  "try_keyval_fast pv ps0 tbl =
    (let start = ps_p ps0
     in if start = [] \<or> \<not> is_barekey (hd start) then Declined ps0
        else
          (let (h, kend) = fnv_run 1469598103934665603 start;
               p = dropWhile is_blank kend
           in if \<not> starts EQUALS p then Declined ps0
              else
                (let key = input_span ps0 start kend
                 in Taken
                      (res_bind (pv True (set_p (dropWhile is_blank (tl p)) ps0)) (\<lambda>value ps.
                       res_bind (probe ps tbl key h) (\<lambda>(eo, slot) ps.
                         case eo of
                           Some e \<Rightarrow> duplicate_fail ps key
                         | None \<Rightarrow> insert_slot ps tbl key h value slot))))))"

text \<open>A key path, the equals sign, a value, the insertion: the general path of a line.\<close>

definition general_keyval :: "value_parser \<Rightarrow> parser \<Rightarrow> addr \<Rightarrow> unit res" where
  "general_keyval pv ps0 tbl =
    res_bind (parse_key_path ps0) (\<lambda>parts ps.
      (let p = skip_ws (ps_p ps)
       in if \<not> starts EQUALS p
          then fail_at (set_p p ps) None ERR_SYNTAX
                 (lit ''expected '' @ [SQUOTE, EQUALS, SQUOTE] @ lit '' after key'')
          else
            res_bind (pv False (set_p (skip_ws (adv 1 p)) ps)) (\<lambda>value ps.
              insert_dotted ps tbl parts value)))"

definition keyval_into :: "value_parser \<Rightarrow> parser \<Rightarrow> addr \<Rightarrow> unit res" where
  "keyval_into pv ps tbl =
    (case try_keyval_fast pv ps tbl of
       Taken r \<Rightarrow> r
     | Declined ps' \<Rightarrow> general_keyval pv ps' tbl)"

definition parse_keyval :: "value_parser \<Rightarrow> parser \<Rightarrow> unit res" where
  "parse_keyval pv ps = keyval_into pv ps (ps_cur ps)"

subsection \<open>Arrays and inline tables\<close>

definition gap :: "parser \<Rightarrow> unit res" where
  "gap ps = run_lex ps (skip_array_gap (ps_p ps))"

text \<open>The end of a round: a comma goes on, the closing bracket ends, all else is an error.\<close>

definition separator :: "byte \<Rightarrow> parser \<Rightarrow> bool res" where
  "separator close ps0 =
    res_bind (gap ps0) (\<lambda>_ ps.
      if starts COMMA (ps_p ps) then Ok True (set_p (adv 1 (ps_p ps)) ps)
      else if starts close (ps_p ps) then Ok False (set_p (adv 1 (ps_p ps)) ps)
      else fail_at ps None ERR_SYNTAX
             (lit ''expected '' @ [SQUOTE, COMMA, SQUOTE] @ lit '' or '' @ [SQUOTE, close, SQUOTE]))"

definition array_store :: "parser \<Rightarrow> addr \<Rightarrow> addr \<Rightarrow> unit res" where
  "array_store ps arr v =
    (let ar = the_array (ps_doc ps) arr
     in if length (ar_items ar) < ar_cap ar
        then Ok () (set_doc (set_payload (ps_doc ps) arr
                              (P_Array (ar\<lparr>ar_items := ar_items ar @ [v]\<rparr>))) ps)
        else array_push ps arr v)"

text \<open>One round of the loop: \<open>True\<close> to go on.\<close>

definition array_round :: "value_parser \<Rightarrow> parser \<Rightarrow> addr \<Rightarrow> bool res" where
  "array_round pv ps0 arr =
    res_bind (gap ps0) (\<lambda>_ ps.
      if ps_p ps = [] then fail_at ps None ERR_SYNTAX (lit ''unterminated array'')
      else if starts RBRACK (ps_p ps) then Ok False (set_p (adv 1 (ps_p ps)) ps)
      else
        res_bind (pv True ps) (\<lambda>v ps.
        res_bind (array_store ps arr v) (\<lambda>_ ps. separator RBRACK ps)))"

definition inline_round :: "value_parser \<Rightarrow> parser \<Rightarrow> addr \<Rightarrow> bool res" where
  "inline_round pv ps0 tbl =
    res_bind (gap ps0) (\<lambda>_ ps.
      if ps_p ps = [] then fail_at ps None ERR_SYNTAX (lit ''unterminated inline table'')
      else if starts RBRACE (ps_p ps) then Ok False (set_p (adv 1 (ps_p ps)) ps)
      else res_bind (keyval_into pv ps tbl) (\<lambda>_ ps. separator RBRACE ps))"

fun rounds :: "nat \<Rightarrow> (parser \<Rightarrow> bool res) \<Rightarrow> parser \<Rightarrow> unit res" where
  "rounds 0 step ps = NoFuel"
| "rounds (Suc n) step ps =
    res_bind (step ps) (\<lambda>again ps. if again then rounds n step ps else Ok () ps)"

text \<open>Opening bracket, depth, rounds, depth.\<close>

definition nested :: "(parser \<Rightarrow> bool res) \<Rightarrow> addr \<Rightarrow> parser \<Rightarrow> addr res" where
  "nested step node ps0 =
    (let ps = (set_p (adv 1 (ps_p ps0)) ps0)\<lparr>ps_depth := ps_depth ps0 + 1\<rparr>
     in if ps_depth ps > ps_max_depth ps
        then fail_at ps None ERR_DEPTH (lit ''nesting too deep'')
        else res_bind (rounds (Suc (length (ps_p ps))) step ps) (\<lambda>_ ps.
               Ok node (ps\<lparr>ps_depth := ps_depth ps - 1\<rparr>)))"

definition parse_array :: "value_parser \<Rightarrow> parser \<Rightarrow> addr res" where
  "parse_array pv ps0 =
    res_bind (new_array ps0 0) (\<lambda>arr ps. nested (\<lambda>ps. array_round pv ps arr) arr ps)"

definition parse_inline :: "value_parser \<Rightarrow> parser \<Rightarrow> addr res" where
  "parse_inline pv ps0 =
    res_bind (new_table ps0 TBL_INLINE) (\<lambda>tbl ps. nested (\<lambda>ps. inline_round pv ps tbl) tbl ps)"

subsection \<open>Dispatch\<close>

definition parse_bool :: "parser \<Rightarrow> bool \<Rightarrow> addr res" where
  "parse_bool ps b =
    res_bind (run_lex ps (expect_word (lit (if b then ''true'' else ''false'')) (ps_p ps)))
      (\<lambda>_ ps. value_node ps K_BOOLEAN (P_Bool b))"

definition parse_value :: "fops \<Rightarrow> value_parser \<Rightarrow> parser \<Rightarrow> addr res" where
  "parse_value fo pv ps =
    (case ps_p ps of
       [] \<Rightarrow> syntax_fail ps ''expected value''
     | c # cs \<Rightarrow>
         (if c = DQUOTE \<or> c = SQUOTE then parse_string ps
          else if c = LBRACK then parse_array pv ps
          else if c = LBRACE then parse_inline pv ps
          else if c = 0x74 \<or> c = 0x66 then parse_bool ps (c = 0x74)
          else if c = 0x69 \<or> c = 0x6E then parse_number fo ps False
          else if c = PLUS \<or> c = MINUS then parse_number fo ps True
          else if datetime_lookahead (c # cs) then parse_datetime ps
          else if is_dec c then parse_number fo ps False
          else syntax_fail ps ''expected value''))"

text \<open>Digit-led values first; the plain integer of up to 18 digits is made in place.\<close>

definition parse_value_fast :: "fops \<Rightarrow> value_parser \<Rightarrow> parser \<Rightarrow> addr res" where
  "parse_value_fast fo pv ps =
    (case ps_p ps of
       [] \<Rightarrow> parse_value fo pv ps
     | c # cs \<Rightarrow>
         (if 0x30 \<le> c \<and> c \<le> 0x39 then
            (if datetime_lookahead (c # cs) then parse_datetime ps
             else
               (let (mag, q) = dec_run 0 (c # cs); dlen = length (c # cs) - length q
                in if dlen > 0 \<and> dlen \<le> 18 \<and> c \<noteq> 0x30 \<and>
                      \<not> (starts DOT q \<or> starts_exp q \<or> starts UNDERSCORE q)
                   then value_node (set_p q ps) K_INTEGER (P_Int mag)
                   else parse_number fo ps False))
          else parse_value fo pv ps))"

fun parse_any :: "nat \<Rightarrow> fops \<Rightarrow> bool \<Rightarrow> parser \<Rightarrow> addr res" where
  "parse_any 0 fo fast ps = NoFuel"
| "parse_any (Suc n) fo fast ps =
    (if fast then parse_value_fast fo (parse_any n fo) ps
     else parse_value fo (parse_any n fo) ps)"

end
