(* ===== verification/Parser.thy ===== *)
theory Parser
  imports Values
begin

text \<open>
  The line loop of \<open>parse/parser.c\<close> (\<open>teptris_parser_run\<close>) and the entry points of
  \<open>api.c\<close> that create a document: \<open>teptris_parse\<close> and \<open>teptris_parse_batch\<close>.
\<close>

subsection \<open>The line loop\<close>

text \<open>What \<open>teptris_parser_run\<close> ends with; \<open>None\<close> of the root is a null pointer.\<close>

datatype run =
    Done status document
  | Run_Undef
  | Run_NoFuel

definition parse_header_line :: "addr \<Rightarrow> parser \<Rightarrow> unit res" where
  "parse_header_line root ps =
    (case try_header_fast root ps of
       Taken r \<Rightarrow> res_bind r (\<lambda>target ps. Ok () (ps\<lparr>ps_cur := target\<rparr>))
     | Declined ps' \<Rightarrow> parse_header root ps')"

definition finish_line_res :: "parser \<Rightarrow> unit res" where
  "finish_line_res ps = run_lex ps (finish_line (ps_p ps))"

text \<open>One iteration: \<open>False\<close> at the end of the input.\<close>

definition line_step :: "fops \<Rightarrow> nat \<Rightarrow> addr \<Rightarrow> parser \<Rightarrow> bool res" where
  "line_step fo fuel root ps0 =
    (let ps = set_p (skip_ws (ps_p ps0)) ps0
     in case ps_p ps of
          [] \<Rightarrow> Ok False ps
        | c # cs \<Rightarrow>
            (if c = LF then Ok True (set_p cs ps)
             else if c = CR then
               (if starts LF cs then Ok True (set_p (adv 1 cs) ps)
                else syntax_fail ps ''lone carriage return'')
             else if c = HASH then
               res_bind (run_lex ps (skip_comment (c # cs))) (\<lambda>_ ps. Ok True ps)
             else
               res_bind (if c = LBRACK then parse_header_line root ps
                         else parse_keyval (parse_any fuel fo) ps) (\<lambda>_ ps.
               res_bind (finish_line_res ps) (\<lambda>_ ps. Ok True ps))))"

definition skip_bom :: "bytes \<Rightarrow> bytes" where
  "skip_bom data = (if length data \<ge> 3 \<and> take 3 data = [0xEF, 0xBB, 0xBF] then drop 3 data else data)"

definition init_parser :: "document \<Rightarrow> bytes \<Rightarrow> addr \<Rightarrow> parser" where
  "init_parser doc data root =
    \<lparr>ps_doc = doc, ps_src = data, ps_p = skip_bom data, ps_depth = 0,
     ps_max_depth = (if d_max_depth doc \<noteq> 0 then d_max_depth doc else 512),
     ps_cur = root, ps_cur_path = View None []\<rparr>"

fun run_of :: "unit res \<Rightarrow> run" where
  "run_of (Ok _ ps) = Done ST_OK (ps_doc ps)"
| "run_of (Fail st ps) = Done st (ps_doc ps)"
| "run_of Undef = Run_Undef"
| "run_of NoFuel = Run_NoFuel"

definition parser_run :: "fops \<Rightarrow> document \<Rightarrow> bytes \<Rightarrow> run" where
  "parser_run fo doc0 data =
    (case validate_utf8 doc0 data of
       (st, doc1) \<Rightarrow>
         (if st \<noteq> ST_OK then Done st doc1
          else case dom_new_table doc1 TBL_EXPLICIT of
                 None \<Rightarrow>
                   Done ERR_ALLOC
                     (doc1\<lparr>d_err := (d_err doc1)\<lparr>pe_status := ERR_ALLOC,
                        pe_message := err_msg_text (lit ''out of memory'')\<rparr>\<rparr>)
               | Some (root, doc2) \<Rightarrow>
                   (let doc = doc2\<lparr>d_root := Some root\<rparr>; fuel = Suc (length data)
                    in run_of (rounds fuel (line_step fo fuel root) (init_parser doc data root)))))"

subsection \<open>Documents\<close>

definition no_error :: perror where
  "no_error = \<lparr>pe_status = ST_OK, pe_line = 0, pe_column = 0, pe_message = [],
     pe_start = 0, pe_end = 0\<rparr>"

text \<open>A fresh document; the argument is the memory its arena may still get.\<close>

definition new_document :: "nat \<Rightarrow> u32 \<Rightarrow> document" where
  "new_document avail max_depth =
    \<lparr>d_arena = arena_init avail, d_nodes = [], d_root = None, d_err = no_error,
     d_max_depth = max_depth\<rparr>"

text \<open>The status of a failure that recorded none.\<close>

definition settle_error :: "status \<Rightarrow> document \<Rightarrow> document" where
  "settle_error st doc =
    (if st \<noteq> ST_OK \<and> pe_status (d_err doc) = ST_OK
     then doc\<lparr>d_err := (d_err doc)\<lparr>pe_status := st,
            pe_message := (if st = ERR_ALLOC then err_msg_text (lit ''out of memory'') else [])\<rparr>\<rparr>
     else doc)"

definition options_depth :: "u32 option \<Rightarrow> u32" where
  "options_depth opts = (case opts of Some d \<Rightarrow> if d \<noteq> 0 then d else 512 | None \<Rightarrow> 512)"

fun settle_run :: "run \<Rightarrow> run" where
  "settle_run (Done st doc) = Done st (settle_error st doc)"
| "settle_run r = r"

text \<open>
  \<open>teptris_parse\<close> behind its \<open>calloc\<close> of the document; \<open>opts\<close> is the depth of the options, if
  there are options.
\<close>

definition teptris_parse :: "fops \<Rightarrow> nat \<Rightarrow> bytes \<Rightarrow> u32 option \<Rightarrow> run" where
  "teptris_parse fo avail data opts =
    settle_run (parser_run fo (new_document avail (options_depth opts)) data)"

text \<open>
  The whole of it: \<open>granted\<close> is the success of that \<open>calloc\<close>. Without it the caller gets the
  status alone, and no document.
\<close>

definition teptris_parse_call :: "fops \<Rightarrow> bool \<Rightarrow> nat \<Rightarrow> bytes \<Rightarrow> u32 option \<Rightarrow> status + run" where
  "teptris_parse_call fo granted avail data opts =
    (if granted then Inr (teptris_parse fo avail data opts) else Inl ERR_ALLOC)"

text \<open>
  \<open>teptris_parse_batch\<close>, the arguments not null: \<open>calloc\<close> of the documents is given by how
  many succeed. Either every document has its run, or the whole batch fails.
\<close>

fun batch_loop :: "fops \<Rightarrow> nat \<Rightarrow> u32 \<Rightarrow> nat \<Rightarrow> bytes list \<Rightarrow> run list option" where
  "batch_loop fo avail depth k [] = Some []"
| "batch_loop fo avail depth 0 (d # ds) = None"
| "batch_loop fo avail depth (Suc k) (d # ds) =
    (case batch_loop fo avail depth k ds of
       None \<Rightarrow> None
     | Some rs \<Rightarrow> Some (settle_run (parser_run fo (new_document avail depth) d) # rs))"

lemma batch_loop_code [code]:
  "batch_loop fo avail depth k ds =
    (case ds of
       [] \<Rightarrow> Some []
     | d # ds' \<Rightarrow>
         (if k = 0 then None
          else case batch_loop fo avail depth (k - 1) ds' of
                 None \<Rightarrow> None
               | Some rs \<Rightarrow> Some (settle_run (parser_run fo (new_document avail depth) d) # rs)))"
  by (cases k; cases ds) auto

definition teptris_parse_batch ::
    "fops \<Rightarrow> nat \<Rightarrow> nat \<Rightarrow> bytes list \<Rightarrow> u32 option \<Rightarrow> status \<times> run option list" where
  "teptris_parse_batch fo avail callocs datas opts =
    (if datas = [] then (ST_OK, [])
     else case batch_loop fo avail (options_depth opts) callocs datas of
            None \<Rightarrow> (ERR_ALLOC, replicate (length datas) None)
          | Some rs \<Rightarrow> (ST_OK, map Some rs))"

end
