(* ===== verification/Lex_Suffix.thy ===== *)
theory Lex_Suffix
  imports Values
begin

text \<open>
  Every lexical routine leaves a suffix of the bytes it was given, on success and on
  failure: the cursor never moves backwards and never past the end of the input. These
  facts carry the error positions and the progress measures of the parser.
\<close>

subsection \<open>Composition\<close>

lemma suffix_Cons_trans [suffix_intros]: "suffix xs ys \<Longrightarrow> suffix xs (y # ys)"
  by (rule suffix_ConsI)

lemma suffix_tl_trans: "suffix xs (tl ys) \<Longrightarrow> suffix xs ys"
  using suffix_order.trans [OF _ suffix_tl] by blast

lemma suffix_drop_trans: "suffix xs (drop n ys) \<Longrightarrow> suffix xs ys"
  using suffix_order.trans [OF _ suffix_drop] by blast

lemma suffix_dropWhile_trans: "suffix xs (dropWhile P ys) \<Longrightarrow> suffix xs ys"
  using suffix_order.trans [OF _ suffix_dropWhile] by blast

lemma suffix_adv_trans: "suffix xs (adv n ys) \<Longrightarrow> suffix xs ys"
  unfolding adv_def by (rule suffix_drop_trans)

lemma suffix_skip_ws_trans: "suffix xs (skip_ws ys) \<Longrightarrow> suffix xs ys"
  unfolding skip_ws_def by (rule suffix_dropWhile_trans)

lemma suffix_lex_bind:
  "suffix (lex_rest m) p \<Longrightarrow> (\<And>a r. m = LOk a r \<Longrightarrow> suffix (lex_rest (f a r)) r) \<Longrightarrow>
   suffix (lex_rest (lex_bind m f)) p"
  by (cases m) (auto intro: suffix_order.trans)

lemma suffix_adv [suffix_intros]: "suffix (adv n p) p"
  by (simp add: adv_def suffix_drop)

lemma suffix_skip_ws [suffix_intros]: "suffix (skip_ws p) p"
  by (simp add: skip_ws_def suffix_dropWhile)

subsection \<open>Skipping\<close>

lemma comment_body_suffix: "suffix (lex_rest (comment_body p)) p"
  by (induction p rule: comment_body.induct) (auto intro: suffix_intros)

lemma skip_comment_suffix: "suffix (lex_rest (skip_comment p)) p"
  unfolding skip_comment_def by (rule suffix_adv_trans, rule comment_body_suffix)

lemma skip_ws_nl_suffix: "suffix (lex_rest (skip_ws_nl p)) p"
proof (induction p rule: skip_ws_nl.induct)
  case (2 c cs)
  have "suffix (lex_rest (case skip_comment (c # cs) of LErr st msg p \<Rightarrow> LErr st msg p
      | LOk u p \<Rightarrow> skip_ws_nl p)) (c # cs)"
    if "\<not> is_ws c" "c \<noteq> LF" "\<not> (c = CR \<and> starts LF cs)" "c = HASH"
  proof (cases "skip_comment (c # cs)")
    case (LErr st msg p)
    then show ?thesis using skip_comment_suffix [of "c # cs"] by simp
  next
    case (LOk u p)
    then have "suffix (lex_rest (skip_ws_nl p)) p" using "2.IH"(4) that by blast
    then show ?thesis
      using LOk skip_comment_suffix [of "c # cs"] by (auto intro: suffix_order.trans)
  qed
  then show ?case
    using 2 suffix_adv_trans [of "lex_rest (skip_ws_nl (adv 1 cs))" 1 cs]
    by (simp only: skip_ws_nl.simps split: if_split) (auto intro: suffix_Cons_trans)
qed simp

lemma skip_array_gap_suffix: "suffix (lex_rest (skip_array_gap p)) p"
proof (induction p rule: skip_array_gap.induct)
  case (1 p0)
  obtain q where q: "q = dropWhile (\<lambda>c. c = SPACE \<or> c = TAB) p0" by simp
  have suf: "suffix q p0" unfolding q by (rule suffix_dropWhile)
  show ?case
  proof (cases q)
    case Nil
    then show ?thesis by (subst skip_array_gap.simps) (simp flip: q)
  next
    case (Cons c cs)
    then have "suffix (lex_rest (skip_array_gap cs)) p0" if "c = LF"
      using "1.IH" [of c cs] that q suf by (auto intro: suffix_order.trans suffix_ConsD)
    then show ?thesis
      using Cons suf skip_ws_nl_suffix [of q]
      by (subst skip_array_gap.simps) (auto simp flip: q intro: suffix_order.trans)
  qed
qed

lemma finish_line_suffix: "suffix (lex_rest (finish_line p)) p"
proof -
  have "suffix (lex_rest (if starts HASH q then skip_comment q else LOk () q)) q" for q
    by (simp add: skip_comment_suffix)
  then show ?thesis
    unfolding finish_line_def Let_def
    by (rule suffix_lex_bind [THEN suffix_skip_ws_trans]) (auto intro: suffix_intros simp: adv_def)
qed

subsection \<open>Strings\<close>

lemma read_hex_suffix: "suffix (lex_rest (read_hex k v p)) p"
  by (induction k v p rule: read_hex.induct) (auto intro: suffix_intros)

lemma trim_lines_suffix: "suffix (trim_lines p) p"
proof (induction "length p" arbitrary: p rule: less_induct)
  case less
  show ?case
  proof (cases p)
    case (Cons w ws)
    have IH: "suffix (trim_lines ws) ws" using less [of ws] Cons by simp
    show ?thesis
    proof (cases ws)
      case Nil
      with Cons show ?thesis by (simp add: suffix_ConsI)
    next
      case (Cons n ws')
      have "suffix (trim_lines ws') ws'"
        using less [of ws'] \<open>p = _\<close> Cons by simp
      with IH \<open>p = _\<close> Cons show ?thesis
        by (simp only: trim_lines.simps list.case split: if_split) (auto intro: suffix_intros)
    qed
  qed simp
qed

lemma scan_line_end_suffix: "suffix (lex_rest (scan_line_end p s)) p"
  by (simp add: scan_line_end_def Let_def trim_lines_suffix)

lemma scan_code_point_suffix: "suffix (lex_rest (scan_code_point e es s)) (e # es)"
proof -
  have "suffix (lex_rest (lex_bind (read_hex k 0 es) f)) es"
    if "\<And>a r. suffix (lex_rest (f a r)) r" for k and f :: "u32 \<Rightarrow> bytes \<Rightarrow> sink lex"
    using that by (intro suffix_lex_bind read_hex_suffix) auto
  then show ?thesis
    unfolding scan_code_point_def by (auto intro!: suffix_ConsI)
qed

lemma scan_escape_suffix: "suffix (lex_rest (scan_escape ml p s)) p"
proof (cases p)
  case (Cons e es)
  show ?thesis
  proof (cases "ml \<and> (e = SPACE \<or> e = TAB \<or> e = LF \<or> e = CR)")
    case True
    then show ?thesis
      using Cons scan_line_end_suffix [of p s] by (simp add: scan_escape_def)
  next
    case False
    then have "scan_escape ml p s = (case simple_escape e of Some ch \<Rightarrow> LOk (putch ch s) es
        | None \<Rightarrow> scan_code_point e es s)"
      using Cons unfolding scan_escape_def by (simp only: list.case if_False)
    then show ?thesis
      using Cons scan_code_point_suffix [of e es s]
      by (cases "simple_escape e") (auto intro: suffix_intros)
  qed
qed (simp add: scan_escape_def)

lemma quote_run_suffix: "suffix (lex_rest (quote_run quo p s)) p"
  by (auto simp: quote_run_def Let_def adv_def intro: suffix_intros)

lemma scan_basic_suffix: "suffix (lex_rest (scan_basic ml p s)) p"
proof (induction ml p s rule: scan_basic.induct)
  case (2 ml c cs s)
  have run: "suffix (lex_rest (case quote_run c (c # cs) s of LErr st msg p \<Rightarrow> LErr st msg p
      | LOk (s', fin) p \<Rightarrow> if fin then LOk s' p else scan_basic ml p s')) (c # cs)"
    if "c = DQUOTE" "ml"
  proof (cases "quote_run c (c # cs) s")
    case (LErr st msg p)
    then show ?thesis using quote_run_suffix [of c "c # cs" s] by simp
  next
    case (LOk r p)
    then have suf: "suffix p (c # cs)" using quote_run_suffix [of c "c # cs" s] by simp
    obtain s' fin where r: "r = (s', fin)" by (cases r)
    have "fin \<or> suffix (lex_rest (scan_basic ml p s')) (c # cs)"
      using "2.IH"(1) [of r p s' fin] that LOk r suffix_order.trans [OF _ suf] by blast
    then show ?thesis using LOk suf r by (cases fin) simp_all
  qed
  have esc: "suffix (lex_rest (case scan_escape ml cs s of LErr st msg p \<Rightarrow> LErr st msg p
      | LOk s' p \<Rightarrow> scan_basic ml p s')) (c # cs)"
    if "c \<noteq> DQUOTE" "c = BACKSLASH"
    using "2.IH"(2) that scan_escape_suffix [of ml cs s]
    by (cases "scan_escape ml cs s") (auto intro: suffix_order.trans suffix_ConsI)
  note rest = "2.IH"(3-5)
  show ?case
  proof (cases "c = DQUOTE \<and> ml")
    case True
    then show ?thesis using run by (simp only: scan_basic.simps simp_thms if_True if_False)
  next
    case False
    then show ?thesis
      using esc rest suffix_adv_trans [of "lex_rest (scan_basic ml (adv 1 cs) (putch LF s))" 1 cs]
      by (simp only: scan_basic.simps split: if_split) (auto intro: suffix_Cons_trans suffix_ConsI)
  qed
qed simp

lemma scan_literal_suffix: "suffix (lex_rest (scan_literal ml p s)) p"
proof (induction ml p s rule: scan_literal.induct)
  case (2 ml c cs s)
  have run: "suffix (lex_rest (case quote_run c (c # cs) s of LErr st msg p \<Rightarrow> LErr st msg p
      | LOk (s', fin) p \<Rightarrow> if fin then LOk s' p else scan_literal ml p s')) (c # cs)"
    if "c = SQUOTE" "ml"
  proof (cases "quote_run c (c # cs) s")
    case (LErr st msg p)
    then show ?thesis using quote_run_suffix [of c "c # cs" s] by simp
  next
    case (LOk r p)
    then have suf: "suffix p (c # cs)" using quote_run_suffix [of c "c # cs" s] by simp
    obtain s' fin where r: "r = (s', fin)" by (cases r)
    have "fin \<or> suffix (lex_rest (scan_literal ml p s')) (c # cs)"
      using "2.IH"(1) [of r p s' fin] that LOk r suffix_order.trans [OF _ suf] by blast
    then show ?thesis using LOk suf r by (cases fin) simp_all
  qed
  note rest = "2.IH"(2-4)
  show ?case
  proof (cases "c = SQUOTE \<and> ml")
    case True
    then show ?thesis using run by (simp only: scan_literal.simps simp_thms if_True if_False)
  next
    case False
    then show ?thesis
      using rest suffix_adv_trans [of "lex_rest (scan_literal ml (adv 1 cs) (putch LF s))" 1 cs]
      by (simp only: scan_literal.simps split: if_split) (auto intro: suffix_Cons_trans suffix_ConsI)
  qed
qed simp

lemma scan_quoted_suffix: "suffix (lex_rest (scan_quoted basic ml p s)) p"
  by (simp add: scan_quoted_def scan_basic_suffix scan_literal_suffix)

end
