(* ===== verification/Dom_Index.thy ===== *)
theory Dom_Index
  imports Dom
begin

text \<open>
  Correctness of the tables of \<open>dom/dom.c\<close>: the invariant of the linear-probing index, the
  termination of its loops, and the refinement of a table to the list of its (key, value)
  pairs in insertion order. The locale \<open>keyed_store\<close> states the contract the parser and
  the builder rely on; the hash table is its interpretation.
\<close>

subsection \<open>Probing\<close>

lemma and_exp_mask: "(x :: nat) AND (2 ^ k - Suc 0) = x mod 2 ^ k"
  by (metis One_nat_def mask_eq_exp_minus_1 take_bit_eq_mask take_bit_eq_mod)

lemma walk_finds:
  assumes "cap = 2 ^ k" and "s < cap" and "d < n" and "stop ((s + d) mod cap)"
  shows "\<exists>d' \<le> d. walk n (cap - 1) stop s = Some ((s + d') mod cap)
           \<and> stop ((s + d') mod cap) \<and> (\<forall>j < d'. \<not> stop ((s + j) mod cap))"
  using assms(2-)
proof (induction n arbitrary: s d)
  case 0
  then show ?case by simp
next
  case (Suc n)
  show ?case
  proof (cases "stop s")
    case True
    with Suc.prems show ?thesis by (intro exI [of _ 0]) simp
  next
    case False
    define s' where "s' = (s + 1) mod cap"
    have step: "walk (Suc n) (cap - 1) stop s = walk n (cap - 1) stop s'"
      using False assms(1) by (simp add: s'_def and_exp_mask)
    have shift: "(s' + j) mod cap = (s + Suc j) mod cap" for j
      by (simp add: s'_def mod_simps)
    obtain e where d: "d = Suc e" using False Suc.prems by (cases d) auto
    have "s' < cap" using assms(1) by (simp add: s'_def)
    then obtain d' where d': "d' \<le> e" "walk n (cap - 1) stop s' = Some ((s' + d') mod cap)"
      "stop ((s' + d') mod cap)" "\<forall>j < d'. \<not> stop ((s' + j) mod cap)"
      using Suc.IH [of s' e] Suc.prems by (auto simp: d shift)
    have "\<forall>j < Suc d'. \<not> stop ((s + j) mod cap)"
      using d'(4) False Suc.prems(1) by (auto simp: shift less_Suc_eq_0_disj)
    with d' d step show ?thesis by (intro exI [of _ "Suc d'"]) (simp add: shift)
  qed
qed

lemma walk_first:
  assumes "cap = 2 ^ k" and "s < cap" and "d < cap" and "stop ((s + d) mod cap)"
  obtains d' where "d' \<le> d" and "walk cap (cap - 1) stop s = Some ((s + d') mod cap)"
    and "stop ((s + d') mod cap)" and "\<And>j. j < d' \<Longrightarrow> \<not> stop ((s + j) mod cap)"
  using walk_finds [where n = cap and stop = stop, OF assms] by blast

text \<open>Every slot is on the probe path of every home slot.\<close>

lemma slot_reached:
  assumes "s < (cap :: nat)" and "h < cap"
  obtains d where "d < cap" and "(h + d) mod cap = s"
proof (cases "h \<le> s")
  case True
  with assms show ?thesis by (intro that [of "s - h"]) auto
next
  case False
  with assms show ?thesis by (intro that [of "cap - h + s"]) auto
qed

subsection \<open>The index invariant\<close>

definition home :: "nat \<Rightarrow> u64 \<Rightarrow> nat" where
  "home cap h = unat h AND (cap - 1)"

definition occupied :: "u32 list \<Rightarrow> nat \<Rightarrow> bool" where
  "occupied idx s \<longleftrightarrow> idx ! s \<noteq> 0"

definition indexed :: "u32 list \<Rightarrow> nat \<Rightarrow> u64 \<Rightarrow> bool" where
  "indexed idx i h \<longleftrightarrow>
    (\<exists>d < length idx. idx ! ((home (length idx) h + d) mod length idx) = of_nat i + 1
       \<and> (\<forall>j < d. occupied idx ((home (length idx) h + j) mod length idx)))"

definition index_ok :: "u32 list \<Rightarrow> u64 list \<Rightarrow> bool" where
  "index_ok idx hs \<longleftrightarrow> (\<exists>k. length idx = 2 ^ k) \<and> length hs < 2 ^ 32 - 1
     \<and> (\<forall>s < length idx. unat (idx ! s) \<le> length hs)
     \<and> (\<forall>i < length hs. indexed idx i (hs ! i))
     \<and> card {s. s < length idx \<and> occupied idx s} \<le> length hs"

lemma home_mod: "home (2 ^ k) h = unat h mod 2 ^ k"
  by (simp add: home_def and_exp_mask)

lemma home_less: "length idx = 2 ^ k \<Longrightarrow> home (length idx) h < length idx"
  by (simp add: home_mod)

lemma free_slot:
  assumes "index_ok idx hs" and "length hs < length idx"
  obtains s where "s < length idx" and "\<not> occupied idx s"
proof (rule ccontr)
  assume "\<not> thesis"
  then have "{s. s < length idx \<and> occupied idx s} = {..<length idx}"
    using that by auto
  then have "card {s. s < length idx \<and> occupied idx s} = length idx" by simp
  then show False using assms unfolding index_ok_def by linarith
qed

lemma index_okD:
  assumes "index_ok idx hs"
  shows "\<exists>k. length idx = 2 ^ k" and "length hs < 2 ^ 32 - 1"
    and "\<And>s. s < length idx \<Longrightarrow> unat (idx ! s) \<le> length hs"
    and "\<And>i. i < length hs \<Longrightarrow> indexed idx i (hs ! i)"
    and "card {s. s < length idx \<and> occupied idx s} \<le> length hs"
  using assms unfolding index_ok_def by blast+

lemma index_ok_replicate: "index_ok (replicate (2 ^ k) 0) []"
  by (simp add: index_ok_def occupied_def)

lemma unat_of_nat_Suc_u32:
  "i < 2 ^ 32 - 1 \<Longrightarrow> unat (of_nat i + 1 :: u32) = Suc i"
proof -
  assume "i < 2 ^ 32 - 1"
  then have "unat (of_nat (Suc i) :: u32) = Suc i" by (simp add: unat_of_nat del: of_nat_Suc)
  then show ?thesis by (simp add: add.commute)
qed

text \<open>Writing the next entry number into a free slot on its probe path keeps the invariant.\<close>

lemma index_ok_write:
  assumes ok: "index_ok idx hs" and len: "length hs + 1 < 2 ^ 32 - 1"
    and d: "d < length idx" and free: "\<not> occupied idx ((home (length idx) h + d) mod length idx)"
    and path: "\<And>j. j < d \<Longrightarrow> occupied idx ((home (length idx) h + j) mod length idx)"
  shows "index_ok (idx[(home (length idx) h + d) mod length idx := of_nat (length hs) + 1])
           (hs @ [h])"
proof -
  define s where "s = (home (length idx) h + d) mod length idx"
  define idx' where "idx' = idx[s := of_nat (length hs) + 1]"
  have s: "s < length idx" using d unfolding s_def by (intro mod_less_divisor) linarith
  have len': "length idx' = length idx" by (simp add: idx'_def)
  have idx'_nth: "idx' ! t = (if t = s then of_nat (length hs) + 1 else idx ! t)"
    if "t < length idx" for t using s that by (simp add: idx'_def)
  have new: "unat (of_nat (length hs) + 1 :: u32) = Suc (length hs)"
    using len by (intro unat_of_nat_Suc_u32) simp
  then have nz: "(of_nat (length hs) + 1 :: u32) \<noteq> 0" by (metis nat.simps(3) unat_0)
  have occ: "occupied idx' t \<longleftrightarrow> occupied idx t \<or> t = s" if "t < length idx" for t
    using that nz s by (auto simp: occupied_def idx'_def nth_list_update)
  have lt: "(x + y) mod length idx < length idx" for x y
    using d by (intro mod_less_divisor) linarith
  have old: "indexed idx' i (hs ! i)" if i: "i < length hs" for i
  proof -
    obtain e where e: "e < length idx"
        "idx ! ((home (length idx) (hs ! i) + e) mod length idx) = of_nat i + 1"
        "\<forall>j < e. occupied idx ((home (length idx) (hs ! i) + j) mod length idx)"
      using index_okD(4) [OF ok i] unfolding indexed_def by blast
    have "unat (of_nat i + 1 :: u32) = Suc i"
      using i len by (intro unat_of_nat_Suc_u32) simp
    with e free have "(home (length idx) (hs ! i) + e) mod length idx \<noteq> s"
      by (auto simp: occupied_def s_def)
    with e show ?thesis
      unfolding indexed_def len' by (intro exI [of _ e]) (auto simp: occ lt idx'_nth)
  qed
  have this_one: "indexed idx' (length hs) h"
    using d path s unfolding indexed_def len'
    by (intro exI [of _ d]) (auto simp: occ lt idx'_nth simp flip: s_def)
  have "{t. t < length idx \<and> occupied idx' t} = insert s {t. t < length idx \<and> occupied idx t}"
    using occ s by auto
  then have "card {t. t < length idx \<and> occupied idx' t} \<le> Suc (length hs)"
    using ok card_insert_le_m1 by (simp add: index_ok_def card_insert_if)
  moreover have "unat (idx' ! t) \<le> Suc (length hs)" if "t < length idx" for t
    using ok that s new by (auto simp: index_ok_def idx'_def nth_list_update intro: le_SucI)
  moreover have "indexed idx' i ((hs @ [h]) ! i)" if "i < Suc (length hs)" for i
    using old this_one that by (auto simp: nth_append less_Suc_eq)
  ultimately show ?thesis
    using ok len len' unfolding s_def [symmetric] idx'_def [symmetric] by (simp add: index_ok_def)
qed

lemma index_insert_ok:
  assumes ok: "index_ok idx hs" and len: "length hs + 1 < 2 ^ 32 - 1"
    and room: "length hs < length idx"
  obtains idx' where "index_insert idx (length hs) h = Some idx'"
    and "index_ok idx' (hs @ [h])" and "length idx' = length idx"
proof -
  obtain k where k: "length idx = 2 ^ k" using ok by (auto simp: index_ok_def)
  obtain f where f: "f < length idx" "\<not> occupied idx f" using free_slot [OF ok room] .
  obtain e where e: "e < length idx" "(home (length idx) h + e) mod length idx = f"
    using slot_reached [OF f(1) home_less [OF k]] .
  obtain d where d: "d \<le> e"
      "walk (length idx) (length idx - 1) (\<lambda>s. idx ! s = 0) (home (length idx) h)
         = Some ((home (length idx) h + d) mod length idx)"
      "idx ! ((home (length idx) h + d) mod length idx) = 0"
      "\<And>j. j < d \<Longrightarrow> idx ! ((home (length idx) h + j) mod length idx) \<noteq> 0"
    using walk_first [OF k home_less [OF k] e(1), of "\<lambda>s. idx ! s = 0"] e(2) f(2)
    by (auto simp: occupied_def)
  show ?thesis
  proof (rule that)
    show "index_insert idx (length hs) h
        = Some (idx[(home (length idx) h + d) mod length idx := of_nat (length hs) + 1])"
      using d(2) by (simp add: index_insert_def Let_def home_def)
    show "index_ok (idx[(home (length idx) h + d) mod length idx := of_nat (length hs) + 1])
        (hs @ [h])"
      using d e(1) by (intro index_ok_write [OF ok len]) (auto simp: occupied_def)
  qed simp
qed

lemma index_fill_ok:
  assumes "index_ok idx hs" and "length hs + length es < 2 ^ 32 - 1"
    and "length hs + length es < length idx"
  shows "\<exists>idx'. index_fill idx (length hs) es = Some idx'
           \<and> index_ok idx' (hs @ map e_hash es) \<and> length idx' = length idx"
  using assms
proof (induction es arbitrary: idx hs)
  case Nil
  then show ?case by simp
next
  case (Cons e es)
  obtain idx1 where 1: "index_insert idx (length hs) (e_hash e) = Some idx1"
      "index_ok idx1 (hs @ [e_hash e])" "length idx1 = length idx"
    using index_insert_ok [of idx hs "e_hash e"] Cons.prems by auto
  then show ?case
    using Cons.IH [of idx1 "hs @ [e_hash e]"] Cons.prems by simp
qed

subsection \<open>The table invariant\<close>

definition e_bytes :: "entry \<Rightarrow> bytes" where
  "e_bytes e = v_bytes (e_key e)"

definition table_list :: "table \<Rightarrow> (bytes \<times> addr) list" where
  "table_list t = map (\<lambda>e. (e_bytes e, e_value e)) (t_entries t)"

definition table_keys :: "table \<Rightarrow> bytes set" where
  "table_keys t = e_bytes ` set (t_entries t)"

definition table_wf :: "table \<Rightarrow> bool" where
  "table_wf t \<longleftrightarrow> distinct (map e_bytes (t_entries t))
     \<and> (\<forall>e \<in> set (t_entries t). e_hash e = key_hash (e_bytes e))
     \<and> length (t_entries t) \<le> t_cap t
     \<and> (if t_index t = [] then t_entries t = []
        else index_ok (t_index t) (map e_hash (t_entries t)) \<and> 16 \<le> length (t_index t)
             \<and> length (t_entries t) * 10 < length (t_index t) * 7)"

lemma table_wf_empty: "table_wf empty_table"
  by (simp add: table_wf_def empty_table_def)

lemma fst_table_list: "fst ` set (table_list t) = table_keys t"
  by (simp add: table_list_def table_keys_def image_image)

lemma table_wf_distinct: "table_wf t \<Longrightarrow> distinct (map fst (table_list t))"
  by (simp add: table_wf_def table_list_def comp_def)

text \<open>
  One lemma for both lookups: a walk that stops at a free slot or at a slot whose entry
  satisfies \<open>hit\<close> finds the entry with the key, if there is one, when \<open>hit\<close> says of an entry
  of the table that it has the key.
\<close>

definition lookup_stops ::
    "table \<Rightarrow> bytes \<Rightarrow> (entry \<Rightarrow> bool) \<Rightarrow> nat \<Rightarrow> bool" where
  "lookup_stops t key hit s \<longleftrightarrow>
     walk (length (t_index t)) (length (t_index t) - 1)
        (\<lambda>s. t_index t ! s = 0 \<or> hit (slot_entry t s))
        (home (length (t_index t)) (key_hash key)) = Some s
     \<and> s < length (t_index t)
     \<and> (if t_index t ! s = 0 then key \<notin> table_keys t
        else slot_entry t s \<in> set (t_entries t) \<and> e_bytes (slot_entry t s) = key)
     \<and> (\<exists>d < length (t_index t).
           s = (home (length (t_index t)) (key_hash key) + d) mod length (t_index t)
           \<and> (\<forall>j < d. occupied (t_index t)
                 ((home (length (t_index t)) (key_hash key) + j) mod length (t_index t))))"

lemma walk_lookup:
  assumes wf: "table_wf t" and ne: "t_index t \<noteq> []"
    and hit: "\<And>e. e \<in> set (t_entries t) \<Longrightarrow> hit e \<longleftrightarrow> e_bytes e = key"
  shows "\<exists>s. lookup_stops t key hit s"
proof -
  define es where "es = t_entries t"
  define idx where "idx = t_index t"
  define h where "h = home (length idx) (key_hash key)"
  define stop where "stop = (\<lambda>s. idx ! s = 0 \<or> hit (slot_entry t s))"
  have ok: "index_ok idx (map e_hash es)" and room: "length es < length idx"
    using wf ne by (auto simp: table_wf_def idx_def es_def)
  obtain k where k: "length idx = 2 ^ k" using ok by (auto simp: index_ok_def)
  have home: "h < length idx" using home_less [OF k] by (simp add: h_def)
  have entry: "slot_entry t s \<in> set es" if "s < length idx" "idx ! s \<noteq> 0" for s
  proof -
    have "unat (idx ! s) \<le> length es" "unat (idx ! s) \<noteq> 0"
      using ok that by (auto simp: index_ok_def unat_eq_0)
    then have "unat (idx ! s - 1) < length es"
      using that(2) by (simp add: unat_minus_one)
    then show ?thesis by (simp add: slot_entry_def es_def idx_def)
  qed
  have lt: "(h + j) mod length idx < length idx" for j
    using home by (intro mod_less_divisor) linarith
  have "\<exists>d < length idx. stop ((h + d) mod length idx)
          \<and> (key \<in> table_keys t \<longrightarrow>
               (\<forall>j < d. occupied idx ((h + j) mod length idx))
               \<and> idx ! ((h + d) mod length idx) \<noteq> 0)"
  proof (cases "key \<in> table_keys t")
    case True
    then obtain i where i: "i < length es" "e_bytes (es ! i) = key"
      by (auto simp: table_keys_def es_def in_set_conv_nth)
    then have "e_hash (es ! i) = key_hash key"
      using wf by (auto simp: table_wf_def es_def)
    then obtain d where d: "d < length idx" "idx ! ((h + d) mod length idx) = of_nat i + 1"
        "\<forall>j < d. occupied idx ((h + j) mod length idx)"
      using index_okD(4) [OF ok, of i] i unfolding indexed_def h_def by auto
    have "length es < 2 ^ 32 - 1" using ok by (simp add: index_ok_def)
    then have u: "unat (of_nat i + 1 :: u32) = Suc i"
      using i by (intro unat_of_nat_Suc_u32) simp
    then have nz: "(of_nat i + 1 :: u32) \<noteq> 0" by (metis nat.simps(3) unat_0)
    have "unat (of_nat i :: u32) = i"
      using i \<open>length es < 2 ^ 32 - 1\<close> by (simp add: unat_of_nat)
    then have "slot_entry t ((h + d) mod length idx) = es ! i"
      using d(2) u nz by (simp add: slot_entry_def es_def idx_def unat_minus_one)
    then have "stop ((h + d) mod length idx)"
      using i hit by (simp add: stop_def es_def)
    with d nz show ?thesis by auto
  next
    case False
    obtain f where "f < length idx" "\<not> occupied idx f" using free_slot [OF ok] room by auto
    then show ?thesis
      using slot_reached [OF _ home, of f] False by (metis occupied_def stop_def)
  qed
  then obtain e where e: "e < length idx" "stop ((h + e) mod length idx)"
    and present: "key \<in> table_keys t \<Longrightarrow>
        (\<forall>j < e. occupied idx ((h + j) mod length idx)) \<and> idx ! ((h + e) mod length idx) \<noteq> 0"
    by blast
  obtain d where d: "d \<le> e" "walk (length idx) (length idx - 1) stop h = Some ((h + d) mod length idx)"
      "stop ((h + d) mod length idx)" "\<And>j. j < d \<Longrightarrow> \<not> stop ((h + j) mod length idx)"
    using walk_first [where stop = stop, OF k home e] by metis
  have hit_at: "if idx ! ((h + d) mod length idx) = 0 then key \<notin> table_keys t
      else slot_entry t ((h + d) mod length idx) \<in> set (t_entries t)
        \<and> e_bytes (slot_entry t ((h + d) mod length idx)) = key"
  proof (cases "idx ! ((h + d) mod length idx) = 0")
    case True
    then have "key \<notin> table_keys t"
      using present d(1) by (auto simp: occupied_def le_less)
    with True show ?thesis by simp
  next
    case False
    then show ?thesis
      using entry [OF lt False] d(3) hit by (simp add: stop_def es_def)
  qed
  have "occupied idx ((h + j) mod length idx)" if "j < d" for j
    using d(4) [OF that] by (simp add: stop_def occupied_def)
  then have "\<exists>d' < length idx. (h + d) mod length idx = (h + d') mod length idx
      \<and> (\<forall>j < d'. occupied idx ((h + j) mod length idx))"
    using d(1) e(1) by (intro exI [of _ d]) auto
  then have "lookup_stops t key hit ((h + d) mod length idx)"
    using d(2) lt hit_at unfolding lookup_stops_def h_def stop_def idx_def by blast
  then show ?thesis ..
qed

subsection \<open>Lookup\<close>

lemma find_unique:
  "distinct (map f xs) \<Longrightarrow> x \<in> set xs \<Longrightarrow> f x = k \<Longrightarrow> List.find (\<lambda>y. f y = k) xs = Some x"
  by (induction xs) (auto simp: image_iff)

definition entry_for :: "table \<Rightarrow> bytes \<Rightarrow> entry option" where
  "entry_for t key = List.find (\<lambda>e. e_bytes e = key) (t_entries t)"

lemma entry_for_None: "entry_for t key = None \<longleftrightarrow> key \<notin> table_keys t"
  by (auto simp: entry_for_def find_None_iff table_keys_def)

lemma entry_for_unique:
  "table_wf t \<Longrightarrow> e \<in> set (t_entries t) \<Longrightarrow> e_bytes e = key \<Longrightarrow> entry_for t key = Some e"
  unfolding entry_for_def table_wf_def by (blast intro: find_unique)

lemma entry_for_Some: "entry_for t key = Some e \<Longrightarrow> e \<in> set (t_entries t) \<and> e_bytes e = key"
  by (auto simp: entry_for_def find_Some_iff)

lemma map_of_table_list: "map_of (table_list t) key = map_option e_value (entry_for t key)"
proof -
  have "map_of (map (\<lambda>e. (e_bytes e, e_value e)) es) key
      = map_option e_value (List.find (\<lambda>e. e_bytes e = key) es)" for es
    by (induction es) auto
  then show ?thesis by (simp add: table_list_def entry_for_def)
qed

lemma table_find_h_spec:
  assumes wf: "table_wf t"
  shows "table_find_h t key = Some (entry_for t key, key_hash key)"
proof (cases "t_index t = []")
  case True
  then have "t_entries t = []" using wf by (simp add: table_wf_def)
  with True show ?thesis by (simp add: table_find_h_def entry_for_def)
next
  case False
  obtain s where "lookup_stops t key (\<lambda>e. e_bytes e = key) s"
    using walk_lookup [OF wf False, of "\<lambda>e. e_bytes e = key" key] by auto
  then have s: "walk (length (t_index t)) (length (t_index t) - 1)
        (\<lambda>s. t_index t ! s = 0 \<or> e_bytes (slot_entry t s) = key)
        (home (length (t_index t)) (key_hash key)) = Some s"
    and res: "if t_index t ! s = 0 then key \<notin> table_keys t
         else slot_entry t s \<in> set (t_entries t) \<and> e_bytes (slot_entry t s) = key"
    unfolding lookup_stops_def by blast+
  have "(if t_index t ! s = 0 then None else Some (slot_entry t s)) = entry_for t key"
    using res entry_for_None [of t key] entry_for_unique [OF wf] by (auto split: if_splits)
  with s False show ?thesis
    by (simp add: table_find_h_def Let_def home_def e_bytes_def)
qed

text \<open>The slot a probe reports is free and on the path of the key: the insertion may use it.\<close>

definition slot_ok :: "table \<Rightarrow> u64 \<Rightarrow> nat option \<Rightarrow> bool" where
  "slot_ok t h slot \<longleftrightarrow> (case slot of None \<Rightarrow> True | Some s \<Rightarrow>
     s < length (t_index t) \<and> \<not> occupied (t_index t) s \<and>
     (\<exists>d < length (t_index t). s = (home (length (t_index t)) h + d) mod length (t_index t)
        \<and> (\<forall>j < d. occupied (t_index t)
                      ((home (length (t_index t)) h + j) mod length (t_index t)))))"

lemma slot_ok_None: "slot_ok t h None"
  by (simp add: slot_ok_def)

lemma slot_ok_cong: "t_index t' = t_index t \<Longrightarrow> slot_ok t' h slot = slot_ok t h slot"
  by (cases slot) (simp_all add: slot_ok_def)

lemma table_probe_slot_spec:
  assumes wf: "table_wf t"
  obtains slot where "table_probe_slot t (key_hash key) key = Some (entry_for t key, slot)"
    and "slot_ok t (key_hash key) slot"
proof (cases "t_index t = []")
  case True
  then have "t_entries t = []" using wf by (simp add: table_wf_def)
  with True show ?thesis
    by (intro that [of None]) (simp_all add: table_probe_slot_def entry_for_def slot_ok_None)
next
  case False
  define hit where "hit = (\<lambda>e. e_hash e = key_hash key \<and> e_bytes e = key)"
  have hit: "hit e \<longleftrightarrow> e_bytes e = key" if "e \<in> set (t_entries t)" for e
    using wf that by (auto simp: hit_def table_wf_def)
  obtain s where "lookup_stops t key hit s"
    using walk_lookup [where hit = hit and key = key, OF wf False hit] by auto
  then have s: "walk (length (t_index t)) (length (t_index t) - 1)
        (\<lambda>s. t_index t ! s = 0 \<or> hit (slot_entry t s))
        (home (length (t_index t)) (key_hash key)) = Some s"
    and lt: "s < length (t_index t)"
    and res: "if t_index t ! s = 0 then key \<notin> table_keys t
         else slot_entry t s \<in> set (t_entries t) \<and> e_bytes (slot_entry t s) = key"
    and path: "\<exists>d < length (t_index t).
           s = (home (length (t_index t)) (key_hash key) + d) mod length (t_index t)
           \<and> (\<forall>j < d. occupied (t_index t)
                 ((home (length (t_index t)) (key_hash key) + j) mod length (t_index t)))"
    unfolding lookup_stops_def by blast+
  have probe: "table_probe_slot t (key_hash key) key
      = Some (if t_index t ! s = 0 then (None, Some s) else (Some (slot_entry t s), None))"
    using s False by (simp add: table_probe_slot_def Let_def home_def hit_def e_bytes_def)
  show ?thesis
  proof (cases "t_index t ! s = 0")
    case True
    then have "entry_for t key = None" using res by (simp add: entry_for_None)
    moreover have "slot_ok t (key_hash key) (Some s)"
      using True lt path by (simp add: slot_ok_def occupied_def)
    ultimately show ?thesis using probe True by (intro that [of "Some s"]) simp_all
  next
    case False
    then have "entry_for t key = Some (slot_entry t s)"
      using res entry_for_unique [OF wf] by simp
    then show ?thesis using probe False by (intro that [of None]) (simp_all add: slot_ok_None)
  qed
qed

subsection \<open>Insertion\<close>

definition index_ready :: "table \<Rightarrow> bool" where
  "index_ready t \<longleftrightarrow> index_ok (t_index t) (map e_hash (t_entries t)) \<and> 16 \<le> length (t_index t)
     \<and> (length (t_entries t) + 1) * 10 < length (t_index t) * 7"

lemma index_rebuild_spec:
  assumes wf: "table_wf t" and k: "new_cap = 2 ^ k" "16 \<le> new_cap"
    and load: "(length (t_entries t) + 1) * 10 < new_cap * 7"
    and len: "length (t_entries t) < 2 ^ 32 - 1"
  obtains a' where "index_rebuild a t new_cap = Some (ERR_ALLOC, a', t)"
  | a' t' where "index_rebuild a t new_cap = Some (ST_OK, a', t')"
      and "index_ready t'" and "t' = t\<lparr>t_index := t_index t'\<rparr>"
proof -
  obtain idx where idx: "index_fill (replicate new_cap 0) 0 (t_entries t) = Some idx"
      "index_ok idx (map e_hash (t_entries t))" "length idx = new_cap"
    using index_fill_ok [of "replicate new_cap 0" "[]" "t_entries t"] load len
    by (auto simp: k(1) index_ok_replicate)
  show ?thesis
  proof (cases "arena_alloc a (of_nat (new_cap * 4))")
    case None
    then show ?thesis by (intro that(1) [of a]) (simp add: index_rebuild_def)
  next
    case (Some pa)
    with idx k load show ?thesis
      by (intro that(2) [of "snd pa" "t\<lparr>t_index := idx\<rparr>"])
         (simp_all add: index_rebuild_def index_ready_def split: prod.split)
  qed
qed

lemma table_reserve_spec:
  assumes "length (t_entries t) \<le> t_cap t"
  obtains a' where "table_reserve a t = (ERR_ALLOC, a', t)"
  | a' t' where "table_reserve a t = (ST_OK, a', t')" and "t_entries t' = t_entries t"
      and "t_index t' = t_index t" and "length (t_entries t) < t_cap t'"
proof (cases "length (t_entries t) = t_cap t")
  case True
  define ncap where "ncap = (if t_cap t \<noteq> 0 then t_cap t * 2 else 8)"
  have ncap: "length (t_entries t) < ncap" using True by (simp add: ncap_def)
  define old new where "old = (of_nat (t_cap t * 32) :: size_t)" and "new = (of_nat (ncap * 32) :: size_t)"
  have eq: "table_reserve a t =
      (case arena_try_grow a (t_ptr t) old new of
         Some (p, a') \<Rightarrow> (ST_OK, a', t\<lparr>t_cap := ncap\<rparr>)
       | None \<Rightarrow> (case arena_alloc a new of
            None \<Rightarrow> (ERR_ALLOC, a, t)
          | Some (p, a') \<Rightarrow> (ST_OK, a', t\<lparr>t_ptr := Some p, t_cap := ncap\<rparr>)))"
    using True unfolding table_reserve_def Let_def ncap_def old_def new_def
    by (simp only: if_True simp_thms)
  show ?thesis
  proof (cases "arena_try_grow a (t_ptr t) old new")
    case grow: None
    show ?thesis
    proof (cases "arena_alloc a new")
      case None
      with grow show ?thesis by (intro that(1) [of a]) (simp add: eq)
    next
      case (Some pa)
      with grow ncap show ?thesis
        by (intro that(2) [of "snd pa" "t\<lparr>t_ptr := Some (fst pa), t_cap := ncap\<rparr>"])
           (simp_all add: eq split: prod.split)
    qed
  next
    case (Some pa)
    with ncap show ?thesis
      by (intro that(2) [of "snd pa" "t\<lparr>t_cap := ncap\<rparr>"]) (simp_all add: eq split: prod.split)
  qed
next
  case False
  with assms show ?thesis by (intro that(2) [of a t]) (simp_all add: table_reserve_def)
qed

lemma table_append_spec:
  assumes ready: "index_ready t" and dist: "distinct (map e_bytes (t_entries t))"
    and hash: "\<forall>e \<in> set (t_entries t). e_hash e = key_hash (e_bytes e)"
    and cap: "length (t_entries t) < t_cap t" and len: "length (t_entries t) + 1 < 2 ^ 32 - 1"
    and new: "v_bytes key \<notin> table_keys t"
    and slot: "slot_ok t (key_hash (v_bytes key)) slot"
  obtains t' where "table_append t key (key_hash (v_bytes key)) v slot = Some t'"
    and "table_wf t'"
    and "t_entries t' = t_entries t @ [\<lparr>e_key = key, e_value = v, e_hash = key_hash (v_bytes key)\<rparr>]"
proof -
  define e where "e = \<lparr>e_key = key, e_value = v, e_hash = key_hash (v_bytes key)\<rparr>"
  define hs where "hs = map e_hash (t_entries t)"
  have ok: "index_ok (t_index t) hs" and room: "length hs < length (t_index t)"
    and hlen: "length hs + 1 < 2 ^ 32 - 1"
    using ready len by (simp_all add: index_ready_def hs_def)
  have wf: "table_wf (t\<lparr>t_entries := t_entries t @ [e], t_index := idx\<rparr>)"
    if "index_ok idx (hs @ [e_hash e])" "length idx = length (t_index t)" for idx
  proof -
    have "idx \<noteq> []" using that(2) room by auto
    then show ?thesis
      using that ready dist hash cap new
      by (auto simp: table_wf_def index_ready_def hs_def e_def e_bytes_def table_keys_def)
  qed
  show ?thesis
  proof (cases slot)
    case None
    obtain idx where "index_insert (t_index t) (length hs) (e_hash e) = Some idx"
        "index_ok idx (hs @ [e_hash e])" "length idx = length (t_index t)"
      by (rule index_insert_ok [OF ok hlen room])
    with wf None show ?thesis
      by (intro that [of "t\<lparr>t_entries := t_entries t @ [e], t_index := idx\<rparr>"])
         (simp_all add: table_append_def e_def hs_def)
  next
    case (Some s)
    then obtain d where d: "d < length (t_index t)"
        "s = (home (length (t_index t)) (e_hash e) + d) mod length (t_index t)"
        "\<forall>j < d. occupied (t_index t)
            ((home (length (t_index t)) (e_hash e) + j) mod length (t_index t))"
        "\<not> occupied (t_index t) s"
      using slot by (auto simp: slot_ok_def e_def)
    have "index_ok ((t_index t)[s := of_nat (length hs) + 1]) (hs @ [e_hash e])"
      unfolding d(2) using d by (intro index_ok_write [OF ok hlen]) auto
    with wf Some show ?thesis
      by (intro that [of "t\<lparr>t_entries := t_entries t @ [e],
              t_index := (t_index t)[s := of_nat (length hs) + 1]\<rparr>"])
         (simp_all add: table_append_def e_def hs_def)
  qed
qed

lemma table_insert_slot_spec:
  assumes wf: "table_wf t" and new: "v_bytes key \<notin> table_keys t"
    and len: "length (t_entries t) + 1 < 2 ^ 32 - 1"
    and slot: "slot_ok t (key_hash (v_bytes key)) slot"
  obtains a' t' where "table_insert_slot a t key (key_hash (v_bytes key)) v slot = Some (ERR_ALLOC, a', t')"
      and "table_wf t'" and "t_entries t' = t_entries t"
  | a' t' where "table_insert_slot a t key (key_hash (v_bytes key)) v slot = Some (ST_OK, a', t')"
      and "table_wf t'"
      and "t_entries t' = t_entries t @ [\<lparr>e_key = key, e_value = v, e_hash = key_hash (v_bytes key)\<rparr>]"
proof -
  define full where "full \<longleftrightarrow> (length (t_entries t) + 1) * 10 \<ge> length (t_index t) * 7"
  define ncap where "ncap = (if t_index t \<noteq> [] then length (t_index t) * 2 else 16)"
  define first where "first = (if full then index_rebuild a t ncap else Some (ST_OK, a, t))"
  have eq: "table_insert_slot a t key (key_hash (v_bytes key)) v slot =
      (case first of
         None \<Rightarrow> None
       | Some (st, a1, t1) \<Rightarrow>
           (if st \<noteq> ST_OK then Some (st, a1, t1)
            else case table_reserve a1 t1 of (st2, a2, t2) \<Rightarrow>
              (if st2 \<noteq> ST_OK then Some (st2, a2, t2)
               else case table_append t2 key (key_hash (v_bytes key)) v
                           (if full then None else slot) of
                      None \<Rightarrow> None
                    | Some t3 \<Rightarrow> Some (ST_OK, a2, t3))))"
    by (simp only: table_insert_slot_def Let_def first_def full_def ncap_def)
  have dist: "distinct (map e_bytes (t_entries t))" and cap: "length (t_entries t) \<le> t_cap t"
    and hash: "\<forall>e \<in> set (t_entries t). e_hash e = key_hash (e_bytes e)"
    using wf by (simp_all add: table_wf_def)
  have "\<exists>k. ncap = 2 ^ k"
  proof (cases "t_index t = []")
    case True
    then have "ncap = 2 ^ 4" by (simp add: ncap_def)
    then show ?thesis by blast
  next
    case False
    then have "index_ok (t_index t) (map e_hash (t_entries t))"
      using wf by (simp add: table_wf_def)
    then obtain k where "length (t_index t) = 2 ^ k" using index_okD(1) by blast
    with False have "ncap = 2 ^ Suc k" by (simp add: ncap_def)
    then show ?thesis by blast
  qed
  then obtain k where k: "ncap = 2 ^ k" ..
  have n16: "16 \<le> ncap" and load: "(length (t_entries t) + 1) * 10 < ncap * 7"
    using wf by (auto simp: ncap_def table_wf_def split: if_splits)
  consider (fail) a1 where "first = Some (ERR_ALLOC, a1, t)"
    | (ok) a1 t1 where "first = Some (ST_OK, a1, t1)" "index_ready t1"
        "t_entries t1 = t_entries t" "t_cap t1 = t_cap t"
        "slot_ok t1 (key_hash (v_bytes key)) (if full then None else slot)"
  proof (cases full)
    case True
    have len': "length (t_entries t) < 2 ^ 32 - 1" using len by simp
    show ?thesis
    proof (cases rule: index_rebuild_spec [OF wf k n16 load len', of a])
      case (1 a')
      with True show ?thesis by (intro fail) (simp add: first_def)
    next
      case (2 a' t')
      have "t_entries t' = t_entries t" "t_cap t' = t_cap t" by (subst 2(3), simp)+
      with 2 True show ?thesis by (intro ok [of a' t']) (simp_all add: first_def slot_ok_None)
    qed
  next
    case False
    then have "index_ready t" using wf by (auto simp: index_ready_def table_wf_def full_def split: if_splits)
    with False slot show ?thesis by (intro ok [of a t]) (simp_all add: first_def)
  qed
  then show ?thesis
  proof cases
    case fail
    then show ?thesis
      using wf by (intro that(1) [of a1 t])
        (simp_all add: eq)
  next
    case ok
    have cap1: "length (t_entries t1) \<le> t_cap t1" using cap ok by simp
    show ?thesis
    proof (cases rule: table_reserve_spec [OF cap1, of a1])
      case (1 a2)
      have "table_wf t1"
        using ok dist hash cap by (auto simp: table_wf_def index_ready_def)
      with 1 ok show ?thesis
        by (intro that(1) [of a2 t1])
          (simp_all add: eq)
    next
      case (2 a2 t2)
      have ready: "index_ready t2" "slot_ok t2 (key_hash (v_bytes key)) (if full then None else slot)"
        using ok 2 slot_ok_cong [of t2 t1] by (simp_all add: index_ready_def)
      obtain t' where t': "table_append t2 key (key_hash (v_bytes key)) v
            (if full then None else slot) = Some t'" "table_wf t'"
          "t_entries t' = t_entries t2 @ [\<lparr>e_key = key, e_value = v, e_hash = key_hash (v_bytes key)\<rparr>]"
        using table_append_spec [OF ready(1) _ _ _ _ _ ready(2), of v] ok 2 dist hash new len
        by (auto simp: table_keys_def)
      with 2 ok show ?thesis
        by (intro that(2) [of a2 t'])
          (simp_all add: eq)
    qed
  qed
qed

subsection \<open>The interface\<close>

text \<open>
  The contract of a keyed container as the parser and the builder use it: it refines a list
  of pairs in insertion order, a lookup returns what was put last under the key, a new key
  goes to the end, and a failed insertion (no memory) leaves the contents as they were.
  \<open>None\<close> is an operation that does not return.
\<close>

locale keyed_store =
  fixes invar :: "'t \<Rightarrow> bool"
    and pairs :: "'t \<Rightarrow> (bytes \<times> addr) list"
    and look :: "'t \<Rightarrow> bytes \<Rightarrow> addr option option"
    and put :: "'m \<Rightarrow> 't \<Rightarrow> view \<Rightarrow> addr \<Rightarrow> (status \<times> 'm \<times> 't) option"
    and room :: nat
  assumes look_pairs: "invar t \<Longrightarrow> look t key = Some (map_of (pairs t) key)"
    and put_returns: "invar t \<Longrightarrow> v_bytes k \<notin> fst ` set (pairs t) \<Longrightarrow>
          Suc (length (pairs t)) < room \<Longrightarrow> put m t k v \<noteq> None"
    and put_invar: "invar t \<Longrightarrow> v_bytes k \<notin> fst ` set (pairs t) \<Longrightarrow>
          Suc (length (pairs t)) < room \<Longrightarrow> put m t k v = Some (st, m', t') \<Longrightarrow> invar t'"
    and put_pairs: "invar t \<Longrightarrow> v_bytes k \<notin> fst ` set (pairs t) \<Longrightarrow>
          Suc (length (pairs t)) < room \<Longrightarrow> put m t k v = Some (st, m', t') \<Longrightarrow>
          pairs t' = (if st = ST_OK then pairs t @ [(v_bytes k, v)] else pairs t)"
begin

lemma look_put_same:
  assumes "invar t" and "v_bytes k \<notin> fst ` set (pairs t)" and "Suc (length (pairs t)) < room"
    and "put m t k v = Some (ST_OK, m', t')"
  shows "look t' (v_bytes k) = Some (Some v)"
proof -
  have "map_of (pairs t) (v_bytes k) = None" using assms(2) by (simp add: map_of_eq_None_iff)
  then show ?thesis
    using put_pairs [OF assms] by (simp add: look_pairs [OF put_invar [OF assms]] map_add_def)
qed

lemma look_put_other:
  assumes "invar t" and "v_bytes k \<notin> fst ` set (pairs t)" and "Suc (length (pairs t)) < room"
    and "put m t k v = Some (st, m', t')" and "k' \<noteq> v_bytes k"
  shows "look t' k' = look t k'"
  using put_pairs [OF assms(1-4)] assms(5)
  by (simp add: look_pairs [OF put_invar [OF assms(1-4)]] look_pairs [OF assms(1)] map_add_def
      split: option.split)

lemma put_failed:
  assumes "invar t" and "v_bytes k \<notin> fst ` set (pairs t)" and "Suc (length (pairs t)) < room"
    and "put m t k v = Some (st, m', t')" and "st \<noteq> ST_OK"
  shows "pairs t' = pairs t" and "look t' = look t"
proof -
  show same: "pairs t' = pairs t" using put_pairs [OF assms(1-4)] assms(5) by simp
  show "look t' = look t"
    by (rule ext) (simp add: look_pairs [OF put_invar [OF assms(1-4)]] look_pairs [OF assms(1)] same)
qed

lemma put_keys_distinct:
  assumes "invar t" and "v_bytes k \<notin> fst ` set (pairs t)" and "Suc (length (pairs t)) < room"
    and "put m t k v = Some (st, m', t')" and "distinct (map fst (pairs t))"
  shows "distinct (map fst (pairs t'))"
  using put_pairs [OF assms(1-4)] assms(2,5) by simp

end

definition table_look :: "table \<Rightarrow> bytes \<Rightarrow> addr option option" where
  "table_look t key = map_option (\<lambda>(e, h). map_option e_value e) (table_find_h t key)"

lemma table_insert_refines:
  assumes "table_wf t" and "v_bytes key \<notin> fst ` set (table_list t)"
    and "Suc (length (table_list t)) < 2 ^ 32 - 1"
  shows "\<exists>st a' t'. table_insert a t key v = Some (st, a', t') \<and> table_wf t'
    \<and> table_list t' = (if st = ST_OK then table_list t @ [(v_bytes key, v)] else table_list t)"
proof -
  have new: "v_bytes key \<notin> table_keys t" using assms(2) by (simp add: fst_table_list)
  have len: "length (t_entries t) + 1 < 2 ^ 32 - 1" using assms(3) by (simp add: table_list_def)
  show ?thesis
    by (rule table_insert_slot_spec [OF assms(1) new len slot_ok_None, of a v])
       (auto simp: table_insert_def table_insert_h_def table_list_def e_bytes_def)
qed

interpretation hash_store: keyed_store table_wf table_list table_look table_insert "2 ^ 32 - 1"
proof (unfold_locales, goal_cases)
  case (1 t key)
  then show ?case by (simp add: table_look_def table_find_h_spec map_of_table_list)
next
  case (2 t k m v)
  then show ?case using table_insert_refines [OF 2, of m v] by auto
next
  case (3 t k m v st m' t')
  then show ?case using table_insert_refines [OF 3(1-3), of m v] by auto
next
  case (4 t k m v st m' t')
  then show ?case using table_insert_refines [OF 4(1-3), of m v] by auto
qed

end
