(* ===== verification/Wellformed.thy ===== *)
theory Wellformed
  imports Parser Lex_Suffix Dom_Index
begin

text \<open>
  What the parser keeps true of the document while it runs: every node's payload matches
  its kind, tables keep the index invariant, references point to existing nodes, and an
  array of tables is never empty and holds tables only. A budget
  counts the insertions against the bytes of input, so that the 32-bit entry numbers of
  the index cannot overflow on inputs shorter than 4 GiB. \<open>res_ok\<close> states what a routine
  guarantees under this invariant: an intact document on success, a failure recorded at a
  position inside the input, and never a loop that fails to stop.
\<close>

subsection \<open>Nodes\<close>

fun kind_payload :: "kind \<Rightarrow> payload \<Rightarrow> bool" where
  "kind_payload K_STRING (P_Str s) = True"
| "kind_payload K_INTEGER (P_Int i) = True"
| "kind_payload K_FLOAT (P_Float f) = True"
| "kind_payload K_BOOLEAN (P_Bool b) = True"
| "kind_payload K_DATETIME_OFFSET (P_Dt d) = True"
| "kind_payload K_DATETIME_LOCAL (P_Dt d) = True"
| "kind_payload K_DATE_LOCAL (P_Dt d) = True"
| "kind_payload K_TIME_LOCAL (P_Dt d) = True"
| "kind_payload K_ARRAY (P_Array a) = True"
| "kind_payload K_TABLE (P_Table t) = True"
| "kind_payload _ _ = False"

fun payload_refs :: "payload \<Rightarrow> addr set" where
  "payload_refs (P_Table t) = e_value ` set (t_entries t)"
| "payload_refs (P_Array a) = set (ar_items a)"
| "payload_refs _ = {}"

definition aot_ok :: "node list \<Rightarrow> node \<Rightarrow> bool" where
  "aot_ok ns n \<longleftrightarrow> (n_kind n = K_ARRAY \<and> has_flag n ARR_AOT \<longrightarrow>
     ar_items (payload_array (n_as n)) \<noteq> []
     \<and> (\<forall>v \<in> set (ar_items (payload_array (n_as n))). n_kind (ns ! v) = K_TABLE))"

definition node_ok :: "nat \<Rightarrow> node list \<Rightarrow> nat \<Rightarrow> bool" where
  "node_ok m ns i \<longleftrightarrow> kind_payload (n_kind (ns ! i)) (n_as (ns ! i))
     \<and> (\<forall>v \<in> payload_refs (n_as (ns ! i)). v < length ns)
     \<and> table_wf (payload_table (n_as (ns ! i)))
     \<and> length (t_entries (payload_table (n_as (ns ! i)))) \<le> m
     \<and> aot_ok ns (ns ! i)"

definition nodes_ok :: "nat \<Rightarrow> node list \<Rightarrow> bool" where
  "nodes_ok m ns \<longleftrightarrow> (\<forall>i < length ns. node_ok m ns i)"

text \<open>Later states of the nodes: none disappears, kinds and the flags of arrays stay.\<close>

definition nodes_ext :: "node list \<Rightarrow> node list \<Rightarrow> bool" where
  "nodes_ext ns ns' \<longleftrightarrow> length ns \<le> length ns' \<and>
     (\<forall>i < length ns. n_kind (ns' ! i) = n_kind (ns ! i) \<and>
        (n_kind (ns ! i) = K_ARRAY \<longrightarrow> n_flags (ns' ! i) = n_flags (ns ! i)))"

lemma nodes_ok_mono: "nodes_ok m ns \<Longrightarrow> m \<le> m' \<Longrightarrow> nodes_ok m' ns"
  unfolding nodes_ok_def node_ok_def by (meson order.trans)

lemma nodes_okD: "nodes_ok m ns \<Longrightarrow> i < length ns \<Longrightarrow> node_ok m ns i"
  by (simp add: nodes_ok_def)

lemma nodes_ext_refl: "nodes_ext ns ns"
  by (simp add: nodes_ext_def)

lemma nodes_ext_trans:
  assumes ab: "nodes_ext a b" and bc: "nodes_ext b c"
  shows "nodes_ext a c"
proof -
  have len: "length a \<le> length b" "length b \<le> length c" using ab bc by (simp_all add: nodes_ext_def)
  moreover have "n_kind (c ! i) = n_kind (a ! i) \<and> (n_kind (a ! i) = K_ARRAY \<longrightarrow> n_flags (c ! i) = n_flags (a ! i))"
    if "i < length a" for i
  proof -
    have "i < length b" using that len by simp
    then show ?thesis using ab bc that by (simp add: nodes_ext_def)
  qed
  ultimately show ?thesis by (simp add: nodes_ext_def)
qed

lemma nodes_ext_append: "nodes_ext ns (ns @ [n])"
  by (simp add: nodes_ext_def nth_append)

lemma nodes_ext_less: "nodes_ext ns ns' \<Longrightarrow> i < length ns \<Longrightarrow> i < length ns'"
  by (simp add: nodes_ext_def)

lemma nodes_ext_kind: "nodes_ext ns ns' \<Longrightarrow> i < length ns \<Longrightarrow> n_kind (ns' ! i) = n_kind (ns ! i)"
  by (simp add: nodes_ext_def)

lemma nodes_ext_update:
  "n_kind n = n_kind (ns ! i) \<Longrightarrow> (n_kind n = K_ARRAY \<Longrightarrow> n_flags n = n_flags (ns ! i)) \<Longrightarrow>
   nodes_ext ns (ns[i := n])"
  by (cases "i < length ns") (auto simp: nodes_ext_def nth_list_update list_update_beyond)

lemma kind_payload_table:
  "kind_payload K_TABLE v \<longleftrightarrow> (\<exists>t. v = P_Table t)"
  "kind_payload k (P_Table t) \<longleftrightarrow> k = K_TABLE"
  "kind_payload K_ARRAY v \<longleftrightarrow> (\<exists>a. v = P_Array a)"
  "kind_payload k (P_Array a) \<longleftrightarrow> k = K_ARRAY"
     apply (cases v; simp)
    apply (cases k; simp)
   apply (cases v; simp)
  apply (cases k; simp)
  done

lemma node_ok_table:
  assumes "nodes_ok m ns" "t < length ns" "n_kind (ns ! t) = K_TABLE"
  shows "n_as (ns ! t) = P_Table (payload_table (n_as (ns ! t)))"
    and "table_wf (payload_table (n_as (ns ! t)))"
    and "length (t_entries (payload_table (n_as (ns ! t)))) \<le> m"
    and "\<And>e. e \<in> set (t_entries (payload_table (n_as (ns ! t)))) \<Longrightarrow>
           e_value e < length ns"
  using nodes_okD [OF assms(1,2)] assms(3) by (auto simp: node_ok_def kind_payload_table)

lemma node_ok_array:
  assumes "nodes_ok m ns" "i < length ns" "n_kind (ns ! i) = K_ARRAY"
  shows "n_as (ns ! i) = P_Array (payload_array (n_as (ns ! i)))"
    and "\<And>v. v \<in> set (ar_items (payload_array (n_as (ns ! i)))) \<Longrightarrow> v < length ns"
    and "has_flag (ns ! i) ARR_AOT \<Longrightarrow> ar_items (payload_array (n_as (ns ! i))) \<noteq> [] \<and>
           (\<forall>v \<in> set (ar_items (payload_array (n_as (ns ! i)))). n_kind (ns ! v) = K_TABLE)"
  using nodes_okD [OF assms(1,2)] assms(3) by (auto simp: node_ok_def kind_payload_table aot_ok_def)

lemma nodes_ok_append:
  assumes "nodes_ok m ns" "kind_payload (n_kind n) (n_as n)" "payload_refs (n_as n) = {}"
    "table_wf (payload_table (n_as n))" "t_entries (payload_table (n_as n)) = []"
    "aot_ok (ns @ [n]) n"
  shows "nodes_ok m (ns @ [n])"
proof (unfold nodes_ok_def, intro allI impI)
  fix i assume i: "i < length (ns @ [n])"
  show "node_ok m (ns @ [n]) i"
  proof (cases "i < length ns")
    case True
    then have ok: "node_ok m ns i" using assms(1) by (rule nodes_okD [rotated])
    have items: "v < length ns" if "n_kind (ns ! i) = K_ARRAY"
      "v \<in> set (ar_items (payload_array (n_as (ns ! i))))" for v
      using node_ok_array(2) [OF assms(1) True that] by simp
    have "aot_ok (ns @ [n]) (ns ! i)"
      using ok items by (auto simp: node_ok_def aot_ok_def nth_append)
    then show ?thesis using True ok by (auto simp: node_ok_def nth_append)
  next
    case False
    then show ?thesis using assms i by (simp add: node_ok_def nth_append)
  qed
qed

lemma nodes_ok_update:
  assumes ok: "nodes_ok m ns" and m: "m \<le> m'" and t: "t < length ns"
    and kind: "n_kind n = n_kind (ns ! t)" "kind_payload (n_kind n) (n_as n)"
    and refs: "\<forall>v \<in> payload_refs (n_as n). v < length ns"
    and tbl: "table_wf (payload_table (n_as n))" "length (t_entries (payload_table (n_as n))) \<le> m'"
    and aot: "aot_ok ns n"
  shows "nodes_ok m' (ns[t := n])"
proof (unfold nodes_ok_def, intro allI impI)
  fix i assume i: "i < length (ns[t := n])"
  have kinds: "n_kind (ns[t := n] ! v) = n_kind (ns ! v)" for v
    using kind(1) t by (simp add: nth_list_update)
  have aots: "aot_ok (ns[t := n]) x = aot_ok ns x" for x
    by (simp add: aot_ok_def kinds)
  show "node_ok m' (ns[t := n]) i"
  proof (cases "i = t")
    case True
    then show ?thesis using t kind refs tbl aot by (simp add: node_ok_def aots)
  next
    case False
    then have "node_ok m ns i" using ok i by (intro nodes_okD) simp_all
    then show ?thesis using False m by (auto simp: node_ok_def aots)
  qed
qed

subsection \<open>The document operations\<close>

lemma dom_new_node_eq:
  assumes "dom_new_node doc k = Some (n, doc')"
  shows "n = length (d_nodes doc)"
    and "d_nodes doc' = d_nodes doc @ [\<lparr>n_kind = k, n_flags = 0, n_as = zero_payload k\<rparr>]"
    and "d_err doc' = d_err doc" and "d_root doc' = d_root doc"
    and "d_max_depth doc' = d_max_depth doc"
  using assms by (auto simp: dom_new_node_def split: option.splits prod.splits)

lemma dom_new_table_eq:
  assumes "dom_new_table doc fl = Some (n, doc')"
  shows "n = length (d_nodes doc)"
    and "d_nodes doc' = d_nodes doc @ [\<lparr>n_kind = K_TABLE, n_flags = fl, n_as = P_Table empty_table\<rparr>]"
    and "d_err doc' = d_err doc" and "d_root doc' = d_root doc"
    and "d_max_depth doc' = d_max_depth doc"
proof -
  obtain doc1 where doc1: "dom_new_node doc K_TABLE = Some (n, doc1)" and d: "doc' = set_flags doc1 n fl"
    using assms by (auto simp: dom_new_table_def split: option.splits prod.splits)
  note eq = dom_new_node_eq [OF doc1]
  show "n = length (d_nodes doc)" by (rule eq(1))
  then show "d_nodes doc' = d_nodes doc @ [\<lparr>n_kind = K_TABLE, n_flags = fl, n_as = P_Table empty_table\<rparr>]"
    using eq(2) by (simp add: d set_flags_def)
  show "d_err doc' = d_err doc" "d_root doc' = d_root doc" "d_max_depth doc' = d_max_depth doc"
    using eq(3-5) by (simp_all add: d set_flags_def)
qed

lemma dom_new_array_eq:
  assumes "dom_new_array doc fl = Some (n, doc')"
  shows "n = length (d_nodes doc)"
    and "d_nodes doc' = d_nodes doc @ [\<lparr>n_kind = K_ARRAY, n_flags = fl, n_as = P_Array empty_array\<rparr>]"
    and "d_err doc' = d_err doc" and "d_root doc' = d_root doc"
    and "d_max_depth doc' = d_max_depth doc"
proof -
  obtain doc1 where doc1: "dom_new_node doc K_ARRAY = Some (n, doc1)" and d: "doc' = set_flags doc1 n fl"
    using assms by (auto simp: dom_new_array_def split: option.splits prod.splits)
  note eq = dom_new_node_eq [OF doc1]
  show "n = length (d_nodes doc)" by (rule eq(1))
  then show "d_nodes doc' = d_nodes doc @ [\<lparr>n_kind = K_ARRAY, n_flags = fl, n_as = P_Array empty_array\<rparr>]"
    using eq(2) by (simp add: d set_flags_def)
  show "d_err doc' = d_err doc" "d_root doc' = d_root doc" "d_max_depth doc' = d_max_depth doc"
    using eq(3-5) by (simp_all add: d set_flags_def)
qed

text \<open>The parts of the document that the node operations leave alone.\<close>

definition doc_frame :: "document \<Rightarrow> document \<Rightarrow> bool" where
  "doc_frame doc doc' \<longleftrightarrow> nodes_ext (d_nodes doc) (d_nodes doc') \<and> d_err doc' = d_err doc
     \<and> d_root doc' = d_root doc \<and> d_max_depth doc' = d_max_depth doc"

lemma doc_frame_refl: "doc_frame doc doc"
  by (simp add: doc_frame_def nodes_ext_refl)

lemma doc_frame_trans: "doc_frame a b \<Longrightarrow> doc_frame b c \<Longrightarrow> doc_frame a c"
  by (auto simp: doc_frame_def intro: nodes_ext_trans)

lemma set_payload_nodes:
  "d_nodes (set_payload doc n v) = (d_nodes doc)[n := (d_nodes doc ! n)\<lparr>n_as := v\<rparr>]"
  "d_err (set_payload doc n v) = d_err doc" "d_root (set_payload doc n v) = d_root doc"
  "d_max_depth (set_payload doc n v) = d_max_depth doc"
  "d_arena (set_payload doc n v) = d_arena doc"
  by (simp_all add: set_payload_def)

lemma set_payload_frame: "doc_frame doc (set_payload doc n v)"
  by (simp add: doc_frame_def set_payload_nodes nodes_ext_update)

lemma set_flags_nodes:
  "d_nodes (set_flags doc n f) = (d_nodes doc)[n := (d_nodes doc ! n)\<lparr>n_flags := f\<rparr>]"
  "d_err (set_flags doc n f) = d_err doc" "d_root (set_flags doc n f) = d_root doc"
  "d_max_depth (set_flags doc n f) = d_max_depth doc"
  by (simp_all add: set_flags_def)

lemma dom_probe_ok:
  assumes ok: "nodes_ok m (d_nodes doc)" and t: "t < length (d_nodes doc)"
    "n_kind (the_node doc t) = K_TABLE"
  shows "\<exists>slot. dom_table_probe_slot doc t (key_hash key) key
      = Some (entry_for (the_table doc t) key, slot)
    \<and> slot_ok (the_table doc t) (key_hash key) slot"
  by (rule table_probe_slot_spec [OF node_ok_table(2) [OF ok t], of key])
     (auto simp: dom_table_probe_slot_def t(2))

lemma dom_insert_ok:
  assumes ok: "nodes_ok m (d_nodes doc)"
    and t: "t < length (d_nodes doc)" "n_kind (the_node doc t) = K_TABLE"
    and new: "entry_for (the_table doc t) (v_bytes key) = None"
    and slot: "slot_ok (the_table doc t) (key_hash (v_bytes key)) slot"
    and v: "v < length (d_nodes doc)" and m: "m + 1 < 2 ^ 32 - 1"
  shows "\<exists>st doc'. dom_table_insert_slot doc t key (key_hash (v_bytes key)) v slot = Some (st, doc')
    \<and> doc_frame doc doc' \<and> nodes_ok (Suc m) (d_nodes doc') \<and> (st = ST_OK \<or> st = ERR_ALLOC)"
proof -
  let ?t = "the_table doc t"
  have wf: "table_wf ?t" and le: "length (t_entries ?t) \<le> m"
    and refs: "\<And>e. e \<in> set (t_entries ?t) \<Longrightarrow> e_value e < length (d_nodes doc)"
    using node_ok_table [OF ok t] by blast+
  have len: "length (t_entries ?t) + 1 < 2 ^ 32 - 1" using le m by linarith
  have new': "v_bytes key \<notin> table_keys ?t" using new by (simp add: entry_for_None)
  have store: "nodes_ok (Suc m) ((d_nodes doc)[t := (the_node doc t)\<lparr>n_as := P_Table t'\<rparr>])"
    if "table_wf t'" "length (t_entries t') \<le> Suc m"
      "\<forall>e \<in> set (t_entries t'). e_value e < length (d_nodes doc)" for t'
    using that t by (intro nodes_ok_update [OF ok]) (auto simp: aot_ok_def)
  have "\<exists>st a' t'. table_insert_slot (d_arena doc) ?t key (key_hash (v_bytes key)) v slot = Some (st, a', t')
      \<and> (st = ST_OK \<or> st = ERR_ALLOC) \<and> table_wf t' \<and> length (t_entries t') \<le> Suc m
      \<and> (\<forall>e \<in> set (t_entries t'). e_value e < length (d_nodes doc))"
    by (rule table_insert_slot_spec [OF wf new' len slot, of "d_arena doc" v])
       (use le refs v in auto)
  then obtain st a' t' where ins:
    "table_insert_slot (d_arena doc) ?t key (key_hash (v_bytes key)) v slot = Some (st, a', t')"
    "st = ST_OK \<or> st = ERR_ALLOC" and t': "table_wf t'" "length (t_entries t') \<le> Suc m"
    "\<forall>e \<in> set (t_entries t'). e_value e < length (d_nodes doc)" by blast
  then show ?thesis
    using store [OF t'] set_payload_frame [of "doc\<lparr>d_arena := a'\<rparr>" t "P_Table t'"]
    by (simp add: dom_table_insert_slot_def set_payload_nodes doc_frame_def)
qed

subsection \<open>What a routine guarantees\<close>

text \<open>
  \<open>intact b ps\<close>: the document is well formed, and no table has more entries than the budget
  \<open>b\<close> less the bytes that are left.
\<close>

definition intact :: "nat \<Rightarrow> parser \<Rightarrow> bool" where
  "intact b ps \<longleftrightarrow> suffix (ps_p ps) (ps_src ps) \<and> length (ps_p ps) \<le> b
     \<and> nodes_ok (b - length (ps_p ps)) (d_nodes (ps_doc ps))"

definition stays :: "parser \<Rightarrow> parser \<Rightarrow> bool" where
  "stays ps ps' \<longleftrightarrow> ps_src ps' = ps_src ps \<and> ps_max_depth ps' = ps_max_depth ps
     \<and> ps_depth ps' = ps_depth ps \<and> ps_cur ps' = ps_cur ps \<and> suffix (ps_p ps') (ps_p ps) \<and> doc_frame (ps_doc ps) (ps_doc ps')"

text \<open>The record of a failure: its status, at the cursor where the parser stopped.\<close>

definition recorded :: "status \<Rightarrow> parser \<Rightarrow> bool" where
  "recorded st ps \<longleftrightarrow>
     (\<exists>msg. d_err (ps_doc ps) = error_at (ps_src ps) (cursor_offset ps) st msg)"

definition fails_ok :: "parser \<Rightarrow> status \<Rightarrow> parser \<Rightarrow> bool" where
  "fails_ok ps st ps' \<longleftrightarrow> st \<noteq> ST_OK \<and> ps_src ps' = ps_src ps \<and> suffix (ps_p ps') (ps_src ps)
     \<and> (recorded st ps' \<or> st = ERR_ALLOC \<and> d_err (ps_doc ps') = d_err (ps_doc ps))"

text \<open>
  The two shapes of a source on which the code leaves defined behaviour: a run of at least 1031
  bytes of a number, whose digits and sign can fill the buffer of the slow float path
  (\<open>fbuf\<close>) to its last byte, and a closing quote before a dot, as in a dotted key with a
  quoted part, whose error message takes the difference of pointers of two objects.
\<close>

definition num_byte :: "byte \<Rightarrow> bool" where
  "num_byte c \<longleftrightarrow> (0x30 \<le> c \<and> c \<le> 0x39) \<or> c \<in> {UNDERSCORE, DOT, 0x65, 0x45, PLUS, MINUS}"

fun overlong_number :: "bytes \<Rightarrow> bool" where
  "overlong_number [] \<longleftrightarrow> False"
| "overlong_number (c # cs) \<longleftrightarrow> 1031 \<le> length (takeWhile num_byte (c # cs)) \<or> overlong_number cs"

fun quoted_path :: "bytes \<Rightarrow> bool" where
  "quoted_path [] \<longleftrightarrow> False"
| "quoted_path (c # cs) \<longleftrightarrow> (c = DQUOTE \<or> c = SQUOTE) \<and> starts DOT (skip_ws cs) \<or> quoted_path cs"

definition hazard :: "bytes \<Rightarrow> bool" where
  "hazard src \<longleftrightarrow> overlong_number src \<or> quoted_path src"

lemma overlong_append: "overlong_number p \<Longrightarrow> overlong_number (pre @ p)"
  by (induction pre) auto

lemma overlong_run:
  assumes "suffix (w @ r) src" "1031 \<le> length w" "list_all num_byte w"
  shows "hazard src"
proof -
  obtain c cs where w: "w = c # cs" using assms(2) by (cases w) auto
  have "\<forall>x \<in> set w. num_byte x" using assms(3) by (simp add: list_all_iff)
  then have "length w \<le> length (takeWhile num_byte (w @ r))" by (simp add: takeWhile_append2)
  then have "overlong_number (w @ r)"
    using assms(2) unfolding w append_Cons overlong_number.simps by (intro disjI1) linarith
  then show ?thesis using assms(1) overlong_append by (auto simp: hazard_def suffix_def)
qed

lemma quoted_path_append: "quoted_path p \<Longrightarrow> quoted_path (pre @ p)"
  by (induction pre) auto

lemma quoted_path_suffix:
  assumes "suffix (q # p) src" "q = DQUOTE \<or> q = SQUOTE" "starts DOT (skip_ws p)"
  shows "quoted_path src"
proof -
  have "quoted_path (q # p)" using assms(2,3) by simp
  then show ?thesis using assms(1) quoted_path_append by (auto simp: suffix_def)
qed

fun res_ok :: "nat \<Rightarrow> parser \<Rightarrow> 'a res \<Rightarrow> ('a \<Rightarrow> parser \<Rightarrow> bool) \<Rightarrow> bool" where
  "res_ok b ps (Ok a ps') Q \<longleftrightarrow> intact b ps' \<and> stays ps ps' \<and> Q a ps'"
| "res_ok b ps (Fail st ps') Q \<longleftrightarrow> fails_ok ps st ps'"
| "res_ok b ps Undef Q \<longleftrightarrow> hazard (ps_src ps)"
| "res_ok b ps NoFuel Q \<longleftrightarrow> False"

lemma staysD:
  "stays ps ps' \<Longrightarrow> ps_src ps' = ps_src ps" "stays ps ps' \<Longrightarrow> suffix (ps_p ps') (ps_p ps)"
  "stays ps ps' \<Longrightarrow> length (ps_p ps') \<le> length (ps_p ps)"
  "stays ps ps' \<Longrightarrow> doc_frame (ps_doc ps) (ps_doc ps')"
  "stays ps ps' \<Longrightarrow> nodes_ext (d_nodes (ps_doc ps)) (d_nodes (ps_doc ps'))"
  by (auto simp: stays_def doc_frame_def dest: suffix_length_le)

lemma stays_refl: "stays ps ps"
  by (simp add: stays_def doc_frame_refl)

lemma stays_trans: "stays a b \<Longrightarrow> stays b c \<Longrightarrow> stays a c"
  by (auto simp: stays_def intro: suffix_order.trans doc_frame_trans)

lemma fails_ok_trans: "stays a b \<Longrightarrow> fails_ok b st c \<Longrightarrow> fails_ok a st c"
  by (auto simp: fails_ok_def stays_def doc_frame_def)

text \<open>A later start: \<open>res_ok\<close> from there is \<open>res_ok\<close> from the beginning.\<close>

lemma res_ok_from:
  assumes "res_ok b ps1 r Q" "stays ps ps1" "\<And>a ps'. stays ps1 ps' \<Longrightarrow> Q a ps' \<Longrightarrow> R a ps'"
  shows "res_ok b ps r R"
  using assms by (cases r) (auto intro: stays_trans fails_ok_trans simp: staysD(1))

lemma res_ok_weaken:
  "res_ok b ps r Q \<Longrightarrow> (\<And>a ps'. stays ps ps' \<Longrightarrow> Q a ps' \<Longrightarrow> R a ps') \<Longrightarrow> res_ok b ps r R"
  by (cases r) auto

lemma res_ok_bind:
  assumes r: "res_ok b ps r Q"
    and f: "\<And>a ps'. intact b ps' \<Longrightarrow> stays ps ps' \<Longrightarrow> Q a ps' \<Longrightarrow> res_ok b' ps' (f a ps') (R' ps')"
    and R: "\<And>a ps' x ps''. stays ps ps' \<Longrightarrow> Q a ps' \<Longrightarrow> stays ps' ps'' \<Longrightarrow> R' ps' x ps'' \<Longrightarrow> R x ps''"
  shows "res_ok b' ps (res_bind r f) R"
proof (cases r)
  case (Ok a ps')
  then have 1: "intact b ps'" "stays ps ps'" "Q a ps'" using r by auto
  have "res_ok b' ps (f a ps') R"
    by (rule res_ok_from [OF f [OF 1] 1(2)]) (rule R [OF 1(2,3)])
  then show ?thesis using Ok by simp
next
  case (Fail st ps')
  then show ?thesis using r by simp
next
  case Undef
  then show ?thesis using r by simp
next
  case NoFuel
  then show ?thesis using r by simp
qed

lemma set_p_simps [simp]:
  "ps_p (set_p q ps) = q" "ps_src (set_p q ps) = ps_src ps" "ps_doc (set_p q ps) = ps_doc ps"
  "ps_max_depth (set_p q ps) = ps_max_depth ps" "ps_depth (set_p q ps) = ps_depth ps"
  "ps_cur (set_p q ps) = ps_cur ps" "ps_cur_path (set_p q ps) = ps_cur_path ps"
  by (simp_all add: set_p_def)

lemma set_p_set_p [simp]: "set_p a (set_p q ps) = set_p a ps"
  by (simp add: set_p_def)

lemma set_doc_simps [simp]:
  "ps_p (set_doc d ps) = ps_p ps" "ps_src (set_doc d ps) = ps_src ps" "ps_doc (set_doc d ps) = d"
  "ps_max_depth (set_doc d ps) = ps_max_depth ps" "ps_depth (set_doc d ps) = ps_depth ps"
  "ps_cur (set_doc d ps) = ps_cur ps" "ps_cur_path (set_doc d ps) = ps_cur_path ps"
  by (simp_all add: set_doc_def)

lemma stays_set_p: "suffix q (ps_p ps) \<Longrightarrow> stays ps (set_p q ps)"
  by (simp add: stays_def doc_frame_refl)

lemma intact_set_p:
  assumes "intact b ps" "suffix q (ps_p ps)"
  shows "intact b (set_p q ps)"
  using assms suffix_length_le [OF assms(2)]
  by (auto simp: intact_def intro: suffix_order.trans nodes_ok_mono)

text \<open>Taking \<open>k\<close> bytes makes room for \<open>k\<close> insertions.\<close>

lemma intact_credit:
  assumes "intact b ps" "length q + k \<le> length (ps_p ps)" "suffix q (ps_p ps)"
  shows "intact (b - k) (set_p q ps)"
  using assms by (auto simp: intact_def intro: suffix_order.trans nodes_ok_mono)

lemma intact_mono: "intact b ps \<Longrightarrow> b \<le> b' \<Longrightarrow> intact b' ps"
  by (auto simp: intact_def intro: nodes_ok_mono)

lemma intact_cong:
  "ps_p ps' = ps_p ps \<Longrightarrow> ps_src ps' = ps_src ps \<Longrightarrow> d_nodes (ps_doc ps') = d_nodes (ps_doc ps) \<Longrightarrow>
   intact b ps' = intact b ps"
  by (simp add: intact_def)

lemma stays_cong:
  "ps_p ps' = ps_p ps \<Longrightarrow> ps_src ps' = ps_src ps \<Longrightarrow> ps_max_depth ps' = ps_max_depth ps \<Longrightarrow>
   ps_depth ps' = ps_depth ps \<Longrightarrow> ps_cur ps' = ps_cur ps \<Longrightarrow> doc_frame (ps_doc ps) (ps_doc ps') \<Longrightarrow> stays ps ps'"
  by (simp add: stays_def)

lemma res_ok_set_p:
  assumes "suffix q (ps_p ps)" "res_ok b (set_p q ps) r Q"
  shows "res_ok b ps r Q"
  using res_ok_from [OF assms(2) stays_set_p [OF assms(1)]] by simp

subsection \<open>Failures and lexical routines\<close>

lemma fail_at_ok:
  assumes "suffix (ps_p ps) (ps_src ps)" "st \<noteq> ST_OK"
  shows "res_ok b ps (fail_at ps None st msg) Q"
  using assms by (auto simp: fail_at_def fails_ok_def recorded_def cursor_offset_def)

lemma intact_suffix: "intact b ps \<Longrightarrow> suffix (ps_p ps) (ps_src ps)"
  by (simp add: intact_def)

lemma syntax_fail_ok: "intact b' ps \<Longrightarrow> res_ok b ps (syntax_fail ps msg) Q"
  by (simp add: syntax_fail_def fail_at_ok intact_suffix)

lemma semantic_fail_ok: "intact b' ps \<Longrightarrow> res_ok b ps (semantic_fail ps msg) Q"
  by (simp add: semantic_fail_def fail_at_ok intact_suffix)

lemma oom_ok: "intact b' ps \<Longrightarrow> res_ok b ps (oom ps) Q"
  by (simp add: oom_def fail_at_ok intact_suffix)

text \<open>The failures of a lexical routine carry a status other than \<open>ST_OK\<close>.\<close>

fun lex_fails :: "'a lex \<Rightarrow> bool" where
  "lex_fails (LErr st msg p) \<longleftrightarrow> st \<noteq> ST_OK"
| "lex_fails (LOk a p) \<longleftrightarrow> True"

lemma run_lex_ok:
  assumes "intact b ps" "suffix (lex_rest l) (ps_p ps)" "lex_fails l"
    and "\<And>a p. l = LOk a p \<Longrightarrow> Q a (set_p p ps)"
  shows "res_ok b ps (run_lex ps l) Q"
proof (cases l)
  case (LErr st msg p)
  then have "res_ok b (set_p p ps) (fail_at (set_p p ps) None st msg) Q"
    using assms intact_suffix [OF assms(1)] by (intro fail_at_ok) (auto intro: suffix_order.trans)
  then show ?thesis using LErr assms(2) by (auto intro: res_ok_set_p)
next
  case (LOk a p)
  then show ?thesis using assms by (auto intro: intact_set_p stays_set_p)
qed

lemma lex_bind_fails:
  "lex_fails m \<Longrightarrow> (\<And>a r. m = LOk a r \<Longrightarrow> lex_fails (f a r)) \<Longrightarrow> lex_fails (lex_bind m f)"
  by (cases m) auto

end
