(* ===== verification/Leaf_Sound.thy ===== *)
theory Leaf_Sound
  imports Wellformed String_Props
begin

text \<open>
  The guarantees of the routines without recursion: strings, numbers, dates and times,
  booleans and keys. Each returns a fresh node (or the parts of a key), has taken at least
  one byte, and fails only at a position inside the input.
\<close>

subsection \<open>Lexical failures\<close>

lemma comment_body_fails: "lex_fails (comment_body p)"
  by (induction p rule: comment_body.induct) auto

lemma skip_comment_fails: "lex_fails (skip_comment p)"
  by (simp add: skip_comment_def comment_body_fails)

lemma skip_ws_nl_fails: "lex_fails (skip_ws_nl p)"
proof (induction p rule: skip_ws_nl.induct)
  case (2 c cs)
  have "lex_fails (case skip_comment (c # cs) of LErr st msg p \<Rightarrow> LErr st msg p
      | LOk u p \<Rightarrow> skip_ws_nl p)"
    if "\<not> is_ws c" "c \<noteq> LF" "\<not> (c = CR \<and> starts LF cs)" "c = HASH"
    using skip_comment_fails [of "c # cs"] "2.IH"(4) that by (cases "skip_comment (c # cs)") auto
  then show ?case using 2 by (simp only: skip_ws_nl.simps split: if_split) auto
qed simp

lemma skip_array_gap_fails: "lex_fails (skip_array_gap p)"
proof (induction p rule: skip_array_gap.induct)
  case (1 p0)
  then show ?case
    by (subst skip_array_gap.simps)
       (auto split: list.split simp: skip_ws_nl_fails simp del: skip_ws_nl.simps)
qed

lemma finish_line_fails: "lex_fails (finish_line p)"
  by (auto simp: finish_line_def Let_def skip_comment_fails intro!: lex_bind_fails)

lemma read_hex_fails: "lex_fails (read_hex k v p)"
  by (induction k v p rule: read_hex.induct) auto

lemma scan_code_point_fails: "lex_fails (scan_code_point e es s)"
  by (auto simp: scan_code_point_def read_hex_fails intro!: lex_bind_fails)

lemma scan_escape_fails: "lex_fails (scan_escape ml p s)"
proof (cases p)
  case (Cons e es)
  have "lex_fails (scan_line_end p s)" by (simp add: scan_line_end_def Let_def)
  then show ?thesis
    unfolding scan_escape_def Cons list.case
    by (cases "simple_escape e") (simp_all add: scan_code_point_fails)
qed (simp add: scan_escape_def)

lemma quote_run_fails: "lex_fails (quote_run quo p s)"
  by (simp add: quote_run_def Let_def)

lemma scan_basic_fails: "lex_fails (scan_basic ml p s)"
proof (induction ml p s rule: scan_basic.induct)
  case (2 ml c cs s)
  have run: "lex_fails (case quote_run c (c # cs) s of LErr st msg p \<Rightarrow> LErr st msg p
      | LOk (s', fin) p \<Rightarrow> if fin then LOk s' p else scan_basic ml p s')"
    if "c = DQUOTE" "ml"
    using "2.IH"(1) that quote_run_fails [of c "c # cs" s]
    by (cases "quote_run c (c # cs) s") (auto split: prod.split)
  have esc: "lex_fails (case scan_escape ml cs s of LErr st msg p \<Rightarrow> LErr st msg p
      | LOk s' p \<Rightarrow> scan_basic ml p s')"
    if "c \<noteq> DQUOTE" "c = BACKSLASH"
    using "2.IH"(2) that scan_escape_fails [of ml cs s] by (cases "scan_escape ml cs s") auto
  show ?case
  proof (cases "c = DQUOTE \<and> ml")
    case True
    then show ?thesis using run by (simp only: scan_basic.simps simp_thms if_True if_False)
  next
    case False
    then show ?thesis
      using esc "2.IH"(3-5) by (simp only: scan_basic.simps split: if_split) auto
  qed
qed simp

lemma scan_literal_fails: "lex_fails (scan_literal ml p s)"
proof (induction ml p s rule: scan_literal.induct)
  case (2 ml c cs s)
  have run: "lex_fails (case quote_run c (c # cs) s of LErr st msg p \<Rightarrow> LErr st msg p
      | LOk (s', fin) p \<Rightarrow> if fin then LOk s' p else scan_literal ml p s')"
    if "c = SQUOTE" "ml"
    using "2.IH"(1) that quote_run_fails [of c "c # cs" s]
    by (cases "quote_run c (c # cs) s") (auto split: prod.split)
  show ?case
  proof (cases "c = SQUOTE \<and> ml")
    case True
    then show ?thesis using run by (simp only: scan_literal.simps simp_thms if_True if_False)
  next
    case False
    then show ?thesis
      using "2.IH"(2-4) by (simp only: scan_literal.simps split: if_split) auto
  qed
qed simp

lemma scan_quoted_fails: "lex_fails (scan_quoted basic ml p s)"
  by (simp add: scan_quoted_def scan_basic_fails scan_literal_fails)

subsection \<open>Fresh nodes\<close>

definition fresh :: "parser \<Rightarrow> addr \<Rightarrow> parser \<Rightarrow> bool" where
  "fresh ps n ps' \<longleftrightarrow> length (d_nodes (ps_doc ps)) \<le> n \<and> n < length (d_nodes (ps_doc ps'))"

text \<open>What a value parser returns: a fresh node, and at least one byte was taken.\<close>

definition val_post :: "parser \<Rightarrow> addr \<Rightarrow> parser \<Rightarrow> bool" where
  "val_post ps n ps' \<longleftrightarrow> length (ps_p ps') < length (ps_p ps) \<and> fresh ps n ps'"

lemma fresh_from: "stays ps0 ps \<Longrightarrow> fresh ps n ps' \<Longrightarrow> fresh ps0 n ps'"
  using staysD(5) [of ps0 ps] by (auto simp: fresh_def nodes_ext_def)

lemma fresh_to: "fresh ps n ps' \<Longrightarrow> stays ps' ps'' \<Longrightarrow> fresh ps n ps''"
  using staysD(5) [of ps' ps''] by (auto simp: fresh_def nodes_ext_def)

lemma empty_table_entries: "t_entries empty_table = []"
  by (simp add: empty_table_def)

lemma value_node_ok:
  assumes intact: "intact b ps" and v: "kind_payload k v" "k \<noteq> K_TABLE" "k \<noteq> K_ARRAY"
  shows "res_ok b ps (value_node ps k v) (\<lambda>n ps'. ps_p ps' = ps_p ps \<and> fresh ps n ps')"
proof (cases "dom_new_node (ps_doc ps) k")
  case None
  then show ?thesis using oom_ok [OF intact, of b] by (simp add: value_node_def)
next
  case (Some r)
  then obtain n doc where new: "dom_new_node (ps_doc ps) k = Some (n, doc)" by (cases r) auto
  note eq = dom_new_node_eq [OF new]
  let ?ns = "d_nodes (ps_doc ps)"
  have nodes: "d_nodes (set_payload doc n v) = ?ns @ [\<lparr>n_kind = k, n_flags = 0, n_as = v\<rparr>]"
    by (simp add: set_payload_nodes eq(1,2))
  have leaf: "payload_refs v = {}" "payload_table v = empty_table"
    using v by (cases v; cases k; simp)+
  have "nodes_ok m (?ns @ [\<lparr>n_kind = k, n_flags = 0, n_as = v\<rparr>])" if "nodes_ok m ?ns" for m
    using that v leaf
    by (intro nodes_ok_append)
       (simp_all add: table_wf_empty empty_table_entries aot_ok_def has_flag_def)
  moreover have "doc_frame (ps_doc ps) (set_payload doc n v)"
    by (simp add: doc_frame_def nodes nodes_ext_append set_payload_nodes(2-4) eq(3-5))
  ultimately have "intact b (set_doc (set_payload doc n v) ps)"
    "stays ps (set_doc (set_payload doc n v) ps)"
    using intact by (auto simp: intact_def nodes intro: stays_cong)
  moreover have "fresh ps n (set_doc (set_payload doc n v) ps)" using eq(1) by (simp add: fresh_def set_payload_nodes eq(2))
  ultimately show ?thesis using new by (simp add: value_node_def)
qed

lemma doc_alloc_ok:
  assumes "doc_alloc ps n = Some ps'"
  shows "intact b ps \<Longrightarrow> intact b ps'" "stays ps ps'" "ps_p ps' = ps_p ps" "ps_src ps' = ps_src ps"
    "d_nodes (ps_doc ps') = d_nodes (ps_doc ps)"
proof -
  obtain a where ps': "ps' = set_doc ((ps_doc ps)\<lparr>d_arena := a\<rparr>) ps"
    using assms by (auto simp: doc_alloc_def split: option.splits)
  show "intact b ps \<Longrightarrow> intact b ps'" by (simp add: ps' intact_def)
  show "stays ps ps'" by (rule stays_cong) (simp_all add: ps' doc_frame_def nodes_ext_refl)
  show "ps_p ps' = ps_p ps" "ps_src ps' = ps_src ps" "d_nodes (ps_doc ps') = d_nodes (ps_doc ps)"
    by (simp_all add: ps')
qed

subsection \<open>Strings\<close>

text \<open>The byte before the cursor closed a quoted part.\<close>

definition closed :: "parser \<Rightarrow> bool" where
  "closed ps \<longleftrightarrow> (\<exists>q. (q = DQUOTE \<or> q = SQUOTE) \<and> suffix (q # ps_p ps) (ps_src ps))"

lemma scan_basic_closed:
  "scan_basic False p s = LOk s' r \<Longrightarrow> suffix (DQUOTE # r) p"
proof (induction False p s rule: scan_basic.induct)
  case (2 c cs s)
  show ?case
  proof (cases "c = BACKSLASH")
    case True
    then obtain s1 p1 where e: "scan_escape False cs s = LOk s1 p1" "scan_basic False p1 s1 = LOk s' r"
      using "2.prems" by (auto split: lex.splits)
    have "suffix p1 cs" using scan_escape_suffix [of False cs s] e(1) by simp
    moreover have "suffix (DQUOTE # r) p1" using "2.hyps"(2) [OF _ True e(1) e(2)] True by simp
    ultimately show ?thesis by (meson suffix_ConsI suffix_order.trans)
  next
    case False
    then show ?thesis
      using "2.prems" "2.hyps"(5) by (auto split: if_splits intro: suffix_ConsI)
  qed
qed simp

lemma scan_literal_closed:
  "scan_literal False p s = LOk s' r \<Longrightarrow> suffix (SQUOTE # r) p"
proof (induction False p s rule: scan_literal.induct)
  case (2 c cs s)
  then show ?case by (auto split: if_splits intro: suffix_ConsI)
qed simp

text \<open>Both passes see the same bytes, so decoding never stores outside its block.\<close>

lemma decode_body_ok:
  assumes intact: "intact b ps"
  shows "res_ok b ps (decode_body ps basic ml) (\<lambda>s ps'. \<not> ml \<longrightarrow> closed ps')"
proof -
  obtain r where scan: "\<And>s. scan_quoted basic ml (ps_p ps) s = into s r"
    and eq: "decode_body ps basic ml =
      (case r of
         LErr st msg p \<Rightarrow> fail_at (set_p p ps) None st msg
       | LOk bs p \<Rightarrow> (case doc_alloc ps (length bs + 1) of
           None \<Rightarrow> oom (set_p p ps)
         | Some ps' \<Rightarrow> Ok bs (set_p p ps')))"
    using decode_body_result [of basic ml ps] by blast
  show ?thesis
  proof (cases r)
    case (LErr st msg p)
    have "res_ok b ps (run_lex ps (scan_quoted basic ml (ps_p ps) (Count 0))) (\<lambda>_ ps'. \<not> ml \<longrightarrow> closed ps')"
      by (rule run_lex_ok [OF intact scan_quoted_suffix scan_quoted_fails]) (simp add: scan LErr)
    then show ?thesis by (simp add: eq scan LErr fail_at_def)
  next
    case (LOk bs p)
    have p: "suffix p (ps_p ps)" using scan_quoted_suffix [of basic ml "ps_p ps" "Count 0"] by (simp add: scan LOk)
    have close: "\<exists>q. (q = DQUOTE \<or> q = SQUOTE) \<and> suffix (q # p) (ps_src ps)" if "\<not> ml"
    proof -
      have "scan_quoted basic False (ps_p ps) (Count 0) = LOk (put_all bs (Count 0)) p"
        using scan [of "Count 0"] that by (simp add: LOk)
      then have "suffix ((if basic then DQUOTE else SQUOTE) # p) (ps_p ps)"
        using scan_basic_closed scan_literal_closed by (cases basic) (auto simp: scan_quoted_def)
      then show ?thesis using suffix_order.trans [OF _ intact_suffix [OF intact]] by (cases basic) auto
    qed
    show ?thesis
    proof (cases "doc_alloc ps (length bs + 1)")
      case None
      have "res_ok b ps (oom (set_p p ps)) (\<lambda>_ ps'. \<not> ml \<longrightarrow> closed ps')"
        by (rule res_ok_set_p [OF p oom_ok [OF intact_set_p [OF intact p]]])
      then show ?thesis using None by (simp add: eq LOk)
    next
      case (Some ps')
      note al = doc_alloc_ok [OF Some]
      have p': "suffix p (ps_p ps')" using p al(3) by simp
      show ?thesis
        using intact_set_p [OF al(1) [OF intact] p'] stays_trans [OF al(2) stays_set_p [OF p']] close al(4) Some
        by (auto simp: eq LOk closed_def)
    qed
  qed
qed

text \<open>Behind the opening delimiter: any result of the rest has taken the delimiter.\<close>

lemma after_adv:
  assumes intact: "intact b ps" and p: "ps_p ps \<noteq> []" and n: "0 < n" and q: "q = drop n (ps_p ps)"
    and r: "\<And>ps1. ps1 = set_p q ps \<Longrightarrow> intact b ps1 \<Longrightarrow> res_ok b ps1 r (Q ps1)"
    and Q: "\<And>ps1 a ps'. ps1 = set_p q ps \<Longrightarrow> stays ps ps1 \<Longrightarrow>
              length (ps_p ps') < length (ps_p ps) \<Longrightarrow> Q ps1 a ps' \<Longrightarrow> R a ps'"
  shows "res_ok b ps r R"
proof -
  have suf: "suffix q (ps_p ps)" and less: "length q < length (ps_p ps)"
    using p n by (auto simp: q suffix_drop)
  note st = stays_set_p [OF suf]
  have "res_ok b (set_p q ps) r (Q (set_p q ps))"
    by (rule r [OF refl intact_set_p [OF intact suf]])
  then show ?thesis
    by (rule res_ok_from [OF _ st]) (use Q [OF refl st] less staysD(3) in fastforce)
qed

lemma slow_string_ok:
  assumes "intact b ps"
  shows "res_ok b ps (res_bind (decode_body ps basic ml) (\<lambda>str ps. value_node ps K_STRING (P_Str str)))
    (\<lambda>n ps'. fresh ps n ps')"
  by (rule res_ok_bind [OF decode_body_ok [OF assms]], rule value_node_ok)
     (auto intro: fresh_from)

lemma plain_string_ok:
  assumes intact: "intact b ps"
  shows "res_ok b ps
    (case dom_new_node (ps_doc ps) K_STRING of
       None \<Rightarrow> oom ps
     | Some (n, doc) \<Rightarrow>
         (case doc_alloc (set_doc doc ps) (length content + 1) of
            None \<Rightarrow> oom (set_doc doc ps)
          | Some ps' \<Rightarrow>
              Ok n (set_p (drop (length content + 1) (ps_p ps))
                     (set_doc (set_payload (ps_doc ps') n (P_Str content)) ps'))))
    (\<lambda>n ps'. fresh ps n ps')"
proof (cases "dom_new_node (ps_doc ps) K_STRING")
  case None
  then show ?thesis by (simp add: oom_ok [OF intact])
next
  case (Some r)
  then obtain n doc where new: "dom_new_node (ps_doc ps) K_STRING = Some (n, doc)" by (cases r) auto
  note eq = dom_new_node_eq [OF new]
  have node: "res_ok b ps (Ok n (set_doc (set_payload doc n (P_Str s)) ps))
      (\<lambda>n ps'. ps_p ps' = ps_p ps \<and> fresh ps n ps')" for s
    using value_node_ok [OF intact, of K_STRING "P_Str s"] new by (simp add: value_node_def)
  have "set_payload doc n (P_Str []) = doc"
    using eq(1,2) by (cases doc) (simp add: set_payload_def)
  then have inv1: "intact b (set_doc doc ps)" and st1: "stays ps (set_doc doc ps)"
    using node [of "[]"] by simp_all
  show ?thesis
  proof (cases "doc_alloc (set_doc doc ps) (length content + 1)")
    case None
    have "res_ok b ps (oom (set_doc doc ps)) (\<lambda>n ps'. fresh ps n ps')"
      by (rule res_ok_from [OF oom_ok [OF inv1, of b] st1]) simp
    then show ?thesis using new None by simp
  next
    case (Some ps')
    let ?q = "drop (length content + 1) (ps_p ps)"
    let ?ps'' = "set_doc (set_payload (ps_doc ps') n (P_Str content)) ps'"
    note al = doc_alloc_ok [OF Some]
    have "d_nodes (ps_doc ?ps'') = d_nodes (set_payload doc n (P_Str content))"
      using al(5) by (simp add: set_payload_nodes)
    moreover have "stays ps ?ps''"
      by (rule stays_trans [OF stays_trans [OF st1 al(2)]], rule stays_cong)
         (simp_all add: set_payload_frame)
    moreover have "intact b (set_doc (set_payload doc n (P_Str content)) ps)" "fresh ps n (set_doc (set_payload doc n (P_Str content)) ps)"
      using node [of content] by auto
    ultimately have "intact b ?ps''" "stays ps ?ps''" "fresh ps n ?ps''"
      using al(3,4) by (simp_all add: fresh_def intact_def)
    moreover have "suffix ?q (ps_p ?ps'')" using al(3) by (simp add: suffix_drop)
    ultimately have "res_ok b ps (Ok n (set_p ?q ?ps'')) (\<lambda>n ps'. fresh ps n ps')"
      by (auto intro: intact_set_p stays_trans [OF _ stays_set_p] simp: fresh_def)
    then show ?thesis using new Some by simp
  qed
qed

lemma parse_string_ok:
  assumes intact: "intact b ps" and p: "ps_p ps \<noteq> []"
  shows "res_ok b ps (parse_string ps) (val_post ps)"
proof -
  define d where "d = hd (ps_p ps)"
  define ml where "ml \<longleftrightarrow> length (ps_p ps) \<ge> 3 \<and> ps_p ps ! 1 = d \<and> ps_p ps ! 2 = d"
  define n where "n = (if ml then 3 else 1 :: nat)"
  define slow where "slow = (\<lambda>ps. res_bind (decode_body ps (d = DQUOTE) ml)
    (\<lambda>str ps. value_node ps K_STRING (P_Str str)))"
  have slow_ok: "res_ok b ps1 (slow (set_p q ps1)) (\<lambda>n ps'. fresh ps1 n ps')"
    if "intact b ps1" "suffix q (ps_p ps1)" for ps1 q
  proof -
    have "res_ok b ps1 (slow (set_p q ps1)) (\<lambda>n ps'. fresh (set_p q ps1) n ps')"
      unfolding slow_def
      by (rule res_ok_set_p [OF that(2) slow_string_ok]) (rule intact_set_p [OF that])
    then show ?thesis by (simp add: fresh_def)
  qed
  have slow_id: "res_ok b ps1 (slow ps1) (\<lambda>n ps'. fresh ps1 n ps')" if "intact b ps1" for ps1
    using slow_string_ok [OF that] by (simp add: slow_def)
  have "res_ok b ps (parse_string ps) (val_post ps)"
  proof (rule after_adv [OF intact p, of n "adv n (ps_p ps)" _ "\<lambda>ps1 n ps'. fresh ps1 n ps'"])
    fix ps1 assume ps1: "ps1 = set_p (adv n (ps_p ps)) ps" and i: "intact b ps1"
    have eq: "parse_string ps =
      (if ml then
         (if starts CR (ps_p ps1) \<and> starts LF (tl (ps_p ps1)) then slow (set_p (adv 2 (ps_p ps1)) ps1)
          else if starts LF (ps_p ps1) then slow (set_p (adv 1 (ps_p ps1)) ps1)
          else slow ps1)
       else
         (case try_plain_body (if d = DQUOTE then DQUOTE else SQUOTE) (ps_p ps1) of
            Some content \<Rightarrow>
              (case dom_new_node (ps_doc ps1) K_STRING of
                 None \<Rightarrow> oom ps1
               | Some (n, doc) \<Rightarrow>
                   (case doc_alloc (set_doc doc ps1) (length content + 1) of
                      None \<Rightarrow> oom (set_doc doc ps1)
                    | Some ps' \<Rightarrow>
                        Ok n (set_p (drop (length content + 1) (ps_p ps1))
                               (set_doc (set_payload (ps_doc ps') n (P_Str content)) ps'))))
          | None \<Rightarrow> slow ps1))"
      unfolding parse_string_def Let_def slow_def n_def ps1 by (simp only: ml_def d_def)
    show "res_ok b ps1 (parse_string ps) (\<lambda>n ps'. fresh ps1 n ps')"
      unfolding eq
      using slow_ok [OF i suffix_adv] slow_id [OF i] plain_string_ok [OF i]
      by (simp split: if_split option.split)
  qed (auto simp: n_def adv_def val_post_def intro: fresh_from)
  then show ?thesis .
qed

subsection \<open>Numbers\<close>

lemma expect_word_lex:
  "lex_fails (expect_word w p)" "suffix (lex_rest (expect_word w p)) p"
  "expect_word w p = LOk a r \<Longrightarrow> w \<noteq> [] \<Longrightarrow> length r < length p"
    apply (simp add: expect_word_def)
   apply (simp add: expect_word_def adv_def suffix_drop)
  apply (cases w; auto simp: expect_word_def adv_def split: if_splits)
  done

lemma scan_run_loop_lex:
  "lex_fails (scan_run_loop radix buf prev p)" "suffix (lex_rest (scan_run_loop radix buf prev p)) p"
  by (induction radix buf prev p rule: scan_run_loop.induct) (auto intro: suffix_ConsI)

lemma scan_run_loop_length:
  "scan_run_loop radix buf prev p = LOk (buf', prev') r \<Longrightarrow>
   length buf' + length r \<le> length buf + length p"
  by (induction radix buf prev p rule: scan_run_loop.induct) (auto split: if_splits)

lemma scan_run_lex:
  "lex_fails (scan_run radix p)" "suffix (lex_rest (scan_run radix p)) p"
  "scan_run radix p = LOk buf r \<Longrightarrow> buf \<noteq> [] \<and> length buf + length r \<le> length p"
proof -
  show "lex_fails (scan_run radix p)"
    unfolding scan_run_def by (rule lex_bind_fails [OF scan_run_loop_lex(1)]) (auto split: prod.split)
  show "suffix (lex_rest (scan_run radix p)) p"
    unfolding scan_run_def by (rule suffix_lex_bind [OF scan_run_loop_lex(2)]) (auto split: prod.split)
  show "scan_run radix p = LOk buf r \<Longrightarrow> buf \<noteq> [] \<and> length buf + length r \<le> length p"
    using scan_run_loop_length [of radix "[]" False p buf _ r]
    by (auto simp: scan_run_def lex_bind_LOk split: if_splits prod.splits)
qed

lemma copy_digits_suffix: "copy_digits limit s p = (s', r) \<Longrightarrow> suffix r p"
  by (induction limit s p rule: copy_digits.induct) (auto split: if_splits intro: suffix_ConsI)

lemma copy_frac_lex:
  "lex_fails (copy_frac s p)" "suffix (lex_rest (copy_frac s p)) p"
  using copy_digits_suffix [of "FBUF_SIZE - 24" "putch DOT s" "tl p"]
  by (auto simp: copy_frac_def split: prod.split intro: suffix_tl_trans)

lemma suffix_tl_Cons: "tl q = x # xs \<Longrightarrow> suffix r xs \<Longrightarrow> suffix r q"
  by (rule suffix_tl_trans) (simp add: suffix_ConsI)

lemma suffix_tl_tl: "suffix r (tl (tl q)) \<Longrightarrow> suffix r q"
  by (rule suffix_tl_trans, rule suffix_tl_trans)

lemma suffix_tl_tl_Cons: "tl (tl q) = x # xs \<Longrightarrow> suffix r xs \<Longrightarrow> suffix r q"
  by (rule suffix_tl_tl) (simp add: suffix_ConsI)

lemma copy_exp_lex: "lex_fails (copy_exp s p)" "suffix (lex_rest (copy_exp s p)) p"
proof -
  define p2 where "p2 = (if starts PLUS (tl p) \<or> starts MINUS (tl p) then tl (tl p) else tl p)"
  define s2 where "s2 = (if starts PLUS (tl p) \<or> starts MINUS (tl p)
    then putch (hd (tl p)) (putch 0x65 s) else putch 0x65 s)"
  obtain s' r where run: "copy_digits (FBUF_SIZE - 8) s2 p2 = (s', r)" by fastforce
  have "suffix p2 p" by (simp add: p2_def suffix_tl suffix_tl_trans)
  then have r: "suffix r p" using copy_digits_suffix [OF run] by (rule suffix_order.trans [rotated])
  have eq: "copy_exp s p = (if starts_exp p then
      (if length r = length p2 then LErr ERR_SYNTAX (lit ''expected digits'') r
       else if starts UNDERSCORE r then LOk None r else LOk (Some s') r)
      else LOk (Some s) p)"
    unfolding copy_exp_def Let_def p2_def [symmetric] s2_def [symmetric] run by simp
  show "lex_fails (copy_exp s p)" "suffix (lex_rest (copy_exp s p)) p"
    unfolding eq using r by simp_all
qed

lemma dec_run_suffix: "dec_run mag p = (m, r) \<Longrightarrow> suffix r p"
  by (induction mag p rule: dec_run.induct) (auto split: if_splits intro: suffix_ConsI)

lemma frac_run_suffix: "frac_run fm fd p = (m, d, r) \<Longrightarrow> suffix r p"
  by (induction fm fd p rule: frac_run.induct) (auto split: if_splits intro: suffix_ConsI)

lemma exp_run_suffix: "exp_run e p = (e', r) \<Longrightarrow> suffix r p"
  by (induction e p rule: exp_run.induct) (auto split: if_splits intro: suffix_ConsI)

lemma peek_frac_suffix: "peek_frac mag q = Some (m, d, r) \<Longrightarrow> suffix r q"
  using frac_run_suffix [of mag 0 "tl q" m d r]
  by (auto simp: peek_frac_def split: if_splits list.splits prod.splits intro: suffix_tl_trans)

lemma peek_exp_suffix: "peek_exp q = Some (e, r) \<Longrightarrow> suffix r q"
  by (auto simp: peek_exp_def Let_def split: if_splits list.splits prod.splits
      dest!: exp_run_suffix intro: suffix_tl_Cons suffix_tl_tl_Cons)

lemma new_node_ok:
  assumes i: "intact b ps" and new: "dom_new_node (ps_doc ps) k = Some (n, doc)"
    and k: "k \<noteq> K_TABLE" "k \<noteq> K_ARRAY"
  shows "intact b (set_doc doc ps)" "stays ps (set_doc doc ps)"
proof -
  have kp: "kind_payload k (zero_payload k)" by (cases k) simp_all
  have "res_ok b ps (value_node ps k (zero_payload k)) (\<lambda>_ _. True)"
    by (rule res_ok_weaken [OF value_node_ok [OF i kp k]]) simp
  moreover have "set_payload doc n (zero_payload k) = doc"
    using dom_new_node_eq(1,2) [OF new] by (cases doc) (simp add: set_payload_def)
  ultimately show "intact b (set_doc doc ps)" "stays ps (set_doc doc ps)"
    using new by (simp_all add: value_node_def)
qed

text \<open>
  \<open>stored k s\<close>: at most \<open>k\<close> bytes were written into the number buffer, so while \<open>k\<close> is below
  its size they are all inside, and the terminator has room.
\<close>

definition stored :: "nat \<Rightarrow> sink \<Rightarrow> bool" where
  "stored k s \<longleftrightarrow> (k < FBUF_SIZE \<longrightarrow> (\<exists>out n. s = Buf out n \<and> length out = FBUF_SIZE \<and> n \<le> k))"

lemma stored_new: "stored 0 fbuf_new"
  by (simp add: stored_def fbuf_new_def)

lemma stored_mono: "stored k s \<Longrightarrow> k \<le> k' \<Longrightarrow> stored k' s"
  by (fastforce simp: stored_def)

lemma stored_putch: "stored k s \<Longrightarrow> stored (Suc k) (putch c s)"
  by (auto simp: stored_def)

lemma stored_put_all: "stored k s \<Longrightarrow> stored (k + length bs) (put_all bs s)"
proof (induction bs arbitrary: k s)
  case (Cons c bs)
  then show ?case using Cons.IH [OF stored_putch [OF Cons.prems]] by simp
qed simp

lemma stored_copy_digits:
  "copy_digits limit s p = (s', r) \<Longrightarrow> stored limit s \<Longrightarrow> limit < FBUF_SIZE \<Longrightarrow> stored limit s'"
proof (induction limit s p rule: copy_digits.induct)
  case (2 limit s c cs)
  have "stored limit (if sink_len s < limit then putch c s else s)"
    using 2(3,4) by (auto simp: stored_def)
  then show ?case using 2 by (auto split: if_splits)
qed simp

lemma float_from_buf_ok:
  assumes "intact b ps" "stored k s" "k < FBUF_SIZE \<or> hazard (ps_src ps)"
  shows "res_ok b ps (float_from_buf fo ps s) (\<lambda>n ps'. fresh ps n ps')"
proof (cases "fbuf_text s")
  case None
  then have "\<not> k < FBUF_SIZE" using assms(2) by (auto simp: stored_def)
  then show ?thesis using assms(3) None by (simp add: float_from_buf_def)
next
  case (Some s')
  then show ?thesis
    by (auto simp: float_from_buf_def intro!: res_ok_weaken [OF value_node_ok [OF assms(1)]])
qed

text \<open>What the routines of the slow path take are bytes of a number, no fewer than they store.\<close>

lemma scan_run_loop_num:
  "scan_run_loop radix buf prev p = LOk (buf', prev') r \<Longrightarrow> radix = 10 \<Longrightarrow>
   \<exists>w. p = w @ r \<and> length buf' \<le> length buf + length w \<and> list_all num_byte w"
proof (induction radix buf prev p rule: scan_run_loop.induct)
  case (2 radix buf prev c cs)
  show ?case
  proof (cases "digit_for c radix")
    case True
    then obtain w where "cs = w @ r" "length buf' \<le> length (buf @ [c]) + length w" "list_all num_byte w"
      using 2 by (auto split: if_splits)
    moreover have "num_byte c" using True 2(4) by (simp add: digit_for_def num_byte_def is_dec_iff)
    ultimately show ?thesis by (intro exI [of _ "c # w"]) simp
  next
    case False
    show ?thesis
    proof (cases "c = UNDERSCORE")
      case True
      then obtain w where "cs = w @ r" "length buf' \<le> length buf + length w" "list_all num_byte w"
        using 2 False by (auto split: if_splits)
      moreover have "num_byte c" using True by (simp add: num_byte_def)
      ultimately show ?thesis by (intro exI [of _ "c # w"]) simp
    next
      case under: False
      then show ?thesis using 2(3) False by simp
    qed
  qed
qed simp

lemma scan_run_num:
  "scan_run 10 p = LOk buf r \<Longrightarrow> \<exists>w. p = w @ r \<and> length buf \<le> length w \<and> list_all num_byte w"
  using scan_run_loop_num [of 10 "[]" False p buf _ r]
  by (auto simp: scan_run_def lex_bind_LOk split: if_splits prod.splits)

lemma starts_tl: "starts c p \<Longrightarrow> p = c # tl p"
  by (cases p) (simp_all add: starts_def)

lemma slow_frac_num:
  assumes "slow_frac s p = LOk s' r" "stored k s"
  shows "\<exists>w. p = w @ r \<and> list_all num_byte w \<and> stored (k + length w) s'"
proof (cases "starts DOT p")
  case True
  then obtain frac where f: "scan_run 10 (tl p) = LOk frac r" "s' = put_all frac (putch DOT s)"
    using assms(1) by (auto simp: slow_frac_def lex_bind_LOk adv_def drop_Suc)
  obtain w where w: "tl p = w @ r" "length frac \<le> length w" "list_all num_byte w"
    using scan_run_num [OF f(1)] by blast
  have "stored (Suc k + length frac) s'"
    unfolding f(2) by (rule stored_put_all [OF stored_putch [OF assms(2)]])
  then have "stored (k + length (DOT # w)) s'" by (rule stored_mono) (use w(2) in simp)
  moreover have "num_byte DOT" by (simp add: num_byte_def)
  ultimately show ?thesis using starts_tl [OF True] w by (intro exI [of _ "DOT # w"]) simp
next
  case False
  then show ?thesis using assms by (simp add: slow_frac_def)
qed

lemma slow_exp_num:
  assumes "slow_exp s p = LOk s' r" "stored k s"
  shows "\<exists>w. p = w @ r \<and> list_all num_byte w \<and> stored (k + length w) s'"
proof (cases "starts_exp p")
  case True
  then obtain e where e: "p = e # tl p" "num_byte e" using starts_tl by (auto simp: starts_exp_def num_byte_def)
  define sgn where "sgn = (starts PLUS (tl p) \<or> starts MINUS (tl p))"
  define p2 where "p2 = (if sgn then tl (tl p) else tl p)"
  define s2 where "s2 = (if sgn then putch (hd (tl p)) (putch 0x65 s) else putch 0x65 s)"
  obtain ex where ex: "scan_run 10 p2 = LOk ex r" "s' = put_all ex s2"
    using assms(1) True
    by (auto simp: slow_exp_def Let_def lex_bind_LOk adv_def drop_Suc p2_def s2_def sgn_def split: if_splits)
  obtain w where w: "p2 = w @ r" "length ex \<le> length w" "list_all num_byte w"
    using scan_run_num [OF ex(1)] by blast
  define u where "u = (if sgn then [hd (tl p)] else [])"
  have u: "tl p = u @ p2" "list_all num_byte u"
  proof -
    have "sgn \<Longrightarrow> tl p = hd (tl p) # tl (tl p) \<and> num_byte (hd (tl p))"
      using starts_tl [of PLUS "tl p"] starts_tl [of MINUS "tl p"] unfolding sgn_def
      by (metis list.sel(1) num_byte_def insertCI)
    then show "tl p = u @ p2" "list_all num_byte u" by (auto simp: u_def p2_def)
  qed
  have "stored (Suc (k + length u)) s2"
    using stored_putch [OF assms(2), where c = "0x65"] stored_putch by (auto simp: s2_def u_def)
  then have "stored (Suc (k + length u) + length ex) s'" unfolding ex(2) by (rule stored_put_all)
  then have "stored (k + length (e # u @ w)) s'" by (rule stored_mono) (use w(2) in simp)
  moreover have "p = (e # u @ w) @ r" using e(1) u(1) w(1) by simp
  ultimately show ?thesis
    using e(2) u(2) w(3) by (intro exI [of _ "e # u @ w"]) simp
next
  case False
  then show ?thesis using assms by (simp add: slow_exp_def)
qed

lemma stored_copy_frac:
  assumes "copy_frac s p = LOk (Some s') r" "stored 19 s"
  shows "stored (FBUF_SIZE - 24) s'"
proof (cases "starts DOT p")
  case True
  obtain s1 r1 where run: "copy_digits (FBUF_SIZE - 24) (putch DOT s) (tl p) = (s1, r1)" by fastforce
  have "stored (FBUF_SIZE - 24) (putch DOT s)"
    by (rule stored_mono [OF stored_putch [OF assms(2)]]) simp
  from stored_copy_digits [OF run this] show ?thesis
    using assms(1) True unfolding copy_frac_def run by (simp split: if_splits)
next
  case False
  then show ?thesis using assms by (simp add: copy_frac_def stored_mono)
qed

lemma stored_copy_exp:
  assumes "copy_exp s p = LOk (Some s') r" "stored (FBUF_SIZE - 24) s"
  shows "stored (FBUF_SIZE - 8) s'"
proof (cases "starts_exp p")
  case True
  define sgn where "sgn = (starts PLUS (tl p) \<or> starts MINUS (tl p))"
  define s2 where "s2 = (if sgn then putch (hd (tl p)) (putch 0x65 s) else putch 0x65 s)"
  obtain s1 r1 where run: "copy_digits (FBUF_SIZE - 8) s2 (if sgn then tl (tl p) else tl p) = (s1, r1)" by fastforce
  have "stored (FBUF_SIZE - 22) s2"
    using stored_putch [OF stored_putch [OF assms(2), where c = "0x65"], where c = "hd (tl p)"]
      stored_mono [OF stored_putch [OF assms(2), where c = "0x65"], of "FBUF_SIZE - 22"]
    by (simp add: s2_def)
  then have "stored (FBUF_SIZE - 8) s2" by (rule stored_mono) simp
  from stored_copy_digits [OF run this] have "stored (FBUF_SIZE - 8) s1" by simp
  moreover have "s' = s1"
    using assms(1) True unfolding copy_exp_def Let_def sgn_def [symmetric] s2_def [symmetric] run
    by (simp split: if_splits)
  ultimately show ?thesis by simp
next
  case False
  then show ?thesis using assms by (simp add: copy_exp_def stored_mono)
qed

lemma slow_frac_lex: "lex_fails (slow_frac s p)" "suffix (lex_rest (slow_frac s p)) p"
proof -
  have run: "lex_fails (lex_bind (scan_run 10 q) (\<lambda>frac r. LOk (put_all frac s') r))"
    "suffix (lex_rest (lex_bind (scan_run 10 q) (\<lambda>frac r. LOk (put_all frac s') r))) q" for q s'
    by (auto intro: lex_bind_fails suffix_lex_bind scan_run_lex)
  show "lex_fails (slow_frac s p)" "suffix (lex_rest (slow_frac s p)) p"
    using suffix_adv_trans [OF run(2)] run(1)
    by (simp_all only: slow_frac_def lex_fails.simps lex_rest.simps suffix_order.refl simp_thms
        split: if_split)
qed

lemma slow_exp_lex: "lex_fails (slow_exp s p)" "suffix (lex_rest (slow_exp s p)) p"
proof -
  have run: "lex_fails (lex_bind (scan_run 10 q) (\<lambda>ex r. LOk (put_all ex s') r))"
    "suffix (lex_rest (lex_bind (scan_run 10 q) (\<lambda>ex r. LOk (put_all ex s') r))) q" for q s'
    by (auto intro: lex_bind_fails suffix_lex_bind scan_run_lex)
  have "suffix (if c then adv 1 (adv 1 p) else adv 1 p) p" for c
    using suffix_adv_trans [OF suffix_adv] suffix_adv by (cases c) auto
  then have "suffix (lex_rest (lex_bind (scan_run 10 (if c then adv 1 (adv 1 p) else adv 1 p))
      (\<lambda>ex r. LOk (put_all ex s') r))) p" for c s'
    by (rule suffix_order.trans [OF run(2)])
  then show "lex_fails (slow_exp s p)" "suffix (lex_rest (slow_exp s p)) p"
    using run(1) by (simp_all only: slow_exp_def Let_def lex_fails.simps lex_rest.simps simp_thms
        suffix_order.refl split: if_split)
qed

lemma slow_float_ok:
  assumes i: "intact b ps"
    and w: "suffix (w @ ps_p ps) (ps_src ps)" "length buf \<le> length w" "list_all num_byte w"
  shows "res_ok b ps (slow_float fo ps neg buf) (\<lambda>n ps'. fresh ps n ps')"
proof -
  define s0 where "s0 = put_all buf (if neg then putch MINUS fbuf_new else fbuf_new)"
  have "stored 1 (if neg then putch MINUS fbuf_new else fbuf_new)"
    using stored_putch [OF stored_new, where c = MINUS] stored_mono [OF stored_new, of 1] by simp
  then have "stored (1 + length buf) s0" unfolding s0_def by (rule stored_put_all)
  then have s0: "stored (1 + length w) s0" by (rule stored_mono) (use w(2) in simp)
  show ?thesis
    unfolding slow_float_def Let_def s0_def [symmetric]
  proof (rule res_ok_bind [where R' = "\<lambda>ps1 n ps'. fresh ps1 n ps'"])
    show "res_ok b ps (run_lex ps (lex_bind (slow_frac s0 (ps_p ps)) slow_exp))
        (\<lambda>s ps'. \<exists>v. ps_p ps = v @ ps_p ps' \<and> list_all num_byte v \<and> stored (1 + length w + length v) s)"
    proof (rule run_lex_ok [OF i])
      fix s r assume "lex_bind (slow_frac s0 (ps_p ps)) slow_exp = LOk s r"
      then obtain s1 p1 where s1: "slow_frac s0 (ps_p ps) = LOk s1 p1" "slow_exp s1 p1 = LOk s r"
        by (auto simp: lex_bind_LOk)
      obtain v1 where v1: "ps_p ps = v1 @ p1" "list_all num_byte v1" "stored (1 + length w + length v1) s1"
        using slow_frac_num [OF s1(1) s0] by blast
      obtain v2 where "p1 = v2 @ r" "list_all num_byte v2" "stored (1 + length w + length v1 + length v2) s"
        using slow_exp_num [OF s1(2) v1(3)] by blast
      then show "\<exists>v. ps_p ps = v @ ps_p (set_p r ps) \<and> list_all num_byte v \<and> stored (1 + length w + length v) s"
        using v1 by (intro exI [of _ "v1 @ v2"]) (simp add: add.assoc)
    qed (auto intro: lex_bind_fails suffix_lex_bind slow_frac_lex slow_exp_lex)
  next
    fix s ps' assume i': "intact b ps'" and st: "stays ps ps'"
      and "\<exists>v. ps_p ps = v @ ps_p ps' \<and> list_all num_byte v \<and> stored (1 + length w + length v) s"
    then obtain v where v: "ps_p ps = v @ ps_p ps'" "list_all num_byte v" "stored (1 + length w + length v) s" by blast
    have "hazard (ps_src ps')" if "1031 \<le> length (w @ v)"
      by (rule overlong_run [OF _ that, of "ps_p ps'"])
         (use w v staysD(1) [OF st] in \<open>simp_all\<close>)
    then show "res_ok b ps' (float_from_buf fo ps' s) (\<lambda>n ps''. fresh ps' n ps'')"
      by (intro float_from_buf_ok [OF i' v(3)]) (simp, linarith)
  qed (auto intro: fresh_from)
qed

lemma int_node_ok:
  assumes i: "intact b ps"
  shows "res_ok b ps (int_node ps neg mag) (\<lambda>n ps'. fresh ps n ps')"
proof (cases "dom_new_node (ps_doc ps) K_INTEGER")
  case None
  then show ?thesis by (simp add: int_node_def oom_ok [OF i])
next
  case (Some r)
  then obtain n doc where new: "dom_new_node (ps_doc ps) K_INTEGER = Some (n, doc)"
    by (cases r) auto
  have ok: "intact b (set_doc doc ps)" "stays ps (set_doc doc ps)"
    using new_node_ok [OF i new] by simp_all
  have "res_ok b ps (syntax_fail (set_doc doc ps) msg) (\<lambda>n ps'. fresh ps n ps')" for msg
    by (rule res_ok_from [OF syntax_fail_ok [OF ok(1), of b] ok(2)]) simp
  moreover have "res_ok b ps (Ok n (set_doc (set_payload doc n (P_Int v)) ps))
      (\<lambda>n ps'. fresh ps n ps')" for v
    using value_node_ok [OF i, of K_INTEGER "P_Int v"] new by (simp add: value_node_def)
  ultimately show ?thesis
    using new by (simp only: int_node_def option.case prod.case split: if_split) simp
qed

lemma slow_decimal_ok:
  assumes i: "intact b ps0"
  shows "res_ok b ps0 (slow_decimal fo ps0 neg) (val_post ps0)"
  unfolding slow_decimal_def
proof (rule res_ok_bind)
  show "res_ok b ps0 (run_lex ps0 (scan_run 10 (ps_p ps0)))
      (\<lambda>buf ps. length (ps_p ps) < length (ps_p ps0) \<and>
         (\<exists>w. ps_p ps0 = w @ ps_p ps \<and> length buf \<le> length w \<and> list_all num_byte w))"
  proof (rule run_lex_ok [OF i scan_run_lex(2,1)])
    fix buf r assume run: "scan_run 10 (ps_p ps0) = LOk buf r"
    show "length (ps_p (set_p r ps0)) < length (ps_p ps0) \<and>
        (\<exists>w. ps_p ps0 = w @ ps_p (set_p r ps0) \<and> length buf \<le> length w \<and> list_all num_byte w)"
      using scan_run_lex(3) [OF run] scan_run_num [OF run] by (cases buf) auto
  qed
next
  fix buf :: bytes and ps assume i1: "intact b ps" and st: "stays ps0 ps"
    and "length (ps_p ps) < length (ps_p ps0) \<and>
      (\<exists>w. ps_p ps0 = w @ ps_p ps \<and> length buf \<le> length w \<and> list_all num_byte w)"
  then obtain w where w: "ps_p ps0 = w @ ps_p ps" "length buf \<le> length w" "list_all num_byte w" by blast
  have "suffix (w @ ps_p ps) (ps_src ps)" using intact_suffix [OF i] staysD(1) [OF st] by (simp add: w(1))
  note fl = slow_float_ok [OF i1 this w(2,3)]
  note i = i1
  have "res_ok b ps (case mag_from 0 buf 10 of
      None \<Rightarrow> syntax_fail ps ''integer out of range''
    | Some mag \<Rightarrow> int_node ps neg mag) (\<lambda>n ps'. fresh ps n ps')"
    by (cases "mag_from 0 buf 10") (simp_all add: syntax_fail_ok [OF i] int_node_ok [OF i])
  then show "res_ok b ps
    (if hd buf = 0x30 \<and> length buf > 1 then syntax_fail ps ''leading zero in number''
     else if starts DOT (ps_p ps) \<or> starts_exp (ps_p ps) then slow_float fo ps neg buf
     else case mag_from 0 buf 10 of
            None \<Rightarrow> syntax_fail ps ''integer out of range''
          | Some mag \<Rightarrow> int_node ps neg mag) (\<lambda>n ps'. fresh ps n ps')"
    by (simp add: syntax_fail_ok [OF i] fl)
next
  fix buf ps n ps'
  assume "stays ps0 ps" "length (ps_p ps) < length (ps_p ps0) \<and>
      (\<exists>w. ps_p ps0 = w @ ps_p ps \<and> length buf \<le> length w \<and> list_all num_byte w)"
    "stays ps ps'" "fresh ps n ps'"
  then show "val_post ps0 n ps'"
    using staysD(3) [of ps ps'] by (auto simp: val_post_def intro: fresh_from)
qed

text \<open>The plain path: the digits were taken, the cursor is behind them.\<close>

lemma copy_lex:
  "lex_fails (lex_bind (copy_frac s p) (\<lambda>sf p. case sf of None \<Rightarrow> LOk None p | Some s \<Rightarrow> copy_exp s p))"
  "suffix (lex_rest (lex_bind (copy_frac s p) (\<lambda>sf p. case sf of None \<Rightarrow> LOk None p | Some s \<Rightarrow> copy_exp s p))) p"
  by (auto intro!: lex_bind_fails suffix_lex_bind simp: copy_frac_lex copy_exp_lex split: option.split)

lemma peek_float_suffix:
  "peek_float fo neg dstart dlen mag q0 = Some (dv, q) \<Longrightarrow> suffix q q0"
  by (auto simp: peek_float_def Let_def split: option.splits if_splits
      dest!: peek_frac_suffix peek_exp_suffix intro: suffix_order.trans)

text \<open>
  The jump back to \<open>slow_decimal\<close> moves the cursor back to the first digit, so the guarantee
  is stated from there.
\<close>

lemma plain_float_ok:
  assumes i0: "intact b ps0" and ps: "ps = set_p q0 ps0" and q0: "suffix q0 (ps_p ps0)"
    and less: "length q0 < length (ps_p ps0)" and dlen: "dlen \<le> 18"
  shows "res_ok b ps0 (plain_float fo ps neg sgd (ps_p ps0) dlen mag) (val_post ps0)"
proof -
  have i: "intact b ps" and st: "stays ps0 ps"
    using ps i0 q0 by (auto intro: intact_set_p stays_set_p)
  have up: "res_ok b ps0 r (val_post ps0)"
    if "res_ok b ps r (\<lambda>n ps'. fresh ps n ps')" for r
  proof (rule res_ok_from [OF that st])
    fix n ps' assume "stays ps ps'" "fresh ps n ps'"
    then show "val_post ps0 n ps'"
      using less staysD(3) [of ps ps'] fresh_from [OF st] by (simp add: val_post_def ps)
  qed
  show ?thesis
  proof (cases "if \<not> sgd \<or> neg then peek_float fo neg (ps_p ps0) dlen mag (ps_p ps) else None")
    case (Some r)
    then obtain dv q where r: "r = (dv, q)" by (cases r)
    then have q: "suffix q (ps_p ps)"
      using Some by (auto split: if_splits dest: peek_float_suffix)
    have "res_ok b ps (res_bind (value_node ps K_FLOAT (P_Float dv)) (\<lambda>n ps'. Ok n (set_p q ps')))
        (\<lambda>n ps'. fresh ps n ps')"
      by (rule res_ok_bind [OF value_node_ok [OF i], where R' = "\<lambda>ps1 n ps'. fresh ps n ps'"])
         (use q in \<open>auto intro: intact_set_p stays_set_p simp: fresh_def\<close>)
    then show ?thesis using up Some by (simp add: plain_float_def r)
  next
    case None
    define l where "l = lex_bind (copy_frac (put_all (take dlen (ps_p ps0))
        (if neg then putch MINUS fbuf_new else fbuf_new)) (ps_p ps))
      (\<lambda>sf p. case sf of None \<Rightarrow> LOk None p | Some s \<Rightarrow> copy_exp s p)"
    have eq: "plain_float fo ps neg sgd (ps_p ps0) dlen mag =
      res_bind (run_lex ps l) (\<lambda>sf ps'. case sf of
          None \<Rightarrow> slow_decimal fo (set_p (ps_p ps0) ps') neg
        | Some s \<Rightarrow> float_from_buf fo ps' s)"
      using None by (simp add: plain_float_def l_def Let_def)
    show ?thesis
    proof (cases l)
      case (LErr st msg p)
      have "res_ok b ps (run_lex ps l) (\<lambda>_ _. True)"
        by (rule run_lex_ok [OF i]) (simp_all add: l_def copy_lex)
      then show ?thesis
        using up [of "res_bind (run_lex ps l) (\<lambda>sf ps'. NoFuel)"]
        unfolding eq by (simp add: LErr fail_at_def)
    next
      case (LOk sf p)
      have "suffix (lex_rest l) (ps_p ps)" unfolding l_def by (rule copy_lex(2))
      then have p: "suffix p (ps_p ps)" by (simp add: LOk)
      show ?thesis
      proof (cases sf)
        case None
        have "set_p (ps_p ps0) (set_p p ps) = ps0" by (simp add: ps set_p_def)
        then show ?thesis using slow_decimal_ok [OF i0] by (simp add: eq LOk None)
      next
        case (Some s)
        define s0 where "s0 = put_all (take dlen (ps_p ps0)) (if neg then putch MINUS fbuf_new else fbuf_new)"
        have "stored 1 (if neg then putch MINUS fbuf_new else fbuf_new)"
          using stored_putch [OF stored_new, where c = MINUS] stored_mono [OF stored_new, of 1] by simp
        then have "stored (1 + length (take dlen (ps_p ps0))) s0" unfolding s0_def by (rule stored_put_all)
        then have s0: "stored 19 s0" by (rule stored_mono) (use dlen in simp)
        obtain s1 p1 where "copy_frac s0 (ps_p ps) = LOk (Some s1) p1" "copy_exp s1 p1 = LOk (Some s) p"
          using LOk Some by (auto simp: l_def s0_def lex_bind_LOk split: option.splits)
        then have "stored (FBUF_SIZE - 8) s" using stored_copy_exp stored_copy_frac [OF _ s0] by blast
        then have "res_ok b (set_p p ps) (float_from_buf fo (set_p p ps) s) (\<lambda>n ps'. fresh (set_p p ps) n ps')"
          by (rule float_from_buf_ok [OF intact_set_p [OF i p]]) simp
        then have "res_ok b ps (float_from_buf fo (set_p p ps) s) (\<lambda>n ps'. fresh ps n ps')"
          by (rule res_ok_from [OF _ stays_set_p [OF p]]) (simp add: fresh_def)
        then show ?thesis using up by (simp add: eq LOk Some)
      qed
    qed
  qed
qed

lemma parse_decimal_ok:
  assumes i: "intact b ps"
  shows "res_ok b ps (parse_decimal fo ps neg sgd) (val_post ps)"
proof -
  obtain mag q where run: "dec_run 0 (ps_p ps) = (mag, q)" by fastforce
  have q: "suffix q (ps_p ps)" using dec_run_suffix [OF run] .
  let ?ps = "set_p q ps"
  have iq: "intact b ?ps" and st: "stays ps ?ps" using i q by (auto intro: intact_set_p stays_set_p)
  define dlen where "dlen = length (ps_p ps) - length q"
  have id: "set_p (ps_p ps) ?ps = ps" by (simp add: set_p_def)
  have eq: "parse_decimal fo ps neg sgd =
    (if dlen > 0 \<and> dlen \<le> 18 \<and> \<not> starts UNDERSCORE q then
       (if hd (ps_p ps) = 0x30 \<and> dlen > 1 then syntax_fail ?ps ''leading zero in number''
        else if \<not> (starts DOT q \<or> starts_exp q)
        then value_node ?ps K_INTEGER (P_Int (if neg then - mag else mag))
        else plain_float fo ?ps neg sgd (ps_p ps) dlen mag)
     else slow_decimal fo ps neg)"
    unfolding parse_decimal_def Let_def run prod.case by (simp only: id dlen_def)
  have lead: "res_ok b ps (syntax_fail ?ps msg) (val_post ps)" for msg
    by (rule res_ok_from [OF syntax_fail_ok [OF iq, of b] st]) simp
  have int: "res_ok b ps (value_node ?ps K_INTEGER (P_Int v)) (val_post ps)" if "dlen > 0" for v
  proof (rule res_ok_from [OF value_node_ok [OF iq] st])
    fix n ps' assume "ps_p ps' = ps_p ?ps \<and> fresh ?ps n ps'"
    then show "val_post ps n ps'" using that by (simp add: val_post_def dlen_def fresh_def)
  qed simp_all
  have fl: "res_ok b ps (plain_float fo ?ps neg sgd (ps_p ps) dlen mag) (val_post ps)" if "dlen > 0" "dlen \<le> 18"
    using that by (intro plain_float_ok [OF i refl q]) (simp_all add: dlen_def)
  show ?thesis unfolding eq using lead int fl slow_decimal_ok [OF i] by (simp split: if_split)
qed

lemma parse_radix_ok:
  assumes i: "intact b ps" and p: "ps_p ps \<noteq> []"
  shows "res_ok b ps (parse_radix ps sgd r) (val_post ps)"
proof -
  have "res_ok b ps (res_bind (run_lex ps (scan_run radix (adv 2 (ps_p ps)))) (\<lambda>buf ps.
      case mag_from 0 buf rx of
        None \<Rightarrow> syntax_fail ps ''integer out of range''
      | Some mag \<Rightarrow>
          (if mag > 0x7FFFFFFFFFFFFFFF then syntax_fail ps ''integer out of range''
           else value_node ps K_INTEGER (P_Int mag)))) (val_post ps)" for radix rx
  proof (rule res_ok_bind)
    show "res_ok b ps (run_lex ps (scan_run radix (adv 2 (ps_p ps))))
        (\<lambda>buf ps'. length (ps_p ps') < length (ps_p ps))"
    proof (rule run_lex_ok [OF i])
      show "suffix (lex_rest (scan_run radix (adv 2 (ps_p ps)))) (ps_p ps)"
        by (rule suffix_adv_trans [OF scan_run_lex(2)])
      show "lex_fails (scan_run radix (adv 2 (ps_p ps)))" by (rule scan_run_lex(1))
    next
      fix a r assume "scan_run radix (adv 2 (ps_p ps)) = LOk a r"
      then have "a \<noteq> []" "length a + length r \<le> length (adv 2 (ps_p ps))"
        using scan_run_lex(3) by blast+
      then show "length (ps_p (set_p r ps)) < length (ps_p ps)"
        by (cases a) (simp_all add: adv_def)
    qed
  next
    fix buf ps1 assume i1: "intact b ps1"
    show "res_ok b ps1 (case mag_from 0 buf rx of
        None \<Rightarrow> syntax_fail ps1 ''integer out of range''
      | Some mag \<Rightarrow>
          (if mag > 0x7FFFFFFFFFFFFFFF then syntax_fail ps1 ''integer out of range''
           else value_node ps1 K_INTEGER (P_Int mag)))
        (\<lambda>n ps'. ps_p ps' = ps_p ps1 \<and> fresh ps1 n ps')"
      by (simp add: syntax_fail_ok [OF i1] value_node_ok [OF i1] split: option.split)
  qed (auto simp: val_post_def intro: fresh_from)
  then show ?thesis by (simp add: parse_radix_def syntax_fail_ok [OF i] Let_def)
qed

lemma word_value_ok:
  assumes i: "intact b ps" and w: "w \<noteq> []" and v: "kind_payload k v" "k \<noteq> K_TABLE" "k \<noteq> K_ARRAY"
  shows "res_ok b ps (res_bind (run_lex ps (expect_word w (ps_p ps))) (\<lambda>_ ps. value_node ps k v))
    (val_post ps)"
proof (rule res_ok_bind)
  show "res_ok b ps (run_lex ps (expect_word w (ps_p ps)))
      (\<lambda>_ ps'. length (ps_p ps') < length (ps_p ps))"
    by (rule run_lex_ok [OF i expect_word_lex(2,1)]) (use w expect_word_lex(3) in auto)
next
  fix u ps1 assume "intact b ps1"
  then show "res_ok b ps1 (value_node ps1 k v) (\<lambda>n ps'. ps_p ps' = ps_p ps1 \<and> fresh ps1 n ps')"
    using v by (intro value_node_ok)
qed (auto simp: val_post_def intro: fresh_from)

lemma lit_Cons: "lit (c # cs) = of_char c # lit cs"
  by (simp add: lit_def)

lemma parse_number_ok:
  assumes i: "intact b ps0" and p0: "ps_p ps0 \<noteq> []"
  shows "res_ok b ps0 (parse_number fo ps0 sgd) (val_post ps0)"
proof -
  define ps where "ps = (if sgd then set_p (adv 1 (ps_p ps0)) ps0 else ps0)"
  define neg where "neg \<longleftrightarrow> sgd \<and> starts MINUS (ps_p ps0)"
  have ips: "intact b ps" and st: "stays ps0 ps"
    using i by (auto simp: ps_def stays_refl intro: intact_set_p stays_set_p suffix_intros)
  have body: "res_ok b ps (parse_number fo ps0 sgd) (val_post ps)"
  proof (cases "ps_p ps")
    case Nil
    then have "parse_number fo ps0 sgd = syntax_fail ps ''invalid number''"
      by (simp add: parse_number_def Let_def ps_def)
    then show ?thesis by (simp add: syntax_fail_ok [OF ips])
  next
    case (Cons c cs)
    then have ne: "ps_p ps \<noteq> []" by simp
    have eq: "parse_number fo ps0 sgd =
      (if c = 0x69 then
         res_bind (run_lex ps (expect_word (lit ''inf'') (ps_p ps))) (\<lambda>_ ps.
           value_node ps K_FLOAT (P_Float (if neg then f64_neg F64_INF else F64_INF)))
       else if c = 0x6E then
         res_bind (run_lex ps (expect_word (lit ''nan'') (ps_p ps))) (\<lambda>_ ps.
           value_node ps K_FLOAT (P_Float F64_NAN))
       else if \<not> is_dec c then syntax_fail ps ''invalid number''
       else if c = 0x30 \<and> (starts 0x78 cs \<or> starts 0x6F cs \<or> starts 0x62 cs)
       then parse_radix ps sgd (hd cs)
       else parse_decimal fo ps neg sgd)"
      unfolding parse_number_def Let_def ps_def [symmetric] neg_def [symmetric] Cons list.case ..
    show ?thesis
      unfolding eq
      using word_value_ok [OF ips, of "lit ''inf''" K_FLOAT] word_value_ok [OF ips, of "lit ''nan''" K_FLOAT]
        parse_radix_ok [OF ips ne] parse_decimal_ok [OF ips]
      by (simp add: syntax_fail_ok [OF ips] lit_Cons)
  qed
  show ?thesis
  proof (rule res_ok_from [OF body st])
    fix n ps' assume "val_post ps n ps'"
    then show "val_post ps0 n ps'"
      using staysD(3) [OF st] fresh_from [OF st] by (simp add: val_post_def)
  qed
qed

subsection \<open>Booleans, dates and times\<close>

lemma parse_bool_ok:
  "intact b ps \<Longrightarrow> res_ok b ps (parse_bool ps t) (val_post ps)"
  unfolding parse_bool_def by (rule word_value_ok) (simp_all add: lit_Cons)

lemma frac_ns_suffix: "frac_ns scale ns p = (ns', r) \<Longrightarrow> suffix r p"
  by (induction scale ns p rule: frac_ns.induct) (auto split: if_splits intro: suffix_ConsI)

lemma frac_part_lex:
  "lex_fails (frac_part start dt p)" "frac_part start dt p = LOk dt' r \<Longrightarrow> suffix r p"
  by (auto simp: frac_part_def Let_def split: if_splits prod.splits dest!: frac_ns_suffix
      intro: suffix_tl_trans)

lemma offset_part_lex:
  "lex_fails (offset_part start dt p)" "offset_part start dt p = LOk x r \<Longrightarrow> suffix r p"
  by (auto simp: offset_part_def Let_def suffix_drop suffix_tl split: if_splits)

lemma time_fields_lex:
  "lex_fails (time_fields start dt p h mi s)"
  "time_fields start dt p h mi s = LOk dt' r \<Longrightarrow> r = p"
  by (auto simp: time_fields_def split: if_splits)

definition dt_kind :: "kind \<Rightarrow> bool" where
  "dt_kind k \<longleftrightarrow> k \<in> {K_DATETIME_OFFSET, K_DATETIME_LOCAL, K_DATE_LOCAL, K_TIME_LOCAL}"

lemma offset_part_kind: "offset_part start dt p = LOk (k, dt') r \<Longrightarrow> dt_kind k"
  by (auto simp: offset_part_def Let_def dt_kind_def split: if_splits)

lemma suffix_drop_le: "m \<le> n \<Longrightarrow> suffix (drop n xs) (drop m xs)"
  using suffix_drop [of "n - m" "drop m xs"] by simp

text \<open>A parsed date or time has taken its first byte, and its kind is one of the four.\<close>

lemma date_time_lex_lex:
  "lex_fails (date_time_lex start)"
  "date_time_lex start = LOk (k, dt) r \<Longrightarrow> suffix r (drop 1 start) \<and> dt_kind k"
proof -
  define p where "p = drop 1 (drop 10 start)"
  have p: "suffix (drop n p) (drop 1 start)" for n
    by (simp add: p_def suffix_drop_le)
  define secs where "secs = (\<lambda>dt. if length p \<ge> 6 \<and> p ! 5 = COLON then
       (if length p < 8 \<or> \<not> is_dig p 6 \<or> \<not> is_dig p 7
        then LErr ERR_SYNTAX (lit ''invalid second'') start
        else time_fields start dt (drop 8 p) (d2 p) (d2 (drop 3 p)) (d2 (drop 6 p)))
     else time_fields start dt (drop 5 p) (d2 p) (d2 (drop 3 p)) 0)"
  define body where "body = (\<lambda>dt. lex_bind (secs dt)
    (\<lambda>dt p. lex_bind (frac_part start dt p) (offset_part start)))"
  have secs: "lex_fails (secs dt)" "secs dt = LOk dt' r \<Longrightarrow> suffix r (drop 1 start)" for dt dt' r
    using p by (auto simp: secs_def time_fields_lex(1) split: if_splits dest!: time_fields_lex(2))
  have fails: "lex_fails (body dt)" for dt
    unfolding body_def by (intro lex_bind_fails secs frac_part_lex offset_part_lex)
  have suf: "suffix r (drop 1 start) \<and> dt_kind k" if b: "body dt = LOk (k, dt') r" for dt dt' r k
  proof -
    obtain d1 p1 d2 p2 where s: "secs dt = LOk d1 p1" "frac_part start d1 p1 = LOk d2 p2"
      "offset_part start d2 p2 = LOk (k, dt') r"
      using b unfolding body_def lex_bind_LOk by blast
    have "suffix r p2" "suffix p2 p1" "suffix p1 (drop 1 start)"
      using s by (auto dest: offset_part_lex(2) frac_part_lex(2) secs(2))
    then show ?thesis using offset_part_kind [OF s(3)] by (blast intro: suffix_order.trans)
  qed
  have eq: "date_time_lex start =
    (let y = num4 start; mo = d2 (drop 5 start); da = d2 (drop 8 start)
     in if mo < 1 \<or> mo > 12 then LErr ERR_SYNTAX (lit ''invalid month'') start
        else if da < 1 \<or> da > days_in_month y mo
        then LErr ERR_SYNTAX (lit ''invalid day'') start
        else
          (let dt = dt_zero\<lparr>dt_year := word_of_int y, dt_month := word_of_int mo,
                            dt_day := word_of_int da\<rparr>; p = drop 10 start
           in if \<not> ((starts 0x54 p \<or> starts 0x74 p \<or> starts SPACE p) \<and> time_shape p)
              then LOk (K_DATE_LOCAL, dt) p else body dt))"
    unfolding date_time_lex_def body_def secs_def p_def Let_def ..
  show "lex_fails (date_time_lex start)"
    unfolding eq Let_def by (simp add: fails)
  show "date_time_lex start = LOk (k, dt) r \<Longrightarrow> suffix r (drop 1 start) \<and> dt_kind k"
    unfolding eq Let_def
    by (auto simp: dt_kind_def suffix_drop_le split: if_splits dest!: suf)
qed

lemma time_lex_lex:
  "lex_fails (time_lex start)"
  "time_lex start = LOk (k, dt) r \<Longrightarrow> suffix r (drop 1 start) \<and> dt_kind k"
proof -
  have p: "suffix (drop 5 start) (drop 1 start)" "suffix (drop 8 start) (drop 1 start)"
    by (simp_all add: suffix_drop_le)
  define secs where "secs =
    (if length start \<ge> 8 \<and> start ! 5 = COLON then
       (if \<not> is_dig start 6 \<or> \<not> is_dig start 7
        then LErr ERR_SYNTAX (lit ''invalid second'') start
        else time_fields start dt_zero (drop 8 start) (d2 start) (d2 (drop 3 start)) (d2 (drop 6 start)))
     else time_fields start dt_zero (drop 5 start) (d2 start) (d2 (drop 3 start)) 0)"
  have secs: "lex_fails secs" "secs = LOk dt' r \<Longrightarrow> suffix r (drop 1 start)" for dt' r
    using p by (auto simp: secs_def time_fields_lex(1) split: if_splits dest!: time_fields_lex(2))
  have eq: "time_lex start = lex_bind secs
      (\<lambda>dt p. lex_bind (frac_part start dt p) (\<lambda>dt p. LOk (K_TIME_LOCAL, dt) p))"
    unfolding time_lex_def secs_def Let_def ..
  show "lex_fails (time_lex start)"
    unfolding eq by (intro lex_bind_fails secs frac_part_lex) simp
  show "time_lex start = LOk (k, dt) r \<Longrightarrow> suffix r (drop 1 start) \<and> dt_kind k"
  proof -
    assume "time_lex start = LOk (k, dt) r"
    then obtain d1 p1 where s: "secs = LOk d1 p1" "frac_part start d1 p1 = LOk dt r" "k = K_TIME_LOCAL"
      unfolding eq lex_bind_LOk by auto
    have "suffix r p1" "suffix p1 (drop 1 start)"
      using s by (auto dest: frac_part_lex(2) secs(2))
    then show ?thesis using s(3) by (auto simp: dt_kind_def intro: suffix_order.trans)
  qed
qed

lemma datetime_lex_lex:
  "lex_fails (datetime_lex start)"
  "datetime_lex start = LOk (k, dt) r \<Longrightarrow> suffix r (drop 1 start) \<and> dt_kind k"
  using date_time_lex_lex time_lex_lex by (auto simp: datetime_lex_def split: if_splits)

lemma parse_datetime_ok:
  assumes i: "intact b ps" and p: "ps_p ps \<noteq> []"
  shows "res_ok b ps (parse_datetime ps) (val_post ps)"
proof (cases "datetime_lex (ps_p ps)")
  case (LErr st msg q)
  then have "st \<noteq> ST_OK" using datetime_lex_lex(1) [of "ps_p ps"] by simp
  then show ?thesis
    using LErr by (simp add: parse_datetime_def fail_at_ok [OF intact_suffix [OF i]])
next
  case (LOk x r)
  obtain k dt where x: "x = (k, dt)" by (cases x)
  have r: "suffix r (drop 1 (ps_p ps))" "dt_kind k" using datetime_lex_lex(2) LOk x by auto
  then have less: "length r < length (ps_p ps)" and suf: "suffix r (ps_p ps)"
    using p suffix_length_le [OF r(1)] suffix_drop_trans [OF r(1)] by (cases "ps_p ps"; simp)+
  have "res_ok b ps (res_bind (value_node ps k (P_Dt dt)) (\<lambda>n ps'. Ok n (set_p r ps'))) (val_post ps)"
    by (rule res_ok_bind [OF value_node_ok [OF i], where R' = "\<lambda>_. val_post ps"])
       (use r(2) less suf in \<open>auto simp: dt_kind_def val_post_def fresh_def
          intro: intact_set_p stays_set_p\<close>)
  then show ?thesis by (simp add: parse_datetime_def LOk x)
qed

subsection \<open>Keys\<close>

text \<open>A part takes at least one byte.\<close>

definition takes :: "parser \<Rightarrow> parser \<Rightarrow> bool" where
  "takes ps ps' \<longleftrightarrow> length (ps_p ps') < length (ps_p ps)"

lemma quoted_key_ok:
  assumes i: "intact b ps" and p: "ps_p ps \<noteq> []" "hd (ps_p ps) = DQUOTE \<or> hd (ps_p ps) = SQUOTE"
  shows "res_ok b ps (quoted_key ps) (\<lambda>_ ps'. takes ps ps' \<and> closed ps')"
proof (rule after_adv [OF i p(1), of 1 "adv 1 (ps_p ps)" _ "\<lambda>_ _ ps'. closed ps'"])
  fix ps1 assume ps1: "ps1 = set_p (adv 1 (ps_p ps)) ps" and i1: "intact b ps1"
  define q where "q = (if hd (ps_p ps) = DQUOTE then DQUOTE else SQUOTE)"
  have q: "q = DQUOTE \<or> q = SQUOTE" by (simp add: q_def)
  have eq: "quoted_key ps =
    (case try_plain_body q (ps_p ps1) of
       Some content \<Rightarrow>
         (case doc_alloc ps1 (length content + 1) of
            None \<Rightarrow> oom ps1
          | Some ps' \<Rightarrow> Ok (View None content) (set_p (adv (length content + 1) (ps_p ps1)) ps'))
     | None \<Rightarrow> res_bind (decode_body ps1 (hd (ps_p ps) = DQUOTE) False) (\<lambda>str. Ok (View None str)))"
    unfolding quoted_key_def Let_def ps1 q_def ..
  have plain: "res_ok b ps1 (case doc_alloc ps1 (length content + 1) of
      None \<Rightarrow> oom ps1
    | Some ps' \<Rightarrow> Ok (View None content) (set_p (adv (length content + 1) (ps_p ps1)) ps'))
      (\<lambda>_ ps'. closed ps')" if content: "try_plain_body q (ps_p ps1) = Some content" for content
  proof (cases "doc_alloc ps1 (length content + 1)")
    case None
    then show ?thesis by (simp add: oom_ok [OF i1])
  next
    case (Some ps')
    note al = doc_alloc_ok [OF Some]
    have suf: "suffix (adv (length content + 1) (ps_p ps1)) (ps_p ps')"
      by (simp add: al(3) suffix_adv)
    obtain r where r: "ps_p ps1 = content @ q # r" using try_plain_body_Some [OF content q] by blast
    then have "suffix (q # adv (length content + 1) (ps_p ps1)) (ps_src ps')"
      using intact_suffix [OF i1] al(4) by (auto simp: adv_def intro: suffix_order.trans [OF suffix_appendI])
    then show ?thesis
      using Some q intact_set_p [OF al(1) [OF i1] suf] stays_trans [OF al(2) stays_set_p [OF suf]]
      by (auto simp: closed_def)
  qed
  have slow: "res_ok b ps1 (res_bind (decode_body ps1 basic False) (\<lambda>str. Ok (View None str)))
      (\<lambda>_ ps'. closed ps')" for basic
    by (rule res_ok_bind [OF decode_body_ok [OF i1], where R' = "\<lambda>_ _ ps'. closed ps'"])
       (simp_all add: stays_refl)
  show "res_ok b ps1 (quoted_key ps) (\<lambda>_ ps'. closed ps')"
    unfolding eq using plain slow by (simp split: option.split)
qed (simp_all add: adv_def takes_def)

lemma bare_key_ok:
  assumes i: "intact b ps" and p: "ps_p ps = c # cs" "is_barekey c"
  shows "res_ok b ps (bare_key ps) (\<lambda>v ps'. takes ps ps' \<and> v_loc v \<noteq> None)"
proof -
  have suf: "suffix (dropWhile is_barekey (ps_p ps)) (ps_p ps)" by (rule suffix_dropWhile)
  have "length (dropWhile is_barekey (ps_p ps)) < length (ps_p ps)"
    using p length_dropWhile_le [of is_barekey cs] by simp
  then show ?thesis
    using intact_set_p [OF i suf] stays_set_p [OF suf] by (simp add: bare_key_def takes_def)
qed

lemma key_part_ok:
  assumes i: "intact b ps"
  shows "res_ok b ps (key_part ps) (\<lambda>v ps'. takes ps ps' \<and> (v_loc v = None \<longrightarrow> closed ps'))"
proof (cases "ps_p ps")
  case Nil
  then show ?thesis by (simp add: key_part_def fail_at_ok [OF intact_suffix [OF i]])
next
  case (Cons c cs)
  consider "c = DQUOTE \<or> c = SQUOTE" | "\<not> (c = DQUOTE \<or> c = SQUOTE)" "is_barekey c"
    | "\<not> (c = DQUOTE \<or> c = SQUOTE)" "\<not> is_barekey c" by blast
  then show ?thesis
  proof cases
    case 1
    then have "key_part ps = quoted_key ps" by (auto simp: key_part_def Cons)
    then show ?thesis using 1 by (auto simp: Cons intro: res_ok_weaken [OF quoted_key_ok [OF i]])
  next
    case 2
    then have "key_part ps = bare_key ps" by (simp add: key_part_def Cons)
    then show ?thesis using 2 by (auto intro: res_ok_weaken [OF bare_key_ok [OF i Cons]])
  next
    case 3
    then show ?thesis by (simp add: key_part_def Cons fail_at_ok [OF intact_suffix [OF i]])
  qed
qed

lemma arena_only:
  assumes "intact b ps" "ps' = set_doc ((ps_doc ps)\<lparr>d_arena := a\<rparr>) ps"
  shows "intact b ps'" "stays ps ps'" "ps_p ps' = ps_p ps"
  using assms by (auto simp: intact_def doc_frame_def nodes_ext_refl intro: stays_cong)

lemma parts_reserve_ok:
  assumes i: "intact b ps"
  shows "res_ok b ps (parts_reserve ps v) (\<lambda>v' ps'. ps_p ps' = ps_p ps \<and> pt_views v' = pt_views v)"
  using arena_only [OF i refl] oom_ok [OF i]
  by (auto simp: parts_reserve_def Let_def i stays_refl split: option.split prod.split)

text \<open>A round adds one part; when a dot follows a part that is a copy, the source has a quoted path.\<close>

definition step_post :: "parser \<Rightarrow> parts \<Rightarrow> parts \<times> bool \<Rightarrow> bool" where
  "step_post ps v x \<longleftrightarrow> (\<exists>key. pt_views (fst x) = pt_views v @ [key] \<and>
     (snd x \<and> v_loc key = None \<longrightarrow> quoted_path (ps_src ps)))"

lemma key_step_end_ok:
  assumes i: "intact b ps" and key: "v_loc key = None \<longrightarrow> closed ps"
  shows "res_ok b ps (let v' = v\<lparr>pt_views := pt_views v @ [key]\<rparr>
       in if length (pt_views v') > unat (ps_max_depth ps)
          then fail_at ps None ERR_DEPTH (lit ''key path too deep'')
          else (let p = skip_ws (ps_p ps)
                in if starts DOT p then Ok (v', True) (set_p (adv 1 p) ps)
                   else Ok (v', False) (set_p p ps)))
      (\<lambda>x ps'. step_post ps v x)"
proof -
  have s: "suffix (skip_ws (ps_p ps)) (ps_p ps)" "suffix (adv 1 (skip_ws (ps_p ps))) (ps_p ps)"
    using suffix_order.trans [OF suffix_adv suffix_skip_ws] suffix_skip_ws by auto
  have "v_loc key = None \<Longrightarrow> starts DOT (skip_ws (ps_p ps)) \<Longrightarrow> quoted_path (ps_src ps)"
    using key quoted_path_suffix by (auto simp: closed_def)
  then show ?thesis
    unfolding Let_def
    using intact_set_p [OF i s(1)] intact_set_p [OF i s(2)] stays_set_p [OF s(1)] stays_set_p [OF s(2)]
    by (simp add: fail_at_ok [OF intact_suffix [OF i]] step_post_def)
qed

lemma key_step_ok:
  assumes i: "intact b ps"
  shows "res_ok b ps (key_step ps v) (\<lambda>x ps'. takes ps ps' \<and> step_post ps v x)"
proof -
  let ?ps1 = "set_p (skip_ws (ps_p ps)) ps"
  have i1: "intact b ?ps1" and st1: "stays ps ?ps1"
    using i suffix_skip_ws by (auto intro: intact_set_p stays_set_p)
  have "res_ok b ?ps1 (key_step ps v) (\<lambda>x ps'. takes ?ps1 ps' \<and> step_post ?ps1 v x)"
    unfolding key_step_def
  proof (rule res_ok_bind [OF key_part_ok [OF i1], where R' = "\<lambda>ps2 x ps'. step_post ps2 v x"])
    fix key ps2 assume i2: "intact b ps2" and key: "takes ?ps1 ps2 \<and> (v_loc key = None \<longrightarrow> closed ps2)"
    show "res_ok b ps2 (res_bind (parts_reserve ps2 v) (\<lambda>v ps.
        (let v' = v\<lparr>pt_views := pt_views v @ [key]\<rparr>
         in if length (pt_views v') > unat (ps_max_depth ps)
            then fail_at ps None ERR_DEPTH (lit ''key path too deep'')
            else (let p = skip_ws (ps_p ps)
                  in if starts DOT p then Ok (v', True) (set_p (adv 1 p) ps)
                     else Ok (v', False) (set_p p ps)))))
        (\<lambda>x ps'. step_post ps2 v x)"
    proof (rule res_ok_bind [OF parts_reserve_ok [OF i2], where R' = "\<lambda>ps3 x ps'. step_post ps3 v x"])
      fix v3 :: parts and ps3
      assume i3: "intact b ps3" and st: "stays ps2 ps3"
        and v3: "ps_p ps3 = ps_p ps2 \<and> pt_views v3 = pt_views v"
      have "v_loc key = None \<longrightarrow> closed ps3"
        using key v3 staysD(1) [OF st] by (simp add: closed_def)
      from key_step_end_ok [OF i3 this, of v3] show "res_ok b ps3
        (let v' = v3\<lparr>pt_views := pt_views v3 @ [key]\<rparr>
         in if length (pt_views v') > unat (ps_max_depth ps3)
            then fail_at ps3 None ERR_DEPTH (lit ''key path too deep'')
            else (let p = skip_ws (ps_p ps3)
                  in if starts DOT p then Ok (v', True) (set_p (adv 1 p) ps3)
                     else Ok (v', False) (set_p p ps3)))
        (\<lambda>x ps'. step_post ps3 v x)"
        by (rule res_ok_weaken) (simp add: step_post_def v3)
    qed (simp add: step_post_def staysD(1))
  next
    fix key ps2 x ps'
    assume "stays ?ps1 ps2" "takes ?ps1 ps2 \<and> (v_loc key = None \<longrightarrow> closed ps2)" "stays ps2 ps'" "step_post ps2 v x"
    then show "takes ?ps1 ps' \<and> step_post ?ps1 v x"
      using staysD(3) [of ps2 ps'] staysD(1) [of ?ps1 ps2] by (auto simp: takes_def step_post_def)
  qed
  then show ?thesis
    by (rule res_ok_from [OF _ st1]) (use staysD(3) [OF st1] in \<open>auto simp: takes_def step_post_def\<close>)
qed

text \<open>
  A path takes at least as many bytes as it has parts, and it has one. Without a quoted path in
  the source all parts but the last are pieces of the source.
\<close>

definition located :: "parser \<Rightarrow> view list \<Rightarrow> bool" where
  "located ps parts \<longleftrightarrow> (\<not> quoted_path (ps_src ps) \<longrightarrow> (\<forall>v \<in> set (butlast parts). v_loc v \<noteq> None))"

definition path_post :: "parser \<Rightarrow> view list \<Rightarrow> parser \<Rightarrow> bool" where
  "path_post ps parts ps' \<longleftrightarrow> parts \<noteq> [] \<and> length (ps_p ps') + length parts \<le> length (ps_p ps)
     \<and> located ps parts"

lemma key_path_loop_ok:
  assumes "intact b ps" "length (ps_p ps) < n"
  shows "res_ok b ps (key_path_loop n ps v)
    (\<lambda>parts ps'. \<exists>ks. parts = pt_views v @ ks \<and> path_post ps ks ps')"
  using assms
proof (induction n arbitrary: ps v)
  case (Suc n)
  show ?case
    unfolding key_path_loop.simps
  proof (rule res_ok_bind [OF key_step_ok [OF Suc.prems(1)], where R' = "\<lambda>ps1 parts ps'.
      \<exists>key ks. parts = pt_views v @ key # ks \<and> length (ps_p ps') + length ks \<le> length (ps_p ps1)
        \<and> located ps1 (key # ks)"])
    fix r :: "parts \<times> bool" and ps1
    assume i1: "intact b ps1" and st: "stays ps ps1" and r: "takes ps ps1 \<and> step_post ps v r"
    obtain v1 again where r1: "r = (v1, again)" by (cases r)
    obtain key where key: "pt_views v1 = pt_views v @ [key]" "again \<and> v_loc key = None \<longrightarrow> quoted_path (ps_src ps1)"
      using r staysD(1) [OF st] by (auto simp: step_post_def r1)
    have len: "length (ps_p ps1) < n" using r Suc.prems(2) by (simp add: takes_def)
    show "res_ok b ps1
        ((case r of (v, again) \<Rightarrow> \<lambda>ps. if again then key_path_loop n ps v else Ok (pt_views v) ps) ps1)
        (\<lambda>parts ps'. \<exists>key ks. parts = pt_views v @ key # ks \<and> length (ps_p ps') + length ks \<le> length (ps_p ps1)
           \<and> located ps1 (key # ks))"
    proof (cases again)
      case True
      have "res_ok b ps1 (key_path_loop n ps1 v1) (\<lambda>parts ps'. \<exists>key ks. parts = pt_views v @ key # ks
          \<and> length (ps_p ps') + length ks \<le> length (ps_p ps1) \<and> located ps1 (key # ks))"
        by (rule res_ok_weaken [OF Suc.IH [OF i1 len]])
           (use key True in \<open>auto simp: path_post_def located_def\<close>)
      then show ?thesis by (simp add: r1 True)
    next
      case False
      then show ?thesis using i1 key(1) by (simp add: r1 stays_refl located_def)
    qed
  next
    fix r :: "parts \<times> bool" and ps1 and parts :: "view list" and ps' :: parser
    assume "stays ps ps1" "takes ps ps1 \<and> step_post ps v r"
      "\<exists>key ks. parts = pt_views v @ key # ks \<and> length (ps_p ps') + length ks \<le> length (ps_p ps1)
        \<and> located ps1 (key # ks)"
    then show "\<exists>ks. parts = pt_views v @ ks \<and> path_post ps ks ps'"
      using staysD(1) [of ps ps1] by (fastforce simp: takes_def path_post_def located_def)
  qed
qed simp

lemma parse_key_path_ok:
  assumes "intact b ps"
  shows "res_ok b ps (parse_key_path ps) (path_post ps)"
  unfolding parse_key_path_def
  by (rule res_ok_weaken [OF key_path_loop_ok [OF assms]]) (auto simp: path_post_def)

end
