(* ===== verification/Parse_Sound.thy ===== *)
theory Parse_Sound
  imports Leaf_Sound
begin

text \<open>
  The guarantees of the routines that change tables (\<open>insert_dotted\<close>, the header paths)
  and of the recursive value parser, composed to the guarantee of the whole parser: it
  returns, the document it built is well formed, and an error lies inside the input.
\<close>

subsection \<open>Tables\<close>

abbreviation (input) "nodes ps \<equiv> d_nodes (ps_doc ps)"

definition is_table :: "parser \<Rightarrow> addr \<Rightarrow> bool" where
  "is_table ps t \<longleftrightarrow> t < length (nodes ps) \<and> n_kind (nodes ps ! t) = K_TABLE"

lemma is_table_stays: "stays ps ps' \<Longrightarrow> is_table ps t \<Longrightarrow> is_table ps' t"
  using staysD(5) [of ps ps'] nodes_ext_less nodes_ext_kind by (auto simp: is_table_def)

lemma stays_length: "stays ps ps' \<Longrightarrow> n < length (nodes ps) \<Longrightarrow> n < length (nodes ps')"
  using staysD(5) [of ps ps'] nodes_ext_less by blast

lemma probe_ok:
  assumes "intact b ps" "is_table ps t"
  shows "\<exists>slot. probe ps t part (key_hash (v_bytes part)) =
      Ok (entry_for (the_table (ps_doc ps) t) (v_bytes part), slot) ps
    \<and> slot_ok (the_table (ps_doc ps) t) (key_hash (v_bytes part)) slot"
  using dom_probe_ok [of "b - length (ps_p ps)" "ps_doc ps" t "v_bytes part"] assms
  by (auto simp: probe_def intact_def is_table_def)

lemma entry_value:
  assumes "intact b ps" "is_table ps t" "entry_for (the_table (ps_doc ps) t) key = Some e"
  shows "e_value e < length (nodes ps)"
  using node_ok_table(4) [of "b - length (ps_p ps)" "nodes ps" t e] assms entry_for_Some
  by (auto simp: intact_def is_table_def)

lemma insert_slot_ok:
  assumes i: "intact b ps" and t: "is_table ps t" and v: "v < length (nodes ps)"
    and new: "entry_for (the_table (ps_doc ps) t) (v_bytes part) = None"
    and slot: "slot_ok (the_table (ps_doc ps) t) (key_hash (v_bytes part)) slot"
    and b: "b - length (ps_p ps) + 1 < 2 ^ 32 - 1"
  shows "res_ok (Suc b) ps (insert_slot ps t part (key_hash (v_bytes part)) v slot)
    (\<lambda>_ ps'. ps_p ps' = ps_p ps)"
proof -
  have n: "nodes_ok (b - length (ps_p ps)) (nodes ps)" and le: "length (ps_p ps) \<le> b"
    and suf: "suffix (ps_p ps) (ps_src ps)" using i by (simp_all add: intact_def)
  have tb: "t < length (nodes ps)" "n_kind (nodes ps ! t) = K_TABLE" using t by (simp_all add: is_table_def)
  from dom_insert_ok [OF n tb new slot v b] obtain st doc' where ins:
    "dom_table_insert_slot (ps_doc ps) t part (key_hash (v_bytes part)) v slot = Some (st, doc')"
    and frame: "doc_frame (ps_doc ps) doc'" and ok: "nodes_ok (Suc (b - length (ps_p ps))) (d_nodes doc')"
    and st: "st = ST_OK \<or> st = ERR_ALLOC" by blast
  have "intact (Suc b) (set_doc doc' ps)" using suf le ok by (simp add: intact_def Suc_diff_le)
  moreover have "stays ps (set_doc doc' ps)" using frame by (intro stays_cong) simp_all
  ultimately show ?thesis
    using ins st suf frame by (auto simp: insert_slot_def fails_ok_def doc_frame_def)
qed

text \<open>New tables and arrays. An array of tables is not well formed until its first element.\<close>

lemma new_table_ok:
  assumes i: "intact b ps"
  shows "res_ok b ps (new_table ps fl) (\<lambda>n ps'. ps_p ps' = ps_p ps \<and> fresh ps n ps' \<and> is_table ps' n)"
proof (cases "dom_new_table (ps_doc ps) fl")
  case None
  then show ?thesis using i by (simp add: new_table_def fails_ok_def intact_def)
next
  case (Some r)
  then obtain n doc where new: "dom_new_table (ps_doc ps) fl = Some (n, doc)" by (cases r) auto
  note eq = dom_new_table_eq [OF new]
  have "nodes_ok m (d_nodes doc)" if "nodes_ok m (nodes ps)" for m
    unfolding eq(2) by (rule nodes_ok_append [OF that])
      (simp_all add: empty_table_entries table_wf_empty aot_ok_def)
  then have "intact b (set_doc doc ps)" using i by (simp add: intact_def)
  moreover have "stays ps (set_doc doc ps)"
    by (rule stays_cong) (simp_all add: doc_frame_def eq nodes_ext_append)
  ultimately show ?thesis using new by (simp add: new_table_def fresh_def is_table_def eq(1,2))
qed

definition is_array :: "parser \<Rightarrow> addr \<Rightarrow> byte \<Rightarrow> bool" where
  "is_array ps n fl \<longleftrightarrow> n < length (nodes ps) \<and> n_kind (nodes ps ! n) = K_ARRAY
     \<and> n_flags (nodes ps ! n) = fl"

lemma is_array_stays: "stays ps ps' \<Longrightarrow> is_array ps n fl \<Longrightarrow> is_array ps' n fl"
  using staysD(5) [of ps ps'] nodes_ext_less by (auto simp: is_array_def nodes_ext_def)

lemma new_array_ok:
  assumes i: "intact b ps" and fl: "fl AND ARR_AOT = 0"
  shows "res_ok b ps (new_array ps fl)
    (\<lambda>n ps'. ps_p ps' = ps_p ps \<and> fresh ps n ps' \<and> is_array ps' n fl)"
proof (cases "dom_new_array (ps_doc ps) fl")
  case None
  then show ?thesis using i by (simp add: new_array_def fails_ok_def intact_def)
next
  case (Some r)
  then obtain n doc where new: "dom_new_array (ps_doc ps) fl = Some (n, doc)" by (cases r) auto
  note eq = dom_new_array_eq [OF new]
  have "nodes_ok m (d_nodes doc)" if "nodes_ok m (nodes ps)" for m
    unfolding eq(2) using fl by (intro nodes_ok_append [OF that])
      (simp_all add: empty_array_def empty_table_entries table_wf_empty aot_ok_def has_flag_def)
  then have "intact b (set_doc doc ps)" using i by (simp add: intact_def)
  moreover have "stays ps (set_doc doc ps)"
    by (rule stays_cong) (simp_all add: doc_frame_def eq nodes_ext_append)
  ultimately show ?thesis using new by (simp add: new_array_def fresh_def is_array_def eq(1,2))
qed

text \<open>Pushing onto an array: the items grow by one, whichever way the storage was found.\<close>

lemma dom_array_push_cases:
  "dom_array_push doc n v = (ERR_ALLOC, doc) \<or>
   (\<exists>a ar'. dom_array_push doc n v = (ST_OK, set_payload (doc\<lparr>d_arena := a\<rparr>) n (P_Array ar'))
      \<and> ar_items ar' = ar_items (the_array doc n) @ [v])"
proof -
  let ?ar = "the_array doc n"
  let ?ncap = "if ar_cap ?ar \<noteq> 0 then ar_cap ?ar * 2 else 8"
  have some: "\<exists>a ar'. (ST_OK, set_payload (doc\<lparr>d_arena := a0\<rparr>) n (P_Array ar0))
      = (ST_OK, set_payload (doc\<lparr>d_arena := a\<rparr>) n (P_Array ar')) \<and> ar_items ar' = ar_items ?ar @ [v]"
    if "ar_items ar0 = ar_items ?ar @ [v]" for a0 ar0
    using that by blast
  consider (room) "length (ar_items ?ar) \<noteq> ar_cap ?ar"
    | (grown) p a where "length (ar_items ?ar) = ar_cap ?ar"
        "arena_try_grow (d_arena doc) (ar_ptr ?ar) (of_nat (ar_cap ?ar * SIZEOF_PTR))
           (of_nat (?ncap * SIZEOF_PTR)) = Some (p, a)"
    | (fresh) "length (ar_items ?ar) = ar_cap ?ar"
        "arena_try_grow (d_arena doc) (ar_ptr ?ar) (of_nat (ar_cap ?ar * SIZEOF_PTR))
           (of_nat (?ncap * SIZEOF_PTR)) = None"
    by (metis option.exhaust surj_pair)
  then show ?thesis
  proof cases
    case room
    then show ?thesis
      using some [of "ar0" "d_arena doc" for ar0] by (simp add: dom_array_push_def Let_def)
  next
    case grown
    then show ?thesis
      unfolding dom_array_push_def Let_def
      by (simp only: if_True option.case prod.case if_P refl) (intro disjI2 some, simp)
  next
    case fresh
    show ?thesis
    proof (cases "arena_alloc (d_arena doc) (of_nat (?ncap * SIZEOF_PTR))")
      case None
      then show ?thesis using fresh
        unfolding dom_array_push_def Let_def by (simp only: if_P option.case simp_thms)
    next
      case (Some r)
      then show ?thesis using fresh
        unfolding dom_array_push_def Let_def
        by (cases r) (simp only: if_P option.case prod.case, intro disjI2 some, simp)
    qed
  qed
qed

lemma push_nodes_ok:
  assumes ok: "nodes_ok m ns" and arr: "i < length ns" "n_kind (ns ! i) = K_ARRAY"
    and v: "v < length ns" and items: "ar_items ar' = ar_items (payload_array (n_as (ns ! i))) @ [v]"
    and aot: "has_flag (ns ! i) ARR_AOT \<Longrightarrow> n_kind (ns ! v) = K_TABLE"
  shows "nodes_ok m (ns[i := (ns ! i)\<lparr>n_as := P_Array ar'\<rparr>])"
proof -
  have ref: "\<forall>x \<in> payload_refs (P_Array ar'). x < length ns"
    using node_ok_array(2) [OF ok arr] v by (auto simp: items)
  have "aot_ok ns ((ns ! i)\<lparr>n_as := P_Array ar'\<rparr>)"
    using node_ok_array(3) [OF ok arr] aot by (auto simp: aot_ok_def items has_flag_def)
  then show ?thesis
    using arr ref by (intro nodes_ok_update [OF ok]) (simp_all add: empty_table_entries table_wf_empty)
qed

lemma array_push_ok:
  assumes i: "intact b ps" and arr: "is_array ps n fl" and v: "v < length (nodes ps)"
    and aot: "fl AND ARR_AOT \<noteq> 0 \<Longrightarrow> is_table ps v"
  shows "res_ok b ps (array_push ps n v) (\<lambda>_ ps'. ps_p ps' = ps_p ps)"
  using dom_array_push_cases [of "ps_doc ps" n v]
proof (elim disjE exE conjE)
  assume "dom_array_push (ps_doc ps) n v = (ERR_ALLOC, ps_doc ps)"
  then show ?thesis using i by (simp add: array_push_def fails_ok_def intact_def)
next
  fix a ar'
  assume push: "dom_array_push (ps_doc ps) n v = (ST_OK, set_payload ((ps_doc ps)\<lparr>d_arena := a\<rparr>) n (P_Array ar'))"
    and items: "ar_items ar' = ar_items (the_array (ps_doc ps) n) @ [v]"
  let ?doc = "set_payload ((ps_doc ps)\<lparr>d_arena := a\<rparr>) n (P_Array ar')"
  have "nodes_ok m ((nodes ps)[n := (nodes ps ! n)\<lparr>n_as := P_Array ar'\<rparr>])"
    if "nodes_ok m (nodes ps)" for m
    using arr aot by (intro push_nodes_ok [OF that _ _ v items])
      (auto simp: is_array_def is_table_def has_flag_def)
  then have "intact b (set_doc ?doc ps)" using i by (simp add: intact_def set_payload_nodes)
  moreover have "doc_frame (ps_doc ps) ?doc"
    using set_payload_frame [of "(ps_doc ps)\<lparr>d_arena := a\<rparr>" n "P_Array ar'"]
    by (simp add: doc_frame_def)
  ultimately show ?thesis using push by (simp add: array_push_def stays_cong)
qed

subsection \<open>Dotted keys and headers\<close>

text \<open>A table without entries: what a walk ends in once it has made a table of its own.\<close>

definition bare :: "parser \<Rightarrow> addr \<Rightarrow> bool" where
  "bare ps t \<longleftrightarrow> is_table ps t \<and> t_entries (the_table (ps_doc ps) t) = []"

lemma bare_entry_for: "bare ps t \<Longrightarrow> entry_for (the_table (ps_doc ps) t) key = None"
  by (simp add: bare_def entry_for_def)

lemma insert_slot_other:
  "insert_slot ps t key h v slot = Ok u ps' \<Longrightarrow> n \<noteq> t \<Longrightarrow> nodes ps' ! n = nodes ps ! n"
  by (auto simp: insert_slot_def dom_table_insert_slot_def set_payload_nodes
      split: option.splits prod.splits if_splits)

definition add_child ::
    "parser \<Rightarrow> addr \<Rightarrow> view \<Rightarrow> u64 \<Rightarrow> nat option \<Rightarrow> byte \<Rightarrow> addr res" where
  "add_child ps t part h slot fl =
    res_bind (new_table ps fl) (\<lambda>child ps.
    res_bind (insert_slot ps t part h child slot) (\<lambda>_ ps. Ok child ps))"

lemma add_child_bind:
  "res_bind (new_table ps fl) (\<lambda>child ps.
     res_bind (insert_slot ps t part h child slot) (\<lambda>_ ps. f child ps)) =
   res_bind (add_child ps t part h slot fl) f"
proof (cases "new_table ps fl")
  case (Ok child ps1)
  then show ?thesis by (cases "insert_slot ps1 t part h child slot") (simp_all add: add_child_def)
qed (simp_all add: add_child_def)

lemma add_child_ok:
  assumes i: "intact b ps" and t: "is_table ps t"
    and new: "entry_for (the_table (ps_doc ps) t) (v_bytes part) = None"
    and slot: "slot_ok (the_table (ps_doc ps) t) (key_hash (v_bytes part)) slot"
    and b: "b - length (ps_p ps) + 1 < 2 ^ 32 - 1"
  shows "res_ok (Suc b) ps (add_child ps t part (key_hash (v_bytes part)) slot fl)
    (\<lambda>n ps'. ps_p ps' = ps_p ps \<and> bare ps' n)"
proof (cases "dom_new_table (ps_doc ps) fl")
  case None
  then show ?thesis using i by (simp add: add_child_def new_table_def fails_ok_def intact_def)
next
  case (Some r)
  then obtain n doc where dn: "dom_new_table (ps_doc ps) fl = Some (n, doc)" by (cases r) auto
  note eq = dom_new_table_eq [OF dn]
  let ?ps1 = "set_doc doc ps"
  have nt: "new_table ps fl = Ok n ?ps1" using dn by (simp add: new_table_def)
  have child: "intact b ?ps1" "stays ps ?ps1" "is_table ?ps1 n"
    using new_table_ok [OF i, of fl] by (simp_all add: nt)
  have old: "the_node doc t = the_node (ps_doc ps) t" "t \<noteq> n" "n < length (nodes ?ps1)"
    using t by (simp_all add: is_table_def eq(1,2) nth_append)
  have empty: "t_entries (the_table doc n) = []" by (simp add: eq(1,2) empty_table_entries)
  have ins: "res_ok (Suc b) ?ps1 (insert_slot ?ps1 t part (key_hash (v_bytes part)) n slot)
      (\<lambda>_ ps'. ps_p ps' = ps_p ?ps1)"
    using new slot old is_table_stays [OF child(2) t] b
    by (intro insert_slot_ok [OF child(1)]) simp_all
  show ?thesis
  proof (cases "insert_slot ?ps1 t part (key_hash (v_bytes part)) n slot")
    case (Ok u ps2)
    have "bare ps2 n"
      using insert_slot_other [OF Ok, of n] old(2) empty is_table_stays [of ?ps1 ps2 n] ins child(3)
      by (simp add: bare_def Ok)
    then show ?thesis using ins stays_trans [OF child(2)] by (simp add: add_child_def nt Ok)
  qed (use ins fails_ok_trans [OF child(2)] in \<open>simp_all add: add_child_def nt\<close>)
qed

text \<open>The walk of a dotted key: it may make a table for each part.\<close>

lemma dotted_walk_ok:
  assumes "intact b ps" "is_table ps t" "b + length parts < 2 ^ 32 - 1"
  shows "res_ok (b + length parts) ps (dotted_walk ps t parts) (\<lambda>t' ps'. is_table ps' t')"
  using assms
proof (induction parts arbitrary: b ps t)
  case Nil
  then show ?case by (simp add: stays_refl)
next
  case (Cons part rest)
  obtain slot where pr: "probe ps t part (key_hash (v_bytes part)) =
      Ok (entry_for (the_table (ps_doc ps) t) (v_bytes part), slot) ps"
    and slot: "slot_ok (the_table (ps_doc ps) t) (key_hash (v_bytes part)) slot"
    using probe_ok [OF Cons.prems(1,2)] by blast
  have i: "intact (b + length (part # rest)) ps" by (rule intact_mono [OF Cons.prems(1)]) simp
  show ?case
  proof (cases "entry_for (the_table (ps_doc ps) t) (v_bytes part)")
    case None
    have "res_ok (Suc b) ps (add_child ps t part (key_hash (v_bytes part)) slot TBL_DOTTED)
        (\<lambda>n ps'. ps_p ps' = ps_p ps \<and> bare ps' n)"
      using Cons.prems(3) by (intro add_child_ok [OF Cons.prems(1,2) None slot]) simp
    then have "res_ok (b + length (part # rest)) ps
        (res_bind (add_child ps t part (key_hash (v_bytes part)) slot TBL_DOTTED)
          (\<lambda>child ps. dotted_walk ps child rest)) (\<lambda>t' ps'. is_table ps' t')"
    proof (rule res_ok_bind)
      fix n ps' assume "intact (Suc b) ps'" "ps_p ps' = ps_p ps \<and> bare ps' n"
      then show "res_ok (b + length (part # rest)) ps' (dotted_walk ps' n rest)
          (\<lambda>t' ps'. is_table ps' t')"
        using Cons.IH [of "Suc b" ps' n] Cons.prems(3) by (simp add: bare_def)
    qed
    then show ?thesis by (simp add: pr None add_child_bind Let_def)
  next
    case (Some e)
    let ?v = "the_node (ps_doc ps) (e_value e)"
    have v: "e_value e < length (nodes ps)" by (rule entry_value [OF Cons.prems(1,2) Some])
    have "res_ok (b + length (part # rest)) ps (dotted_walk ps (e_value e) rest)
        (\<lambda>t' ps'. is_table ps' t')" if "n_kind ?v = K_TABLE"
      using Cons.IH [of "Suc b" ps "e_value e"] Cons.prems that v intact_mono [of b ps "Suc b"]
      by (simp add: is_table_def)
    then show ?thesis by (simp add: pr Some Let_def semantic_fail_ok [OF i])
  qed
qed

text \<open>A probe and what is done with it.\<close>

lemma probe_bind_ok:
  assumes i: "intact b ps" and t: "is_table ps t"
    and some: "\<And>e slot. entry_for (the_table (ps_doc ps) t) (v_bytes part) = Some e \<Longrightarrow>
      e_value e < length (nodes ps) \<Longrightarrow> res_ok b' ps (f (Some e, slot) ps) Q"
    and none: "\<And>slot. entry_for (the_table (ps_doc ps) t) (v_bytes part) = None \<Longrightarrow>
      slot_ok (the_table (ps_doc ps) t) (key_hash (v_bytes part)) slot \<Longrightarrow>
      res_ok b' ps (f (None, slot) ps) Q"
  shows "res_ok b' ps (res_bind (probe ps t part (key_hash (v_bytes part))) f) Q"
proof -
  obtain slot where pr: "probe ps t part (key_hash (v_bytes part)) =
      Ok (entry_for (the_table (ps_doc ps) t) (v_bytes part), slot) ps"
    and slot: "slot_ok (the_table (ps_doc ps) t) (key_hash (v_bytes part)) slot"
    using probe_ok [OF i t] by blast
  show ?thesis
  proof (cases "entry_for (the_table (ps_doc ps) t) (v_bytes part)")
    case None
    then show ?thesis using none [OF None slot] by (simp add: pr)
  next
    case (Some e)
    then show ?thesis using some [OF Some entry_value [OF i t Some]] by (simp add: pr)
  qed
qed

text \<open>The pointer difference of the message is defined when the parts lie in the source.\<close>

lemma parent_text_located:
  assumes "located ps parts" "1 < length parts" "parent_text src parts = None"
  shows "hazard (ps_src ps)"
proof (rule ccontr)
  assume "\<not> hazard (ps_src ps)"
  then have loc: "\<forall>v \<in> set (butlast parts). v_loc v \<noteq> None" using assms(1) by (simp add: located_def hazard_def)
  have ne: "butlast parts \<noteq> []" using assms(2) by (cases parts) auto
  have "hd parts = hd (butlast parts)" using assms(2) by (cases parts) auto
  then have "hd parts \<in> set (butlast parts)" using hd_in_set [OF ne] by simp
  moreover have "parts ! (length parts - 2) = butlast parts ! (length (butlast parts) - 1)"
    using assms(2) by (simp add: nth_butlast numeral_2_eq_2)
  then have "parts ! (length parts - 2) \<in> set (butlast parts)"
    using nth_mem [of "length (butlast parts) - 1" "butlast parts"] ne by (cases "butlast parts") auto
  ultimately obtain i j where "v_loc (hd parts) = Some i" "v_loc (parts ! (length parts - 2)) = Some j"
    using loc by fastforce
  then show False using assms(3) by (simp add: parent_text_def Let_def split: if_splits)
qed

lemma insert_dotted_ok:
  assumes i: "intact b ps" and t: "is_table ps t" and parts: "parts \<noteq> []" "located ps parts"
    and v: "v < length (nodes ps)" and b: "b + length parts < 2 ^ 32 - 1"
  shows "res_ok (b + length parts) ps (insert_dotted ps t parts v) (\<lambda>_ ps'. True)"
proof -
  define b1 where "b1 = b + length (butlast parts)"
  have len: "b + length parts = Suc b1" using parts(1) by (cases parts) (simp_all add: b1_def)
  have b1: "b1 + 1 < 2 ^ 32 - 1" using b len by simp
  have "res_ok b1 ps (dotted_walk ps t (butlast parts)) (\<lambda>t' ps'. is_table ps' t')"
    unfolding b1_def using b1 by (intro dotted_walk_ok [OF i t]) (simp add: b1_def)

  then show ?thesis
    unfolding insert_dotted_def len Let_def
    apply (rule res_ok_bind [where R' = "\<lambda>_ _ _. True"])
    subgoal premises prems for t1 ps1
      apply (rule probe_bind_ok [OF prems(1,3)])
      subgoal
        using parent_text_located [OF parts(2), of "ps_src ps1"] staysD(1) [OF prems(2)]
        by (simp add: semantic_fail_ok [OF intact_mono [OF prems(1), of b1]] split: option.split)
      subgoal premises new
        using res_ok_weaken [OF insert_slot_ok [OF prems(1,3) stays_length [OF prems(2) v] new], of "\<lambda>_ _. True"] b1
        by simp
      done
    subgoal by simp
    done
qed

text \<open>Through an array of tables the walk goes on in the last of them.\<close>

lemma last_of_aot:
  assumes i: "intact b ps" and v: "n < length (nodes ps)" "n_kind (nodes ps ! n) = K_ARRAY"
    "has_flag (nodes ps ! n) ARR_AOT"
  shows "ar_items (the_array (ps_doc ps) n) \<noteq> []"
    and "is_table ps (last (ar_items (the_array (ps_doc ps) n)))"
proof -
  have ok: "nodes_ok (b - length (ps_p ps)) (nodes ps)" using i by (simp add: intact_def)
  show ne: "ar_items (the_array (ps_doc ps) n) \<noteq> []" using node_ok_array(3) [OF ok v] by simp
  then have "last (ar_items (the_array (ps_doc ps) n)) \<in> set (ar_items (the_array (ps_doc ps) n))" by simp
  then show "is_table ps (last (ar_items (the_array (ps_doc ps) n)))"
    using node_ok_array(2) [OF ok v(1,2)] node_ok_array(3) [OF ok v] by (simp add: is_table_def)
qed

lemma header_walk_ok:
  assumes "intact b ps" "is_table ps t" "b + length parts < 2 ^ 32 - 1"
  shows "res_ok (b + length parts) ps (header_walk ps t parts) (\<lambda>t' ps'. is_table ps' t')"
  using assms
proof (induction parts arbitrary: b ps t)
  case Nil
  then show ?case by (simp add: stays_refl)
next
  case (Cons part rest)
  have i: "intact (Suc b) ps" by (rule intact_mono [OF Cons.prems(1)]) simp
  have b: "Suc b + length rest < 2 ^ 32 - 1" using Cons.prems(3) by simp
  show ?case
    unfolding header_walk.simps Let_def
    apply (rule probe_bind_ok [OF Cons.prems(1,2)])
    subgoal premises prems for e slot
      using Cons.IH [OF i _ b] prems(2) last_of_aot [OF i prems(2)]
      by (auto simp: Let_def is_table_def semantic_fail_ok [OF i] fail_at_ok [OF intact_suffix [OF i]])
    subgoal premises prems for slot
      using Cons.prems(3) Cons.IH [OF _ _ b]
      by (simp add: add_child_bind, intro res_ok_bind [OF add_child_ok [OF Cons.prems(1,2) prems]])
         (auto simp: bare_def)
    done
qed

definition target :: "parser \<Rightarrow> addr \<Rightarrow> parser \<Rightarrow> bool" where
  "target ps0 n ps' \<longleftrightarrow> ps_p ps' = ps_p ps0 \<and> is_table ps' n"

lemma add_table_ok:
  assumes i: "intact b ps" and t: "is_table ps t"
    and new: "entry_for (the_table (ps_doc ps) t) (v_bytes part) = None"
      "slot_ok (the_table (ps_doc ps) t) (key_hash (v_bytes part)) slot"
    and b: "b + 1 < 2 ^ 32 - 1"
  shows "res_ok (Suc b) ps (add_child ps t part (key_hash (v_bytes part)) slot fl) (target ps)"
  by (rule res_ok_weaken [OF add_child_ok [OF i t new]]) (use b in \<open>simp_all add: target_def bare_def\<close>)

text \<open>An implicit table becomes an explicit one: flags of tables are free.\<close>

lemma set_table_flags_ok:
  assumes i: "intact b ps" and t: "is_table ps t"
  shows "res_ok b ps (Ok t (set_doc (set_flags (ps_doc ps) t fl) ps)) (target ps)"
proof -
  let ?n = "(nodes ps ! t)\<lparr>n_flags := fl\<rparr>"
  have ok: "nodes_ok m ((nodes ps)[t := ?n])" if "nodes_ok m (nodes ps)" for m
    using t nodes_okD [OF that, of t] that
    by (intro nodes_ok_update [OF that]) (simp_all add: is_table_def node_ok_def aot_ok_def)
  have "nodes_ext (nodes ps) ((nodes ps)[t := ?n])"
    using t by (intro nodes_ext_update) (simp_all add: is_table_def)
  then have "stays ps (set_doc (set_flags (ps_doc ps) t fl) ps)"
    by (intro stays_cong) (simp_all add: doc_frame_def set_flags_nodes)
  then show ?thesis
    using i t ok by (auto simp: intact_def set_flags_nodes target_def is_table_def nth_list_update)
qed

lemma resolve_table_ok:
  assumes i: "intact b ps" and t: "is_table ps t" and b: "b + 1 < 2 ^ 32 - 1"
    and some: "\<And>e. eo = Some e \<Longrightarrow> e_value e < length (nodes ps)"
    and none: "eo = None \<Longrightarrow> entry_for (the_table (ps_doc ps) t) (v_bytes lst) = None"
      "eo = None \<Longrightarrow> slot_ok (the_table (ps_doc ps) t) (key_hash (v_bytes lst)) slot"
  shows "res_ok (Suc b) ps (resolve_table ps t lst (key_hash (v_bytes lst)) eo slot) (target ps)"
proof (cases eo)
  case None
  then show ?thesis
    using add_table_ok [OF i t none [OF None] b, of TBL_EXPLICIT]
    by (simp add: resolve_table_def add_child_def)
next
  case (Some e)
  have i': "intact (Suc b) ps" by (rule intact_mono [OF i]) simp
  show ?thesis
    using set_table_flags_ok [OF i', of "e_value e"] some [OF Some]
    by (simp add: resolve_table_def Some Let_def is_table_def semantic_fail_ok [OF i'])
qed

text \<open>
  A new array of tables is not well formed before its first element is pushed. Until then
  the document is compared with the one in which the array is a plain one.
\<close>

definition plain :: "addr \<Rightarrow> parser \<Rightarrow> parser" where
  "plain x ps = set_doc (set_flags (ps_doc ps) x 0) ps"

fun res_map :: "(parser \<Rightarrow> parser) \<Rightarrow> 'a res \<Rightarrow> 'a res" where
  "res_map g (Ok a ps) = Ok a (g ps)"
| "res_map g (Fail st ps) = Fail st (g ps)"
| "res_map g Undef = Undef"
| "res_map g NoFuel = NoFuel"

lemma res_map_bind:
  assumes "r' = res_map g r" "\<And>a ps. r = Ok a ps \<Longrightarrow> f' a (g ps) = res_map g (f a ps)"
  shows "res_bind r' f' = res_map g (res_bind r f)"
  using assms by (cases r) auto

lemma plain_simps [simp]:
  "ps_p (plain x ps) = ps_p ps" "ps_src (plain x ps) = ps_src ps"
  "ps_max_depth (plain x ps) = ps_max_depth ps" "ps_depth (plain x ps) = ps_depth ps"
  "ps_cur (plain x ps) = ps_cur ps"
  "nodes (plain x ps) = (nodes ps)[x := (nodes ps ! x)\<lparr>n_flags := 0\<rparr>]"
  "d_err (ps_doc (plain x ps)) = d_err (ps_doc ps)" "d_root (ps_doc (plain x ps)) = d_root (ps_doc ps)"
  "d_max_depth (ps_doc (plain x ps)) = d_max_depth (ps_doc ps)"
  "d_arena (ps_doc (plain x ps)) = d_arena (ps_doc ps)"
  by (simp_all add: plain_def set_flags_nodes) (simp add: set_flags_def)

lemma plain_beyond: "length (nodes ps) \<le> x \<Longrightarrow> plain x ps = ps"
  by (simp add: plain_def set_flags_def set_doc_def list_update_beyond)

lemma plain_new_array:
  "new_array ps 0 = res_map (plain (length (nodes ps))) (new_array ps fl)"
  by (cases "arena_fast_alloc (d_arena (ps_doc ps)) SIZEOF_NODE")
     (auto simp: new_array_def dom_new_array_def dom_new_node_def plain_def
        set_flags_def set_doc_def nth_append list_update_beyond)

lemma plain_new_table:
  assumes "x < length (nodes ps)"
  shows "new_table (plain x ps) fl = res_map (plain x) (new_table ps fl)"
  using assms
  by (cases "arena_fast_alloc (d_arena (ps_doc ps)) SIZEOF_NODE")
     (auto simp: new_table_def dom_new_table_def dom_new_node_def plain_def
        set_flags_def set_doc_def nth_append list_update_append)

lemma plain_insert_slot:
  assumes "x \<noteq> t"
  shows "insert_slot (plain x ps) t key h v slot = res_map (plain x) (insert_slot ps t key h v slot)"
  using assms
  by (cases "table_insert_slot (d_arena (ps_doc ps)) (the_table (ps_doc ps) t) key h v slot")
     (auto simp: insert_slot_def dom_table_insert_slot_def plain_def set_flags_def set_payload_def
        set_doc_def list_update_swap split: prod.splits)

lemma nodes_ext_plain:
  assumes "nodes_ext ns (ns'[x := n\<lparr>n_flags := 0\<rparr>])" "n = ns' ! x" "length ns \<le> x"
  shows "nodes_ext ns ns'"
  using assms by (auto simp: nodes_ext_def nth_list_update split: if_splits)

lemma stays_plain:
  assumes "stays ps (plain x ps')" "length (nodes ps) \<le> x"
  shows "stays ps ps'"
  using assms nodes_ext_plain [OF _ refl assms(2)] by (auto simp: stays_def doc_frame_def)

lemma fails_plain: "fails_ok ps st (plain x ps') \<Longrightarrow> fails_ok ps st ps'"
  by (auto simp: fails_ok_def recorded_def cursor_offset_def)

text \<open>The array, its entry and its first element, as one step.\<close>

definition add_aot :: "parser \<Rightarrow> addr \<Rightarrow> view \<Rightarrow> u64 \<Rightarrow> nat option \<Rightarrow> byte \<Rightarrow> (addr \<times> addr) res" where
  "add_aot ps t key h slot fl =
    res_bind (new_array ps fl) (\<lambda>arr ps.
    res_bind (insert_slot ps t key h arr slot) (\<lambda>_ ps.
    res_bind (new_table ps TBL_EXPLICIT) (\<lambda>elem ps. Ok (arr, elem) ps)))"

lemma new_array_eq:
  "new_array ps fl = Ok arr ps' \<Longrightarrow> arr = length (nodes ps) \<and>
     nodes ps' = nodes ps @ [\<lparr>n_kind = K_ARRAY, n_flags = fl, n_as = P_Array empty_array\<rparr>]"
  using dom_new_array_eq by (auto simp: new_array_def split: option.splits prod.splits)

lemma new_table_eq:
  "new_table ps fl = Ok n ps' \<Longrightarrow> n = length (nodes ps) \<and>
     nodes ps' = nodes ps @ [\<lparr>n_kind = K_TABLE, n_flags = fl, n_as = P_Table empty_table\<rparr>]"
  using dom_new_table_eq by (auto simp: new_table_def split: option.splits prod.splits)

lemma insert_slot_length:
  "insert_slot ps t key h v slot = Ok u ps' \<Longrightarrow> length (nodes ps') = length (nodes ps)"
  by (auto simp: insert_slot_def dom_table_insert_slot_def set_payload_nodes
      split: option.splits prod.splits if_splits)

lemma add_aot_plain:
  assumes "is_table ps t"
  shows "add_aot ps t key h slot 0 = res_map (plain (length (nodes ps))) (add_aot ps t key h slot fl)"
  unfolding add_aot_def
  apply (rule res_map_bind [OF plain_new_array])
  subgoal premises new
    apply (rule res_map_bind [OF plain_insert_slot])
    subgoal using assms by (simp add: is_table_def)
    subgoal premises ins
      using new_array_eq [OF new] insert_slot_length [OF ins]
      by (intro res_map_bind [OF plain_new_table]) simp_all
    done
  done

lemma add_aot_eq:
  assumes "add_aot ps t key h slot fl = Ok r ps'" "is_table ps t"
  shows "fst r = length (nodes ps)" "fst r < length (nodes ps')"
    "nodes ps' ! fst r = \<lparr>n_kind = K_ARRAY, n_flags = fl, n_as = P_Array empty_array\<rparr>"
    "is_table ps' (snd r)"
proof -
  obtain arr ps1 ps2 u elem where new: "new_array ps fl = Ok arr ps1"
    and ins: "insert_slot ps1 t key h arr slot = Ok u ps2"
    and tbl: "new_table ps2 TBL_EXPLICIT = Ok elem ps'" and r: "r = (arr, elem)"
  proof (cases "new_array ps fl")
    case new: (Ok arr ps1)
    then show ?thesis
    proof (cases "insert_slot ps1 t key h arr slot")
      case ins: (Ok u ps2)
      show ?thesis
        using assms(1) that [OF new ins]
        by (cases "new_table ps2 TBL_EXPLICIT") (simp_all add: add_aot_def new ins)
    qed (use assms(1) new in \<open>simp_all add: add_aot_def\<close>)
  qed (use assms(1) in \<open>simp_all add: add_aot_def\<close>)
  note eqs = new_array_eq [OF new] insert_slot_length [OF ins] new_table_eq [OF tbl]
  have ne: "arr \<noteq> t" using eqs(1) assms(2) by (simp add: is_table_def)
  show "fst r = length (nodes ps)" "fst r < length (nodes ps')" "is_table ps' (snd r)"
    using eqs by (simp_all add: r is_table_def nth_append)
  show "nodes ps' ! fst r = \<lparr>n_kind = K_ARRAY, n_flags = fl, n_as = P_Array empty_array\<rparr>"
    using eqs insert_slot_other [OF ins ne] by (simp add: r nth_append)
qed

text \<open>\<open>res_ok_bind\<close> with the first step's result itself.\<close>

lemma res_ok_bind_eq:
  assumes r: "res_ok b ps r Q"
    and f: "\<And>a ps'. r = Ok a ps' \<Longrightarrow> intact b ps' \<Longrightarrow> stays ps ps' \<Longrightarrow> Q a ps' \<Longrightarrow> res_ok b' ps' (f a ps') (R' ps')"
    and R: "\<And>a ps' x ps''. stays ps ps' \<Longrightarrow> Q a ps' \<Longrightarrow> stays ps' ps'' \<Longrightarrow> R' ps' x ps'' \<Longrightarrow> R x ps''"
  shows "res_ok b' ps (res_bind r f) R"
proof (cases r)
  case (Ok a ps')
  have "res_ok b ps r (\<lambda>a1 ps1. Q a1 ps1 \<and> a1 = a \<and> ps1 = ps')" using r Ok by simp
  then show ?thesis by (rule res_ok_bind [where R' = R']) (use f R Ok in auto)
qed (use r in auto)

lemma res_bind_assoc: "res_bind (res_bind r f) g = res_bind r (\<lambda>a ps. res_bind (f a ps) g)"
  by (cases r) simp_all

lemma fail_bind: "res_bind (semantic_fail ps m) f = semantic_fail ps m"
  by (simp add: semantic_fail_def fail_at_def Let_def)

lemma add_aot_ok:
  assumes i: "intact b ps" and t: "is_table ps t" and b: "b + 1 < 2 ^ 32 - 1"
    and new: "entry_for (the_table (ps_doc ps) t) (v_bytes key) = None"
      "slot_ok (the_table (ps_doc ps) t) (key_hash (v_bytes key)) slot"
  shows "res_ok (Suc b) ps (add_aot ps t key (key_hash (v_bytes key)) slot 0)
    (\<lambda>r ps'. ps_p ps' = ps_p ps)"
  unfolding add_aot_def
  apply (rule res_ok_bind_eq [OF new_array_ok [OF i, of 0], where R' = "\<lambda>ps1 _ ps'. ps_p ps' = ps_p ps1"])
  subgoal by simp
  subgoal premises prems for arr ps1
    apply (rule res_ok_bind [OF insert_slot_ok [OF prems(2) is_table_stays [OF prems(3) t]],
        where R' = "\<lambda>ps1 _ ps'. ps_p ps' = ps_p ps1"])
    subgoal using prems(4) by (simp add: is_array_def)
    subgoal using new_array_eq [OF prems(1)] t new(1) by (simp add: is_table_def nth_append)
    subgoal using new_array_eq [OF prems(1)] t new(2) by (simp add: is_table_def nth_append)
    subgoal using b by simp
    subgoal premises ins
      by (rule res_ok_bind [OF new_table_ok [OF ins(1)], where R' = "\<lambda>ps1 _ ps'. ps' = ps1"])
         (simp_all add: stays_refl)
    subgoal by simp
    done
  subgoal by simp
  done

lemma first_push_ok:
  assumes i: "intact b (plain x ps)" and x: "x < length (nodes ps)"
    and arr: "nodes ps ! x = \<lparr>n_kind = K_ARRAY, n_flags = fl, n_as = P_Array empty_array\<rparr>"
    and v: "is_table ps v"
  shows "res_ok b ps (array_push ps x v) (\<lambda>_ ps'. ps_p ps' = ps_p ps)"
  using dom_array_push_cases [of "ps_doc ps" x v]
proof (elim disjE exE conjE)
  assume "dom_array_push (ps_doc ps) x v = (ERR_ALLOC, ps_doc ps)"
  then show ?thesis using i by (simp add: array_push_def fails_ok_def intact_def)
next
  fix a ar'
  assume push: "dom_array_push (ps_doc ps) x v = (ST_OK, set_payload ((ps_doc ps)\<lparr>d_arena := a\<rparr>) x (P_Array ar'))"
    and items: "ar_items ar' = ar_items (the_array (ps_doc ps) x) @ [v]"
  let ?doc = "set_payload ((ps_doc ps)\<lparr>d_arena := a\<rparr>) x (P_Array ar')"
  have items': "ar_items ar' = [v]" using items arr by (simp add: empty_array_def)
  have ne: "v \<noteq> x" using v arr by (auto simp: is_table_def)
  have "nodes_ok m ((nodes ps)[x := (nodes ps ! x)\<lparr>n_as := P_Array ar'\<rparr>])"
    if ok: "nodes_ok m (nodes (plain x ps))" for m
  proof -
    have "nodes_ok m ((nodes (plain x ps))[x := (nodes ps ! x)\<lparr>n_as := P_Array ar'\<rparr>])"
      using x v arr ne items'
      by (intro nodes_ok_update [OF ok])
         (simp_all add: is_table_def empty_table_entries table_wf_empty aot_ok_def)
    then show ?thesis by simp
  qed
  then have "intact b (set_doc ?doc ps)" using i by (simp add: intact_def set_payload_nodes)
  moreover have "doc_frame (ps_doc ps) ?doc"
    using set_payload_frame [of "(ps_doc ps)\<lparr>d_arena := a\<rparr>" x "P_Array ar'"]
    by (simp add: doc_frame_def)
  ultimately show ?thesis using push by (simp add: array_push_def stays_cong)
qed

lemma new_aot_ok:
  assumes i: "intact b ps" and t: "is_table ps t" and b: "b + 1 < 2 ^ 32 - 1"
    and new: "entry_for (the_table (ps_doc ps) t) (v_bytes key) = None"
      "slot_ok (the_table (ps_doc ps) t) (key_hash (v_bytes key)) slot"
  shows "res_ok (Suc b) ps
    (res_bind (add_aot ps t key (key_hash (v_bytes key)) slot fl) (\<lambda>r ps.
       res_bind (array_push ps (fst r) (snd r)) (\<lambda>_ ps. Ok (snd r) ps))) (target ps)"
proof -
  let ?x = "length (nodes ps)" and ?r = "add_aot ps t key (key_hash (v_bytes key)) slot fl"
  have pl: "res_ok (Suc b) ps (res_map (plain ?x) ?r) (\<lambda>r ps'. ps_p ps' = ps_p ps)"
    using add_aot_ok [OF i t b new] add_aot_plain [OF t, of key "key_hash (v_bytes key)" slot fl] by simp
  show ?thesis
  proof (cases ?r)
    case (Ok r ps1)
    note eqs = add_aot_eq [OF Ok t]
    have i1: "intact (Suc b) (plain ?x ps1)" and st: "stays ps ps1" and p: "ps_p ps1 = ps_p ps"
      using pl stays_plain [of ps ?x ps1] by (simp_all add: Ok)
    have "res_ok (Suc b) ps1 (array_push ps1 (fst r) (snd r)) (\<lambda>_ ps'. ps_p ps' = ps_p ps1)"
      using i1 eqs by (intro first_push_ok) simp_all
    then have "res_ok (Suc b) ps1 (res_bind (array_push ps1 (fst r) (snd r)) (\<lambda>_ ps. Ok (snd r) ps)) (target ps)"
      by (rule res_ok_bind [where R' = "\<lambda>ps1 a ps'. ps' = ps1 \<and> a = snd r"])
         (use p eqs(4) is_table_stays in \<open>auto simp: stays_refl target_def\<close>)
    then show ?thesis using res_ok_from [OF _ st] by (simp add: Ok)
  qed (use pl fails_plain in auto)
qed

lemma resolve_aot_ok:
  assumes i: "intact b ps" and t: "is_table ps t" and b: "b + 1 < 2 ^ 32 - 1"
    and some: "\<And>e. eo = Some e \<Longrightarrow> e_value e < length (nodes ps)"
    and none: "eo = None \<Longrightarrow> entry_for (the_table (ps_doc ps) t) (v_bytes lst) = None"
      "eo = None \<Longrightarrow> slot_ok (the_table (ps_doc ps) t) (key_hash (v_bytes lst)) slot"
  shows "res_ok (Suc b) ps (resolve_aot ps t lst (key_hash (v_bytes lst)) eo slot) (target ps)"

proof (cases eo)
  case None
  have "resolve_aot ps t lst (key_hash (v_bytes lst)) None slot =
      res_bind (add_aot ps t lst (key_hash (v_bytes lst)) slot ARR_AOT) (\<lambda>r ps.
        res_bind (array_push ps (fst r) (snd r)) (\<lambda>_ ps. Ok (snd r) ps))"
    unfolding resolve_aot_def add_aot_def
    by (simp add: res_bind_assoc)
  then show ?thesis using new_aot_ok [OF i t b none [OF None]] by (simp add: None)
next
  case (Some e)
  let ?arr = "e_value e"
  have i': "intact (Suc b) ps" by (rule intact_mono [OF i]) simp
  show ?thesis
  proof (cases "n_kind (nodes ps ! ?arr) = K_ARRAY \<and> has_flag (nodes ps ! ?arr) ARR_AOT")
    case False
    then have "n_kind (nodes ps ! ?arr) \<noteq> K_ARRAY \<or> \<not> has_flag (nodes ps ! ?arr) ARR_AOT" by simp
    then show ?thesis
      unfolding resolve_aot_def Some Let_def option.case
      by (simp only: if_True fail_bind semantic_fail_ok [OF i'])
  next
    case True
    have arr: "is_array ps ?arr (n_flags (nodes ps ! ?arr))"
      using True some [OF Some] by (simp add: is_array_def)
    have "res_ok (Suc b) ps (res_bind (new_table ps TBL_EXPLICIT) (\<lambda>elem ps.
        res_bind (array_push ps ?arr elem) (\<lambda>_ ps. Ok elem ps))) (target ps)"
      apply (rule res_ok_bind [OF new_table_ok [OF i'], where R' = target])
      subgoal premises prems for elem ps1
        apply (rule res_ok_bind [OF array_push_ok [OF prems(1) is_array_stays [OF prems(2) arr]],
            where R' = "\<lambda>ps1 a ps'. ps' = ps1 \<and> a = elem"])
        subgoal using prems(3) by (simp add: is_table_def)
        subgoal using prems(3) by simp
        subgoal by (simp add: stays_refl)
        subgoal using prems(3) is_table_stays by (auto simp: target_def)
        done
      subgoal by (simp add: target_def)
      done
    then show ?thesis using True by (simp add: resolve_aot_def Some Let_def)
  qed
qed

lemma resolve_header_ok:
  assumes i: "intact b ps" and t: "is_table ps root" and parts: "parts \<noteq> []"
    and b: "b + length parts < 2 ^ 32 - 1"
  shows "res_ok (b + length parts) ps (resolve_header ps root parts aot)
    (\<lambda>n ps'. is_table ps' n)"
proof -
  define b1 where "b1 = b + length (butlast parts)"
  have len: "b + length parts = Suc b1" using parts by (cases parts) (simp_all add: b1_def)
  have b1: "b1 + 1 < 2 ^ 32 - 1" using b len by simp
  have "res_ok b1 ps (header_walk ps root (butlast parts)) (\<lambda>t' ps'. is_table ps' t')"
    unfolding b1_def using b1 by (intro header_walk_ok [OF i t]) (simp add: b1_def)
  then show ?thesis
    unfolding resolve_header_def len Let_def
    apply (rule res_ok_bind [where R' = "\<lambda>_ a ps'. is_table ps' a"])
    subgoal premises prems for t1 ps1
      apply (rule probe_bind_ok [OF prems(1,3)])
      subgoal premises e for e slot
        using resolve_aot_ok [OF prems(1,3) b1, of "Some e" "last parts" slot]
          resolve_table_ok [OF prems(1,3) b1, of "Some e" "last parts" slot] e(2)
          res_ok_weaken [where R = "\<lambda>a ps'. is_table ps' a" and Q = "target ps1"]
        by (simp add: target_def)
      subgoal premises e for slot
        using resolve_aot_ok [OF prems(1,3) b1, of None "last parts" slot]
          resolve_table_ok [OF prems(1,3) b1, of None "last parts" slot] e
          res_ok_weaken [where R = "\<lambda>a ps'. is_table ps' a" and Q = "target ps1"]
        by (simp add: target_def)
      done
    subgoal by simp
    done
qed

text \<open>Reading a key path leaves the nodes alone, so the bytes it takes are room for entries.\<close>

fun keeps :: "parser \<Rightarrow> 'a res \<Rightarrow> bool" where
  "keeps ps (Ok a ps') \<longleftrightarrow> nodes ps' = nodes ps"
| "keeps ps _ \<longleftrightarrow> True"

lemma keeps_bind:
  "keeps ps r \<Longrightarrow> (\<And>a ps'. nodes ps' = nodes ps \<Longrightarrow> keeps ps' (f a ps')) \<Longrightarrow> keeps ps (res_bind r f)"
  by (cases r; simp) (metis keeps.elims(2,3) keeps.simps(1))

lemma keeps_set_p [simp]: "keeps (set_p q ps) r = keeps ps r"
  by (cases r) simp_all

lemma keeps_run_lex: "keeps ps (run_lex ps l)"
  by (cases l) (simp_all add: fail_at_def)

lemma keeps_fail_at [simp]: "keeps ps (fail_at ps' at st msg)"
  by (simp add: fail_at_def)

lemma keeps_oom [simp]: "keeps ps (oom ps')"
  by (simp add: oom_def)

lemma keeps_decode_body: "keeps ps (decode_body ps basic ml)"
  using doc_alloc_ok(5)
  by (auto simp: decode_body_def split: lex.split option.split sink.split)

lemma keeps_key_part: "keeps ps (key_part ps)"
proof -
  have "keeps ps (quoted_key ps)"
    unfolding quoted_key_def Let_def
    using doc_alloc_ok(5) keeps_decode_body [of "set_p (adv 1 (ps_p ps)) ps", simplified]
    by (auto intro!: keeps_bind split: option.split)
  then show ?thesis
    by (auto simp: key_part_def bare_key_def split: list.split)
qed

lemma keeps_parts_reserve: "keeps ps (parts_reserve ps v)"
  by (auto simp: parts_reserve_def Let_def split: option.split)

lemma keeps_key_step: "keeps ps (key_step ps v)"
proof -
  have "keeps ps (key_part (set_p (skip_ws (ps_p ps)) ps))"
    using keeps_key_part [of "set_p (skip_ws (ps_p ps)) ps"] by simp
  then show ?thesis
    unfolding key_step_def Let_def by (auto intro!: keeps_bind keeps_parts_reserve)
qed

lemma keeps_key_path: "keeps ps (parse_key_path ps)"
proof -
  have "keeps ps (key_path_loop n ps v)" for n v
    by (induction n arbitrary: ps v) (auto intro!: keeps_bind keeps_key_step)
  then show ?thesis unfolding parse_key_path_def .
qed

lemma key_path_credit:
  assumes i: "intact b ps"
  shows "res_ok b ps (parse_key_path ps)
    (\<lambda>parts ps'. path_post ps parts ps' \<and> intact (b - length parts) ps' \<and> length parts \<le> b)"
proof (cases "parse_key_path ps")
  case (Ok parts ps')
  have ok: "intact b ps'" "stays ps ps'" "path_post ps parts ps'"
    using parse_key_path_ok [OF i] by (simp_all add: Ok)
  have "nodes ps' = nodes ps" using keeps_key_path [of ps] by (simp add: Ok)
  then have "intact (b - length parts) ps'"
    using ok i by (auto simp: intact_def path_post_def intro: nodes_ok_mono)
  then show ?thesis using ok i by (auto simp: Ok path_post_def intact_def)
qed (use parse_key_path_ok [OF i] in simp_all)

subsection \<open>Header lines\<close>

text \<open>A line may change the table that keys go to; the rest stays.\<close>

fun line_ok :: "nat \<Rightarrow> parser \<Rightarrow> 'a res \<Rightarrow> bool" where
  "line_ok b ps (Ok a ps') \<longleftrightarrow> intact b ps' \<and> is_table ps' (ps_cur ps') \<and>
     length (ps_p ps') < length (ps_p ps) \<and> ps_depth ps' = ps_depth ps \<and>
     stays ps (ps'\<lparr>ps_cur := ps_cur ps\<rparr>)"
| "line_ok b ps (Fail st ps') \<longleftrightarrow> fails_ok ps st ps'"
| "line_ok b ps Undef \<longleftrightarrow> hazard (ps_src ps)"
| "line_ok b ps NoFuel \<longleftrightarrow> False"



lemma line_ok_from_res:
  assumes "res_ok b ps r (\<lambda>a ps'. length (ps_p ps') < length (ps_p ps) \<and> is_table ps' (f a ps'))"
  shows "line_ok b ps (res_bind r (\<lambda>a ps. Ok () (ps\<lparr>ps_cur := f a ps, ps_cur_path := g a ps\<rparr>)))"
    and "line_ok b ps (res_bind r (\<lambda>a ps. Ok () (ps\<lparr>ps_cur := f a ps\<rparr>)))"
  using assms by (cases r; auto simp: intact_def is_table_def stays_def)+

lemma adv_suffix: "suffix q p \<Longrightarrow> suffix (adv n q) p"
  using suffix_adv suffix_order.trans by blast

lemma skip_ws_suffix: "suffix q p \<Longrightarrow> suffix (skip_ws q) p"
  using suffix_skip_ws suffix_order.trans by blast

lemma adv_less: "p \<noteq> [] \<Longrightarrow> 0 < n \<Longrightarrow> length (adv n p) < length p"
  by (simp add: adv_def)

lemma suffix_less: "suffix q (adv n p) \<Longrightarrow> p \<noteq> [] \<Longrightarrow> 0 < n \<Longrightarrow> length q < length p"
  using suffix_length_le adv_less le_less_trans by blast

text \<open>Behind the path: the brackets, and the table the header names.\<close>

definition header_end :: "addr \<Rightarrow> bool \<Rightarrow> view list \<Rightarrow> parser \<Rightarrow> (addr \<times> bytes) res" where
  "header_end root aot parts ps0 =
    (let hend = skip_ws (ps_p ps0); ps = set_p hend ps0
     in if aot \<and> \<not> (starts RBRACK hend \<and> starts RBRACK (tl hend))
        then fail_at ps None ERR_SYNTAX (lit ''expected '' @ [SQUOTE] @ lit '']]'' @ [SQUOTE])
        else if \<not> aot \<and> \<not> starts RBRACK hend
        then fail_at ps None ERR_SYNTAX (lit ''expected '' @ [SQUOTE] @ lit '']'' @ [SQUOTE])
        else
          res_bind (resolve_header (set_p (adv (if aot then 2 else 1) hend) ps) root parts aot)
            (\<lambda>target ps. Ok (target, hend) ps))"

lemma header_end_ok:
  assumes i: "intact b ps" and c: "intact (b - length parts) ps" "length parts \<le> b"
    and parts: "parts \<noteq> []" and t: "is_table ps root" and b: "b < 2 ^ 32 - 1"
  shows "res_ok b ps (header_end root aot parts ps) (\<lambda>r ps'. is_table ps' (fst r))"
proof -
  let ?q = "adv (if aot then 2 else 1) (skip_ws (ps_p ps))"
  have h: "suffix (skip_ws (ps_p ps)) (ps_p ps)" and q: "suffix ?q (ps_p ps)"
    by (simp_all add: suffix_skip_ws adv_suffix)
  have "res_ok (b - length parts + length parts) (set_p ?q ps) (resolve_header (set_p ?q ps) root parts aot)
      (\<lambda>n ps'. is_table ps' n)"
    using c(2) b t by (intro resolve_header_ok [OF intact_set_p [OF c(1) q] _ parts]) (simp_all add: is_table_def)
  then have "res_ok b (set_p ?q ps) (resolve_header (set_p ?q ps) root parts aot) (\<lambda>n ps'. is_table ps' n)"
    using c(2) by simp
  then have "res_ok b (set_p ?q ps) (res_bind (resolve_header (set_p ?q ps) root parts aot)
      (\<lambda>target ps. Ok (target, skip_ws (ps_p ps0)) ps)) (\<lambda>r ps'. is_table ps' (fst r))" for ps0
    by (rule res_ok_bind [where R' = "\<lambda>ps1 r ps'. is_table ps' (fst r)"]) (simp_all add: stays_refl)
  note ok = res_ok_set_p [OF q this]
  have f: "res_ok b ps (fail_at (set_p (skip_ws (ps_p ps)) ps) None ERR_SYNTAX msg)
      (\<lambda>(r :: addr \<times> bytes) ps'. is_table ps' (fst r))" for msg
    by (rule res_ok_set_p [OF h fail_at_ok]) (use intact_suffix [OF intact_set_p [OF i h]] in simp_all)
  show ?thesis
    unfolding header_end_def Let_def using f ok [of ps] by simp
qed

lemma parse_header_ok:
  assumes i: "intact b ps" and t: "is_table ps root" and p: "ps_p ps \<noteq> []"
    and b: "b < 2 ^ 32 - 1"
  shows "line_ok b ps (parse_header root ps)"
proof -
  define aot where "aot = starts LBRACK (adv 1 (ps_p ps))"
  define hstart where "hstart = (if aot then adv 1 (adv 1 (ps_p ps)) else adv 1 (ps_p ps))"
  let ?ps0 = "set_p (skip_ws hstart) ps"
  have h: "suffix (skip_ws hstart) (adv 1 (ps_p ps))"
    by (simp add: hstart_def suffix_skip_ws skip_ws_suffix suffix_adv)
  have suf: "suffix (skip_ws hstart) (ps_p ps)" and less: "length (skip_ws hstart) < length (ps_p ps)"
    using suffix_order.trans [OF h suffix_adv] suffix_less [OF h p] by simp_all
  have i0: "intact b ?ps0" by (rule intact_set_p [OF i suf])
  have t0: "is_table ?ps0 root" using t by (simp add: is_table_def)
  have "res_ok b ?ps0 (res_bind (parse_key_path ?ps0) (header_end root aot)) (\<lambda>r ps'. is_table ps' (fst r))"
    apply (rule res_ok_bind [OF key_path_credit [OF i0], where R' = "\<lambda>_ r ps'. is_table ps' (fst r)"])
    subgoal premises prems for parts ps1
      using prems b by (intro header_end_ok [OF prems(1)]) (simp_all add: path_post_def is_table_stays [OF _ t0])
    subgoal by simp
    done
  then have "res_ok b ps (res_bind (parse_key_path ?ps0) (header_end root aot))
      (\<lambda>r ps'. length (ps_p ps') < length (ps_p ps) \<and> is_table ps' (fst r))"
    using less staysD(3) [of ?ps0]
    by (intro res_ok_from [OF _ stays_set_p [OF suf]]) fastforce+
  then have "line_ok b ps (res_bind (res_bind (parse_key_path ?ps0) (header_end root aot))
      (\<lambda>r ps. Ok () (ps\<lparr>ps_cur := fst r, ps_cur_path := input_span ps hstart (snd r)\<rparr>)))"
    by (rule line_ok_from_res(1))
  moreover have "parse_header root ps = res_bind (res_bind (parse_key_path ?ps0) (header_end root aot))
      (\<lambda>r ps. Ok () (ps\<lparr>ps_cur := fst r, ps_cur_path := input_span ps hstart (snd r)\<rparr>))"
    unfolding parse_header_def header_end_def Let_def aot_def [symmetric] hstart_def [symmetric]
      res_bind_assoc
    by (rule arg_cong [where f = "res_bind _"]) (auto simp: fun_eq_iff fail_at_def res_bind_assoc)
  ultimately show ?thesis by simp
qed

text \<open>The fused hash is the hash of the bare key.\<close>

lemma fnv_run_eq:
  "fnv_run h p = (foldl (\<lambda>h c. (h XOR ucast c) * 1099511628211) h (takeWhile is_barekey p),
                  dropWhile is_barekey p)"
  by (induction h p rule: fnv_run.induct) simp_all

definition hashed :: "view \<times> u64 \<Rightarrow> bool" where
  "hashed part \<longleftrightarrow> snd part = key_hash (v_bytes (fst part))"

lemma take_length_minus_dropWhile: "take (length p - length (dropWhile P p)) p = takeWhile P p"
  by (metis add_diff_cancel_right' append_eq_conv_conj length_append takeWhile_dropWhile_id)

lemma hashed_part: "fnv_run 1469598103934665603 q = (h, r) \<Longrightarrow> hashed (input_span ps q r, h)"
  by (auto simp: fnv_run_eq hashed_def input_span_def key_hash_def take_length_minus_dropWhile)

lemma fast_path_spec:
  "fast_path k ps q = Some (parts, r) \<Longrightarrow>
     parts \<noteq> [] \<and> list_all hashed parts \<and> suffix r q \<and> length r + length parts \<le> length q"
proof (induction k arbitrary: q parts)
  case (Suc k)
  obtain h r1 where run: "fnv_run 1469598103934665603 q = (h, r1)" by (cases "fnv_run 1469598103934665603 q")
  have q: "q \<noteq> []" "is_barekey (hd q)" using Suc.prems by (simp_all split: if_splits)
  have r1: "suffix r1 q" "length r1 < length q"
    using run q length_dropWhile_le [of is_barekey "tl q"] suffix_dropWhile [of is_barekey q]
    by (cases q; simp add: fnv_run_eq)+
  note part = hashed_part [OF run, of ps]
  show ?case
  proof (cases "starts DOT r1")
    case False
    then show ?thesis using Suc.prems q run part r1 by auto
  next
    case True
    then obtain parts' where rest: "fast_path k ps (tl r1) = Some (parts', r)"
      and parts: "parts = (input_span ps q r1, h) # parts'"
      using Suc.prems q run by auto
    have tl: "suffix (tl r1) r1" "length (tl r1) \<le> length r1" by (simp_all add: suffix_tl)
    show ?thesis
      using Suc.IH [OF rest] part r1 suffix_order.trans [OF suffix_order.trans [OF _ tl(1)] r1(1)]
      by (auto simp: parts)
  qed
qed simp

text \<open>
  The walk either leaves the document as it was or ends in a table of its own, in which the
  last part cannot exist: this is why the fast path may still decline after it.
\<close>

definition walked :: "parser \<Rightarrow> addr \<Rightarrow> addr \<Rightarrow> parser \<Rightarrow> bool" where
  "walked ps t t' ps' \<longleftrightarrow> ps_p ps' = ps_p ps \<and> is_table ps' t' \<and>
     (bare ps t \<longrightarrow> bare ps' t') \<and> (ps' = ps \<or> bare ps' t')"

lemma fast_walk_ok:
  assumes "intact b ps" "is_table ps t" "b - length (ps_p ps) + length parts < 2 ^ 32 - 1"
    "list_all hashed parts" "suffix q1 (ps_p ps)"
  shows "res_ok (b + length parts) ps (fast_walk q1 ps t parts) (walked ps t)"
  using assms
proof (induction parts arbitrary: b ps t)
  case Nil
  then show ?case by (simp add: stays_refl walked_def)
next
  case (Cons ph rest)
  obtain part h where ph: "ph = (part, h)" by (cases ph)
  have h: "h = key_hash (v_bytes part)" using Cons.prems(4) by (simp add: ph hashed_def)
  have i: "intact (Suc b) ps" by (rule intact_mono [OF Cons.prems(1)]) simp
  have b: "Suc b - length (ps_p ps) + length rest < 2 ^ 32 - 1"
    using Cons.prems(1,3) by (simp add: Suc_diff_le intact_def)
  note IH = Cons.IH [OF i _ b _ Cons.prems(5)]
  have f: "res_ok (Suc (b + length rest)) ps (semantic_fail (set_p q1 ps) msg) Q"
    for msg and Q :: "addr \<Rightarrow> parser \<Rightarrow> bool"
    by (rule res_ok_set_p [OF Cons.prems(5) semantic_fail_ok [OF intact_set_p [OF i Cons.prems(5)]]])
  show ?case
    unfolding ph h fast_walk.simps
    apply (rule probe_bind_ok [OF Cons.prems(1,2)])
    subgoal premises prems for e slot
    proof -
      have "\<not> bare ps t" using bare_entry_for [of ps t] prems(1) by auto
      then have "res_ok (b + length (ph # rest)) ps (fast_walk q1 ps t' rest) (walked ps t)"
        if "is_table ps t'" for t'
        using res_ok_weaken [OF IH [OF that], of "walked ps t"] Cons.prems(4) by (simp add: walked_def)
      then show ?thesis
        using prems(2) last_of_aot [OF i prems(2)] f by (auto simp: Let_def is_table_def)
    qed
    subgoal premises prems for slot
    proof -
      have b1: "b - length (ps_p ps) + 1 < 2 ^ 32 - 1" using Cons.prems(3) by simp
      have "res_ok (b + length (ph # rest)) ps (res_bind
          (add_child ps t part (key_hash (v_bytes part)) slot TBL_IMPLICIT)
          (\<lambda>child ps. fast_walk q1 ps child rest)) (walked ps t)"
      proof (rule res_ok_bind [OF add_child_ok [OF Cons.prems(1,2) prems b1], where
            R' = "\<lambda>ps1 t' ps'. ps_p ps' = ps_p ps1 \<and> bare ps' t'"])
        fix n ps' assume i1: "intact (Suc b) ps'" and n: "ps_p ps' = ps_p ps \<and> bare ps' n"
        have "is_table ps' n" using n by (simp add: bare_def)
        then have IHn: "res_ok (Suc b + length rest) ps' (fast_walk q1 ps' n rest) (walked ps' n)"
          using n b Cons.prems(4,5) by (intro Cons.IH [OF i1]) simp_all
        show "res_ok (b + length (ph # rest)) ps' (fast_walk q1 ps' n rest)
            (\<lambda>t' ps''. ps_p ps'' = ps_p ps' \<and> bare ps'' t')"
          using res_ok_weaken [OF IHn, of "\<lambda>t' ps''. ps_p ps'' = ps_p ps' \<and> bare ps'' t'"] n
          by (simp add: walked_def)
      qed (auto simp: walked_def bare_def)
      then show ?thesis by (simp add: add_child_bind ph)
    qed
    done
qed

text \<open>What the fast path may leave: nothing done, or the line done.\<close>

fun fast_ok :: "nat \<Rightarrow> parser \<Rightarrow> addr fast \<Rightarrow> bool" where
  "fast_ok b ps (Declined ps') \<longleftrightarrow> ps' = ps"
| "fast_ok b ps (Taken r) \<longleftrightarrow>
     res_ok b ps r (\<lambda>n ps'. length (ps_p ps') < length (ps_p ps) \<and> is_table ps' n)"

lemma fast_commit_ok:
  assumes i: "intact b ps" and t: "is_table ps root" and b: "b < 2 ^ 32 - 1"
    and parts: "parts \<noteq> []" "list_all hashed parts"
    and q1: "suffix q1 (ps_p ps)" "length q1 + length parts < length (ps_p ps)"
  shows "fast_ok b ps (fast_commit root ps parts q1)"
proof -
  define b1 where "b1 = b + length (butlast parts)"
  obtain lst hlast where lst: "last parts = (lst, hlast)" by (cases "last parts")
  have h: "hlast = key_hash (v_bytes lst)" and hs: "list_all hashed (butlast parts)"
    using parts last_in_set [OF parts(1)] lst by (auto simp: list_all_iff hashed_def in_set_butlastD)
  have le: "length (ps_p ps) \<le> b" using i by (simp add: intact_def)
  have len: "Suc (length (butlast parts)) = length parts" using parts(1) by (cases parts) simp_all
  have b1: "b1 - length (ps_p ps) + 1 < 2 ^ 32 - 1"
    using b q1(2) le len unfolding b1_def by linarith
  have walk: "res_ok b1 ps (fast_walk q1 ps root (butlast parts)) (walked ps root)"
    unfolding b1_def using b1 le by (intro fast_walk_ok [OF i t _ hs q1(1)]) (simp add: b1_def)
  show ?thesis
  proof (cases "fast_walk q1 ps root (butlast parts)")
    case (Ok t1 ps1)
    have i1: "intact b1 ps1" and st: "stays ps ps1" and w: "walked ps root t1 ps1"
      using walk by (simp_all add: Ok)
    have t1: "is_table ps1 t1" using w by (simp add: walked_def)
    obtain slot where pr: "probe ps1 t1 lst hlast =
        Ok (entry_for (the_table (ps_doc ps1) t1) (v_bytes lst), slot) ps1"
      and slot: "slot_ok (the_table (ps_doc ps1) t1) (key_hash (v_bytes lst)) slot"
      using probe_ok [OF i1 t1, of lst] by (auto simp: h)
    show ?thesis
    proof (cases "entry_for (the_table (ps_doc ps1) t1) (v_bytes lst)")
      case (Some e)
      then have "ps1 = ps" using w bare_entry_for [of ps1 t1] by (auto simp: walked_def)
      then show ?thesis using Some pr by (simp add: fast_commit_def Ok lst)
    next
      case None
      have p1: "ps_p ps1 = ps_p ps" using w by (simp add: walked_def)
      have "res_ok (Suc b1) ps1 (add_child ps1 t1 lst hlast slot TBL_EXPLICIT) (target ps1)"
        unfolding h by (rule res_ok_weaken [OF add_child_ok [OF i1 t1 None slot]])
          (use b1 p1 in \<open>simp_all add: target_def bare_def\<close>)
      then have "res_ok b ps1 (res_bind (add_child ps1 t1 lst hlast slot TBL_EXPLICIT)
          (\<lambda>tbl ps. Ok tbl (set_p q1 ps))) (\<lambda>n ps'. ps_p ps' = q1 \<and> is_table ps' n)"
      proof (rule res_ok_bind [where R' = "\<lambda>_ n ps'. ps_p ps' = q1 \<and> is_table ps' n"])
        fix n ps2 assume i2: "intact (Suc b1) ps2" and "stays ps1 ps2" and n: "target ps1 n ps2"
        then have p2: "ps_p ps2 = ps_p ps" by (simp add: target_def p1)
        have "intact (Suc b1 - length parts) (set_p q1 ps2)"
          using i2 q1 p2 by (intro intact_credit) simp_all
        then have "intact b (set_p q1 ps2)" by (rule intact_mono) (use len in \<open>simp add: b1_def\<close>)
        then show "res_ok b ps2 (Ok n (set_p q1 ps2)) (\<lambda>n ps'. ps_p ps' = q1 \<and> is_table ps' n)"
          using n q1(1) p2 stays_set_p [of q1 ps2] by (simp add: target_def is_table_def)
      qed simp
      then have "res_ok b ps (res_bind (add_child ps1 t1 lst hlast slot TBL_EXPLICIT)
          (\<lambda>tbl ps. Ok tbl (set_p q1 ps))) (\<lambda>n ps'. length (ps_p ps') < length (ps_p ps) \<and> is_table ps' n)"
        by (rule res_ok_from [OF _ st]) (use q1(2) in simp)
      then show ?thesis using None pr by (simp add: fast_commit_def Ok lst add_child_bind)
    qed
  qed (use walk in \<open>simp_all add: fast_commit_def\<close>)
qed

lemma try_header_fast_ok:
  assumes i: "intact b ps" and t: "is_table ps root" and b: "b < 2 ^ 32 - 1"
  shows "\<exists>v. fast_ok b (ps\<lparr>ps_cur_path := v\<rparr>) (try_header_fast root ps)"
proof -
  have none: "\<exists>v. ps = ps\<lparr>ps_cur_path := v\<rparr>" by (rule exI [of _ "ps_cur_path ps"]) simp
  show ?thesis
  proof (cases "fast_path 8 ps (tl (ps_p ps))")
    case None
    then show ?thesis using none by (auto simp: try_header_fast_def Let_def)
  next
    case (Some pr)
    obtain parts r where pr: "pr = (parts, r)" by (cases pr)
    note spec = fast_path_spec [OF Some [unfolded pr]]
    let ?ps = "ps\<lparr>ps_cur_path := input_span ps (tl (ps_p ps)) r\<rparr>"
    have "fast_ok b ?ps (fast_commit root ?ps parts (tl r))"
      if "starts LBRACK (ps_p ps)" "starts RBRACK r"
    proof (rule fast_commit_ok [OF _ _ b])
      show "intact b ?ps" "is_table ?ps root" using i t by (simp_all add: intact_def is_table_def)
      show "suffix (tl r) (ps_p ?ps)"
        using spec suffix_order.trans [OF suffix_tl [of r] suffix_order.trans [OF _ suffix_tl]] by auto
      show "length (tl r) + length parts < length (ps_p ?ps)"
        using spec that by (cases r; cases "ps_p ps"; simp add: starts_def)
    qed (use spec in simp_all)
    then show ?thesis using Some none by (auto simp: try_header_fast_def pr Let_def)
  qed
qed

subsection \<open>Values\<close>

definition vp_ok :: "nat \<Rightarrow> value_parser \<Rightarrow> bool" where
  "vp_ok k pv \<longleftrightarrow> (\<forall>fast b ps. intact b ps \<longrightarrow> length (ps_p ps) < k \<longrightarrow> b < 2 ^ 32 - 1 \<longrightarrow>
     res_ok b ps (pv fast ps) (val_post ps))"

lemma vp_okD:
  "vp_ok k pv \<Longrightarrow> intact b ps \<Longrightarrow> length (ps_p ps) < k \<Longrightarrow> b < 2 ^ 32 - 1 \<Longrightarrow>
   res_ok b ps (pv fast ps) (val_post ps)"
  by (simp add: vp_ok_def)

lemma vp_ok_mono: "vp_ok k pv \<Longrightarrow> k' \<le> k \<Longrightarrow> vp_ok k' pv"
  unfolding vp_ok_def by (intro allI impI) (meson less_le_trans)

definition shorter :: "parser \<Rightarrow> parser \<Rightarrow> bool" where
  "shorter ps ps' \<longleftrightarrow> length (ps_p ps') < length (ps_p ps)"

lemma duplicate_fail_ok: "intact b' ps \<Longrightarrow> res_ok b ps (duplicate_fail ps key) Q"
  by (simp add: duplicate_fail_def semantic_fail_ok)

text \<open>The value of the fused key and its insertion.\<close>

lemma fast_value_ok:
  assumes pv: "vp_ok k pv" and i: "intact b ps" and t: "is_table ps tbl" and b: "b < 2 ^ 32 - 1"
    and q: "suffix q (ps_p ps)" "length q < length (ps_p ps)" "length q < k"
    and h: "h = key_hash (v_bytes key)"
  shows "res_ok b ps (res_bind (pv True (set_p q ps)) (\<lambda>value ps.
      res_bind (probe ps tbl key h) (\<lambda>(eo, slot) ps.
        case eo of
          Some e \<Rightarrow> duplicate_fail ps key
        | None \<Rightarrow> insert_slot ps tbl key h value slot))) (\<lambda>_. shorter ps)"
proof -
  have i1: "intact (b - 1) (set_p q ps)" by (rule intact_credit [OF i _ q(1)]) (use q(2) in simp)
  have b1: "Suc (b - 1) = b" using i q(2) by (simp add: intact_def)
  have t1: "is_table (set_p q ps) tbl" using t by (simp add: is_table_def)
  have "res_ok (b - 1) (set_p q ps) (pv True (set_p q ps)) (val_post (set_p q ps))"
    using b q(3) by (intro vp_okD [OF pv i1]) simp_all
  then have "res_ok b (set_p q ps) (res_bind (pv True (set_p q ps)) (\<lambda>value ps.
      res_bind (probe ps tbl key h) (\<lambda>(eo, slot) ps.
        case eo of
          Some e \<Rightarrow> duplicate_fail ps key
        | None \<Rightarrow> insert_slot ps tbl key h value slot))) (\<lambda>_. shorter (set_p q ps))"
    apply (rule res_ok_bind [where R' = "\<lambda>ps1 _ ps'. ps_p ps' = ps_p ps1"])
    subgoal premises prems for v ps1
      unfolding h
      apply (rule probe_bind_ok [OF prems(1) is_table_stays [OF prems(2) t1]])
      subgoal by (simp add: duplicate_fail_ok [OF prems(1)])
      subgoal premises new
        using insert_slot_ok [OF prems(1) is_table_stays [OF prems(2) t1] _ new, of v, unfolded b1] prems(3) b
        by (simp add: val_post_def fresh_def)
      done
    subgoal by (simp add: val_post_def shorter_def)
    done
  then show ?thesis
    by (rule res_ok_from [OF _ stays_set_p [OF q(1)]]) (use q(2) in \<open>simp add: shorter_def\<close>)
qed

fun fast_keyval_ok :: "nat \<Rightarrow> parser \<Rightarrow> unit fast \<Rightarrow> bool" where
  "fast_keyval_ok b ps (Declined ps') \<longleftrightarrow> ps' = ps"
| "fast_keyval_ok b ps (Taken r) \<longleftrightarrow> res_ok b ps r (\<lambda>_. shorter ps)"

lemma try_keyval_fast_ok:
  assumes pv: "vp_ok (length (ps_p ps)) pv" and i: "intact b ps" and t: "is_table ps tbl"
    and b: "b < 2 ^ 32 - 1"
  shows "fast_keyval_ok b ps (try_keyval_fast pv ps tbl)"
proof -
  obtain h kend where run: "fnv_run 1469598103934665603 (ps_p ps) = (h, kend)"
    by (cases "fnv_run 1469598103934665603 (ps_p ps)")
  let ?p = "dropWhile is_blank kend" let ?q = "dropWhile is_blank (tl ?p)"
  have kend: "suffix kend (ps_p ps)" using run suffix_dropWhile by (auto simp: fnv_run_eq)
  have q: "suffix ?q (ps_p ps)"
    using suffix_order.trans [OF suffix_order.trans [OF suffix_order.trans [OF
        suffix_dropWhile [of is_blank "tl ?p"] suffix_tl] suffix_dropWhile] kend] .
  have "res_ok b ps (res_bind (pv True (set_p ?q ps)) (\<lambda>value ps'.
      res_bind (probe ps' tbl (input_span ps (ps_p ps) kend) h) (\<lambda>(eo, slot) ps'.
        case eo of
          Some e \<Rightarrow> duplicate_fail ps' (input_span ps (ps_p ps) kend)
        | None \<Rightarrow> insert_slot ps' tbl (input_span ps (ps_p ps) kend) h value slot))) (\<lambda>_. shorter ps)"
    if "starts EQUALS ?p"
  proof -
    have "length ?q < length (ps_p ps)"
      using that suffix_length_le [OF suffix_dropWhile [of is_blank "tl ?p"]]
        suffix_length_le [OF suffix_dropWhile [of is_blank kend]] suffix_length_le [OF kend]
      by (cases ?p) (auto simp: starts_def)
    then show ?thesis
      using hashed_part [OF run, of ps]
      by (intro fast_value_ok [OF pv i t b q]) (simp_all add: hashed_def)
  qed
  then show ?thesis by (simp add: try_keyval_fast_def run Let_def)
qed

lemma general_keyval_ok:
  assumes pv: "vp_ok (length (ps_p ps)) pv" and i: "intact b ps" and t: "is_table ps tbl"
    and b: "b < 2 ^ 32 - 1"
  shows "res_ok b ps (general_keyval pv ps tbl) (\<lambda>_. shorter ps)"
  unfolding general_keyval_def Let_def
  apply (rule res_ok_bind [OF key_path_credit [OF i], where R' = "\<lambda>_ _ _. True"])
  subgoal premises prems for parts ps1
  proof -
    let ?p = "skip_ws (ps_p ps1)" let ?q = "skip_ws (adv 1 ?p)" let ?k = "length parts"
    have p: "suffix ?p (ps_p ps1)" and q: "suffix ?q (ps_p ps1)"
      by (simp_all add: suffix_skip_ws skip_ws_suffix adv_suffix)
    have parts: "parts \<noteq> []" "length (ps_p ps1) + ?k \<le> length (ps_p ps)" "?k \<le> b"
      and c: "intact (b - ?k) ps1" using prems(3) by (simp_all add: path_post_def)
    have i2: "intact (b - ?k) (set_p ?q ps1)" by (rule intact_set_p [OF c q])
    have t2: "is_table (set_p ?q ps1) tbl" using is_table_stays [OF prems(2) t] by (simp add: is_table_def)
    have less: "length ?q < length (ps_p ps)"
      using suffix_length_le [OF q] parts(1,2) by (cases parts) simp_all
    have "res_ok (b - ?k) (set_p ?q ps1) (pv False (set_p ?q ps1)) (val_post (set_p ?q ps1))"
      using b less by (intro vp_okD [OF pv i2]) simp_all
    then have "res_ok b (set_p ?q ps1) (res_bind (pv False (set_p ?q ps1))
        (\<lambda>value ps. insert_dotted ps tbl parts value)) (\<lambda>_ _. True)"
    proof (rule res_ok_bind [where R' = "\<lambda>_ _ _. True"])
      fix v ps2 assume i3: "intact (b - ?k) ps2" and st: "stays (set_p ?q ps1) ps2" and v: "val_post (set_p ?q ps1) v ps2"
      have loc: "located ps2 parts"
        using prems(2,3) staysD(1) [OF st] by (simp add: path_post_def located_def stays_def)
      have "res_ok (b - ?k + ?k) ps2 (insert_dotted ps2 tbl parts v) (\<lambda>_ ps'. True)"
        using b parts(3) v
        by (intro insert_dotted_ok [OF i3 is_table_stays [OF st t2] parts(1) loc]) (simp_all add: val_post_def fresh_def)
      then show "res_ok b ps2 (insert_dotted ps2 tbl parts v) (\<lambda>_ _. True)" using parts(3) by simp
    qed simp
    note ok = res_ok_set_p [OF q this]
    have f: "res_ok b ps1 (fail_at (set_p ?p ps1) None ERR_SYNTAX msg) (\<lambda>(_::unit) _. True)" for msg
      by (rule res_ok_set_p [OF p fail_at_ok]) (use intact_suffix [OF intact_set_p [OF c p]] in simp_all)
    show ?thesis using f ok by simp
  qed
  subgoal premises prems for parts ps1 x ps2
    using prems(2) staysD(3) [OF prems(3)] by (cases parts) (simp_all add: path_post_def shorter_def)
  done

lemma keyval_into_ok:
  assumes pv: "vp_ok (length (ps_p ps)) pv" and i: "intact b ps" and t: "is_table ps tbl"
    and b: "b < 2 ^ 32 - 1"
  shows "res_ok b ps (keyval_into pv ps tbl) (\<lambda>_. shorter ps)"
  using try_keyval_fast_ok [OF pv i t b] general_keyval_ok [OF pv i t b]
  by (cases "try_keyval_fast pv ps tbl") (simp_all add: keyval_into_def)

subsection \<open>Arrays and inline tables\<close>

lemma gap_ok: "intact b ps \<Longrightarrow> res_ok b ps (gap ps) (\<lambda>_ _. True)"
  unfolding gap_def by (intro run_lex_ok skip_array_gap_suffix skip_array_gap_fails) simp_all

lemma take_one_ok:
  assumes i: "intact b ps" and p: "starts c (ps_p ps)"
  shows "res_ok b ps (Ok a (set_p (adv 1 (ps_p ps)) ps)) (\<lambda>_. shorter ps)"
proof -
  have suf: "suffix (adv 1 (ps_p ps)) (ps_p ps)" by (rule suffix_adv)
  show ?thesis
    using intact_set_p [OF i suf] stays_set_p [OF suf] p
    by (cases "ps_p ps") (simp_all add: shorter_def adv_def starts_def)
qed

lemma separator_ok:
  assumes i: "intact b ps"
  shows "res_ok b ps (separator close ps) (\<lambda>_. shorter ps)"
  unfolding separator_def
  apply (rule res_ok_bind [OF gap_ok [OF i], where R' = "\<lambda>ps1 _. shorter ps1"])
  subgoal premises prems for u ps1
    using take_one_ok [OF prems(1)] by (simp add: fail_at_ok [OF intact_suffix [OF prems(1)]])
  subgoal premises prems for u ps1 x ps2
    using prems(4) staysD(3) [OF prems(1)] by (simp add: shorter_def)
  done

lemma array_store_ok:
  assumes i: "intact b ps" and arr: "is_array ps n 0" and v: "v < length (nodes ps)"
  shows "res_ok b ps (array_store ps n v) (\<lambda>_ ps'. ps_p ps' = ps_p ps)"
proof -
  let ?ar = "(the_array (ps_doc ps) n)\<lparr>ar_items := ar_items (the_array (ps_doc ps) n) @ [v]\<rparr>"
  let ?doc = "set_payload (ps_doc ps) n (P_Array ?ar)"
  have "nodes_ok m ((nodes ps)[n := (nodes ps ! n)\<lparr>n_as := P_Array ?ar\<rparr>])"
    if "nodes_ok m (nodes ps)" for m
    using arr by (intro push_nodes_ok [OF that _ _ v]) (auto simp: is_array_def has_flag_def)
  then have "intact b (set_doc ?doc ps)" using i by (simp add: intact_def set_payload_nodes)
  then show ?thesis
    using array_push_ok [OF i arr v] set_payload_frame by (simp add: array_store_def Let_def stays_cong)
qed

lemma array_round_ok:
  assumes pv: "vp_ok k pv" "length (ps_p ps) < k" and i: "intact b ps" and arr: "is_array ps n 0"
    and b: "b < 2 ^ 32 - 1"
  shows "res_ok b ps (array_round pv ps n) (\<lambda>_. shorter ps)"
  unfolding array_round_def
  apply (rule res_ok_bind [OF gap_ok [OF i], where R' = "\<lambda>ps1 _. shorter ps1"])
  subgoal premises prems for u ps1
  proof -
    have "length (ps_p ps1) < k" using staysD(3) [OF prems(2)] pv(2) by simp
    from vp_okD [OF pv(1) prems(1) this b]
    have "res_ok b ps1 (res_bind (pv True ps1) (\<lambda>v ps.
        res_bind (array_store ps n v) (\<lambda>_ ps. separator RBRACK ps))) (\<lambda>_. shorter ps1)"
      apply (rule res_ok_bind [where R' = "\<lambda>ps1 _. shorter ps1"])
      subgoal premises v for x ps2
        apply (rule res_ok_bind [OF array_store_ok [OF v(1) is_array_stays [OF stays_trans [OF prems(2) v(2)] arr]],
            where R' = "\<lambda>ps1 _. shorter ps1"])
        subgoal using v(3) by (simp add: val_post_def fresh_def)
        subgoal premises s by (rule separator_ok [OF s(1)])
        subgoal by (simp add: shorter_def)
        done
      subgoal by (simp add: shorter_def val_post_def)
      done
    then show ?thesis
      using take_one_ok [OF prems(1)] by (simp add: fail_at_ok [OF intact_suffix [OF prems(1)]])
  qed
  subgoal premises prems for u ps1 x ps2
    using prems(4) staysD(3) [OF prems(1)] by (simp add: shorter_def)
  done

lemma inline_round_ok:
  assumes pv: "vp_ok k pv" "length (ps_p ps) < k" and i: "intact b ps" and tbl: "is_table ps n"
    and b: "b < 2 ^ 32 - 1"
  shows "res_ok b ps (inline_round pv ps n) (\<lambda>_. shorter ps)"
  unfolding inline_round_def
  apply (rule res_ok_bind [OF gap_ok [OF i], where R' = "\<lambda>ps1 _. shorter ps1"])
  subgoal premises prems for u ps1
  proof -
    have "vp_ok (length (ps_p ps1)) pv"
      using staysD(3) [OF prems(2)] pv by (intro vp_ok_mono [OF pv(1)]) simp
    from keyval_into_ok [OF this prems(1) is_table_stays [OF prems(2) tbl] b]
    have "res_ok b ps1 (res_bind (keyval_into pv ps1 n) (\<lambda>_ ps. separator RBRACE ps)) (\<lambda>_. shorter ps1)"
      by (rule res_ok_bind [where R' = "\<lambda>ps1 _. shorter ps1"]) (auto simp: shorter_def intro: separator_ok)
    then show ?thesis
      using take_one_ok [OF prems(1)] by (simp add: fail_at_ok [OF intact_suffix [OF prems(1)]])
  qed
  subgoal premises prems for u ps1 x ps2
    using prems(4) staysD(3) [OF prems(1)] by (simp add: shorter_def)
  done

lemma rounds_ok:
  assumes step: "\<And>ps. intact b ps \<Longrightarrow> stays ps0 ps \<Longrightarrow> res_ok b ps (step ps) (\<lambda>_. shorter ps)"
    and "intact b ps" "stays ps0 ps" "length (ps_p ps) < n"
  shows "res_ok b ps (rounds n step ps) (\<lambda>_ _. True)"
  using assms(2-)
proof (induction n arbitrary: ps)
  case (Suc n)
  show ?case
    unfolding rounds.simps
    apply (rule res_ok_bind [OF step [OF Suc.prems(1,2)], where R' = "\<lambda>_ _ _. True"])
    subgoal premises prems for again ps1
      using Suc.IH [OF prems(1) stays_trans [OF Suc.prems(2) prems(2)]] prems(1,3) Suc.prems(3)
      by (simp add: shorter_def stays_refl)
    subgoal by simp
    done
qed simp

lemma nested_ok:
  assumes i: "intact b ps" and p: "ps_p ps \<noteq> []"
    and step: "\<And>ps1. intact b ps1 \<Longrightarrow> nodes_ext (nodes ps) (nodes ps1) \<Longrightarrow>
      length (ps_p ps1) < length (ps_p ps) \<Longrightarrow> res_ok b ps1 (step ps1) (\<lambda>_. shorter ps1)"
  shows "res_ok b ps (nested step node ps) (\<lambda>n ps'. n = node \<and> shorter ps ps')"
proof -
  define q where "q = adv 1 (ps_p ps)"
  define n where "n = Suc (length q)"
  let ?ps = "(set_p q ps)\<lparr>ps_depth := ps_depth ps + 1\<rparr>"
  have suf: "suffix q (ps_p ps)" unfolding q_def by (rule suffix_adv)
  have less: "length q < length (ps_p ps)" unfolding q_def by (rule adv_less [OF p]) simp
  have i1: "intact b ?ps" using intact_set_p [OF i suf] by (simp add: intact_def)
  have run: "res_ok b ?ps (rounds n step ?ps) (\<lambda>_ _. True)"
  proof (rule rounds_ok [OF _ i1 stays_refl])
    fix ps1 assume "intact b ps1" and st: "stays ?ps ps1"
    then show "res_ok b ps1 (step ps1) (\<lambda>_. shorter ps1)"
      using staysD(3,5) [OF st] less by (intro step) simp_all
  qed (simp add: n_def)
  have "res_ok b ps (res_bind (rounds n step ?ps) (\<lambda>_ ps.
      Ok node (ps\<lparr>ps_depth := ps_depth ps - 1\<rparr>))) (\<lambda>n ps'. n = node \<and> shorter ps ps')"
  proof (cases "rounds n step ?ps")
    case (Ok u ps2)
    have i2: "intact b ps2" and st: "stays ?ps ps2" using run by (simp_all add: Ok)
    have "stays ps (ps2\<lparr>ps_depth := ps_depth ps2 - 1\<rparr>)"
      using st suffix_order.trans [OF _ suf] by (simp add: stays_def)
    then show ?thesis using i2 staysD(3) [OF st] less by (simp add: Ok intact_def shorter_def)
  qed (use run suffix_order.trans in \<open>auto simp: fails_ok_def\<close>)
  moreover have "res_ok b ps (fail_at ?ps None ERR_DEPTH msg) (\<lambda>n ps'. n = node \<and> shorter ps ps')" for msg
    using intact_suffix [OF i1] by (auto simp: fail_at_def fails_ok_def recorded_def cursor_offset_def)
  ultimately show ?thesis
    unfolding nested_def Let_def q_def [symmetric]
    by (simp add: n_def [symmetric] del: rounds.simps)
qed

lemma parse_array_ok:
  assumes pv: "vp_ok (length (ps_p ps)) pv" and i: "intact b ps" and p: "ps_p ps \<noteq> []"
    and b: "b < 2 ^ 32 - 1"
  shows "res_ok b ps (parse_array pv ps) (val_post ps)"
  unfolding parse_array_def
  apply (rule res_ok_bind [OF new_array_ok [OF i], where R' = "\<lambda>ps1 n ps'. (\<exists>a. n = a \<and> is_array ps1 a 0 \<and> fresh ps a ps1) \<and> shorter ps1 ps'"])
  subgoal by simp
  subgoal premises prems for arr ps1
  proof -
    have "res_ok b ps1 (nested (\<lambda>ps. array_round pv ps arr) arr ps1) (\<lambda>n ps'. n = arr \<and> shorter ps1 ps')"
    proof (rule nested_ok [OF prems(1)])
      show "ps_p ps1 \<noteq> []" using prems(3) p by simp
      fix ps2 assume 2: "intact b ps2" "nodes_ext (nodes ps1) (nodes ps2)" "length (ps_p ps2) < length (ps_p ps1)"
      have "is_array ps2 arr 0" using prems(3) 2(2) nodes_ext_less by (auto simp: is_array_def nodes_ext_def)
      then show "res_ok b ps2 (array_round pv ps2 arr) (\<lambda>_. shorter ps2)"
        using 2(3) prems(3) by (intro array_round_ok [OF pv _ 2(1) _ b]) simp_all
    qed
    then show ?thesis by (rule res_ok_weaken) (use prems(3) in auto)
  qed
  subgoal by (auto simp: val_post_def shorter_def intro: fresh_to)
  done

lemma parse_inline_ok:
  assumes pv: "vp_ok (length (ps_p ps)) pv" and i: "intact b ps" and p: "ps_p ps \<noteq> []"
    and b: "b < 2 ^ 32 - 1"
  shows "res_ok b ps (parse_inline pv ps) (val_post ps)"
  unfolding parse_inline_def
  apply (rule res_ok_bind [OF new_table_ok [OF i], where R' = "\<lambda>ps1 n ps'. (\<exists>a. n = a \<and> fresh ps a ps1) \<and> shorter ps1 ps'"])
  subgoal premises prems for tbl ps1
  proof -
    have "res_ok b ps1 (nested (\<lambda>ps. inline_round pv ps tbl) tbl ps1) (\<lambda>n ps'. n = tbl \<and> shorter ps1 ps')"
    proof (rule nested_ok [OF prems(1)])
      show "ps_p ps1 \<noteq> []" using prems(3) p by simp
      fix ps2 assume 2: "intact b ps2" "nodes_ext (nodes ps1) (nodes ps2)" "length (ps_p ps2) < length (ps_p ps1)"
      have "is_table ps2 tbl" using prems(3) 2(2) nodes_ext_less by (auto simp: is_table_def nodes_ext_def)
      then show "res_ok b ps2 (inline_round pv ps2 tbl) (\<lambda>_. shorter ps2)"
        using 2(3) prems(3) by (intro inline_round_ok [OF pv _ 2(1) _ b]) simp_all
    qed
    then show ?thesis by (rule res_ok_weaken) (use prems(3) in auto)
  qed
  subgoal by (auto simp: val_post_def shorter_def intro: fresh_to)
  done

subsection \<open>Dispatch\<close>

lemma parse_value_ok:
  assumes pv: "vp_ok (length (ps_p ps)) pv" and i: "intact b ps" and b: "b < 2 ^ 32 - 1"
  shows "res_ok b ps (parse_value fo pv ps) (val_post ps)"
proof (cases "ps_p ps")
  case Nil
  then show ?thesis by (simp add: parse_value_def syntax_fail_ok [OF i])
next
  case (Cons c cs)
  then have p: "ps_p ps \<noteq> []" by simp
  show ?thesis
    using parse_string_ok [OF i p] parse_array_ok [OF pv i p b] parse_inline_ok [OF pv i p b]
      parse_bool_ok [OF i] parse_number_ok [OF i p] parse_datetime_ok [OF i] 
    by (simp add: parse_value_def Cons syntax_fail_ok [OF i])
qed

lemma parse_value_fast_ok:
  assumes pv: "vp_ok (length (ps_p ps)) pv" and i: "intact b ps" and b: "b < 2 ^ 32 - 1"
  shows "res_ok b ps (parse_value_fast fo pv ps) (val_post ps)"
proof (cases "ps_p ps")
  case Nil
  then show ?thesis using parse_value_ok [OF pv i b] by (simp add: parse_value_fast_def)
next
  case (Cons c cs)
  then have p: "ps_p ps \<noteq> []" by simp
  obtain mag q where run: "dec_run 0 (c # cs) = (mag, q)" by (cases "dec_run 0 (c # cs)")
  have q: "suffix q (ps_p ps)" using dec_run_suffix [OF run] by (simp add: Cons)
  have "res_ok b ps (value_node (set_p q ps) K_INTEGER (P_Int mag)) (val_post ps)"
    if "length q < length (ps_p ps)"
    using res_ok_weaken [OF value_node_ok [OF intact_set_p [OF i q], of K_INTEGER "P_Int mag"], of "val_post ps"]
      that by (intro res_ok_set_p [OF q]) (simp add: val_post_def fresh_def)
  then show ?thesis
    using parse_value_ok [OF pv i b] parse_datetime_ok [OF i p] parse_number_ok [OF i p]
    by (simp add: parse_value_fast_def Cons run del: dec_run.simps)
qed

text \<open>Every nesting takes a byte, so the fuel of \<open>parse_any\<close> need only exceed the input left.\<close>

lemma parse_any_ok: "vp_ok n (parse_any n fo)"
proof (induction n)
  case (Suc n)
  show ?case
    unfolding vp_ok_def
  proof (intro allI impI)
    fix fast b ps
    assume i: "intact b ps" and less: "length (ps_p ps) < Suc n" and b: "b < 2 ^ 32 - 1"
    have pv: "vp_ok (length (ps_p ps)) (parse_any n fo)" using less by (intro vp_ok_mono [OF Suc.IH]) simp
    show "res_ok b ps (parse_any (Suc n) fo fast ps) (val_post ps)"
      using parse_value_ok [OF pv i b] parse_value_fast_ok [OF pv i b] by simp
  qed
qed (simp add: vp_ok_def)

subsection \<open>Lines\<close>

definition later :: "parser \<Rightarrow> parser \<Rightarrow> bool" where
  "later ps ps' \<longleftrightarrow> stays ps (ps'\<lparr>ps_cur := ps_cur ps\<rparr>)"

lemma later_refl: "later ps ps"
  by (simp add: later_def stays_refl)

lemma later_trans: "later a b \<Longrightarrow> later b c \<Longrightarrow> later a c"
  by (auto simp: later_def stays_def intro: suffix_order.trans doc_frame_trans)

lemma stays_later: "stays a b \<Longrightarrow> later a b"
  by (simp add: later_def stays_def)

lemma later_src: "later ps ps' \<Longrightarrow> ps_src ps' = ps_src ps"
  by (auto simp: later_def stays_def)

lemma later_fails: "later a b \<Longrightarrow> fails_ok b st c \<Longrightarrow> fails_ok a st c"
  by (auto simp: later_def stays_def fails_ok_def doc_frame_def)

lemma later_table: "later ps ps' \<Longrightarrow> is_table ps t \<Longrightarrow> is_table ps' t"
  unfolding later_def using is_table_stays by (fastforce simp: is_table_def)

lemma later_length: "later ps ps' \<Longrightarrow> length (ps_p ps') \<le> length (ps_p ps)"
  unfolding later_def using staysD(3) by fastforce

definition ready :: "nat \<Rightarrow> addr \<Rightarrow> parser \<Rightarrow> bool" where
  "ready b root ps \<longleftrightarrow> intact b ps \<and> is_table ps root \<and> is_table ps (ps_cur ps)"

fun lines_ok :: "nat \<Rightarrow> addr \<Rightarrow> parser \<Rightarrow> 'a res \<Rightarrow> ('a \<Rightarrow> parser \<Rightarrow> bool) \<Rightarrow> bool" where
  "lines_ok b root ps (Ok a ps') Q \<longleftrightarrow> ready b root ps' \<and> later ps ps' \<and> Q a ps'"
| "lines_ok b root ps (Fail st ps') Q \<longleftrightarrow> fails_ok ps st ps'"
| "lines_ok b root ps Undef Q \<longleftrightarrow> hazard (ps_src ps)"
| "lines_ok b root ps NoFuel Q \<longleftrightarrow> False"

lemma lines_ok_bind:
  assumes "lines_ok b root ps r Q"
    and "\<And>a ps'. ready b root ps' \<Longrightarrow> later ps ps' \<Longrightarrow> Q a ps' \<Longrightarrow> lines_ok b root ps' (f a ps') (\<lambda>x ps''. R x ps'')"
  shows "lines_ok b root ps (res_bind r f) R"
proof (cases r)
  case (Ok a ps')
  then have l: "later ps ps'" and f: "lines_ok b root ps' (f a ps') R" using assms by simp_all
  show ?thesis
    using f l by (cases "f a ps'") (auto intro: later_trans later_fails simp: Ok later_src)
qed (use assms in auto)

lemma res_ok_lines:
  assumes "res_ok b ps r Q" "ready b root ps"
  shows "lines_ok b root ps r Q"
proof (cases r)
  case (Ok a ps')
  then have i: "intact b ps'" and st: "stays ps ps'" and q: "Q a ps'" using assms(1) by simp_all
  have "ps_cur ps' = ps_cur ps" using st by (simp add: stays_def)
  then show ?thesis using Ok i q stays_later [OF st] is_table_stays [OF st] assms(2) by (simp add: ready_def)
qed (use assms in auto)

lemma line_ok_lines: "line_ok b ps r \<Longrightarrow> ready b root ps \<Longrightarrow> lines_ok b root ps r (\<lambda>_. shorter ps)"
  using later_table by (cases r) (auto simp: ready_def later_def shorter_def)

lemma parse_header_line_ok:
  assumes r: "ready b root ps" and p: "ps_p ps \<noteq> []" and b: "b < 2 ^ 32 - 1"
  shows "lines_ok b root ps (parse_header_line root ps) (\<lambda>_. shorter ps)"
proof -
  have i: "intact b ps" and t: "is_table ps root" using r by (simp_all add: ready_def)
  obtain v where fast: "fast_ok b (ps\<lparr>ps_cur_path := v\<rparr>) (try_header_fast root ps)"
    using try_header_fast_ok [OF i t b] by blast
  let ?ps = "ps\<lparr>ps_cur_path := v\<rparr>"
  have same: "lines_ok b root ps x (\<lambda>_. shorter ps) = lines_ok b root ?ps x (\<lambda>_. shorter ?ps)"
    for x :: "unit res"
    by (cases x) (simp_all add: later_def stays_def shorter_def fails_ok_def)
  have r': "ready b root ?ps" and p': "ps_p ?ps \<noteq> []" using r p by (simp_all add: ready_def intact_def is_table_def)
  have "lines_ok b root ?ps (parse_header_line root ps) (\<lambda>_. shorter ?ps)"
  proof (cases "try_header_fast root ps")
    case (Declined ps')
    then show ?thesis
      using fast parse_header_ok [OF _ _ p' b, of root] r' line_ok_lines [OF _ r']
      by (simp add: parse_header_line_def ready_def)
  next
    case (Taken x)
    then show ?thesis
      using line_ok_from_res(2) [of b ?ps x "\<lambda>a ps. a"] fast line_ok_lines [OF _ r']
      by (simp add: parse_header_line_def)
  qed
  then show ?thesis by (simp add: same)
qed

lemma ready_later: "ready b root ps \<Longrightarrow> suffix q (ps_p ps) \<Longrightarrow>
  ready b root (set_p q ps) \<and> later ps (set_p q ps)"
  using intact_set_p stays_later [OF stays_set_p] by (auto simp: ready_def is_table_def)

lemma run_lex_line:
  assumes "ready b root ps" "suffix (lex_rest l) (ps_p ps)" "lex_fails l"
    and "\<And>a p. l = LOk a p \<Longrightarrow> Q a (set_p p ps)"
  shows "lines_ok b root ps (run_lex ps l) Q"
  using assms by (intro res_ok_lines run_lex_ok) (simp_all add: ready_def)

lemma finished_ok:
  assumes "lines_ok b root ps r (\<lambda>_. shorter ps)"
  shows "lines_ok b root ps (res_bind r (\<lambda>_ ps.
    res_bind (finish_line_res ps) (\<lambda>_ ps. Ok True ps))) (\<lambda>again ps'. again \<and> shorter ps ps')"
  apply (rule lines_ok_bind [OF assms])
  subgoal premises prems for a ps1
    unfolding finish_line_res_def
    apply (rule lines_ok_bind [OF run_lex_line [OF prems(1) finish_line_suffix finish_line_fails,
        where Q = "\<lambda>_ ps2. length (ps_p ps2) \<le> length (ps_p ps1)"]])
    subgoal using finish_line_suffix [of "ps_p ps1"] suffix_length_le by fastforce
    subgoal using prems(3) by (simp add: shorter_def later_refl)
    done
  done

lemma lines_ok_weaken:
  "lines_ok b root ps r Q \<Longrightarrow> (\<And>a ps'. Q a ps' \<Longrightarrow> R a ps') \<Longrightarrow> lines_ok b root ps r R"
  by (cases r) auto

lemma lines_ok_from:
  assumes "lines_ok b root ps1 r Q" "later ps ps1"
  shows "lines_ok b root ps r Q"
  using assms by (cases r) (auto intro: later_trans later_fails simp: later_src)

lemma comment_line_ok:
  assumes r: "ready b root ps" and p: "ps_p ps = c # cs"
  shows "lines_ok b root ps (res_bind (run_lex ps (skip_comment (c # cs))) (\<lambda>_ ps. Ok True ps))
    (\<lambda>again. shorter ps)"
proof (rule lines_ok_bind [where Q = "\<lambda>_. shorter ps"])
  show "lines_ok b root ps (run_lex ps (skip_comment (c # cs))) (\<lambda>_. shorter ps)"
    using skip_comment_suffix [of "ps_p ps"] comment_body_shorter [of cs]
    by (intro run_lex_line [OF r _ skip_comment_fails])
       (auto simp: p shorter_def skip_comment_def adv_def)
qed (simp add: later_refl)

text \<open>One step of the line loop goes on only after it has taken a byte.\<close>

lemma line_step_ok:
  assumes r0: "ready b root ps0" and b: "b < 2 ^ 32 - 1" and fuel: "length (ps_src ps0) < fuel"
  shows "lines_ok b root ps0 (line_step fo fuel root ps0) (\<lambda>again ps'. again \<longrightarrow> shorter ps0 ps')"
proof -
  define ps where "ps = set_p (skip_ws (ps_p ps0)) ps0"
  let ?ps = ps let ?post = "\<lambda>again ps'. again \<longrightarrow> shorter ps ps'"
  have r: "ready b root ?ps" and l: "later ps0 ?ps" and p: "ps_p ps = skip_ws (ps_p ps0)"
    and src0: "ps_src ps = ps_src ps0"
    using ready_later [OF r0 suffix_skip_ws] by (simp_all add: ps_def)
  have ls: "line_step fo fuel root ps0 = (case ps_p ps of
          [] \<Rightarrow> Ok False ps
        | c # cs \<Rightarrow>
            (if c = LF then Ok True (set_p cs ps)
             else if c = CR then
               (if starts LF cs then Ok True (set_p (adv 1 cs) ps)
                else syntax_fail ps ''lone carriage return'')
             else if c = HASH then
               res_bind (run_lex ps (skip_comment (c # cs))) (\<lambda>_ ps. Ok True ps)
             else
               res_bind (if c = LBRACK then parse_header_line root ps
                         else parse_keyval (parse_any fuel fo) ps) (\<lambda>_ ps.
               res_bind (finish_line_res ps) (\<lambda>_ ps. Ok True ps))))"
    unfolding line_step_def Let_def ps_def [symmetric] ..
  have i: "intact b ?ps" and cur: "is_table ?ps (ps_cur ?ps)" using r by (simp_all add: ready_def)
  have len: "length (skip_ws (ps_p ps0)) \<le> length (ps_p ps0)" by (simp add: skip_ws_def length_dropWhile_le)
  have src: "length (ps_p ?ps) < fuel"
    using suffix_length_le [OF intact_suffix [OF i]] fuel src0 by simp
  have kv: "lines_ok b root ?ps (parse_keyval (parse_any fuel fo) ?ps) (\<lambda>_. shorter ?ps)"
    unfolding parse_keyval_def using src
    by (intro res_ok_lines [OF keyval_into_ok [OF vp_ok_mono [OF parse_any_ok] i cur b] r]) simp
  have "lines_ok b root ?ps (line_step fo fuel root ps0) ?post"
  proof (cases "ps_p ps")
    case Nil
    then show ?thesis using r by (simp add: ls later_refl)
  next
    case (Cons c cs)
    have cs: "suffix cs (c # cs)" "suffix (adv 1 cs) (c # cs)"
      using suffix_order.trans [OF suffix_adv [of 1 cs]] by (auto simp: suffix_ConsI)
    have step: "lines_ok b root ?ps (Ok True (set_p cs ?ps)) ?post"
      "lines_ok b root ?ps (Ok True (set_p (adv 1 cs) ?ps)) ?post"
      using ready_later [OF r, of cs] ready_later [OF r, of "adv 1 cs"] cs
      by (simp_all add: Cons shorter_def adv_def)
    have cm: "lines_ok b root ?ps (res_bind (run_lex ?ps (skip_comment (c # cs))) (\<lambda>_ ps. Ok True ps)) ?post"
      using lines_ok_weaken [OF comment_line_ok [OF r, of c cs], of ?post] by (simp add: Cons)
    have "lines_ok b root ?ps (if c = LBRACK then parse_header_line root ?ps
        else parse_keyval (parse_any fuel fo) ?ps) (\<lambda>_. shorter ?ps)"
      using kv parse_header_line_ok [OF r _ b] by (cases "c = LBRACK") (simp_all add: Cons)
    from lines_ok_weaken [OF finished_ok [OF this], of ?post] have fin: "lines_ok b root ?ps (res_bind
        (if c = LBRACK then parse_header_line root ?ps else parse_keyval (parse_any fuel fo) ?ps)
        (\<lambda>_ ps. res_bind (finish_line_res ps) (\<lambda>_ ps. Ok True ps))) ?post"
      by simp
    have sf: "lines_ok b root ?ps (syntax_fail ps msg) ?post" for msg
      by (rule res_ok_lines [OF syntax_fail_ok [OF i] r])
    show ?thesis
      using step cm fin sf [of "''lone carriage return''"] by (cases "c = HASH") (simp_all add: ls Cons)
  qed
  then have "lines_ok b root ps (line_step fo fuel root ps0) (\<lambda>again ps'. again \<longrightarrow> shorter ps0 ps')"
    by (rule lines_ok_weaken) (use len p in \<open>auto simp: shorter_def\<close>)
  then show ?thesis by (rule lines_ok_from) (rule l)
qed

lemma line_rounds_ok:
  assumes "ready b root ps" "b < 2 ^ 32 - 1" "length (ps_src ps) < fuel" "length (ps_p ps) < n"
  shows "lines_ok b root ps (rounds n (line_step fo fuel root) ps) (\<lambda>_ _. True)"
  using assms
proof (induction n arbitrary: ps)
  case (Suc n)
  show ?case
    unfolding rounds.simps
    apply (rule lines_ok_bind [OF line_step_ok [OF Suc.prems(1-3)]])
    subgoal premises prems for again ps1
    proof -
      have "ps_src ps1 = ps_src ps" using prems(2) by (simp add: later_def stays_def)
      then show ?thesis
        using Suc.IH [OF prems(1) Suc.prems(2)] Suc.prems(3,4) prems
        by (cases again) (simp_all add: shorter_def later_refl)
    qed
    done
qed simp

subsection \<open>The whole parse\<close>

text \<open>
  What a parse ends with: a well-formed document with a table as its root, or an error
  record that names a position of the input (the failures of allocation have none).
\<close>

definition root_table :: "document \<Rightarrow> bool" where
  "root_table doc \<longleftrightarrow> (\<exists>r. d_root doc = Some r \<and> r < length (d_nodes doc)
     \<and> n_kind (the_node doc r) = K_TABLE)"

definition error_recorded :: "bytes \<Rightarrow> status \<Rightarrow> document \<Rightarrow> bool" where
  "error_recorded data st doc \<longleftrightarrow>
     (\<exists>pos msg. pos \<le> length data \<and> d_err doc = error_at data pos st msg)
     \<or> (st = ERR_ALLOC \<and> pe_status (d_err doc) \<in> {ST_OK, ERR_ALLOC} \<and> pe_line (d_err doc) = 0)"

fun run_ok :: "bytes \<Rightarrow> run \<Rightarrow> bool" where
  "run_ok data (Done st doc) \<longleftrightarrow>
     (if st = ST_OK then nodes_ok (length data) (d_nodes doc) \<and> root_table doc \<and> d_err doc = no_error
      else error_recorded data st doc)"
| "run_ok data Run_Undef \<longleftrightarrow> hazard data"
| "run_ok data Run_NoFuel \<longleftrightarrow> False"

lemma validate_utf8_err:
  "validate_utf8 doc data = (st, doc') \<Longrightarrow>
     (st = ST_OK \<and> doc' = doc) \<or> (st = ERR_ENCODING \<and>
       (\<exists>pos msg. pos \<le> length data \<and> d_err doc' = error_at data pos st msg))"
  by (cases "utf8_invalid_at data = length data")
     (auto simp: validate_utf8_def error_at_def Let_def utf8_invalid_at_def split: prod.splits
       intro!: exI [of _ "length data - length (utf8_stop data)"] exI [of _ "lit ''invalid UTF-8 sequence''"])

lemma lines_ok_run:
  assumes "lines_ok (length data) root ps r (\<lambda>_ _. True)" "ps_src ps = data"
    and "d_root (ps_doc ps) = Some root" "d_err (ps_doc ps) = no_error"
  shows "run_ok data (run_of r)"
proof (cases r)
  case (Ok a ps')
  then show ?thesis
    using assms nodes_ok_mono [of "length data - length (ps_p ps')" _ "length data"]
    by (auto simp: ready_def later_def stays_def doc_frame_def root_table_def is_table_def intact_def)
next
  case (Fail st ps')
  then have f: "st \<noteq> ST_OK" "ps_src ps' = data"
    "recorded st ps' \<or> st = ERR_ALLOC \<and> d_err (ps_doc ps') = no_error"
    using assms by (auto simp: fails_ok_def)
  then have "error_recorded data st (ps_doc ps')"
    unfolding recorded_def
  proof (elim disjE exE)
    fix msg assume "d_err (ps_doc ps') = error_at (ps_src ps') (cursor_offset ps') st msg"
    then show ?thesis
      unfolding error_recorded_def using f(2)
      by (intro disjI1 exI [of _ "cursor_offset ps'"] exI [of _ msg]) (simp add: cursor_offset_def)
  qed (auto simp: error_recorded_def no_error_def)
  then show ?thesis using f(1) Fail by simp
qed (use assms in simp_all)

theorem parser_run_ok:
  assumes "length data < 2 ^ 32 - 1"
  shows "run_ok data (parser_run fo (new_document avail depth) data)"
proof -
  obtain st doc1 where v: "validate_utf8 (new_document avail depth) data = (st, doc1)"
    by (cases "validate_utf8 (new_document avail depth) data")
  show ?thesis
  proof (cases "st = ST_OK")
    case False
    then show ?thesis using validate_utf8_err [OF v] v
      by (auto simp: parser_run_def error_recorded_def)
  next
    case True
    then have d1: "doc1 = new_document avail depth" using validate_utf8_err [OF v] by auto
    show ?thesis
    proof (cases "dom_new_table doc1 TBL_EXPLICIT")
      case None
      then show ?thesis using True v
        by (simp add: parser_run_def error_recorded_def d1 new_document_def no_error_def)
    next
      case (Some r)
      then obtain root doc2 where r: "dom_new_table doc1 TBL_EXPLICIT = Some (root, doc2)" by (cases r) auto
      note eq = dom_new_table_eq [OF r]
      let ?ps = "init_parser (doc2\<lparr>d_root := Some root\<rparr>) data root"
      have "nodes_ok m (d_nodes doc2)" for m
        by (simp add: eq(2) d1 new_document_def nodes_ok_def node_ok_def empty_table_entries table_wf_empty aot_ok_def)
      moreover have "suffix (skip_bom data) data" by (simp add: skip_bom_def suffix_drop)
      ultimately have "ready (length data) root ?ps"
        using suffix_length_le
        by (auto simp: ready_def intact_def init_parser_def is_table_def eq(1,2) d1 new_document_def)
      then have "lines_ok (length data) root ?ps
          (rounds (Suc (length data)) (line_step fo (Suc (length data)) root) ?ps) (\<lambda>_ _. True)"
        using assms by (intro line_rounds_ok) (auto simp: init_parser_def skip_bom_def)
      then have "run_ok data (run_of (rounds (Suc (length data)) (line_step fo (Suc (length data)) root) ?ps))"
        by (rule lines_ok_run) (simp_all add: init_parser_def eq(3) d1 new_document_def)
      then show ?thesis using v True r by (simp add: parser_run_def Let_def del: rounds.simps)
    qed
  qed
qed

end
