(* ===== verification/Parse_Props.thy ===== *)
theory Parse_Props
  imports Parse_Sound
begin

text \<open>
  The properties of the parser as a whole, read off the guarantees of theory \<open>Parse_Sound\<close>:
  it returns, what it accepts is a well-formed document, and an error names its place.
\<close>

subsection \<open>Line and column of an error\<close>

definition line_at :: "bytes \<Rightarrow> nat \<Rightarrow> nat" where
  "line_at data pos = 1 + length (filter (\<lambda>c. c = LF) (take pos data))"

definition column_at :: "bytes \<Rightarrow> nat \<Rightarrow> nat" where
  "column_at data pos = 1 + length (takeWhile (\<lambda>c. c \<noteq> LF) (rev (take pos data)))"

lemma err_scan_append:
  "err_scan (xs @ ys) i line bol = (let (l, b) = err_scan xs i line bol in err_scan ys (i + length xs) l b)"
  by (induction xs i line bol rule: err_scan.induct) (simp_all add: Let_def)

lemma err_scan_spec:
  "err_scan xs 0 1 0 = (1 + length (filter (\<lambda>c. c = LF) xs),
     length xs - length (takeWhile (\<lambda>c. c \<noteq> LF) (rev xs)))"
proof (induction xs rule: rev_induct)
  case (snoc x xs)
  then show ?case
    using length_takeWhile_le [of "\<lambda>c. c \<noteq> LF" "rev xs"]
    by (simp add: err_scan_append Let_def)
qed simp

lemma error_at_position:
  assumes "pos \<le> length data"
  shows "pe_line (error_at data pos st msg) = line_at data pos"
    and "pe_column (error_at data pos st msg) = column_at data pos"
  using assms length_takeWhile_le [of "\<lambda>c. c \<noteq> LF" "rev (take pos data)"]
  by (simp_all add: error_at_def err_scan_spec [unfolded One_nat_def] line_at_def column_at_def)

lemma settle_recorded:
  assumes "error_recorded data st doc" "st \<noteq> ST_OK"
  shows "pe_status (d_err (settle_error st doc)) = st \<and>
    ((\<exists>pos \<le> length data. pe_start (d_err (settle_error st doc)) = pos
        \<and> pe_end (d_err (settle_error st doc)) = pos
        \<and> pe_line (d_err (settle_error st doc)) = line_at data pos
        \<and> pe_column (d_err (settle_error st doc)) = column_at data pos)
     \<or> (st = ERR_ALLOC \<and> pe_line (d_err (settle_error st doc)) = 0))"
proof (cases "\<exists>pos msg. pos \<le> length data \<and> d_err doc = error_at data pos st msg")
  case True
  then obtain pos msg where e: "pos \<le> length data" "d_err doc = error_at data pos st msg" by blast
  have "pe_status (d_err doc) = st" "pe_start (d_err doc) = pos" "pe_end (d_err doc) = pos"
    by (simp_all add: e(2) error_at_def split: prod.split)
  then show ?thesis using e error_at_position [OF e(1)] assms(2) by (simp add: settle_error_def)
next
  case False
  then show ?thesis using assms by (auto simp: error_recorded_def settle_error_def)
qed

lemma settle_run_Done:
  "settle_run r = Done st doc' \<longleftrightarrow> (\<exists>doc. r = Done st doc \<and> doc' = settle_error st doc)"
  by (cases r) auto

lemma teptris_parse_run:
  assumes "length data < 2 ^ 32 - 1"
  shows "run_ok data (parser_run fo (new_document avail (options_depth opts)) data)"
  by (rule parser_run_ok [OF assms])

lemma parse_nodes_ok:
  assumes "length data < 2 ^ 32 - 1" "teptris_parse fo avail data opts = Done ST_OK doc"
  shows "nodes_ok (length data) (d_nodes doc) \<and> root_table doc \<and> d_err doc = no_error"
proof -
  obtain doc0 where "parser_run fo (new_document avail (options_depth opts)) data = Done ST_OK doc0"
    and doc: "doc = settle_error ST_OK doc0"
    using assms(2) by (auto simp: teptris_parse_def settle_run_Done)
  then show ?thesis
    using teptris_parse_run [OF assms(1), of fo avail opts] by (simp add: settle_error_def)
qed

subsection \<open>Properties\<close>


text \<open>C3: an accepted document is well formed: its root is a table, every payload has the shape
  of its kind, every reference leads to a node, no table has two entries with one key, and
  an array of tables is not empty and holds tables only.\<close>

theorem parse_well_formed:
  assumes len: "length data < 2 ^ 32 - 1" and ok: "teptris_parse fo avail data opts = Done ST_OK doc"
  shows "root_table doc \<and> d_err doc = no_error \<and>
    (\<forall>i < length (d_nodes doc).
       kind_payload (n_kind (the_node doc i)) (n_as (the_node doc i))
       \<and> (\<forall>v \<in> payload_refs (n_as (the_node doc i)). v < length (d_nodes doc))
       \<and> distinct (map e_bytes (t_entries (the_table doc i)))
       \<and> aot_ok (d_nodes doc) (the_node doc i))"
  using parse_nodes_ok [OF assms] by (auto simp: nodes_ok_def node_ok_def table_wf_def)

text \<open>C4: a failed parse reports its status and an offset inside the input, with the line and
  the column of that offset; only a failure of allocation may report no place.\<close>

theorem parse_error_place:
  assumes len: "length data < 2 ^ 32 - 1"
    and err: "teptris_parse fo avail data opts = Done st doc" "st \<noteq> ST_OK"
  shows "pe_status (d_err doc) = st \<and>
    ((\<exists>pos \<le> length data. pe_start (d_err doc) = pos \<and> pe_end (d_err doc) = pos
        \<and> pe_line (d_err doc) = line_at data pos \<and> pe_column (d_err doc) = column_at data pos)
     \<or> (st = ERR_ALLOC \<and> pe_line (d_err doc) = 0))"
proof -
  obtain doc0 where "parser_run fo (new_document avail (options_depth opts)) data = Done st doc0"
    and doc: "doc = settle_error st doc0"
    using err(1) by (auto simp: teptris_parse_def settle_run_Done)
  then have "error_recorded data st doc0"
    using teptris_parse_run [OF len, of fo avail opts] err(2) by simp
  then show ?thesis unfolding doc by (rule settle_recorded [OF _ err(2)])
qed

subsection \<open>Witnesses\<close>

text \<open>A number library that declines every text, for inputs without floats.\<close>

definition no_floats :: fops where
  "no_floats = \<lparr>s2d_n = (\<lambda>_. None), strtod = (\<lambda>_. 0)\<rparr>"

fun run_status :: "run \<Rightarrow> status option" where
  "run_status (Done st doc) = Some st"
| "run_status _ = None"

lemma run_status_Done: "run_status r = Some st \<longleftrightarrow> (\<exists>doc. r = Done st doc)"
  by (cases r) auto

lemma sample_ok: "\<exists>doc. teptris_parse no_floats 100000 (lit ''a=true'') None = Done ST_OK doc"
  unfolding run_status_Done [symmetric] by code_simp

lemma sample_error: "\<exists>doc. teptris_parse no_floats 100000 (lit ''a='') None = Done ERR_SYNTAX doc"
  unfolding run_status_Done [symmetric] by code_simp


lemma parse_well_formed_witness:
  "\<exists>doc. teptris_parse no_floats 100000 (lit ''a=true'') None = Done ST_OK doc \<and> root_table doc
     \<and> (\<forall>i < length (d_nodes doc). distinct (map e_bytes (t_entries (the_table doc i))))"
proof -
  obtain doc where doc: "teptris_parse no_floats 100000 (lit ''a=true'') None = Done ST_OK doc"
    using sample_ok by blast
  show ?thesis using parse_well_formed [OF _ doc] doc by (simp add: lit_def)
qed

lemma parse_error_place_witness:
  "\<exists>doc. teptris_parse no_floats 100000 (lit ''a='') None = Done ERR_SYNTAX doc
     \<and> pe_status (d_err doc) = ERR_SYNTAX
     \<and> (\<exists>pos \<le> 2. pe_start (d_err doc) = pos \<and> pe_line (d_err doc) = line_at (lit ''a='') pos)"
proof -
  obtain doc where doc: "teptris_parse no_floats 100000 (lit ''a='') None = Done ERR_SYNTAX doc"
    using sample_error by blast
  show ?thesis using parse_error_place [OF _ doc] doc by (fastforce simp: lit_def)
qed

end
