(* ===== verification/Emitter.thy ===== *)
theory Emitter
  imports Emit_Buf Parse_Props
begin

text \<open>
  The document emitters of \<open>emit/emitter.c\<close>: TOML with sections, the typed JSON of the TOML
  test suite and the natural JSON. The C functions recurse along the node references; the
  model's recursion has fuel, one unit for each level, and \<open>None\<close> is fuel that did not
  suffice (which a document without cycles excludes). Each emitter is compared with the
  text it should write, given by functions without buffer and memory.
\<close>

subsection \<open>The arms of a node\<close>

fun payload_str :: "payload \<Rightarrow> bytes" where
  "payload_str (P_Str s) = s"
| "payload_str _ = []"

fun payload_int :: "payload \<Rightarrow> u64" where
  "payload_int (P_Int i) = i"
| "payload_int _ = 0"

fun payload_float :: "payload \<Rightarrow> u64" where
  "payload_float (P_Float f) = f"
| "payload_float _ = 0"

fun payload_bool :: "payload \<Rightarrow> bool" where
  "payload_bool (P_Bool x) = x"
| "payload_bool _ = False"

fun payload_dt :: "payload \<Rightarrow> datetime" where
  "payload_dt (P_Dt d) = d"
| "payload_dt _ = dt_zero"

subsection \<open>Values\<close>

text \<open>The loops over elements and entries, the first one hoisted.\<close>

fun emit_rest :: "(ebuf \<Rightarrow> ebuf) \<Rightarrow> (ebuf \<Rightarrow> 'a \<Rightarrow> ebuf option) \<Rightarrow> ebuf \<Rightarrow> 'a list \<Rightarrow> ebuf option" where
  "emit_rest sep f b [] = Some b"
| "emit_rest sep f b (x # xs) =
    (case f (sep b) x of None \<Rightarrow> None | Some b' \<Rightarrow> emit_rest sep f b' xs)"

fun emit_list :: "(ebuf \<Rightarrow> ebuf) \<Rightarrow> (ebuf \<Rightarrow> 'a \<Rightarrow> ebuf option) \<Rightarrow> ebuf \<Rightarrow> 'a list \<Rightarrow> ebuf option" where
  "emit_list sep f b [] = Some b"
| "emit_list sep f b (x # xs) =
    (case f b x of None \<Rightarrow> None | Some b' \<Rightarrow> emit_rest sep f b' xs)"

definition emit_inline_table ::
    "(ebuf \<Rightarrow> addr \<Rightarrow> ebuf option) \<Rightarrow> ebuf \<Rightarrow> table \<Rightarrow> ebuf option" where
  "emit_inline_table ev b t =
    map_option (\<lambda>b. eb_c b RBRACE)
      (emit_list (\<lambda>b. eb_str b '', '')
        (\<lambda>b e. ev (eb_str (emit_key b (v_bytes (e_key e))) '' = '') (e_value e))
        (eb_c b LBRACE) (t_entries t))"

fun emit_value :: "nat \<Rightarrow> (u64 \<Rightarrow> bytes) \<Rightarrow> node list \<Rightarrow> ebuf \<Rightarrow> addr \<Rightarrow> ebuf option" where
  "emit_value 0 d2s ns b i = None"
| "emit_value (Suc k) d2s ns b i =
    (let v = n_as (ns ! i)
     in case n_kind (ns ! i) of
          K_STRING \<Rightarrow> Some (emit_string_value b (payload_str v))
        | K_INTEGER \<Rightarrow> Some (emit_i64 b (payload_int v))
        | K_FLOAT \<Rightarrow> Some (emit_float d2s b (payload_float v))
        | K_BOOLEAN \<Rightarrow> Some (eb_str b (if payload_bool v then ''true'' else ''false''))
        | K_ARRAY \<Rightarrow>
            map_option (\<lambda>b. eb_c b RBRACK)
              (emit_list eb_sep2 (emit_value k d2s ns) (eb_c b LBRACK) (ar_items (payload_array v)))
        | K_TABLE \<Rightarrow> emit_inline_table (emit_value k d2s ns) b (payload_table v)
        | kd \<Rightarrow> Some (emit_dt b (payload_dt v) kd))"

subsection \<open>Sections\<close>

definition is_section :: "node \<Rightarrow> bool" where
  "is_section v \<longleftrightarrow>
    (if n_kind v = K_TABLE then \<not> has_flag v TBL_INLINE
     else if n_kind v = K_ARRAY then has_flag v ARR_AOT else False)"

fun emit_seq :: "(ebuf \<Rightarrow> 'a \<Rightarrow> ebuf option) \<Rightarrow> ebuf \<Rightarrow> 'a list \<Rightarrow> ebuf option" where
  "emit_seq f b [] = Some b"
| "emit_seq f b (x # xs) = (case f b x of None \<Rightarrow> None | Some b' \<Rightarrow> emit_seq f b' xs)"

definition section_header :: "bytes \<Rightarrow> bytes \<Rightarrow> bytes" where
  "section_header pre key = (if pre \<noteq> [] then pre @ [DOT] else []) @ key_to_buf key"

definition emit_section ::
    "(ebuf \<Rightarrow> bytes \<Rightarrow> addr \<Rightarrow> ebuf option) \<Rightarrow> node list \<Rightarrow> ebuf \<Rightarrow> bytes \<Rightarrow> bytes \<Rightarrow> addr \<Rightarrow> ebuf option" where
  "emit_section children ns b pre key n =
    (let hcap = length pre + key_buf_cap key + 2
     in if hcap > 512 \<and> hcap > eb_avail b then Some (b\<lparr>eb_st := ERR_ALLOC\<rparr>)
        else (let hdr = section_header pre key
              in if n_kind (ns ! n) = K_ARRAY
                 then emit_seq (\<lambda>b item.
                        children (eb_put (eb_put (eb_str b ''[['') hdr) [RBRACK, RBRACK, LF]) hdr item)
                        b (ar_items (payload_array (n_as (ns ! n))))
                 else children (eb_put (eb_put (eb_c b LBRACK) hdr) [RBRACK, LF]) hdr n))"

definition emit_line ::
    "(ebuf \<Rightarrow> addr \<Rightarrow> ebuf option) \<Rightarrow> ebuf \<Rightarrow> entry \<Rightarrow> ebuf option" where
  "emit_line ev b e =
    map_option (\<lambda>b. eb_c b LF) (ev (eb_str (emit_key b (v_bytes (e_key e))) '' = '') (e_value e))"

fun emit_table_children ::
    "nat \<Rightarrow> (u64 \<Rightarrow> bytes) \<Rightarrow> node list \<Rightarrow> ebuf \<Rightarrow> bytes \<Rightarrow> addr \<Rightarrow> ebuf option" where
  "emit_table_children 0 d2s ns b pre t = None"
| "emit_table_children (Suc k) d2s ns b pre t =
    (let es = t_entries (payload_table (n_as (ns ! t)))
     in case emit_seq (\<lambda>b e. if is_section (ns ! e_value e) then Some b
                             else emit_line (emit_value k d2s ns) b e) b es of
          None \<Rightarrow> None
        | Some b' \<Rightarrow>
            emit_seq (\<lambda>b e. if is_section (ns ! e_value e)
                            then emit_section (emit_table_children k d2s ns) ns b pre
                                   (v_bytes (e_key e)) (e_value e)
                            else Some b) b' es)"

text \<open>
  The end of every emitter: the status, or the buffer and its length without the
  terminator. The status is not read again behind the terminator.
\<close>

datatype emitted = Emitted status "bytes option" nat

definition emit_end :: "ebuf \<Rightarrow> emitted" where
  "emit_end b =
    (if eb_st b \<noteq> ST_OK then Emitted (eb_st b) None 0
     else (let b' = eb_c b 0
           in Emitted ST_OK (if eb_st b' = ST_OK then Some (eb_bytes b') else None)
                (length (eb_bytes b') - 1)))"

definition emit_start :: "nat \<Rightarrow> ebuf" where
  "emit_start avail = eb_reserve (eb_init avail) 256"

definition emit_document ::
    "nat \<Rightarrow> (u64 \<Rightarrow> bytes) \<Rightarrow> nat \<Rightarrow> document \<Rightarrow> emitted option" where
  "emit_document fuel d2s avail doc =
    (case d_root doc of
       None \<Rightarrow> Some (Emitted ERR_ARG None 0)
     | Some r \<Rightarrow> map_option emit_end
         (emit_table_children fuel d2s (d_nodes doc) (emit_start avail) [] r))"

subsection \<open>JSON\<close>

definition json_escape :: "byte \<Rightarrow> bytes" where
  "json_escape c =
    (case short_escape c of Some e \<Rightarrow> e | None \<Rightarrow> if c < 0x20 then u_escape c else [c])"

definition json_needs :: "byte \<Rightarrow> bool" where
  "json_needs c \<longleftrightarrow> c = DQUOTE \<or> c = BACKSLASH \<or> c < 0x20"

function json_body :: "ebuf \<Rightarrow> bytes \<Rightarrow> ebuf" where
  "json_body b s =
    (if s = [] then b
     else (let b1 = eb_put b (takeWhile (\<lambda>c. \<not> json_needs c) s);
               r = dropWhile (\<lambda>c. \<not> json_needs c) s
           in case r of
                [] \<Rightarrow> b1
              | c # cs \<Rightarrow>
                  json_body
                    (case short_escape c of
                       Some e \<Rightarrow> eb_put b1 e
                     | None \<Rightarrow> if c < 0x20 then eb_put b1 (u_escape c) else b1) cs))"
  by pat_completeness auto
termination
proof (relation "measure (\<lambda>(b, s). length s)", goal_cases)
  case (2 b s b1 r c cs)
  then have "length (c # cs) \<le> length s" by (metis length_dropWhile_le)
  then show ?case by simp
qed simp

declare json_body.simps [simp del]

definition json_string :: "ebuf \<Rightarrow> bytes \<Rightarrow> ebuf" where
  "json_string b s = eb_c (json_body (eb_c b DQUOTE) s) DQUOTE"

fun json_type_name :: "kind \<Rightarrow> string" where
  "json_type_name K_STRING = ''string''"
| "json_type_name K_INTEGER = ''integer''"
| "json_type_name K_FLOAT = ''float''"
| "json_type_name K_BOOLEAN = ''bool''"
| "json_type_name K_DATETIME_OFFSET = ''datetime''"
| "json_type_name K_DATETIME_LOCAL = ''datetime-local''"
| "json_type_name K_DATE_LOCAL = ''date-local''"
| "json_type_name K_TIME_LOCAL = ''time-local''"
| "json_type_name _ = []"

text \<open>Objects and arrays are the same in both dialects.\<close>

definition json_object :: "(ebuf \<Rightarrow> addr \<Rightarrow> ebuf option) \<Rightarrow> ebuf \<Rightarrow> table \<Rightarrow> ebuf option" where
  "json_object ev b t =
    map_option (\<lambda>b. eb_c b RBRACE)
      (emit_list (\<lambda>b. eb_c b COMMA)
        (\<lambda>b e. ev (eb_c (json_string b (v_bytes (e_key e))) COLON) (e_value e))
        (eb_c b LBRACE) (t_entries t))"

definition json_array :: "(ebuf \<Rightarrow> addr \<Rightarrow> ebuf option) \<Rightarrow> ebuf \<Rightarrow> array \<Rightarrow> ebuf option" where
  "json_array ev b a =
    map_option (\<lambda>b. eb_c b RBRACK)
      (emit_list (\<lambda>b. eb_c b COMMA) ev (eb_c b LBRACK) (ar_items a))"

fun emit_json_value :: "nat \<Rightarrow> (u64 \<Rightarrow> bytes) \<Rightarrow> node list \<Rightarrow> ebuf \<Rightarrow> addr \<Rightarrow> ebuf option" where
  "emit_json_value 0 d2s ns b i = None"
| "emit_json_value (Suc k) d2s ns b i =
    (let v = n_as (ns ! i)
     in case n_kind (ns ! i) of
          K_TABLE \<Rightarrow> json_object (emit_json_value k d2s ns) b (payload_table v)
        | K_ARRAY \<Rightarrow> json_array (emit_json_value k d2s ns) b (payload_array v)
        | K_STRING \<Rightarrow>
            Some (eb_c (json_string (eb_str b ''{\"type\":\"string\",\"value\":'') (payload_str v)) RBRACE)
        | K_INTEGER \<Rightarrow>
            Some (eb_str (emit_i64 (eb_str b ''{\"type\":\"integer\",\"value\":\"'') (payload_int v)) ''\"}'')
        | K_FLOAT \<Rightarrow>
            Some (eb_str (emit_float d2s (eb_str b ''{\"type\":\"float\",\"value\":\"'') (payload_float v)) ''\"}'')
        | K_BOOLEAN \<Rightarrow>
            Some (eb_str (eb_str (eb_str b ''{\"type\":\"bool\",\"value\":\"'')
                    (if payload_bool v then ''true'' else ''false'')) ''\"}'')
        | kd \<Rightarrow>
            Some (eb_str (emit_dt (eb_str (eb_str (eb_str b ''{\"type\":\"'') (json_type_name kd))
                    ''\",\"value\":\"'') (payload_dt v) kd) ''\"}''))"

fun emit_json_nat_value :: "nat \<Rightarrow> (u64 \<Rightarrow> bytes) \<Rightarrow> node list \<Rightarrow> ebuf \<Rightarrow> addr \<Rightarrow> ebuf option" where
  "emit_json_nat_value 0 d2s ns b i = None"
| "emit_json_nat_value (Suc k) d2s ns b i =
    (let v = n_as (ns ! i)
     in case n_kind (ns ! i) of
          K_TABLE \<Rightarrow> json_object (emit_json_nat_value k d2s ns) b (payload_table v)
        | K_ARRAY \<Rightarrow> json_array (emit_json_nat_value k d2s ns) b (payload_array v)
        | K_STRING \<Rightarrow> Some (json_string b (payload_str v))
        | K_INTEGER \<Rightarrow> Some (emit_i64 b (payload_int v))
        | K_FLOAT \<Rightarrow>
            Some (if f64_isnan (payload_float v) \<or> f64_isinf (payload_float v) then eb_str b ''null''
                  else emit_float d2s b (payload_float v))
        | K_BOOLEAN \<Rightarrow> Some (eb_str b (if payload_bool v then ''true'' else ''false''))
        | kd \<Rightarrow> Some (eb_c (emit_dt (eb_c b DQUOTE) (payload_dt v) kd) DQUOTE))"

definition emit_document_json ::
    "nat \<Rightarrow> (u64 \<Rightarrow> bytes) \<Rightarrow> nat \<Rightarrow> document \<Rightarrow> emitted option" where
  "emit_document_json fuel d2s avail doc =
    (case d_root doc of
       None \<Rightarrow> Some (Emitted ERR_ARG None 0)
     | Some r \<Rightarrow> map_option emit_end
         (emit_json_value fuel d2s (d_nodes doc) (emit_start avail) r))"

definition emit_document_json_natural ::
    "nat \<Rightarrow> (u64 \<Rightarrow> bytes) \<Rightarrow> nat \<Rightarrow> document \<Rightarrow> emitted option" where
  "emit_document_json_natural fuel d2s avail doc =
    (case d_root doc of
       None \<Rightarrow> Some (Emitted ERR_ARG None 0)
     | Some r \<Rightarrow> map_option emit_end
         (emit_json_nat_value fuel d2s (d_nodes doc) (emit_start avail) r))"

subsection \<open>The text of a document\<close>

fun mapo :: "('a \<Rightarrow> 'b option) \<Rightarrow> 'a list \<Rightarrow> 'b list option" where
  "mapo f [] = Some []"
| "mapo f (x # xs) = (case f x of None \<Rightarrow> None | Some y \<Rightarrow> map_option ((#) y) (mapo f xs))"

fun joined :: "bytes \<Rightarrow> bytes list \<Rightarrow> bytes" where
  "joined sep [] = []"
| "joined sep (x # xs) = x @ concat (map (\<lambda>y. sep @ y) xs)"

definition in_braces :: "byte \<Rightarrow> byte \<Rightarrow> bytes \<Rightarrow> bytes" where
  "in_braces l r s = [l] @ s @ [r]"

definition pair_text :: "bytes \<Rightarrow> bytes \<Rightarrow> bytes \<Rightarrow> bytes" where
  "pair_text key mid v = key @ mid @ v"

fun value_text :: "nat \<Rightarrow> (u64 \<Rightarrow> bytes) \<Rightarrow> node list \<Rightarrow> addr \<Rightarrow> bytes option" where
  "value_text 0 d2s ns i = None"
| "value_text (Suc k) d2s ns i =
    (let v = n_as (ns ! i)
     in case n_kind (ns ! i) of
          K_STRING \<Rightarrow> Some (string_text (payload_str v))
        | K_INTEGER \<Rightarrow> Some (i64_text (payload_int v))
        | K_FLOAT \<Rightarrow> Some (f64_text d2s (payload_float v))
        | K_BOOLEAN \<Rightarrow> Some (lit (if payload_bool v then ''true'' else ''false''))
        | K_ARRAY \<Rightarrow>
            map_option (\<lambda>ts. in_braces LBRACK RBRACK (joined (lit '', '') ts))
              (mapo (value_text k d2s ns) (ar_items (payload_array v)))
        | K_TABLE \<Rightarrow>
            map_option (\<lambda>ts. in_braces LBRACE RBRACE (joined (lit '', '') ts))
              (mapo (\<lambda>e. map_option (pair_text (key_to_buf (v_bytes (e_key e))) (lit '' = ''))
                      (value_text k d2s ns (e_value e))) (t_entries (payload_table v)))
        | kd \<Rightarrow> Some (dt_text (payload_dt v) kd))"

definition section_text ::
    "(bytes \<Rightarrow> addr \<Rightarrow> bytes option) \<Rightarrow> node list \<Rightarrow> bytes \<Rightarrow> bytes \<Rightarrow> addr \<Rightarrow> bytes option" where
  "section_text children ns pre key v =
    (let n = ns ! v; hdr = section_header pre key
     in if n_kind n = K_ARRAY
        then map_option concat
               (mapo (\<lambda>i. map_option (\<lambda>c. lit ''[['' @ hdr @ [RBRACK, RBRACK, LF] @ c)
                   (children hdr i)) (ar_items (payload_array (n_as n))))
        else map_option (\<lambda>c. [LBRACK] @ hdr @ [RBRACK, LF] @ c) (children hdr v))"

text \<open>The lines of a table come first, then its sections under their full headers.\<close>

fun children_text ::
    "nat \<Rightarrow> (u64 \<Rightarrow> bytes) \<Rightarrow> node list \<Rightarrow> bytes \<Rightarrow> addr \<Rightarrow> bytes option" where
  "children_text 0 d2s ns pre t = None"
| "children_text (Suc k) d2s ns pre t =
    (let es = t_entries (payload_table (n_as (ns ! t)));
         line = (\<lambda>e. map_option (\<lambda>v. pair_text (key_to_buf (v_bytes (e_key e))) (lit '' = '') (v @ [LF]))
                       (value_text k d2s ns (e_value e)));
         section = (\<lambda>e. section_text (children_text k d2s ns) ns pre (v_bytes (e_key e)) (e_value e))
     in case (mapo line (filter (\<lambda>e. \<not> is_section (ns ! e_value e)) es),
              mapo section (filter (\<lambda>e. is_section (ns ! e_value e)) es)) of
          (Some ls, Some ss) \<Rightarrow> Some (concat ls @ concat ss)
        | _ \<Rightarrow> None)"

text \<open>An emitter writes a text when both run out of fuel or the buffer renders the text.\<close>

abbreviation (input) writes :: "ebuf \<Rightarrow> bytes option \<Rightarrow> ebuf option \<Rightarrow> bool" where
  "writes b t r \<equiv> rel_option (renders b) t r"

lemma writes_map:
  "writes b t r \<Longrightarrow> (\<And>s b'. renders b s b' \<Longrightarrow> renders b (h s) (g b')) \<Longrightarrow>
   writes b (map_option h t) (map_option g r)"
  by (cases t; cases r) auto

lemma writes_after:
  assumes "renders b s b1" "writes b1 t r"
  shows "writes b (map_option (\<lambda>x. s @ x) t) r"
  using assms renders_trans by (cases t; cases r) auto

lemma emit_rest_writes:
  assumes sep: "\<And>b. renders b s (sep b)" and f: "\<And>b x. x \<in> set xs \<Longrightarrow> writes b (g x) (f b x)"
  shows "writes b (map_option (\<lambda>ys. concat (map (\<lambda>y. s @ y) ys)) (mapo g xs)) (emit_rest sep f b xs)"
  using f
proof (induction xs arbitrary: b)
  case (Cons x xs)
  have fx: "writes (sep b) (g x) (f (sep b) x)" by (rule Cons.prems) simp
  show ?case
  proof (cases "g x")
    case None
    then show ?thesis using fx by (cases "f (sep b) x") auto
  next
    case (Some y)
    then obtain b1 where b1: "f (sep b) x = Some b1" and y: "renders (sep b) y b1"
      using fx by (cases "f (sep b) x") auto
    from renders_trans [OF sep y] have pre: "renders b (s @ y) b1" .
    have "writes b1 (map_option (\<lambda>ys. concat (map (\<lambda>y. s @ y) ys)) (mapo g xs)) (emit_rest sep f b1 xs)"
      using Cons.prems by (intro Cons.IH) simp
    from writes_after [OF pre this] show ?thesis
      by (simp add: Some b1 option.map_comp comp_def)
  qed
qed (simp add: renders_refl)

lemma emit_list_writes:
  assumes sep: "\<And>b. renders b s (sep b)" and f: "\<And>b x. x \<in> set xs \<Longrightarrow> writes b (g x) (f b x)"
  shows "writes b (map_option (joined s) (mapo g xs)) (emit_list sep f b xs)"
proof (cases xs)
  case (Cons x xs')
  have fx: "writes b (g x) (f b x)" by (rule f) (simp add: Cons)
  show ?thesis
  proof (cases "g x")
    case None
    then show ?thesis using fx by (cases "f b x") (auto simp: Cons)
  next
    case (Some y)
    then obtain b1 where b1: "f b x = Some b1" and y: "renders b y b1" using fx by (cases "f b x") auto
    have "writes b1 (map_option (\<lambda>ys. concat (map (\<lambda>y. s @ y) ys)) (mapo g xs')) (emit_rest sep f b1 xs')"
      using f by (intro emit_rest_writes [OF sep]) (simp add: Cons)
    from writes_after [OF y this] show ?thesis by (simp add: Cons Some b1 option.map_comp comp_def)
  qed
qed (simp add: renders_refl)

lemma emit_seq_writes:
  assumes "\<And>b x. x \<in> set xs \<Longrightarrow> writes b (g x) (f b x)"
  shows "writes b (map_option concat (mapo g xs)) (emit_seq f b xs)"
  using assms
proof (induction xs arbitrary: b)
  case (Cons x xs)
  have fx: "writes b (g x) (f b x)" by (rule Cons.prems) simp
  show ?case
  proof (cases "g x")
    case None
    then show ?thesis using fx by (cases "f b x") auto
  next
    case (Some y)
    then obtain b1 where b1: "f b x = Some b1" and y: "renders b y b1" using fx by (cases "f b x") auto
    have "writes b1 (map_option concat (mapo g xs)) (emit_seq f b1 xs)"
      using Cons.prems by (intro Cons.IH) simp
    from writes_after [OF y this] show ?thesis by (simp add: Some b1 option.map_comp comp_def)
  qed
qed (simp add: renders_refl)

text \<open>Steps of which some do nothing: the text is that of the others.\<close>

lemma emit_seq_filter:
  "emit_seq (\<lambda>b x. if P x then f b x else Some b) b xs = emit_seq f b (filter P xs)"
  "emit_seq (\<lambda>b x. if P x then Some b else f b x) b xs = emit_seq f b (filter (\<lambda>x. \<not> P x) xs)"
  by (induction xs arbitrary: b) (auto split: option.split)

lemma emit_brackets:
  assumes "\<And>b. writes b (map_option h t) (f b)"
  shows "writes b (map_option (\<lambda>ts. in_braces l r (h ts)) t) (map_option (\<lambda>b. eb_c b r) (f (eb_c b l)))"
proof -
  have "writes (eb_c b l) (map_option (\<lambda>s. s @ [r]) (map_option h t)) (map_option (\<lambda>b. eb_c b r) (f (eb_c b l)))"
    by (rule writes_map [OF assms]) (rule renders_trans [OF _ eb_c_renders])
  from writes_after [OF eb_c_renders this] show ?thesis
    by (simp add: option.map_comp comp_def in_braces_def)
qed

lemma emit_pair_writes:
  assumes "\<And>b. writes b t (ev b)"
  shows "writes b (map_option (pair_text (key_to_buf key) (lit s)) t) (ev (eb_str (emit_key b key) s))"
  using writes_after [OF renders_trans [OF emit_key_renders eb_str_renders] assms, of b key s]
  by (simp add: pair_text_def [abs_def])

lemma emit_value_writes: "writes b (value_text k d2s ns i) (emit_value k d2s ns b i)"
proof (induction k arbitrary: b i)
  case (Suc k)
  have sep: "renders b (lit '', '') (eb_sep2 b)" for b
    using eb_sep2_renders [of b] by (simp add: lit_def)
  have arr: "writes b (map_option (\<lambda>ts. in_braces LBRACK RBRACK (joined (lit '', '') ts)) (mapo (value_text k d2s ns) xs))
      (map_option (\<lambda>b. eb_c b RBRACK) (emit_list eb_sep2 (emit_value k d2s ns) (eb_c b LBRACK) xs))" for b xs
    by (intro emit_brackets emit_list_writes sep Suc.IH)
  have tbl: "writes b (map_option (\<lambda>ts. in_braces LBRACE RBRACE (joined (lit '', '') ts))
              (mapo (\<lambda>e. map_option (pair_text (key_to_buf (v_bytes (e_key e))) (lit '' = ''))
                      (value_text k d2s ns (e_value e))) (t_entries t)))
      (emit_inline_table (emit_value k d2s ns) b t)" for b t
    unfolding emit_inline_table_def
    by (intro emit_brackets emit_list_writes eb_str_renders emit_pair_writes Suc.IH)
  show ?case
    using arr tbl
    by (cases "n_kind (ns ! i)")
      (simp_all add: Let_def emit_string_renders emit_i64_renders emit_float_renders emit_dt_renders eb_str_renders)
qed simp

subsection \<open>The emitted document\<close>

lemma renders_fail:
  assumes "eb_avail b < 6 * length s + 260"
  shows "renders b s (b\<lparr>eb_st := ERR_ALLOC\<rparr>)"
  using assms by (simp add: renders_def eb_ok_def roomy_def)

lemma emit_seq_renders:
  assumes "mapo g xs = Some ys"
    and "\<And>b x s. x \<in> set xs \<Longrightarrow> g x = Some s \<Longrightarrow> \<exists>b'. f b x = Some b' \<and> renders b s b'"
  shows "\<exists>b'. emit_seq f b xs = Some b' \<and> renders b (concat ys) b'"
  using assms
proof (induction xs arbitrary: b ys)
  case (Cons x xs)
  obtain y ys' where y: "g x = Some y" and ys': "mapo g xs = Some ys'" and ys: "ys = y # ys'"
    using Cons.prems(1) by (auto split: option.splits)
  obtain b1 where b1: "f b x = Some b1" "renders b y b1" using Cons.prems(2) [of x y b] y by auto
  obtain b2 where "emit_seq f b1 xs = Some b2" "renders b1 (concat ys') b2"
    using Cons.IH [OF ys', of b1] Cons.prems(2) by auto
  then show ?case using b1 renders_trans by (auto simp: ys)
qed (simp add: renders_refl)

lemma section_header_length:
  "length pre + length key \<le> length (section_header pre key)"
  using key_to_buf_length [of key] by (simp add: section_header_def)

lemma emit_header_renders:
  "renders b (lit ''[['' @ hdr @ [RBRACK, RBRACK, LF])
     (eb_put (eb_put (eb_str b ''[['') hdr) [RBRACK, RBRACK, LF])"
  "renders b ([LBRACK] @ hdr @ [RBRACK, LF]) (eb_put (eb_put (eb_c b LBRACK) hdr) [RBRACK, LF])"
  by (rule renders_trans [OF eb_str_renders renders_trans [OF eb_put_renders eb_put_renders]],
      rule renders_trans [OF eb_c_renders renders_trans [OF eb_put_renders eb_put_renders]])

lemma emit_section_renders:
  assumes tx: "section_text ct ns pre key v = Some s"
    and aot: "n_kind (ns ! v) = K_ARRAY \<Longrightarrow> ar_items (payload_array (n_as (ns ! v))) \<noteq> []"
    and ch: "\<And>b hdr i c. i = v \<and> n_kind (ns ! v) \<noteq> K_ARRAY
        \<or> n_kind (ns ! v) = K_ARRAY \<and> i \<in> set (ar_items (payload_array (n_as (ns ! v)))) \<Longrightarrow>
      ct hdr i = Some c \<Longrightarrow> \<exists>b'. em b hdr i = Some b' \<and> renders b c b'"
  shows "\<exists>b'. emit_section em ns b pre key v = Some b' \<and> renders b s b'"
proof -
  let ?hdr = "section_header pre key" let ?items = "ar_items (payload_array (n_as (ns ! v)))"
  have "length ?hdr \<le> length s"
  proof (cases "n_kind (ns ! v) = K_ARRAY")
    case True
    then show ?thesis using tx aot [OF True]
      by (cases ?items) (auto simp: section_text_def Let_def split: option.splits)
  next
    case False
    then show ?thesis using tx by (auto simp: section_text_def Let_def)
  qed
  then have fail: "renders b s (b\<lparr>eb_st := ERR_ALLOC\<rparr>)" if "length pre + key_buf_cap key + 2 > eb_avail b"
    using that section_header_length [of pre key] by (intro renders_fail) (simp add: key_buf_cap_def)
  show ?thesis
  proof (cases "length pre + key_buf_cap key + 2 > 512 \<and> length pre + key_buf_cap key + 2 > eb_avail b")
    case True
    then show ?thesis using fail by (simp add: emit_section_def Let_def)
  next
    case room: False
    show ?thesis
    proof (cases "n_kind (ns ! v) = K_ARRAY")
      case True
      obtain ys where ys: "mapo (\<lambda>i. map_option (\<lambda>c. lit ''[['' @ ?hdr @ [RBRACK, RBRACK, LF] @ c) (ct ?hdr i)) ?items = Some ys"
        and s: "s = concat ys" using tx True by (auto simp: section_text_def Let_def)
      have "\<exists>b'. emit_seq (\<lambda>b item. em (eb_put (eb_put (eb_str b ''[['') ?hdr) [RBRACK, RBRACK, LF]) ?hdr item) b ?items
          = Some b' \<and> renders b (concat ys) b'"
      proof (rule emit_seq_renders [OF ys])
        fix b i t assume i: "i \<in> set ?items"
          and "map_option (\<lambda>c. lit ''[['' @ ?hdr @ [RBRACK, RBRACK, LF] @ c) (ct ?hdr i) = Some t"
        then obtain c where c: "ct ?hdr i = Some c" and t: "t = (lit ''[['' @ ?hdr @ [RBRACK, RBRACK, LF]) @ c" by auto
        let ?b1 = "eb_put (eb_put (eb_str b ''[['') ?hdr) [RBRACK, RBRACK, LF]"
        obtain b' where "em ?b1 ?hdr i = Some b'" "renders ?b1 c b'" using ch [OF _ c, of ?b1] True i by auto
        then show "\<exists>b'. em ?b1 ?hdr i = Some b' \<and> renders b t b'"
          using renders_trans [OF emit_header_renders(1)] by (auto simp: t)
      qed
      then show ?thesis by (simp only: emit_section_def Let_def if_not_P [OF room] if_P [OF True] s)
    next
      case False
      obtain c where c: "ct ?hdr v = Some c" and s: "s = ([LBRACK] @ ?hdr @ [RBRACK, LF]) @ c"
        using tx False by (auto simp: section_text_def Let_def)
      let ?b1 = "eb_put (eb_put (eb_c b LBRACK) ?hdr) [RBRACK, LF]"
      obtain b' where "em ?b1 ?hdr v = Some b'" "renders ?b1 c b'" using ch [OF _ c, of ?b1] False by auto
      then show ?thesis
        using renders_trans [OF emit_header_renders(2)]
        by (auto simp only: emit_section_def Let_def if_not_P [OF room] if_not_P [OF False] s)
    qed
  qed
qed

lemma emit_children_renders:
  assumes ok: "nodes_ok m ns"
  shows "t < length ns \<Longrightarrow> n_kind (ns ! t) = K_TABLE \<Longrightarrow> children_text k d2s ns pre t = Some s \<Longrightarrow>
    \<exists>b'. emit_table_children k d2s ns b pre t = Some b' \<and> renders b s b'"
proof (induction k arbitrary: t pre s b)
  case (Suc k)
  let ?es = "t_entries (payload_table (n_as (ns ! t)))"
  let ?line = "\<lambda>e. map_option (\<lambda>v. pair_text (key_to_buf (v_bytes (e_key e))) (lit '' = '') (v @ [LF]))
                       (value_text k d2s ns (e_value e))"
  let ?sec = "\<lambda>e. section_text (children_text k d2s ns) ns pre (v_bytes (e_key e)) (e_value e)"
  obtain ls ss where ls: "mapo ?line (filter (\<lambda>e. \<not> is_section (ns ! e_value e)) ?es) = Some ls"
    and ss: "mapo ?sec (filter (\<lambda>e. is_section (ns ! e_value e)) ?es) = Some ss"
    and s: "s = concat ls @ concat ss"
    using Suc.prems(3) by (auto simp: Let_def split: option.splits)
  have line: "writes b (?line e) (emit_line (emit_value k d2s ns) b e)" for b e
  proof -
    have "writes b (map_option (\<lambda>x. x @ [LF]) (map_option (pair_text (key_to_buf (v_bytes (e_key e))) (lit '' = ''))
        (value_text k d2s ns (e_value e)))) (emit_line (emit_value k d2s ns) b e)"
      unfolding emit_line_def
      by (rule writes_map [OF emit_pair_writes [OF emit_value_writes]]) (rule renders_trans [OF _ eb_c_renders])
    then show ?thesis by (simp add: option.map_comp comp_def pair_text_def)
  qed
  obtain b1 where b1: "emit_seq (emit_line (emit_value k d2s ns)) b (filter (\<lambda>e. \<not> is_section (ns ! e_value e)) ?es) = Some b1"
    "renders b (concat ls) b1"
    using emit_seq_renders [OF ls, of "emit_line (emit_value k d2s ns)" b] line
    by (metis (no_types, lifting) option.rel_cases option.inject option.distinct(1))
  have sec: "\<exists>b'. emit_section (emit_table_children k d2s ns) ns b pre (v_bytes (e_key e)) (e_value e) = Some b'
      \<and> renders b x b'"
    if e: "e \<in> set (filter (\<lambda>e. is_section (ns ! e_value e)) ?es)" and x: "?sec e = Some x" for b e x
  proof (rule emit_section_renders [OF x])
    have v: "e_value e < length ns" and sec: "is_section (ns ! e_value e)"
      using node_ok_table(4) [OF ok Suc.prems(1,2)] e by auto
    show "ar_items (payload_array (n_as (ns ! e_value e))) \<noteq> []" if "n_kind (ns ! e_value e) = K_ARRAY"
      using node_ok_array(3) [OF ok v that] sec that by (simp add: is_section_def)
    fix b hdr i c
    assume i: "i = e_value e \<and> n_kind (ns ! e_value e) \<noteq> K_ARRAY
        \<or> n_kind (ns ! e_value e) = K_ARRAY \<and> i \<in> set (ar_items (payload_array (n_as (ns ! e_value e))))"
      and c: "children_text k d2s ns hdr i = Some c"
    have "i < length ns \<and> n_kind (ns ! i) = K_TABLE"
      using i sec v node_ok_array(2,3) [OF ok v] by (auto simp: is_section_def split: if_splits)
    then show "\<exists>b'. emit_table_children k d2s ns b hdr i = Some b' \<and> renders b c b'"
      using Suc.IH [OF _ _ c] by blast
  qed
  have "\<exists>b2. emit_seq (\<lambda>b e. emit_section (emit_table_children k d2s ns) ns b pre (v_bytes (e_key e)) (e_value e))
      b1 (filter (\<lambda>e. is_section (ns ! e_value e)) ?es) = Some b2 \<and> renders b1 (concat ss) b2"
    by (rule emit_seq_renders [OF ss]) (rule sec)
  then obtain b2 where b2: "emit_seq (\<lambda>b e. emit_section (emit_table_children k d2s ns) ns b pre (v_bytes (e_key e)) (e_value e))
      b1 (filter (\<lambda>e. is_section (ns ! e_value e)) ?es) = Some b2" "renders b1 (concat ss) b2" by blast
  show ?case
    using b1 b2 renders_trans [OF b1(2) b2(2)] by (simp add: Let_def emit_seq_filter s)
qed simp

lemma emit_start_spec:
  "eb_avail (emit_start avail) = avail" "eb_ok (emit_start avail)" "eb_bytes (emit_start avail) = []"
  "512 \<le> avail \<Longrightarrow> eb_st (emit_start avail) = ST_OK"
proof -
  have g: "grow_cap 257 256 = 512" by (simp add: grow_cap.simps)
  show "eb_avail (emit_start avail) = avail" "eb_ok (emit_start avail)" "eb_bytes (emit_start avail) = []"
    "512 \<le> avail \<Longrightarrow> eb_st (emit_start avail) = ST_OK"
    by (simp_all add: emit_start_def eb_reserve_def eb_init_def g eb_ok_def)
qed

lemma emit_end_renders:
  assumes r: "renders (emit_start avail) s b" and room: "6 * length s + 512 \<le> avail"
  shows "emit_end b = Emitted ST_OK (Some (s @ [0])) (length s)"
proof -
  have st: "eb_st (emit_start avail) = ST_OK" using room by (intro emit_start_spec(4)) simp
  have "roomy (emit_start avail) (s @ [0])" using room st by (simp add: roomy_def emit_start_spec)
  moreover have "renders (emit_start avail) (s @ [0]) (eb_c b 0)" by (rule renders_trans [OF r eb_c_renders])
  ultimately have "eb_st (eb_c b 0) = ST_OK \<and> eb_bytes (eb_c b 0) = s @ [0]"
    by (simp add: renders_def emit_start_spec)
  moreover have "eb_st b = ST_OK" using r room st by (simp add: renders_def roomy_def emit_start_spec)
  ultimately show ?thesis by (simp add: emit_end_def)
qed

subsection \<open>Fuel\<close>

text \<open>
  Without a cycle there is a rank that falls along every reference; fuel above the rank
  of a node suffices for it.
\<close>

definition ranked :: "node list \<Rightarrow> (addr \<Rightarrow> nat) \<Rightarrow> bool" where
  "ranked ns rk \<longleftrightarrow>
     (\<forall>i < length ns. \<forall>j \<in> payload_refs (n_as (ns ! i)). j < length ns \<and> rk j < rk i)"

lemma mapo_total: "(\<And>x. x \<in> set xs \<Longrightarrow> f x \<noteq> None) \<Longrightarrow> mapo f xs \<noteq> None"
proof (induction xs)
  case (Cons x xs)
  then have "f x \<noteq> None" "mapo f xs \<noteq> None" by simp_all
  then show ?case by auto
qed simp

lemma payload_arms:
  "set (ar_items (payload_array v)) \<subseteq> payload_refs v"
  "e_value ` set (t_entries (payload_table v)) \<subseteq> payload_refs v"
  by (cases v; simp add: empty_array_def empty_table_def)+

lemma ranked_ref:
  "ranked ns rk \<Longrightarrow> i < length ns \<Longrightarrow> j \<in> payload_refs (n_as (ns ! i)) \<Longrightarrow> j < length ns \<and> rk j < rk i"
  by (simp add: ranked_def)

lemma value_text_total:
  assumes "ranked ns rk"
  shows "i < length ns \<Longrightarrow> rk i < k \<Longrightarrow> value_text k d2s ns i \<noteq> None"
proof (induction k arbitrary: i)
  case (Suc k)
  have "value_text k d2s ns j \<noteq> None" if "j \<in> payload_refs (n_as (ns ! i))" for j
    using ranked_ref [OF assms Suc.prems(1) that] Suc.prems(2) by (intro Suc.IH) simp_all
  then have "mapo (value_text k d2s ns) (ar_items (payload_array (n_as (ns ! i)))) \<noteq> None"
    "mapo (\<lambda>e. map_option (f e) (value_text k d2s ns (e_value e))) (t_entries (payload_table (n_as (ns ! i)))) \<noteq> None"
    for f :: "entry \<Rightarrow> bytes \<Rightarrow> bytes"
    by (intro mapo_total; use payload_arms [of "n_as (ns ! i)"] in \<open>auto simp: subset_iff image_iff\<close>)+
  then show ?case by (cases "n_kind (ns ! i)") (simp_all add: Let_def)
qed simp

lemma children_text_total:
  assumes rk: "ranked ns rk"
  shows "t < length ns \<Longrightarrow> rk t < k \<Longrightarrow> children_text k d2s ns pre t \<noteq> None"
proof (induction k arbitrary: t pre)
  case (Suc k)
  have less: "e_value e < length ns \<and> rk (e_value e) < k"
    if "e \<in> set (t_entries (payload_table (n_as (ns ! t))))" for e
    using payload_arms(2) [of "n_as (ns ! t)"] ranked_ref [OF rk Suc.prems(1), of "e_value e"] that Suc.prems(2)
    by (auto simp: subset_iff)
  have sec: "section_text (children_text k d2s ns) ns pre key v \<noteq> None"
    if v: "v < length ns \<and> rk v < k" for key v
  proof -
    have "children_text k d2s ns hdr i \<noteq> None" if "i \<in> set (ar_items (payload_array (n_as (ns ! v))))" for hdr i
      using payload_arms(1) [of "n_as (ns ! v)"] ranked_ref [OF rk, of v i] that v
      by (intro Suc.IH) (auto simp: subset_iff)
    then have "mapo (\<lambda>i. map_option (\<lambda>c. lit ''[['' @ hdr @ [RBRACK, RBRACK, LF] @ c)
          (children_text k d2s ns hdr i)) (ar_items (payload_array (n_as (ns ! v)))) \<noteq> None" for hdr
      by (intro mapo_total) simp
    then show ?thesis using Suc.IH [of v] v by (simp add: section_text_def Let_def)
  qed
  have all: "mapo (\<lambda>e. map_option (f e) (value_text k d2s ns (e_value e)))
      (filter P (t_entries (payload_table (n_as (ns ! t))))) \<noteq> None"
    "mapo (\<lambda>e. section_text (children_text k d2s ns) ns pre (v_bytes (e_key e)) (e_value e))
      (filter P (t_entries (payload_table (n_as (ns ! t))))) \<noteq> None"
    for P and f :: "entry \<Rightarrow> bytes \<Rightarrow> bytes"
    by (intro mapo_total; use less value_text_total [OF rk] sec in auto)+
  obtain ls where "mapo (\<lambda>e. map_option (\<lambda>v. pair_text (key_to_buf (v_bytes (e_key e))) (lit '' = '') (v @ [LF]))
      (value_text k d2s ns (e_value e))) (filter (\<lambda>e. \<not> is_section (ns ! e_value e))
      (t_entries (payload_table (n_as (ns ! t))))) = Some ls"
    using all(1) [of "\<lambda>e v. pair_text (key_to_buf (v_bytes (e_key e))) (lit '' = '') (v @ [LF])"] by blast
  moreover obtain ss where "mapo (\<lambda>e. section_text (children_text k d2s ns) ns pre (v_bytes (e_key e)) (e_value e))
      (filter (\<lambda>e. is_section (ns ! e_value e)) (t_entries (payload_table (n_as (ns ! t))))) = Some ss"
    using all(2) by blast
  ultimately show ?case by (simp add: Let_def)
qed simp

subsection \<open>The text of the JSON emitters\<close>

definition json_text :: "bytes \<Rightarrow> bytes" where
  "json_text s = [DQUOTE] @ concat (map json_escape s) @ [DQUOTE]"

lemma json_body_renders: "renders b (concat (map json_escape s)) (json_body b s)"
proof (induction b s rule: json_body.induct)
  case (1 b s)
  let ?w = "takeWhile (\<lambda>c. \<not> json_needs c) s" and ?r = "dropWhile (\<lambda>c. \<not> json_needs c) s"
  have run: "concat (map json_escape xs) = xs" if "\<forall>c \<in> set xs. \<not> json_needs c" for xs
    using that by (induction xs) (auto simp: json_escape_def json_needs_def short_escape_def)
  have s: "concat (map json_escape s) = ?w @ concat (map json_escape ?r)"
    using run [of ?w] set_takeWhileD
    by (metis (no_types, lifting) concat_append map_append takeWhile_dropWhile_id)
  have run: "renders b ?w (eb_put b ?w)" by (rule eb_put_renders)
  show ?case
  proof (cases ?r)
    case Nil
    then show ?thesis
      using run s by (subst json_body.simps) (cases "s = []"; simp add: Let_def renders_refl Nil)
  next
    case (Cons c cs)
    let ?b2 = "case short_escape c of Some e \<Rightarrow> eb_put (eb_put b ?w) e
      | None \<Rightarrow> if c < 0x20 then eb_put (eb_put b ?w) (u_escape c) else eb_put b ?w"
    have ne: "s \<noteq> []" using Cons by auto
    have "json_needs c" using Cons by (metis hd_dropWhile list.distinct(1) list.sel(1))
    then have "renders (eb_put b ?w) (json_escape c) ?b2"
      by (auto simp: json_escape_def json_needs_def short_escape_def eb_put_renders split: option.split)
    then have "renders b (?w @ json_escape c) ?b2" by (rule renders_trans [OF run])
    from renders_trans [OF this "1.IH" [OF ne refl refl Cons]]
    have "renders b (concat (map json_escape s)) (json_body ?b2 cs)" by (simp add: s Cons)
    then show ?thesis using ne by (subst json_body.simps) (simp add: Cons Let_def)
  qed
qed

lemma json_string_renders: "renders b (json_text s) (json_string b s)"
  unfolding json_text_def json_string_def
  by (rule renders_trans [OF eb_c_renders renders_trans [OF json_body_renders eb_c_renders]])

definition quoted_text :: "bytes \<Rightarrow> bytes" where
  "quoted_text s = [DQUOTE] @ s @ [DQUOTE]"

text \<open>The tagged form of the test suite, and the two dialects' scalars.\<close>

definition tagged :: "string \<Rightarrow> bytes \<Rightarrow> bytes" where
  "tagged ty v = lit ''{\"type\":\"'' @ lit ty @ lit ''\",\"value\":'' @ v @ [RBRACE]"

fun typed_scalar :: "(u64 \<Rightarrow> bytes) \<Rightarrow> kind \<Rightarrow> payload \<Rightarrow> bytes" where
  "typed_scalar d2s K_STRING v = tagged ''string'' (json_text (payload_str v))"
| "typed_scalar d2s K_INTEGER v = tagged ''integer'' (quoted_text (i64_text (payload_int v)))"
| "typed_scalar d2s K_FLOAT v = tagged ''float'' (quoted_text (f64_text d2s (payload_float v)))"
| "typed_scalar d2s K_BOOLEAN v =
     tagged ''bool'' (quoted_text (lit (if payload_bool v then ''true'' else ''false'')))"
| "typed_scalar d2s kd v = tagged (json_type_name kd) (quoted_text (dt_text (payload_dt v) kd))"

fun natural_scalar :: "(u64 \<Rightarrow> bytes) \<Rightarrow> kind \<Rightarrow> payload \<Rightarrow> bytes" where
  "natural_scalar d2s K_STRING v = json_text (payload_str v)"
| "natural_scalar d2s K_INTEGER v = i64_text (payload_int v)"
| "natural_scalar d2s K_FLOAT v =
     (if f64_isnan (payload_float v) \<or> f64_isinf (payload_float v) then lit ''null''
      else f64_text d2s (payload_float v))"
| "natural_scalar d2s K_BOOLEAN v = lit (if payload_bool v then ''true'' else ''false'')"
| "natural_scalar d2s kd v = quoted_text (dt_text (payload_dt v) kd)"

definition member_text :: "bytes \<Rightarrow> bytes \<Rightarrow> bytes" where
  "member_text key t = (json_text key @ [COLON]) @ t"

text \<open>One JSON grammar for both: objects, arrays, and a dialect of scalars.\<close>

fun json_value_text :: "nat \<Rightarrow> (kind \<Rightarrow> payload \<Rightarrow> bytes) \<Rightarrow> node list \<Rightarrow> addr \<Rightarrow> bytes option" where
  "json_value_text 0 sc ns i = None"
| "json_value_text (Suc k) sc ns i =
    (let v = n_as (ns ! i)
     in case n_kind (ns ! i) of
          K_TABLE \<Rightarrow>
            map_option (\<lambda>ts. in_braces LBRACE RBRACE (joined [COMMA] ts))
              (mapo (\<lambda>e. map_option (member_text (v_bytes (e_key e)))
                      (json_value_text k sc ns (e_value e))) (t_entries (payload_table v)))
        | K_ARRAY \<Rightarrow>
            map_option (\<lambda>ts. in_braces LBRACK RBRACK (joined [COMMA] ts))
              (mapo (json_value_text k sc ns) (ar_items (payload_array v)))
        | kd \<Rightarrow> Some (sc kd v))"

lemma json_object_writes:
  assumes "\<And>b i. writes b (vt i) (ev b i)"
  shows "writes b (map_option (\<lambda>ts. in_braces LBRACE RBRACE (joined [COMMA] ts))
      (mapo (\<lambda>e. map_option (member_text (v_bytes (e_key e))) (vt (e_value e))) (t_entries t)))
    (json_object ev b t)"
  unfolding json_object_def member_text_def [abs_def]
  by (intro emit_brackets emit_list_writes eb_c_renders
      writes_after [OF renders_trans [OF json_string_renders eb_c_renders]] assms)

lemma json_array_writes:
  assumes "\<And>b i. writes b (vt i) (ev b i)"
  shows "writes b (map_option (\<lambda>ts. in_braces LBRACK RBRACK (joined [COMMA] ts)) (mapo vt (ar_items a)))
    (json_array ev b a)"
  unfolding json_array_def by (intro emit_brackets emit_list_writes eb_c_renders assms)

lemma emit_json_nat_writes:
  "writes b (json_value_text k (natural_scalar d2s) ns i) (emit_json_nat_value k d2s ns b i)"
proof (induction k arbitrary: b i)
  case (Suc k)
  have dt: "renders b (quoted_text (dt_text dt kd)) (eb_c (emit_dt (eb_c b DQUOTE) dt kd) DQUOTE)" for b dt kd
    unfolding quoted_text_def by (rule renders_trans [OF eb_c_renders renders_trans [OF emit_dt_renders eb_c_renders]])
  show ?case
    using json_object_writes [of "json_value_text k (natural_scalar d2s) ns", OF Suc.IH]
      json_array_writes [of "json_value_text k (natural_scalar d2s) ns", OF Suc.IH]
    by (cases "n_kind (ns ! i)")
      (simp_all add: Let_def json_string_renders emit_i64_renders emit_float_renders eb_str_renders dt)
qed simp

lemma lit_append: "lit (a @ b) = lit a @ lit b"
  by (simp add: lit_def)

lemma emit_json_writes:
  "writes b (json_value_text k (typed_scalar d2s) ns i) (emit_json_value k d2s ns b i)"
proof (induction k arbitrary: b i)
  case (Suc k)
  have str: "renders b (tagged ''string'' (json_text s))
      (eb_c (json_string (eb_str b ''{\"type\":\"string\",\"value\":'') s) RBRACE)" for b s
    using renders_trans [OF eb_str_renders [of b "''{\"type\":\"string\",\"value\":''"]
        renders_trans [OF json_string_renders [of _ s] eb_c_renders [of _ RBRACE]]]
    by (simp add: tagged_def lit_def)
  have tag: "renders b (tagged ty (quoted_text t)) (eb_str b3 ''\"}'')"
    if "renders b (lit ''{\"type\":\"'' @ lit ty @ lit ''\",\"value\":\"'') b2" "renders b2 t b3" for b ty t b2 b3
    using renders_trans [OF renders_trans [OF that] eb_str_renders [of b3 "''\"}''"]]
    by (simp add: tagged_def quoted_text_def lit_def)
  have open_tag: "renders b (lit ''{\"type\":\"'' @ lit ty @ lit ''\",\"value\":\"'')
      (eb_str b (''{\"type\":\"'' @ ty @ ''\",\"value\":\"''))" for b ty
    using eb_str_renders [of b "''{\"type\":\"'' @ ty @ ''\",\"value\":\"''"] by (simp add: lit_def)
  have open3: "renders b (lit ''{\"type\":\"'' @ lit ty @ lit ''\",\"value\":\"'')
      (eb_str (eb_str (eb_str b ''{\"type\":\"'') ty) ''\",\"value\":\"'')" for b ty
    by (rule renders_trans [OF eb_str_renders renders_trans [OF eb_str_renders eb_str_renders]])
  have int: "renders b (tagged ''integer'' (quoted_text (i64_text v)))
      (eb_str (emit_i64 (eb_str b ''{\"type\":\"integer\",\"value\":\"'') v) ''\"}'')" for b v
    using tag [OF open_tag [of b "''integer''"] emit_i64_renders [of _ v]] by simp
  have flt: "renders b (tagged ''float'' (quoted_text (f64_text d2s v)))
      (eb_str (emit_float d2s (eb_str b ''{\"type\":\"float\",\"value\":\"'') v) ''\"}'')" for b v
    using tag [OF open_tag [of b "''float''"] emit_float_renders [of _ d2s v]] by simp
  have bool: "renders b (tagged ''bool'' (quoted_text (lit s)))
      (eb_str (eb_str (eb_str b ''{\"type\":\"bool\",\"value\":\"'') s) ''\"}'')" for b s
    using tag [OF open_tag [of b "''bool''"] eb_str_renders [of _ s]] by simp
  note dt = tag [OF open3 emit_dt_renders]
  show ?case
    using json_object_writes [of "json_value_text k (typed_scalar d2s) ns", OF Suc.IH]
      json_array_writes [of "json_value_text k (typed_scalar d2s) ns", OF Suc.IH]
    by (cases "n_kind (ns ! i)") (simp_all add: Let_def str int flt bool dt)
qed simp

lemma json_value_text_total:
  assumes "ranked ns rk"
  shows "i < length ns \<Longrightarrow> rk i < k \<Longrightarrow> json_value_text k sc ns i \<noteq> None"
proof (induction k arbitrary: i)
  case (Suc k)
  have "json_value_text k sc ns j \<noteq> None" if "j \<in> payload_refs (n_as (ns ! i))" for j
    using ranked_ref [OF assms Suc.prems(1) that] Suc.prems(2) by (intro Suc.IH) simp_all
  then have "mapo (json_value_text k sc ns) (ar_items (payload_array (n_as (ns ! i)))) \<noteq> None"
    "mapo (\<lambda>e. map_option (f e) (json_value_text k sc ns (e_value e))) (t_entries (payload_table (n_as (ns ! i)))) \<noteq> None"
    for f :: "entry \<Rightarrow> bytes \<Rightarrow> bytes"
    by (intro mapo_total; use payload_arms [of "n_as (ns ! i)"] in \<open>auto simp: subset_iff image_iff\<close>)+
  then show ?case by (cases "n_kind (ns ! i)") (simp_all add: Let_def)
qed simp

subsection \<open>Properties\<close>

definition root_ok :: "nat \<Rightarrow> document \<Rightarrow> addr \<Rightarrow> bool" where
  "root_ok m doc r \<longleftrightarrow> nodes_ok m (d_nodes doc) \<and> d_root doc = Some r \<and> r < length (d_nodes doc)
     \<and> n_kind (the_node doc r) = K_TABLE"

text \<open>C5: the TOML emitter returns on every well-formed document without a cycle, and with
  memory for six times the text it hands out exactly the text of the document (the lines of
  a table before its sections, each under its full header) with a terminator behind it.\<close>

theorem emit_document_correct:
  assumes ok: "root_ok m doc r" and rk: "ranked (d_nodes doc) rk" "rk r < fuel"
  shows "\<exists>s. children_text fuel d2s (d_nodes doc) [] r = Some s \<and>
    (6 * length s + 512 \<le> avail \<longrightarrow>
      emit_document fuel d2s avail doc = Some (Emitted ST_OK (Some (s @ [0])) (length s)))"
proof -
  obtain s where s: "children_text fuel d2s (d_nodes doc) [] r = Some s"
    using children_text_total [OF rk(1) _ rk(2)] ok by (fastforce simp: root_ok_def)
  obtain b where b: "emit_table_children fuel d2s (d_nodes doc) (emit_start avail) [] r = Some b"
    "renders (emit_start avail) s b"
    using emit_children_renders [OF _ _ _ s, of m "emit_start avail"] ok by (auto simp: root_ok_def)
  then show ?thesis
    using s ok emit_end_renders [OF b(2)] by (auto simp: emit_document_def root_ok_def)
qed

text \<open>C6: the two JSON emitters return on every document without a cycle and hand out the text
  of one JSON grammar, with tagged scalars in the test-suite dialect and plain ones in the
  natural dialect.\<close>

theorem emit_json_correct:
  assumes root: "d_root doc = Some r" "r < length (d_nodes doc)"
    and rk: "ranked (d_nodes doc) rk" "rk r < fuel"
  shows "\<exists>s n. json_value_text fuel (typed_scalar d2s) (d_nodes doc) r = Some s \<and>
    json_value_text fuel (natural_scalar d2s) (d_nodes doc) r = Some n \<and>
    (6 * length s + 512 \<le> avail \<longrightarrow>
      emit_document_json fuel d2s avail doc = Some (Emitted ST_OK (Some (s @ [0])) (length s))) \<and>
    (6 * length n + 512 \<le> avail \<longrightarrow>
      emit_document_json_natural fuel d2s avail doc = Some (Emitted ST_OK (Some (n @ [0])) (length n)))"
proof -
  obtain s n where s: "json_value_text fuel (typed_scalar d2s) (d_nodes doc) r = Some s"
    and n: "json_value_text fuel (natural_scalar d2s) (d_nodes doc) r = Some n"
    using json_value_text_total [OF rk(1) root(2) rk(2)] by blast
  obtain b where b: "emit_json_value fuel d2s (d_nodes doc) (emit_start avail) r = Some b"
    "renders (emit_start avail) s b"
    using emit_json_writes [of "emit_start avail" fuel d2s "d_nodes doc" r] by (auto simp: s elim: option.rel_cases)
  obtain b' where b': "emit_json_nat_value fuel d2s (d_nodes doc) (emit_start avail) r = Some b'"
    "renders (emit_start avail) n b'"
    using emit_json_nat_writes [of "emit_start avail" fuel d2s "d_nodes doc" r] by (auto simp: n elim: option.rel_cases)
  show ?thesis
    using emit_end_renders [OF b(2)] emit_end_renders [OF b'(2)] s n
    by (auto simp: emit_document_json_def emit_document_json_natural_def root(1) b(1) b'(1))
qed




text \<open>C8: when the block is full to its last byte and cannot grow, the end of an emitter still
  reports success, but without a buffer: the status is not read after the terminator.\<close>

theorem emit_end_null_buffer:
  assumes "eb_st b = ST_OK" "length (eb_bytes b) + 1 = eb_cap b" "eb_avail b = eb_cap b"
  shows "emit_end b = Emitted ST_OK None (length (eb_bytes b) - 1)"
proof -
  have "eb_cap b < grow_cap (length (eb_bytes b) + 2) (eb_cap b)"
    using assms(2) grow_cap_bounds(1) [of "eb_cap b" "length (eb_bytes b) + 2"] by simp
  then have "eb_c b 0 = b\<lparr>eb_st := ERR_ALLOC, eb_p := False\<rparr>"
    using assms by (simp add: eb_c_eq eb_put_def eb_reserve_def Let_def)
  then show ?thesis using assms(1) by (simp add: emit_end_def)
qed

subsection \<open>Witnesses\<close>

text \<open>The document of \<open>a=true\<close>, with the rank of its two nodes.\<close>

definition sample_rank :: "addr \<Rightarrow> nat" where
  "sample_rank i = (if i = 0 then 1 else 0)"

fun sample_check :: "run \<Rightarrow> bool" where
  "sample_check (Done st doc) \<longleftrightarrow> st = ST_OK \<and> d_root doc = Some 0 \<and>
     list_all (\<lambda>i. case n_as (the_node doc i) of
         P_Table t \<Rightarrow> list_all (\<lambda>e. e_value e < length (d_nodes doc) \<and> sample_rank (e_value e) < sample_rank i) (t_entries t)
       | P_Bool x \<Rightarrow> True | _ \<Rightarrow> False) [0..<length (d_nodes doc)]"
| "sample_check _ \<longleftrightarrow> False"

lemma sample_checked: "sample_check (teptris_parse no_floats 100000 (lit ''a=true'') None)"
  by code_simp

lemma sample_doc:
  "\<exists>doc. teptris_parse no_floats 100000 (lit ''a=true'') None = Done ST_OK doc
     \<and> root_ok 6 doc 0 \<and> ranked (d_nodes doc) sample_rank"
proof -
  obtain doc where doc: "teptris_parse no_floats 100000 (lit ''a=true'') None = Done ST_OK doc"
    using sample_ok by blast
  have chk: "sample_check (Done ST_OK doc)" using sample_checked by (simp add: doc)
  have "root_ok 6 doc 0"
    using parse_nodes_ok [OF _ doc] chk nodes_ok_mono [of "length (lit ''a=true'')" "d_nodes doc" 6]
    by (auto simp: root_ok_def root_table_def lit_def)
  moreover have "ranked (d_nodes doc) sample_rank"
    unfolding ranked_def
  proof (intro allI impI ballI)
    fix i j assume i: "i < length (d_nodes doc)" and j: "j \<in> payload_refs (n_as (d_nodes doc ! i))"
    have "\<forall>k \<in> set [0..<length (d_nodes doc)]. case n_as (the_node doc k) of
         P_Table t \<Rightarrow> list_all (\<lambda>e. e_value e < length (d_nodes doc) \<and> sample_rank (e_value e) < sample_rank k) (t_entries t)
       | P_Bool x \<Rightarrow> True | _ \<Rightarrow> False"
      using chk unfolding sample_check.simps list_all_iff by (elim conjE)
    from bspec [OF this, of i] show "j < length (d_nodes doc) \<and> sample_rank j < sample_rank i"
      using i j by (cases "n_as (d_nodes doc ! i)") (auto simp: list_all_iff)
  qed
  ultimately show ?thesis using doc by blast
qed

lemma emit_document_correct_witness:
  "\<exists>doc s. teptris_parse no_floats 100000 (lit ''a=true'') None = Done ST_OK doc \<and>
     children_text 2 (\<lambda>_. []) (d_nodes doc) [] 0 = Some s"
proof -
  obtain doc where doc: "teptris_parse no_floats 100000 (lit ''a=true'') None = Done ST_OK doc"
    "root_ok 6 doc 0" "ranked (d_nodes doc) sample_rank" using sample_doc by blast
  show ?thesis
    using emit_document_correct [OF doc(2,3), of 2 "\<lambda>_. []" 4096] doc(1) by (auto simp: sample_rank_def)
qed

lemma emit_json_correct_witness:
  "\<exists>doc s. teptris_parse no_floats 100000 (lit ''a=true'') None = Done ST_OK doc \<and>
     json_value_text 2 (natural_scalar (\<lambda>_. [])) (d_nodes doc) 0 = Some s"
proof -
  obtain doc where doc: "teptris_parse no_floats 100000 (lit ''a=true'') None = Done ST_OK doc"
    "root_ok 6 doc 0" "ranked (d_nodes doc) sample_rank" using sample_doc by blast
  show ?thesis
    using emit_json_correct [OF _ _ doc(3), of 0 2 "\<lambda>_. []" 4096] doc(1,2)
    by (auto simp: sample_rank_def root_ok_def)
qed


lemma emit_end_null_buffer_witness:
  "emit_end \<lparr>eb_bytes = replicate 511 0x61, eb_cap = 512, eb_st = ST_OK, eb_avail = 512, eb_p = True,
       eb_wild = False\<rparr>
     = Emitted ST_OK None 510"
  using emit_end_null_buffer [of "\<lparr>eb_bytes = replicate 511 0x61, eb_cap = 512, eb_st = ST_OK, eb_avail = 512, eb_p = True,
       eb_wild = False\<rparr>"]
  by simp

end
