(* ===== verification/Round_Trip.thy ===== *)
theory Round_Trip
  imports String_Props Emitter
begin

text \<open>
  What the emitter writes for a string or a key, the parser reads back; the one exception,
  keys with a DEL byte that need double quotes, is shown as well.
\<close>

subsection \<open>Strings\<close>

lemma hex_chars: "list_all (\<lambda>d. is_hex (hex_char d) \<and> hex_digit (hex_char d) = (ucast d :: u32)) (map word_of_nat [0..<16])"
  by code_simp

lemma hex_char_digit:
  assumes "d < 16"
  shows "is_hex (hex_char d)" "hex_digit (hex_char d) = ucast d"
proof -
  have "unat d < 16" using assms by (simp add: word_less_nat_alt)
  then have "d \<in> set (map word_of_nat [0..<16])"
    by (auto simp: image_iff intro!: bexI [of _ "unat d"])
  then show "is_hex (hex_char d)" "hex_digit (hex_char d) = ucast d"
    using hex_chars by (auto simp: list_all_iff)
qed

lemma nibble_sum:
  "(ucast (drop_bit 4 c :: byte) * 16 + ucast (c AND 0xF) :: u32) = ucast c" "drop_bit 4 c < (16 :: byte)"
  "c AND 0xF < (16 :: byte)"
proof -
  have d: "unat (drop_bit 4 c) = unat c div 16" and m: "unat (c AND 0xF) = unat c mod 16"
    using unat_and_mask [of c 4] by (simp_all add: unat_drop mask_eq_exp_minus_1)
  have "unat (ucast (drop_bit 4 c) * 16 + ucast (c AND 0xF) :: u32) = unat c div 16 * 16 + unat c mod 16"
    using unat_lt_2_8 [of c]
    by (simp add: unat_word_ariths unat_ucast_32 d m)
  then show "(ucast (drop_bit 4 c :: byte) * 16 + ucast (c AND 0xF) :: u32) = ucast c"
    unfolding word_unat_eq_iff by (simp add: unat_ucast_32)
  show "drop_bit 4 c < 16" "c AND 0xF < 16"
    using unat_lt_2_8 [of c] by (simp_all add: word_less_nat_alt d m)
qed

lemma read_hex_4:
  assumes "is_hex h" "is_hex l"
  shows "read_hex 4 0 ([0x30, 0x30, h, l] @ r) = LOk (hex_digit h * 16 + hex_digit l) r"
proof -
  have "is_hex 0x30" "hex_digit 0x30 = 0" by (simp_all add: is_hex_iff hex_digit_def)
  then show ?thesis using assms by (simp add: numeral_eq_Suc)
qed

lemma ucast_ucast_byte: "(ucast (ucast (c :: byte) :: u32) :: byte) = c"
  using unat_lt_2_8 [of c] unfolding word_unat_eq_iff by (simp add: unat_ucast_8 unat_ucast_32)

lemma scan_u_escape:
  assumes "c < 0x80"
  shows "scan_basic False (u_escape c @ r) s = scan_basic False r (putch c s)"
proof -
  let ?h = "hex_char (drop_bit 4 c)" and ?l = "hex_char (c AND 0xF)"
  have cp: "(ucast c :: u32) < 0x80" using assms by (simp add: word_less_nat_alt unat_ucast_32)
  have "read_hex 4 0 ([0x30, 0x30, ?h, ?l] @ r) = LOk (ucast c) r"
    using read_hex_4 [of ?h ?l r] hex_char_digit nibble_sum [of c] by simp
  moreover have "utf8_put (ucast c) s = putch c s" using cp by (simp add: utf8_put_def ucast_ucast_byte)
  moreover have "\<not> (0xD800 \<le> (ucast c :: u32) \<and> (ucast c :: u32) \<le> 0xDFFF)" "\<not> 0x10FFFF < (ucast c :: u32)"
    using cp by (auto simp: word_less_nat_alt word_le_nat_alt)
  ultimately have "scan_escape False ([0x75, 0x30, 0x30, ?h, ?l] @ r) s = LOk (putch c s) r"
    by (simp add: scan_escape_def simple_escape_def scan_code_point_def)
  then show ?thesis by (simp add: u_escape_def)
qed

lemma scan_simple_escape:
  assumes "simple_escape e = Some c"
  shows "scan_basic False ([BACKSLASH, e] @ r) s = scan_basic False r (putch c s)"
  using assms by (simp add: scan_escape_def)

lemma scan_basic_escape: "scan_basic False (basic_escape c @ r) s = scan_basic False r (putch c s)"
proof (cases "short_escape c")
  case (Some e)
  then obtain x where "e = [BACKSLASH, x]" "simple_escape x = Some c"
    by (auto simp: short_escape_def simple_escape_def split: if_splits)
  then show ?thesis using Some scan_simple_escape [of x c r s] by (simp add: basic_escape_def)
next
  case None
  show ?thesis
  proof (cases "c < 0x20 \<or> c = DEL")
    case True
    then have "c < 0x80" by (auto simp: word_less_nat_alt)
    then show ?thesis using True None scan_u_escape by (simp add: basic_escape_def)
  next
    case False
    then have "list_all (clean DQUOTE) [c]"
      using None by (auto simp: clean_def is_ctrl_def short_escape_def split: if_splits)
    then show ?thesis using False None scan_basic_clean [of "[c]" False r s] by (simp add: basic_escape_def)
  qed
qed

lemma scan_basic_escapes:
  "scan_basic False (concat (map basic_escape w) @ DQUOTE # r) s = LOk (put_all w s) r"
proof (induction w arbitrary: s)
  case (Cons c w)
  then show ?case using scan_basic_escape [of c "concat (map basic_escape w) @ DQUOTE # r" s] by simp
qed simp

lemma literal_ok_clean: "literal_ok w = list_all (clean SQUOTE) w"
  by (simp add: literal_ok_def clean_def is_ctrl_def list_all_iff)

text \<open>A body that scans to the bytes of a string is decoded to them, unless memory is short.\<close>

lemma put_all_inj: "(\<And>s. put_all a s = put_all b s) \<Longrightarrow> a = b"
proof -
  assume eq: "\<And>s. put_all a s = put_all b s"
  from eq [of "Count 0"] have len: "length a = length b" by (simp add: put_all_Count)
  from eq [of "Buf (replicate (length a) 0) 0"] show "a = b"
    by (subst (asm) (1 2) put_all_Buf) (simp_all add: len)
qed

lemma decode_body_scanned:
  assumes scan: "\<And>s. scan_quoted basic ml (ps_p ps) s = LOk (put_all w s) r"
  shows "decode_body ps basic ml =
    (case doc_alloc ps (length w + 1) of None \<Rightarrow> oom (set_p r ps) | Some ps' \<Rightarrow> Ok w (set_p r ps'))"
proof -
  obtain res where res: "\<And>s. scan_quoted basic ml (ps_p ps) s = into s res"
    and dec: "decode_body ps basic ml =
      (case res of
         LErr st msg p \<Rightarrow> fail_at (set_p p ps) None st msg
       | LOk bs p \<Rightarrow> (case doc_alloc ps (length bs + 1) of
           None \<Rightarrow> oom (set_p p ps)
         | Some ps' \<Rightarrow> Ok bs (set_p p ps')))"
    using decode_body_result [of basic ml ps] by auto
  obtain bs p' where r': "res = LOk bs p'" using res [of "Count 0"] scan [of "Count 0"] by (cases res) auto
  have "p' = r" using res [of "Count 0"] scan [of "Count 0"] by (simp add: r')
  moreover have "bs = w" by (rule put_all_inj) (use res scan in \<open>simp add: r'\<close>)
  ultimately show ?thesis by (simp add: dec r')
qed

text \<open>What a string value gives: a node with the string and the rest, or out of memory.\<close>

fun reads_string :: "bytes \<Rightarrow> bytes \<Rightarrow> addr res \<Rightarrow> bool" where
  "reads_string w r (Ok n ps') \<longleftrightarrow> ps_p ps' = r \<and> n < length (d_nodes (ps_doc ps')) \<and>
     n_kind (d_nodes (ps_doc ps') ! n) = K_STRING \<and> n_as (d_nodes (ps_doc ps') ! n) = P_Str w"
| "reads_string w r (Fail st ps') \<longleftrightarrow> st = ERR_ALLOC"
| "reads_string w r _ \<longleftrightarrow> False"

lemma reads_string_oom: "reads_string w r (oom ps)"
  by (simp add: oom_def fail_at_def Let_def)

lemma doc_alloc_nodes: "doc_alloc ps n = Some ps' \<Longrightarrow> d_nodes (ps_doc ps') = d_nodes (ps_doc ps)"
  by (auto simp: doc_alloc_def set_doc_def split: option.splits)

lemma value_node_reads: "reads_string w (ps_p ps) (value_node ps K_STRING (P_Str w))"
proof (cases "dom_new_node (ps_doc ps) K_STRING")
  case None
  then show ?thesis by (simp add: value_node_def reads_string_oom)
next
  case (Some nd)
  then obtain n doc where nd: "dom_new_node (ps_doc ps) K_STRING = Some (n, doc)" by (cases nd) auto
  then show ?thesis using dom_new_node_eq [OF nd] by (simp add: value_node_def set_doc_def set_payload_def)
qed

lemma quoted_string_reads:
  assumes q: "q = DQUOTE \<or> q = SQUOTE" and p: "ps_p ps = q # body @ q # r"
    and one: "\<not> (3 \<le> length (ps_p ps) \<and> ps_p ps ! 1 = q \<and> ps_p ps ! 2 = q)"
    and scan: "\<And>s. scan_quoted (q = DQUOTE) False (body @ q # r) s = LOk (put_all w s) r"
  shows "reads_string w r (parse_string ps)"
proof -
  let ?ps1 = "set_p (body @ q # r) ps"
  have hd: "hd (ps_p ps) = q" "(if q = DQUOTE then DQUOTE else SQUOTE) = q"
    and adv: "adv 1 (ps_p ps) = body @ q # r"
    using q by (auto simp: p adv_def)
  have ml: "(3 \<le> length (ps_p ps) \<and> ps_p ps ! 1 = q \<and> ps_p ps ! 2 = q) = False" using one by blast
  have eq: "parse_string ps =
    (case try_plain_body q (body @ q # r) of
       Some content \<Rightarrow>
         (case dom_new_node (ps_doc ?ps1) K_STRING of
            None \<Rightarrow> oom ?ps1
          | Some (n, doc) \<Rightarrow>
              (case doc_alloc (set_doc doc ?ps1) (length content + 1) of
                 None \<Rightarrow> oom (set_doc doc ?ps1)
               | Some ps' \<Rightarrow>
                   Ok n (set_p (drop (length content + 1) (body @ q # r))
                          (set_doc (set_payload (ps_doc ps') n (P_Str content)) ps'))))
     | None \<Rightarrow> res_bind (decode_body ?ps1 (q = DQUOTE) False) (\<lambda>str ps. value_node ps K_STRING (P_Str str)))"
    unfolding parse_string_def Let_def hd(1) ml if_False adv hd(2) set_p_simps ..
  show ?thesis
  proof (cases "try_plain_body q (body @ q # r)")
    case (Some v)
    have same: "put_all v s = put_all w s" "drop (length v + 1) (body @ q # r) = r" for s
      using plain_body_scan [OF Some q, of s] scan [of s] by simp_all
    have v: "v = w" by (rule put_all_inj) (rule same(1))
    show ?thesis
    proof (cases "dom_new_node (ps_doc ?ps1) K_STRING")
      case None
      then show ?thesis using Some by (simp add: eq reads_string_oom)
    next
      case (Some nd)
      then obtain n doc where nd: "dom_new_node (ps_doc ?ps1) K_STRING = Some (n, doc)" by (cases nd) auto
      have eq2: "parse_string ps = (case doc_alloc (set_doc doc ?ps1) (length w + 1) of
           None \<Rightarrow> oom (set_doc doc ?ps1)
         | Some ps' \<Rightarrow> Ok n (set_p r (set_doc (set_payload (ps_doc ps') n (P_Str w)) ps')))"
        unfolding eq \<open>try_plain_body q (body @ q # r) = Some v\<close> option.case nd prod.case same(2) unfolding v ..
      show ?thesis
      proof (cases "doc_alloc (set_doc doc ?ps1) (length w + 1)")
        case None
        then show ?thesis by (simp only: eq2 option.case reads_string_oom)
      next
        case (Some ps')
        have "d_nodes (ps_doc ps') = d_nodes doc" using doc_alloc_nodes [OF Some] by (simp add: set_doc_def)
        then show ?thesis
          unfolding eq2 Some option.case
          using dom_new_node_eq [OF nd] by (simp add: set_doc_def set_p_def set_payload_def)
      qed
    qed
  next
    case None
    have "decode_body ?ps1 (q = DQUOTE) False = (case doc_alloc ?ps1 (length w + 1) of
        None \<Rightarrow> oom (set_p r ?ps1) | Some ps' \<Rightarrow> Ok w (set_p r ps'))"
      by (rule decode_body_scanned) (simp add: scan set_p_def)
    then show ?thesis
      using None value_node_reads [of w "set_p r _"]
      by (cases "doc_alloc ?ps1 (length w + 1)") (simp_all add: eq set_p_def oom_def fail_at_def Let_def)
  qed
qed

text \<open>The text of a string: its quote, its body, its quote.\<close>

lemma string_text_parts:
  "\<exists>q body. (q = DQUOTE \<or> q = SQUOTE) \<and> string_text w = q # body @ [q] \<and>
     (body \<noteq> [] \<longrightarrow> hd body \<noteq> q) \<and> (body = [] \<longrightarrow> w = [] \<and> q = SQUOTE) \<and>
     (\<forall>r s. scan_quoted (q = DQUOTE) False (body @ q # r) s = LOk (put_all w s) r)"
proof (cases "literal_ok w")
  case True
  then have "w \<noteq> [] \<longrightarrow> hd w \<noteq> SQUOTE" by (cases w) (auto simp: literal_ok_def)
  then show ?thesis
    using True scan_quoted_clean [of SQUOTE w]
    by (intro exI [of _ SQUOTE] exI [of _ w]) (simp add: string_text_def literal_ok_clean)
next
  case False
  then obtain c cs where w: "w = c # cs" by (cases w) (auto simp: literal_ok_def)
  have "basic_escape c \<noteq> []" "hd (basic_escape c) \<noteq> DQUOTE"
    by (auto simp: basic_escape_def short_escape_def u_escape_def)
  then show ?thesis
    using False scan_basic_escapes [of w]
    by (intro exI [of _ DQUOTE] exI [of _ "concat (map basic_escape w)"])
       (simp add: string_text_def basic_text_def scan_quoted_def w)
qed

text \<open>C9: what \<open>emit_string_value\<close> appends to its buffer when it succeeds, \<open>parse_string\<close> reads
  back: the node it returns is a string with the same bytes, and the cursor stops behind the
  closing quote, whatever follows; only memory may be missing. The one condition is that the
  two quotes of the empty string are not followed by a third.\<close>

theorem string_round_trip:
  assumes st: "eb_st (emit_string_value b w) = ST_OK"
  shows "\<exists>t. eb_bytes (emit_string_value b w) = eb_bytes b @ t \<and>
    (\<forall>ps r. ps_p ps = t @ r \<and> (w = [] \<longrightarrow> \<not> starts SQUOTE r) \<longrightarrow>
       reads_string w r (parse_string ps))"
proof -
  obtain q body where q: "q = DQUOTE \<or> q = SQUOTE" and t: "string_text w = q # body @ [q]"
    and ne: "body \<noteq> [] \<longrightarrow> hd body \<noteq> q" "body = [] \<longrightarrow> w = [] \<and> q = SQUOTE"
    and scan: "\<forall>r s. scan_quoted (q = DQUOTE) False (body @ q # r) s = LOk (put_all w s) r"
    using string_text_parts by blast
  have "reads_string w r (parse_string ps)"
    if p: "ps_p ps = string_text w @ r" and e: "w = [] \<longrightarrow> \<not> starts SQUOTE r" for ps r
  proof (rule quoted_string_reads [OF q])
    show p': "ps_p ps = q # body @ q # r" by (simp add: p t)
    show "\<not> (3 \<le> length (ps_p ps) \<and> ps_p ps ! 1 = q \<and> ps_p ps ! 2 = q)"
      using ne e unfolding p' by (cases body; cases r) (auto simp: starts_def)
  qed (use scan in blast)
  then show ?thesis using emit_string_renders [of b w] st by (auto simp: renders_def)
qed

subsection \<open>Keys\<close>

lemma scan_key_escape:
  assumes "c \<noteq> DEL"
  shows "scan_basic False (key_escape c @ r) s = scan_basic False r (putch c s)"
proof -
  consider (q) "c = DQUOTE \<or> c = BACKSLASH" | (low) "c < 0x20" | (plain) "clean DQUOTE c" "\<not> c < 0x20" "c \<noteq> DQUOTE" "c \<noteq> BACKSLASH"
    using assms by (auto simp: clean_def is_ctrl_def)
  then show ?thesis
  proof cases
    case q
    then show ?thesis
      using scan_simple_escape [of c c r s] by (auto simp: key_escape_def simple_escape_def)
  next
    case low
    then have "c < 0x80" by (auto simp: word_less_nat_alt)
    then show ?thesis using low scan_u_escape by (auto simp: key_escape_def)
  next
    case plain
    then show ?thesis using scan_basic_clean [of "[c]" False r s] by (simp add: key_escape_def)
  qed
qed

lemma scan_key_escapes:
  "DEL \<notin> set w \<Longrightarrow> scan_basic False (concat (map key_escape w) @ r) s = scan_basic False r (put_all w s)"
proof (induction w arbitrary: s)
  case (Cons c w)
  then show ?case using scan_key_escape [of c "concat (map key_escape w) @ r" s] by simp
qed simp

lemma barekey_not_DEL: "is_barekey c \<Longrightarrow> c \<noteq> DEL \<and> c \<noteq> SQUOTE \<and> c \<noteq> DQUOTE"
  by (auto simp: is_barekey_iff)

lemma key_to_buf_cases:
  assumes "DEL \<notin> set key"
  shows "key \<noteq> [] \<and> list_all is_barekey key \<and> key_to_buf key = key
    \<or> (\<exists>q body. (q = DQUOTE \<or> q = SQUOTE) \<and> key_to_buf key = q # body @ [q] \<and>
         (\<forall>r s. scan_quoted (q = DQUOTE) False (body @ q # r) s = LOk (put_all key s) r))"
proof (cases "key \<noteq> [] \<and> list_all is_barekey key")
  case True
  then show ?thesis by (simp add: key_to_buf_def)
next
  case False
  show ?thesis
  proof (cases "literal_ok key")
    case True
    then show ?thesis
      using False scan_quoted_clean [of SQUOTE key]
      by (intro disjI2 exI [of _ SQUOTE] exI [of _ key]) (simp add: key_to_buf_def literal_ok_clean)
  next
    case lit: False
    then show ?thesis
      using False scan_key_escapes [OF assms]
      by (intro disjI2 exI [of _ DQUOTE] exI [of _ "concat (map key_escape key)"])
         (auto simp: key_to_buf_def scan_quoted_def)
  qed
qed

text \<open>What a key part gives: the key and the rest, or out of memory.\<close>

fun reads_key :: "bytes \<Rightarrow> bytes \<Rightarrow> view res \<Rightarrow> bool" where
  "reads_key key r (Ok v ps') \<longleftrightarrow> v_bytes v = key \<and> ps_p ps' = r"
| "reads_key key r (Fail st ps') \<longleftrightarrow> st = ERR_ALLOC"
| "reads_key key r _ \<longleftrightarrow> False"

lemma reads_key_oom: "reads_key key r (oom ps)"
  by (simp add: oom_def fail_at_def Let_def)

lemma quoted_key_reads:
  assumes q: "q = DQUOTE \<or> q = SQUOTE" and p: "ps_p ps = q # body @ q # r"
    and scan: "\<And>s. scan_quoted (q = DQUOTE) False (body @ q # r) s = LOk (put_all key s) r"
  shows "reads_key key r (quoted_key ps)"
proof -
  let ?ps1 = "set_p (body @ q # r) ps"
  have hd: "(if hd (ps_p ps) = DQUOTE then DQUOTE else SQUOTE) = q" "(hd (ps_p ps) = DQUOTE) = (q = DQUOTE)"
    and adv: "adv 1 (ps_p ps) = body @ q # r"
    using q by (auto simp: p adv_def)
  have qk: "quoted_key ps =
    (case try_plain_body q (body @ q # r) of
       Some content \<Rightarrow>
         (case doc_alloc ?ps1 (length content + 1) of
            None \<Rightarrow> oom ?ps1
          | Some ps' \<Rightarrow> Ok (View None content) (set_p (adv (length content + 1) (body @ q # r)) ps'))
     | None \<Rightarrow> res_bind (decode_body ?ps1 (q = DQUOTE) False) (\<lambda>str ps. Ok (View None str) ps))"
    unfolding quoted_key_def Let_def hd(1) unfolding adv hd(2) set_p_simps ..
  show ?thesis
  proof (cases "try_plain_body q (body @ q # r)")
    case (Some w)
    have same: "put_all w s = put_all key s" "drop (length w + 1) (body @ q # r) = r" for s
      using plain_body_scan [OF Some q, of s] scan [of s] by simp_all
    have w: "w = key" by (rule put_all_inj) (rule same(1))
    show ?thesis
      using Some same(2) by (simp add: qk w reads_key_oom adv_def split: option.split)
  next
    case None
    have "decode_body ?ps1 (q = DQUOTE) False = (case doc_alloc ?ps1 (length key + 1) of
        None \<Rightarrow> oom (set_p r ?ps1) | Some ps' \<Rightarrow> Ok key (set_p r ps'))"
      by (rule decode_body_scanned) (simp add: scan set_p_def)
    then have "reads_key key r (res_bind (decode_body ?ps1 (q = DQUOTE) False) (\<lambda>str ps. Ok (View None str) ps))"
      by (cases "doc_alloc ?ps1 (length key + 1)") (simp_all add: set_p_def oom_def fail_at_def Let_def)
    then show ?thesis using None by (simp add: qk)
  qed
qed

text \<open>C10: a key without a DEL byte is written so that the key parser reads it back: bare,
  between single quotes or between double quotes, the part has the bytes of the key and
  the cursor stops behind it; only memory for the copy may be missing.\<close>

theorem key_round_trip:
  assumes key: "DEL \<notin> set key" and p: "ps_p ps = key_to_buf key @ r"
    and r: "r = [] \<or> \<not> is_barekey (hd r)"
  shows "reads_key key r (key_part ps)"
  using key_to_buf_cases [OF key]
proof (rule disjE)
  assume "key \<noteq> [] \<and> list_all is_barekey key \<and> key_to_buf key = key"
  then have bare: "key \<noteq> []" "list_all is_barekey key" "key_to_buf key = key" by simp_all
  have all: "\<forall>c \<in> set key. is_barekey c" using bare(2) by (simp add: list_all_iff)
  have "takeWhile is_barekey r = []" "dropWhile is_barekey r = r" using r by (cases r; simp)+
  then have "takeWhile is_barekey (key @ r) = key" "dropWhile is_barekey (key @ r) = r"
    using all by (simp_all add: takeWhile_append2 dropWhile_append2)
  then show ?thesis
    using p bare barekey_not_DEL [of "hd key"] by (cases key) (auto simp: key_part_def bare_key_def)
next
  assume "\<exists>q body. (q = DQUOTE \<or> q = SQUOTE) \<and> key_to_buf key = q # body @ [q] \<and>
         (\<forall>r s. scan_quoted (q = DQUOTE) False (body @ q # r) s = LOk (put_all key s) r)"
  then obtain q body where q: "q = DQUOTE \<or> q = SQUOTE" and buf: "key_to_buf key = q # body @ [q]"
    and scan: "\<forall>r s. scan_quoted (q = DQUOTE) False (body @ q # r) s = LOk (put_all key s) r" by blast
  have p': "ps_p ps = q # body @ q # r" by (simp add: p buf)
  have "key_part ps = quoted_key ps" using q by (auto simp: key_part_def p')
  then show ?thesis using quoted_key_reads [OF q p'] scan by simp
qed

text \<open>C11: a key with a DEL byte is written between double quotes with the byte as it is, which
  the key parser refuses: such a document does not survive emission.\<close>

theorem key_with_DEL_unreadable:
  assumes "DEL \<in> set key" "ps_p ps = key_to_buf key @ r"
  shows "\<exists>ps'. key_part ps = Fail ERR_SYNTAX ps'"
proof -
  have nb: "\<not> list_all is_barekey key" and nl: "\<not> literal_ok key"
    using assms(1) barekey_not_DEL by (auto simp: list_all_iff literal_ok_def)
  obtain a b where key: "key = a @ DEL # b" and a: "DEL \<notin> set a" using split_list_first [OF assms(1)] by blast
  let ?body = "concat (map key_escape key) @ DQUOTE # r"
  have p: "ps_p ps = DQUOTE # ?body" using assms(2) nb nl by (simp add: key_to_buf_def)
  have esc: "key_escape DEL = [DEL]" by (simp add: key_escape_def)
  have scan: "\<exists>msg q. scan_quoted True False ?body s = LErr ERR_SYNTAX msg q" for s
    using scan_key_escapes [OF a, of "DEL # concat (map key_escape b) @ DQUOTE # r" s]
    by (simp add: key esc scan_quoted_def is_ctrl_def)
  have plain: "try_plain_body DQUOTE ?body = None"
  proof (rule ccontr)
    assume "try_plain_body DQUOTE ?body \<noteq> None"
    then obtain w where "try_plain_body DQUOTE ?body = Some w" by auto
    from plain_body_scan [OF this, of "Count 0"] scan [of "Count 0"] show False by auto
  qed
  have "\<exists>ps'. decode_body (set_p ?body ps) True False = Fail ERR_SYNTAX ps'"
    using scan [of "Count 0"] by (auto simp: decode_body_def fail_at_def Let_def)
  then show ?thesis
    using plain by (auto simp: key_part_def p quoted_key_def adv_def)
qed

lemma string_round_trip_witness:
  "reads_string [DEL, 0x61] (lit '' # x'') (parse_string (set_p
     (drop 4 (eb_bytes (emit_string_value (eb_put (eb_init 4096) (lit ''k = '')) [DEL, 0x61])) @ lit '' # x'')
     (init_parser (new_document 4096 512) [] 0)))"
proof -
  let ?b = "eb_put (eb_init 4096) (lit ''k = '')"
  have "eb_st (emit_string_value ?b [DEL, 0x61]) = ST_OK" "length (eb_bytes ?b) = 4" by code_simp+
  with string_round_trip [of ?b "[DEL, 0x61]"] obtain t where
    t: "drop 4 (eb_bytes (emit_string_value ?b [DEL, 0x61])) = t"
    "\<forall>ps r. ps_p ps = t @ r \<longrightarrow> reads_string [DEL, 0x61] r (parse_string ps)" by auto
  show ?thesis unfolding t(1) by (rule t(2) [rule_format]) (simp add: set_p_def)
qed

lemma key_round_trip_witness:
  "reads_key (lit ''a'') (lit ''=1'') (key_part (init_parser (new_document 4096 512) (lit ''a=1'') 0))"
proof -
  have "ps_p (init_parser (new_document 4096 512) (lit ''a=1'') 0) = key_to_buf (lit ''a'') @ lit ''=1''"
    "DEL \<notin> set (lit ''a'')" "\<not> is_barekey (hd (lit ''=1''))"
    by code_simp+
  then show ?thesis using key_round_trip [of "lit ''a''" _ "lit ''=1''"] by blast
qed

lemma key_with_DEL_unreadable_witness:
  "\<exists>ps'. key_part (init_parser (new_document 4096 512) ([DQUOTE, DEL, DQUOTE] @ lit '' = 1'') 0)
     = Fail ERR_SYNTAX ps'"
proof -
  have "ps_p (init_parser (new_document 4096 512) ([DQUOTE, DEL, DQUOTE] @ lit '' = 1'') 0)
      = key_to_buf [DEL] @ lit '' = 1''"
    by code_simp
  then show ?thesis using key_with_DEL_unreadable [of "[DEL]"] by auto
qed

end
