(* ===== verification/Number_Props.thy ===== *)
theory Number_Props
  imports Emit_Buf Wellformed Lex_Suffix
begin

text \<open>
  The integers of the number parser: the overflow test of \<open>mag_from\<close>, the value and the range
  check of decimal integers on the plain and on the slow path, and the emitted form of
  every 64-bit integer, which reads back as that integer.
\<close>

subsection \<open>The value of a digit run\<close>

definition digits_value :: "nat \<Rightarrow> bytes \<Rightarrow> nat" where
  "digits_value radix w = foldl (\<lambda>v c. v * radix + unat (hexval c)) 0 w"

lemma digits_value_foldl:
  "foldl (\<lambda>v c. v * radix + unat (hexval c)) a w = a * radix ^ length w + digits_value radix w"
proof (induction w arbitrary: a)
  case (Cons c w)
  have "digits_value radix (c # w) = unat (hexval c) * radix ^ length w + digits_value radix w"
    using Cons [of "unat (hexval c)"] by (simp add: digits_value_def)
  then show ?case using Cons [of "a * radix + unat (hexval c)"] by (simp add: algebra_simps)
qed (simp add: digits_value_def)

lemma digits_value_Cons:
  "digits_value radix (c # w) = unat (hexval c) * radix ^ length w + digits_value radix w"
  using digits_value_foldl [of radix "unat (hexval c)" w] by (simp add: digits_value_def)

lemma hexval_less: "unat (hexval c) < 2 ^ 32"
  using unat_lt_2_32 [of "hexval c"] by simp

text \<open>One step of the Horner loop overflows exactly when the test says so.\<close>

lemma overflow_test:
  fixes v d r :: u64
  assumes r: "0 < unat r"
  shows "v > (0xFFFFFFFFFFFFFFFF - d) div r \<longleftrightarrow> 2 ^ 64 \<le> unat v * unat r + unat d"
proof -
  have max: "unat (0xFFFFFFFFFFFFFFFF - d) = 2 ^ 64 - 1 - unat d"
    using unat_sub [of d "0xFFFFFFFFFFFFFFFF"] unat_lt_2_64 [of d] by (simp add: word_le_nat_alt)
  have "v > (0xFFFFFFFFFFFFFFFF - d) div r \<longleftrightarrow> (2 ^ 64 - 1 - unat d) div unat r < unat v"
    by (simp add: word_less_nat_alt unat_div max)
  also have "\<dots> \<longleftrightarrow> 2 ^ 64 - 1 - unat d < unat v * unat r"
    using r by (simp add: div_less_iff_less_mult)
  also have "\<dots> \<longleftrightarrow> 2 ^ 64 \<le> unat v * unat r + unat d"
    using unat_lt_2_64 [of d] by simp linarith
  finally show ?thesis .
qed

lemma digits_value_grows: "a * radix ^ length w \<le> foldl (\<lambda>v c. v * radix + unat (hexval c)) a w"
  by (simp add: digits_value_foldl)

lemma mag_from_foldl:
  assumes "0 < unat radix"
  shows "mag_from v w radix =
    (let m = foldl (\<lambda>v c. v * unat radix + unat (hexval c)) (unat v) w
     in if m < 2 ^ 64 then Some (of_nat m) else None)"
proof (induction w arbitrary: v)
  case Nil
  show ?case using unat_lt_2_64 [of v] by simp
next
  case (Cons c cs)
  let ?d = "ucast (hexval c) :: u64" and ?r = "ucast radix :: u64"
  let ?m = "unat v * unat radix + unat (hexval c)"
  have u: "unat ?d = unat (hexval c)" "unat ?r = unat radix"
    using unat_lt_2_32 [of "hexval c"] unat_lt_2_32 [of radix]
    by (simp_all add: unsigned_ucast_eq take_bit_eq_mod)
  show ?case
  proof (cases "2 ^ 64 \<le> ?m")
    case True
    have "?m * 1 \<le> ?m * unat radix ^ length cs" using assms by (intro mult_le_mono2) simp
    also have "\<dots> \<le> foldl (\<lambda>v c. v * unat radix + unat (hexval c)) ?m cs" by (rule digits_value_grows)
    finally have "2 ^ 64 \<le> foldl (\<lambda>v c. v * unat radix + unat (hexval c)) ?m cs" using True by simp
    then show ?thesis using overflow_test [where r = ?r and v = v and d = ?d] assms True by (simp add: u Let_def)
  next
    case False
    then have "unat (v * ?r + ?d) = ?m"
      by (simp add: unat_word_ariths u)
    then show ?thesis using Cons [of "v * ?r + ?d"] overflow_test [where r = ?r and v = v and d = ?d] assms False by (simp add: u Let_def)
  qed
qed

text \<open>The magnitude of a digit run is computed exactly or refused: \<open>mag_from\<close> yields the value of the
  digits in the radix when it fits 64 bits, and fails in every other case.
\<close>

theorem mag_from_exact:
  assumes "0 < unat radix"
  shows "mag_from 0 w radix =
    (if digits_value (unat radix) w < 2 ^ 64 then Some (of_nat (digits_value (unat radix) w)) else None)"
  using mag_from_foldl [OF assms, of 0 w] by (simp add: digits_value_def Let_def)

theorem mag_from_exact_witness:
  "mag_from 0 (lit ''ff'') 16 = Some 255"
  using mag_from_exact [of 16 "lit ''ff''"] by (simp add: lit_def digits_value_def hexval_def)

subsection \<open>Decimal integers\<close>

text \<open>A digit run as the grammar has it, and what may follow a plain integer.\<close>

definition decimal_digits :: "bytes \<Rightarrow> bool" where
  "decimal_digits w \<longleftrightarrow>
    w \<noteq> [] \<and> (\<forall>c \<in> set w. is_dec c) \<and> (hd w = 0x30 \<longrightarrow> length w = 1) \<and> length w < 512"

definition ends_number :: "bytes \<Rightarrow> bool" where
  "ends_number r \<longleftrightarrow> (case r of [] \<Rightarrow> True | c # cs \<Rightarrow>
    \<not> is_dec c \<and> c \<notin> {UNDERSCORE, DOT, 0x65, 0x45, 0x78, 0x6F, 0x62})"

lemma ends_number_starts:
  assumes "ends_number r"
  shows "\<not> starts UNDERSCORE r" "\<not> starts DOT r" "\<not> starts_exp r"
    "\<not> starts 0x78 r" "\<not> starts 0x6F r" "\<not> starts 0x62 r"
  using assms by (auto simp: ends_number_def starts_exp_def starts_def split: list.splits)

lemma hexval_dec:
  assumes "is_dec c"
  shows "ucast (hexval c) = (ucast (c - 0x30) :: u64)" "unat (hexval c) < 10"
    "unat (hexval c) = unat c - 48"
proof -
  have c: "48 \<le> unat c" "unat c \<le> 57"
    using assms by (simp_all add: is_dec_iff word_le_nat_alt)
  then have d: "unat (c - 0x30) = unat c - 48" by (simp add: unat_sub word_le_nat_alt)
  have h: "hexval c = ucast c - 0x30" using c by (simp add: hexval_def word_le_nat_alt)
  have u: "unat (ucast c :: u32) = unat c"
    using unat_lt_2_8 [of c] by (simp add: unsigned_ucast_eq take_bit_eq_mod)
  have hv: "unat (hexval c) = unat c - 48"
    using c u by (simp add: h unat_sub word_le_nat_alt)
  then show "unat (hexval c) = unat c - 48" "unat (hexval c) < 10" using c by simp_all
  show "ucast (hexval c) = (ucast (c - 0x30) :: u64)"
    using c by (simp add: word_unat_eq_iff unsigned_ucast_eq take_bit_eq_mod hv d)
qed

lemma dec_run_digits:
  assumes "\<forall>c \<in> set w. is_dec c" "\<not> (r \<noteq> [] \<and> is_dec (hd r))"
  shows "dec_run (of_nat m) (w @ r) = (of_nat (foldl (\<lambda>v c. v * 10 + unat (hexval c)) m w), r)"
  using assms(1)
proof (induction w arbitrary: m)
  case Nil
  then show ?case using assms(2) by (cases r) auto
next
  case (Cons c w)
  have step: "(of_nat m * 10 + ucast (c - 0x30) :: u64) = of_nat (m * 10 + unat (hexval c))"
    using hexval_dec(1) [of c] Cons.prems by (simp add: word_unat_eq_iff unsigned_ucast_eq unsigned_of_nat unat_word_ariths take_bit_eq_mod mod_simps)
  have "dec_run (of_nat m) ((c # w) @ r) = dec_run (of_nat (m * 10 + unat (hexval c))) (w @ r)"
    using Cons.prems step by (simp del: of_nat_add of_nat_mult)
  also have "\<dots> = (of_nat (foldl (\<lambda>v c. v * 10 + unat (hexval c)) m (c # w)), r)"
    using Cons by (simp del: of_nat_add of_nat_mult)
  finally show ?case .
qed

lemma scan_run_loop_digits:
  assumes "\<forall>c \<in> set w. is_dec c" "\<not> (r \<noteq> [] \<and> is_dec (hd r))" "\<not> starts UNDERSCORE r"
    "length buf + length w < 512"
  shows "scan_run_loop 10 buf prev (w @ r) = LOk (buf @ w, if w = [] then prev else True) r"
  using assms(1,4)
proof (induction w arbitrary: buf prev)
  case Nil
  then show ?case using assms(2,3) by (cases r) (auto simp: digit_for_def starts_def)
qed (auto simp: digit_for_def)

lemma scan_run_digits:
  assumes "decimal_digits w" "ends_number r"
  shows "scan_run 10 (w @ r) = LOk w r"
proof -
  have "\<not> (r \<noteq> [] \<and> is_dec (hd r))" using assms(2) by (auto simp: ends_number_def split: list.splits)
  then show ?thesis
    using scan_run_loop_digits [of w r "[]" False] assms ends_number_starts(1)
    by (simp add: scan_run_def decimal_digits_def)
qed

lemma digits_value_bound:
  assumes "\<forall>c \<in> set w. is_dec c"
  shows "digits_value 10 w < 10 ^ length w"
  using assms
proof (induction w)
  case (Cons c w)
  have "unat (hexval c) * 10 ^ length w \<le> 9 * 10 ^ length w"
    using hexval_dec(2) [of c] Cons.prems by (intro mult_le_mono1) simp
  moreover have "digits_value 10 w < 10 ^ length w" using Cons by simp
  moreover have "(10 :: nat) ^ length (c # w) = 10 * 10 ^ length w" by simp
  ultimately show ?case unfolding digits_value_Cons by linarith
qed (simp add: digits_value_def)

text \<open>What an integer of magnitude \<open>v\<close> must give: its node, or the range error.\<close>

definition int_result :: "parser \<Rightarrow> bool \<Rightarrow> nat \<Rightarrow> addr res \<Rightarrow> bool" where
  "int_result ps neg v res \<longleftrightarrow>
    (if v < 2 ^ 63 \<or> (neg \<and> v = 2 ^ 63)
     then res = value_node ps K_INTEGER (P_Int (if neg then - of_nat v else of_nat v))
     else res = oom ps \<or> (\<exists>doc. res = syntax_fail (set_doc doc ps) ''integer out of range''))"

lemma int_result_overflow:
  assumes "2 ^ 64 \<le> v"
  shows "int_result ps neg v (syntax_fail ps ''integer out of range'')"
proof -
  have "set_doc (ps_doc ps) ps = ps" by (simp add: set_doc_def)
  then have "\<exists>doc. syntax_fail ps ''integer out of range'' =
      (syntax_fail (set_doc doc ps) ''integer out of range'' :: addr res)" by metis
  then show ?thesis using assms by (simp add: int_result_def)
qed

lemma int_result_node:
  assumes "v < 2 ^ 64"
  shows "int_result ps neg v (int_node ps neg (of_nat v))"
proof -
  have u: "unat (of_nat v :: u64) = v" using assms by (simp add: unsigned_of_nat take_bit_eq_mod)
  have cmp: "(of_nat v :: u64) > 0x7FFFFFFFFFFFFFFF \<longleftrightarrow> 2 ^ 63 \<le> v"
    "(of_nat v :: u64) > 0x8000000000000000 \<longleftrightarrow> 2 ^ 63 < v"
    "(of_nat v :: u64) = 0x8000000000000000 \<longleftrightarrow> v = 2 ^ 63"
    by (auto simp: word_less_nat_alt word_unat_eq_iff u)
  have least: "(- 9223372036854775808 :: u64) = 9223372036854775808" by simp
  show ?thesis
    by (cases "dom_new_node (ps_doc ps) K_INTEGER"; cases neg)
       (auto simp: int_result_def int_node_def value_node_def cmp u least)
qed

lemma slow_decimal_integer:
  assumes w: "decimal_digits w" and r: "ends_number r" and p: "ps_p ps = w @ r"
  shows "int_result (set_p r ps) neg (digits_value 10 w) (slow_decimal fo ps neg)"
proof -
  have ne: "w \<noteq> []" "\<not> (hd w = 0x30 \<and> length w > 1)" using w by (auto simp: decimal_digits_def)
  have run: "run_lex ps (scan_run 10 (ps_p ps)) = Ok w (set_p r ps)"
    by (simp add: p scan_run_digits [OF w r])
  note stops = ends_number_starts [OF r]
  have mag: "mag_from 0 w 10 = (if digits_value 10 w < 2 ^ 64 then Some (of_nat (digits_value 10 w)) else None)"
    using mag_from_foldl [of 10 0 w] by (simp add: digits_value_def Let_def)
  show ?thesis
    using ne(2) stops int_result_node [of "digits_value 10 w" "set_p r ps" neg]
      int_result_overflow [of "digits_value 10 w" "set_p r ps" neg]
    by (cases "digits_value 10 w < 2 ^ 64"; cases "hd w = 0x30") (simp_all add: slow_decimal_def run mag)
qed

lemma parse_decimal_integer:
  assumes w: "decimal_digits w" and r: "ends_number r" and p: "ps_p ps = w @ r"
  shows "int_result (set_p r ps) neg (digits_value 10 w) (parse_decimal fo ps neg sgd)"
proof -
  have ne: "w \<noteq> []" "\<not> (hd w = 0x30 \<and> length w > 1)" "\<forall>c \<in> set w. is_dec c"
    using w by (auto simp: decimal_digits_def)
  have r0: "\<not> (r \<noteq> [] \<and> is_dec (hd r))" using r by (auto simp: ends_number_def split: list.splits)
  have run: "dec_run 0 (w @ r) = (of_nat (digits_value 10 w), r)"
    using dec_run_digits [OF ne(3) r0, of 0] by (simp add: digits_value_def)
  note stops = ends_number_starts [OF r]
  show ?thesis
  proof (cases "length w \<le> 18")
    case True
    have "digits_value 10 w < 10 ^ length w" by (rule digits_value_bound [OF ne(3)])
    also have "(10 :: nat) ^ length w \<le> 10 ^ 18" using True by (intro power_increasing) simp_all
    finally have "digits_value 10 w < 2 ^ 63" by simp
    then show ?thesis
      using True ne(1,2) stops
      by (cases "hd w = 0x30") (simp_all add: parse_decimal_def Let_def p run int_result_def)
  next
    case False
    have rewound: "set_p (w @ r) (set_p r ps) = ps" using p by (cases ps) (simp add: set_p_def)
    have "parse_decimal fo ps neg sgd = slow_decimal fo (set_p (w @ r) (set_p r ps)) neg"
      using False by (simp add: parse_decimal_def p run)
    then have "parse_decimal fo ps neg sgd = slow_decimal fo ps neg" unfolding rewound .
    then show ?thesis using slow_decimal_integer [OF w r p] by simp
  qed
qed

text \<open>C16: a decimal integer of up to 511 digits, with or without a sign, is parsed to its value at its
  64-bit width, the cursor behind it; a value outside the range of \<open>int64_t\<close> is refused, on
  the plain path and on the slow one.
\<close>

theorem integer_value:
  assumes w: "decimal_digits w" and r: "ends_number r"
    and p: "ps_p ps = (if sgd then [if neg then MINUS else PLUS] else []) @ w @ r"
    and sgn: "neg \<longrightarrow> sgd"
  shows "int_result (set_p r ps) neg (digits_value 10 w) (parse_number fo ps sgd)"
proof -
  let ?ps = "if sgd then set_p (adv 1 (ps_p ps)) ps else ps"
  obtain c cs where wc: "w = c # cs" "is_dec c" "\<forall>x \<in> set cs. is_dec x"
    using w by (cases w) (auto simp: decimal_digits_def)
  have q: "ps_p ?ps = w @ r" using p by (auto simp: adv_def)
  have c: "c \<noteq> 0x69" "c \<noteq> 0x6E" using wc(2) by (auto simp: is_dec_iff)
  have zero: "\<not> (c = 0x30 \<and> (starts 0x78 (cs @ r) \<or> starts 0x6F (cs @ r) \<or> starts 0x62 (cs @ r)))"
    using w wc ends_number_starts [OF r] by (auto simp: decimal_digits_def)
  have "(sgd \<and> starts MINUS (ps_p ps)) = neg" using p sgn by (auto simp: starts_def)
  then have "parse_number fo ps sgd = parse_decimal fo ?ps neg sgd"
    unfolding parse_number_def Let_def q using wc(1,2) c zero by (cases "c = 0x30") (simp_all add: q)
  moreover have "set_p r ?ps = set_p r ps" by (simp add: set_p_set_p)
  ultimately show ?thesis using parse_decimal_integer [OF w r q, of neg fo sgd] by (simp only:)
qed

text \<open>An instance: \<open>-42,\<close> at the cursor of any parser.\<close>

theorem integer_value_witness:
  "\<forall>fo ps. int_result (set_p [COMMA] (set_p (lit ''-42,'') ps)) True 42
    (parse_number fo (set_p (lit ''-42,'') ps) True)"
proof (intro allI)
  fix fo ps
  show "int_result (set_p [COMMA] (set_p (lit ''-42,'') ps)) True 42
      (parse_number fo (set_p (lit ''-42,'') ps) True)"
    using integer_value [of "lit ''42''" "[COMMA]" "set_p (lit ''-42,'') ps" True True fo]
    by (simp add: lit_def decimal_digits_def ends_number_def is_dec_iff digits_value_def hexval_def)
qed

subsection \<open>Round trip\<close>

lemma digit_char_dec:
  assumes "d < 10"
  shows "is_dec (digit_char (of_nat d))" "unat (hexval (digit_char (of_nat d))) = d"
    "digit_char (of_nat d) = 0x30 \<longleftrightarrow> d = 0"
proof -
  have "unat (digit_char (of_nat d)) = 48 + d"
    using assms by (simp add: digit_char_def unsigned_ucast_eq take_bit_eq_mod unat_word_ariths unsigned_of_nat)
  moreover from this show "is_dec (digit_char (of_nat d))" using assms by (simp add: is_dec_iff word_le_nat_alt)
  ultimately show "unat (hexval (digit_char (of_nat d))) = d" "digit_char (of_nat d) = 0x30 \<longleftrightarrow> d = 0"
    using hexval_dec(3) by (simp_all add: word_unat_eq_iff)
qed

lemma dec_digits_spec:
  "\<exists>w. dec_digits mag acc = w @ acc \<and> w \<noteq> [] \<and> (\<forall>c \<in> set w. is_dec c) \<and> digits_value 10 w = unat mag \<and>
    (hd w = 0x30 \<longrightarrow> length w = 1) \<and> (hd w = 0x30 \<longleftrightarrow> mag = 0) \<and> 10 ^ (length w - 1) \<le> max 1 (unat mag)"
proof (induction mag acc rule: dec_digits.induct)
  case (1 mag acc)
  let ?d = "unat mag mod 10" and ?c = "digit_char (mag mod 10)"
  have m: "mag mod 10 = of_nat ?d" by (simp add: word_unat_eq_iff unat_mod unsigned_of_nat take_bit_eq_mod)
  note c = digit_char_dec [of ?d, folded m]
  have q: "unat (mag div 10) = unat mag div 10" by (simp add: unat_div)
  show ?case
  proof (cases "mag div 10 = 0")
    case True
    then have "unat mag div 10 = 0" using q by simp
    then have "?d = unat mag" by simp
    then show ?thesis using True c
      by (intro exI [of _ "[?c]"]) (simp add: dec_digits.simps [of mag acc] digits_value_def unat_eq_0)
  next
    case False
    obtain w where w: "dec_digits (mag div 10) (?c # acc) = w @ ?c # acc" "w \<noteq> []" "\<forall>c \<in> set w. is_dec c"
      "digits_value 10 w = unat (mag div 10)" "hd w = 0x30 \<longleftrightarrow> mag div 10 = 0"
      "10 ^ (length w - 1) \<le> max 1 (unat (mag div 10))"
      using 1 [OF refl False] by blast
    have pos: "0 < unat mag div 10" using False q by (metis neq0_conv unat_eq_0)
    have "10 ^ length w \<le> 10 * (unat mag div 10)" using w(2,6) pos by (cases w) (simp_all add: q)
    then have len: "10 ^ length w \<le> unat mag" by linarith
    have "digits_value 10 (w @ [?c]) = digits_value 10 w * 10 + unat (hexval ?c)" by (simp add: digits_value_def)
    then have "digits_value 10 (w @ [?c]) = unat mag" using c(2) w(4) by (simp add: q)
    moreover have "mag \<noteq> 0" using pos by auto
    ultimately show ?thesis using w len c(1) False
      by (intro exI [of _ "w @ [?c]"]) (simp add: dec_digits.simps [of mag acc] Let_def)
  qed
qed

lemma dec_digits_decimal:
  "decimal_digits (dec_digits mag [])" "digits_value 10 (dec_digits mag []) = unat mag"
proof -
  obtain w where w: "dec_digits mag [] = w" "w \<noteq> []" "\<forall>c \<in> set w. is_dec c" "digits_value 10 w = unat mag"
    "hd w = 0x30 \<longrightarrow> length w = 1" "10 ^ (length w - 1) \<le> max 1 (unat mag)"
    using dec_digits_spec [of mag "[]"] by auto
  have "max 1 (unat mag) < 10 ^ 20" using unat_lt_2_64 [of mag] by simp
  with w(6) have "(10 :: nat) ^ (length w - 1) < 10 ^ 20" by linarith
  then have "length w - 1 < 20" by (rule power_less_imp_less_exp [rotated]) simp
  then show "decimal_digits (dec_digits mag [])" "digits_value 10 (dec_digits mag []) = unat mag"
    using w by (simp_all add: decimal_digits_def)
qed

lemma i64_text_eq:
  "i64_text v = (if v <s 0 then [MINUS] else []) @ dec_digits (if v <s 0 then - v else v) []"
  by (simp add: i64_text_def Let_def)

lemma sint_u64:
  fixes v :: u64
  shows "sint v = (if unat v < 2 ^ 63 then int (unat v) else int (unat v) - 2 ^ 64)"
proof -
  have s: "sint v = (uint v + 2 ^ 63) mod 2 ^ 64 - 2 ^ 63"
    by (simp add: sint_uint signed_take_bit_eq_take_bit_shift take_bit_eq_mod)
  define m where "m = unat v"
  have u: "uint v = int m" and m: "m < 2 ^ 64" using unat_lt_2_64 [of v] by (simp_all add: m_def)
  show ?thesis
  proof (cases "m < 2 ^ 63")
    case True
    then have "(int m + 2 ^ 63) mod 2 ^ 64 = int m + 2 ^ 63" by (intro mod_pos_pos_trivial) simp_all
    then show ?thesis using True by (simp add: s u m_def [symmetric])
  next
    case False
    then have "(int m + 2 ^ 63) mod 2 ^ 64 = (int m + 2 ^ 63 - 2 ^ 64) mod 2 ^ 64"
      using minus_mod_self2 [of "int m + 2 ^ 63" "2 ^ 64"] by (simp only:)
    also have "\<dots> = int m - 2 ^ 63" using False m by (subst mod_pos_pos_trivial) simp_all
    finally show ?thesis using False by (simp add: s u m_def [symmetric])
  qed
qed

lemma magnitude_range:
  fixes v :: u64
  shows "\<not> v <s 0 \<Longrightarrow> unat v < 2 ^ 63" "v <s 0 \<Longrightarrow> unat (- v) \<le> 2 ^ 63"
proof -
  have neg: "v <s 0 \<longleftrightarrow> 2 ^ 63 \<le> unat v"
    using unsigned_less [of v, where 'a = int] by (simp add: word_sless_alt sint_u64)
  then show "\<not> v <s 0 \<Longrightarrow> unat v < 2 ^ 63" by simp
  show "unat (- v) \<le> 2 ^ 63" if "v <s 0"
  proof -
    have "(unat (- v) + unat v) mod 2 ^ 64 = unat (- v + v)"
      by (simp only: unat_word_ariths) simp
    then have "(unat (- v) + unat v) mod 2 ^ 64 = 0" by simp
    then obtain k where k: "unat (- v) + unat v = 2 ^ 64 * k" by (auto simp: mod_eq_0_iff_dvd dvd_def)
    then have "2 ^ 64 * k < 2 ^ 64 * 2" using unat_lt_2_64 [of v] unat_lt_2_64 [of "- v"] by simp
    then have "k \<le> 1" by simp
    then have "unat (- v) + unat v \<le> 2 ^ 64" using k by simp
    moreover have "2 ^ 63 \<le> unat v" using that neg by simp
    ultimately show ?thesis by simp
  qed
qed

text \<open>C15: every 64-bit signed integer reads back: the text the emitters write for it is parsed, at any
  place where a number may end, to a node with exactly that value, the least one included.
\<close>

theorem integer_round_trip:
  assumes r: "ends_number r"
  shows "parse_number fo (set_p (i64_text v @ r) ps) (v <s 0)
    = value_node (set_p r ps) K_INTEGER (P_Int v)"
proof -
  let ?m = "if v <s 0 then - v else v" and ?ps = "set_p (i64_text v @ r) ps"
  have "ps_p ?ps = (if v <s 0 then [if v <s 0 then MINUS else PLUS] else []) @ dec_digits ?m [] @ r"
    by (simp add: i64_text_eq)
  from integer_value [OF dec_digits_decimal(1) r this]
  have res: "int_result (set_p r ps) (v <s 0) (unat ?m) (parse_number fo ?ps (v <s 0))"
    by (simp add: dec_digits_decimal(2) set_p_set_p)
  have range: "unat ?m < 2 ^ 63 \<or> (v <s 0 \<and> unat ?m = 2 ^ 63)"
    using magnitude_range [of v] by (auto simp: le_less)
  have "(if v <s 0 then - of_nat (unat ?m) else of_nat (unat ?m)) = v" by simp
  with res range show ?thesis unfolding int_result_def by (simp only: if_True)
qed

theorem integer_round_trip_witness:
  "\<forall>fo ps. parse_number fo (set_p (lit ''-9223372036854775808'' @ [LF]) ps) True
    = value_node (set_p [LF] ps) K_INTEGER (P_Int 0x8000000000000000)"
proof (intro allI)
  fix fo ps
  have "i64_text 0x8000000000000000 = lit ''-9223372036854775808''" by code_simp
  moreover have "(0x8000000000000000 :: u64) <s 0" by code_simp
  ultimately show "parse_number fo (set_p (lit ''-9223372036854775808'' @ [LF]) ps) True
      = value_node (set_p [LF] ps) K_INTEGER (P_Int 0x8000000000000000)"
    using integer_round_trip [of "[LF]" fo "0x8000000000000000" ps] by (simp add: ends_number_def is_dec_iff)
qed

end
