(* ===== verification/Wire.thy ===== *)
theory Wire
  imports Prelude
begin

text \<open>
  Little-endian integers as the bulk encoding of \<open>api.c\<close> writes them (\<open>fb_u32\<close>, \<open>fb_u64\<close>)
  and as the streaming writer of \<open>emit/writer.c\<close> reads them back: byte by byte, by shifts.
\<close>

text \<open>The \<open>n\<close> low bytes of a word, the lowest first; the reading loop of the writer.\<close>

fun le_bytes :: "nat \<Rightarrow> 'a::len word \<Rightarrow> bytes" where
  "le_bytes 0 v = []"
| "le_bytes (Suc n) v = ucast v # le_bytes n (drop_bit 8 v)"

fun le_loop :: "u64 \<Rightarrow> nat \<Rightarrow> bytes \<Rightarrow> u64" where
  "le_loop u b [] = u"
| "le_loop u b (c # cs) = le_loop (u OR push_bit (8 * b) (ucast c)) (Suc b) cs"

definition le_u64 :: "bytes \<Rightarrow> u64" where
  "le_u64 bs = le_loop 0 0 bs"

lemma length_le_bytes [simp]: "length (le_bytes n v) = n"
  by (induction n arbitrary: v) simp_all

lemma le_bytes_4: "le_bytes 4 v = map (\<lambda>i. ucast (drop_bit (8 * i) v)) [0, 1, 2, 3]"
proof -
  have "(4 :: nat) = Suc (Suc (Suc (Suc 0)))" by simp
  then have "le_bytes 4 v = le_bytes (Suc (Suc (Suc (Suc 0)))) v" by (rule arg_cong)
  then show ?thesis by (simp add: drop_bit_drop_bit)
qed

lemma le_bytes_8: "le_bytes 8 v = map (\<lambda>i. ucast (drop_bit (8 * i) v)) [0, 1, 2, 3, 4, 5, 6, 7]"
proof -
  have "(8 :: nat) = Suc (Suc (Suc (Suc (Suc (Suc (Suc (Suc 0)))))))" by simp
  then have "le_bytes 8 v = le_bytes (Suc (Suc (Suc (Suc (Suc (Suc (Suc (Suc 0)))))))) v" by (rule arg_cong)
  then show ?thesis by (simp add: drop_bit_drop_bit)
qed

lemma bit_byte: "bit (ucast v :: byte) n \<longleftrightarrow> n < 8 \<and> bit (v :: 'a::len word) n"
  by (auto simp: bit_ucast_iff)

lemma bit_le_loop:
  "n < 64 \<Longrightarrow> 8 * (b + k) \<le> 64 \<Longrightarrow>
   bit (le_loop u b (le_bytes k v)) n \<longleftrightarrow> bit u n \<or> (8 * b \<le> n \<and> n < 8 * (b + k) \<and> bit v (n - 8 * b))"
proof (induction k arbitrary: u b v)
  case (Suc k)
  have "bit (le_loop u b (le_bytes (Suc k) v)) n \<longleftrightarrow>
      bit (u OR push_bit (8 * b) (ucast (ucast v :: byte))) n
      \<or> (8 * Suc b \<le> n \<and> n < 8 * (Suc b + k) \<and> bit (drop_bit 8 v) (n - 8 * Suc b))"
    using Suc by (simp add: add.assoc)
  also have "\<dots> \<longleftrightarrow> bit u n \<or> (8 * b \<le> n \<and> n < 8 * (b + Suc k) \<and> bit v (n - 8 * b))"
  proof (cases "n < 8 * Suc b")
    case True
    then show ?thesis using Suc.prems by (auto simp: bit_simps bit_ucast_iff)
  next
    case False
    then have "8 + (n - (8 + 8 * b)) = n - 8 * b" by simp
    then show ?thesis using False Suc.prems by (auto simp: bit_simps bit_ucast_iff)
  qed
  finally show ?case .
qed auto

lemma le_u64_bytes: "le_u64 (le_bytes 8 v) = v" for v :: u64
  by (rule bit_word_eqI) (simp add: le_u64_def bit_le_loop)

lemma le_u64_bytes4: "le_u64 (le_bytes 4 v) = ucast v" for v :: u32
  by (rule bit_word_eqI) (auto simp: le_u64_def bit_le_loop bit_ucast_iff dest: bit_imp_le_length)

end
