(* ===== verification/Writer.thy ===== *)
theory Writer
  imports Emit_Buf Wire
begin

text \<open>
  The streaming writer of \<open>emit/writer.c\<close>: a stack of open containers, a pending key and the
  output buffer, driven by a stream of binary operations. \<open>w_fetch\<close> is the decoding of one
  operation with its bounds checks, \<open>w_step\<close> its effect. The stack \<open>top, down, \<dots>\<close> is a
  list, the top first. The outcomes of the writer's own \<open>calloc\<close> and \<open>malloc\<close> calls are the
  list \<open>w_mem\<close>, one for each call in their order, so that any of them may fail on its own; the
  calls behind the end of the list succeed up to \<open>eb_avail\<close>.
\<close>

subsection \<open>State\<close>

datatype wkind = F_TABLE | F_ARRAY | F_AOT | F_ITAB

record wframe =
  wf_kind :: wkind
  wf_key :: "bytes option"
  wf_first :: bool
  wf_saw :: bool

record writer =
  w_out :: ebuf
  w_key :: "bytes option"
  w_stack :: "wframe list"
  w_finished :: bool
  w_st :: status
  w_mem :: "bool list"

abbreviation (input) SIZEOF_WRITER :: nat where "SIZEOF_WRITER \<equiv> 64"
abbreviation (input) SIZEOF_WFRAME :: nat where "SIZEOF_WFRAME \<equiv> 40"

definition w_fail :: "status \<Rightarrow> writer \<Rightarrow> writer" where
  "w_fail st w = w\<lparr>w_st := st\<rparr>"

definition w_emit :: "(ebuf \<Rightarrow> ebuf) \<Rightarrow> writer \<Rightarrow> writer" where
  "w_emit f w = w\<lparr>w_out := f (w_out w)\<rparr>"

definition w_can :: "writer \<Rightarrow> nat \<Rightarrow> bool" where
  "w_can w n \<longleftrightarrow> n \<le> eb_avail (w_out w)"

text \<open>The next call asks for \<open>n\<close> bytes: its outcome, and the writer behind it.\<close>

definition w_grants :: "writer \<Rightarrow> nat \<Rightarrow> bool" where
  "w_grants w n = (case w_mem w of [] \<Rightarrow> w_can w n | ok # _ \<Rightarrow> ok)"

definition w_spent :: "writer \<Rightarrow> writer" where
  "w_spent w = w\<lparr>w_mem := tl (w_mem w)\<rparr>"

definition new_frame :: "wkind \<Rightarrow> bytes option \<Rightarrow> wframe" where
  "new_frame k key = \<lparr>wf_kind = k, wf_key = key, wf_first = False, wf_saw = False\<rparr>"

text \<open>The key a frame takes over from the writer, and the copy of one; an empty one is null.\<close>

definition w_push_steal :: "wkind \<Rightarrow> bytes \<Rightarrow> writer \<Rightarrow> writer" where
  "w_push_steal k key w =
    (if \<not> w_grants w SIZEOF_WFRAME then w_fail ERR_ALLOC (w_spent w)
     else (let w = w_spent w in w\<lparr>w_stack := new_frame k (Some key) # w_stack w\<rparr>))"

definition w_push :: "wkind \<Rightarrow> bytes \<Rightarrow> writer \<Rightarrow> writer" where
  "w_push k key w =
    (if \<not> w_grants w SIZEOF_WFRAME then w_fail ERR_ALLOC (w_spent w)
     else (let w = w_spent w
           in if key \<noteq> [] then
                (if \<not> w_grants w (length key) then w_fail ERR_ALLOC (w_spent w)
                 else (let w = w_spent w in w\<lparr>w_stack := new_frame k (Some key) # w_stack w\<rparr>))
              else w\<lparr>w_stack := new_frame k None # w_stack w\<rparr>))"

text \<open>
  The first outcome is that of the writer's own \<open>calloc\<close>, the second that of its root frame: the
  status is set to \<open>TEPTRIS_OK\<close> behind the push of the root frame, which may have failed.
\<close>

definition writer_new :: "bool list \<Rightarrow> nat \<Rightarrow> writer option" where
  "writer_new mem avail =
    (let w = \<lparr>w_out = eb_init avail, w_key = None, w_stack = [], w_finished = False, w_st = ST_OK,
              w_mem = mem\<rparr>
     in if \<not> w_grants w SIZEOF_WRITER then None
        else Some ((w_push F_TABLE [] (w_spent w))\<lparr>w_st := ST_OK\<rparr>))"

definition w_take_key :: "bytes \<Rightarrow> writer \<Rightarrow> writer" where
  "w_take_key k w =
    (if w_grants w (if k \<noteq> [] then length k else 1) then (w_spent w)\<lparr>w_key := Some k\<rparr>
     else w_fail ERR_ALLOC ((w_spent w)\<lparr>w_key := None\<rparr>))"

definition w_clear_key :: "writer \<Rightarrow> writer" where
  "w_clear_key w = w\<lparr>w_key := None\<rparr>"

subsection \<open>Headers and prefixes\<close>

text \<open>The dotted path of the keyed frames, outermost first; at most 600 frames are looked at.\<close>

abbreviation (input) W_PATH_MAX :: nat where "W_PATH_MAX \<equiv> 600"

fun w_path_loop :: "ebuf \<Rightarrow> bool \<Rightarrow> wframe list \<Rightarrow> ebuf \<times> bool" where
  "w_path_loop b fresh [] = (b, fresh)"
| "w_path_loop b fresh (f # fs) =
    (case (wf_kind f = F_TABLE \<or> wf_kind f = F_AOT, wf_key f) of
       (True, Some key) \<Rightarrow> w_path_loop (emit_key (if \<not> fresh then eb_c b DOT else b) key) False fs
     | _ \<Rightarrow> w_path_loop b fresh fs)"

definition w_path :: "bool \<Rightarrow> writer \<Rightarrow> writer" where
  "w_path with_tail w =
    (case w_path_loop (w_out w) True (rev (take W_PATH_MAX (w_stack w))) of
       (b, fresh) \<Rightarrow>
         (case (with_tail, w_key w) of
            (True, Some key) \<Rightarrow> w\<lparr>w_out := emit_key (if \<not> fresh then eb_c b DOT else b) key\<rparr>
          | _ \<Rightarrow> w\<lparr>w_out := b\<rparr>))"

definition map_top :: "(wframe \<Rightarrow> wframe) \<Rightarrow> writer \<Rightarrow> writer" where
  "map_top g w = (case w_stack w of [] \<Rightarrow> w | f # fs \<Rightarrow> w\<lparr>w_stack := g f # fs\<rparr>)"

definition w_sep_val :: "wframe \<Rightarrow> writer \<Rightarrow> writer" where
  "w_sep_val f w =
    map_top (\<lambda>f. f\<lparr>wf_first := True\<rparr>) (if wf_first f then w_emit (\<lambda>b. eb_put b (lit '', '')) w else w)"

text \<open>The top frame has a kind, or has seen a sub-table; without a frame neither holds.\<close>

definition top_kind :: "writer \<Rightarrow> wkind \<Rightarrow> bool" where
  "top_kind w k \<longleftrightarrow> (case w_stack w of [] \<Rightarrow> False | f # fs \<Rightarrow> wf_kind f = k)"

definition top_saw :: "writer \<Rightarrow> bool" where
  "top_saw w \<longleftrightarrow> (case w_stack w of [] \<Rightarrow> False | f # fs \<Rightarrow> wf_saw f)"

definition w_sep_top :: "writer \<Rightarrow> writer" where
  "w_sep_top w = (case w_stack w of [] \<Rightarrow> w | f # fs \<Rightarrow> w_sep_val f w)"

definition w_keyed_prefix :: "writer \<Rightarrow> writer" where
  "w_keyed_prefix w =
    (if top_kind w F_ARRAY then w_sep_top w
     else (let w = (if top_kind w F_ITAB then w_sep_top w else w)
           in case w_key w of
                None \<Rightarrow> w_fail ERR_ARG w
              | Some key \<Rightarrow>
                  (if top_saw w then w_fail ERR_STATE w
                   else w_clear_key (w_emit (\<lambda>b. eb_put (emit_key b key) (lit '' = '')) w))))"

definition w_end_line :: "writer \<Rightarrow> writer" where
  "w_end_line w = (if w_stack w = [] \<or> top_kind w F_TABLE then w_emit (\<lambda>b. eb_c b LF) w else w)"

subsection \<open>One operation\<close>

datatype wop =
    W_KEY bytes
  | W_STRING bytes
  | W_INT u64
  | W_FLOAT u64
  | W_BOOL bool
  | W_DATETIME kind datetime
  | W_BEGIN_TABLE
  | W_BEGIN_ARRAY
  | W_BEGIN_AOT
  | W_BEGIN_INLINE_TABLE
  | W_CLOSE
  | W_EMPTY_TABLE
  | W_EMPTY_ARRAY

text \<open>A value: its prefix; unless that failed its text and the end of the line.\<close>

definition w_value :: "(ebuf \<Rightarrow> ebuf) \<Rightarrow> writer \<Rightarrow> writer" where
  "w_value f w =
    (let w = w_keyed_prefix w in if w_st w \<noteq> ST_OK then w else w_end_line (w_emit f w))"

definition mark_saw :: "writer \<Rightarrow> writer" where
  "mark_saw = map_top (\<lambda>f. f\<lparr>wf_saw := True\<rparr>)"

definition w_begin_table :: "writer \<Rightarrow> writer" where
  "w_begin_table w =
    (if top_kind w F_ARRAY \<or> top_kind w F_ITAB then w_fail ERR_ARG w
     else if top_kind w F_AOT then
       w_push F_TABLE [] (w_clear_key
         (w_emit (\<lambda>b. eb_put b (lit '']]'' @ [LF])) (w_path False (w_emit (\<lambda>b. eb_put b (lit ''[['')) w))))
     else case w_key w of
       None \<Rightarrow> w_fail ERR_ARG w
     | Some key \<Rightarrow>
         w_push_steal F_TABLE key (w_clear_key
           (w_emit (\<lambda>b. eb_put b [RBRACK, LF]) (w_path True (w_emit (\<lambda>b. eb_c b LBRACK) (mark_saw w))))))"

definition w_begin_aot :: "writer \<Rightarrow> writer" where
  "w_begin_aot w =
    (case w_key w of
       None \<Rightarrow> w_fail ERR_ARG w
     | Some key \<Rightarrow>
         (if w_stack w \<noteq> [] \<and> \<not> top_kind w F_TABLE then w_fail ERR_ARG w
          else w_push_steal F_AOT key (w_clear_key (mark_saw w))))"

text \<open>The key of a container that is a value.\<close>

definition w_container_key :: "bytes \<Rightarrow> writer \<Rightarrow> writer" where
  "w_container_key mid w =
    (case w_key w of
       None \<Rightarrow> w_fail ERR_ARG w
     | Some key \<Rightarrow>
         (if top_saw w then w_fail ERR_STATE w
          else w_clear_key (w_emit (\<lambda>b. eb_put (emit_key b key) mid)
                 (if top_kind w F_ITAB then w_sep_top w else w))))"

definition w_begin_array :: "writer \<Rightarrow> writer" where
  "w_begin_array w =
    (if top_kind w F_AOT then w_fail ERR_ARG w
     else (let w = (if top_kind w F_ARRAY then w_emit (\<lambda>b. eb_c b LBRACK) (w_sep_top w)
                    else w_container_key (lit '' = ['') w)
           in if w_st w \<noteq> ST_OK then w else w_push F_ARRAY [] w))"

definition w_begin_inline :: "writer \<Rightarrow> writer" where
  "w_begin_inline w =
    (let w = (if top_kind w F_ARRAY
              then (if w_key w \<noteq> None then w_fail ERR_ARG w else w_sep_top w)
              else w_container_key (lit '' = '') w)
     in if w_st w \<noteq> ST_OK then w else w_push F_ITAB [] (w_emit (\<lambda>b. eb_c b LBRACE) w))"

text \<open>The frame is popped; behind an inline container its bracket and the end of the line follow.\<close>

definition w_close :: "writer \<Rightarrow> writer" where
  "w_close w =
    (case w_stack w of
       f # g # fs \<Rightarrow>
         (let w = w\<lparr>w_stack := g # fs\<rparr>
          in if wf_kind f = F_ARRAY then w_end_line (w_emit (\<lambda>b. eb_c b RBRACK) w)
             else if wf_kind f = F_ITAB then w_end_line (w_emit (\<lambda>b. eb_c b RBRACE) w)
             else w)
     | _ \<Rightarrow> w_fail ERR_ARG w)"

fun w_step :: "(u64 \<Rightarrow> bytes) \<Rightarrow> writer \<Rightarrow> wop \<Rightarrow> writer" where
  "w_step d2s w (W_KEY k) = w_take_key k w"
| "w_step d2s w (W_STRING s) = w_value (\<lambda>b. emit_string_value b s) w"
| "w_step d2s w (W_INT v) = w_value (\<lambda>b. emit_i64 b v) w"
| "w_step d2s w (W_FLOAT f) = w_value (\<lambda>b. emit_float d2s b f) w"
| "w_step d2s w (W_BOOL t) = w_value (\<lambda>b. eb_put b (lit (if t then ''true'' else ''false''))) w"
| "w_step d2s w (W_DATETIME k d) = w_value (\<lambda>b. emit_dt b d k) w"
| "w_step d2s w W_BEGIN_TABLE = w_begin_table w"
| "w_step d2s w W_BEGIN_ARRAY = w_begin_array w"
| "w_step d2s w W_BEGIN_AOT = w_begin_aot w"
| "w_step d2s w W_BEGIN_INLINE_TABLE = w_begin_inline w"
| "w_step d2s w W_CLOSE = w_close w"
| "w_step d2s w W_EMPTY_TABLE = w_value (\<lambda>b. eb_put b (lit ''{}'')) w"
| "w_step d2s w W_EMPTY_ARRAY = w_value (\<lambda>b. eb_put b (lit ''[]'')) w"

subsection \<open>The stream\<close>

datatype fetched = Fetch_end | Fetch_bad | Fetch wop bytes

definition dt_kind_of :: "byte \<Rightarrow> kind" where
  "dt_kind_of kb =
    (if kb = 4 then K_DATETIME_OFFSET else if kb = 5 then K_DATETIME_LOCAL
     else if kb = 6 then K_DATE_LOCAL else K_TIME_LOCAL)"

text \<open>The operands of \<open>W_DATETIME\<close> behind its kind byte, at the offsets the source reads.\<close>

definition fetch_dt :: "bytes \<Rightarrow> datetime" where
  "fetch_dt p =
    \<lparr>dt_year = ucast (le_u64 (take 8 (drop 1 p))), dt_month = p ! 9, dt_day = p ! 10, dt_hour = p ! 11,
     dt_minute = p ! 12, dt_second = p ! 13, dt_nanosecond = ucast (le_u64 (take 4 (drop 14 p))),
     dt_offset_seconds = ucast (le_u64 (take 8 (drop 18 p)))\<rparr>"

text \<open>A length of \<open>n\<close> bytes, the lowest first, and that many bytes behind it.\<close>

definition fetch_counted :: "nat \<Rightarrow> (bytes \<Rightarrow> wop) \<Rightarrow> bytes \<Rightarrow> fetched" where
  "fetch_counted n mk p =
    (if length p < n then Fetch_bad
     else (let k = unat (le_u64 (take n p)); q = drop n p
           in if length q < k then Fetch_bad else Fetch (mk (take k q)) (drop k q)))"

definition fetch_word :: "(u64 \<Rightarrow> wop) \<Rightarrow> bytes \<Rightarrow> fetched" where
  "fetch_word mk p =
    (if length p < 8 then Fetch_bad else Fetch (mk (le_u64 (take 8 p))) (drop 8 p))"

definition fetch_datetime :: "bytes \<Rightarrow> fetched" where
  "fetch_datetime p =
    (if length p < 26 then Fetch_bad
     else if hd p < 4 \<or> 7 < hd p then Fetch_bad
     else Fetch (W_DATETIME (dt_kind_of (hd p)) (fetch_dt p)) (drop 26 p))"

definition w_fetch :: "byte \<Rightarrow> bytes \<Rightarrow> fetched" where
  "w_fetch c p =
    (if c = 0x00 then Fetch_end
     else if c = 0x01 then fetch_counted 1 W_KEY p
     else if c = 0x02 then fetch_counted 4 W_STRING p
     else if c = 0x03 then fetch_word W_INT p
     else if c = 0x04 then fetch_word W_FLOAT p
     else if c = 0x05 then Fetch (W_BOOL False) p
     else if c = 0x06 then Fetch (W_BOOL True) p
     else if c = 0x07 then fetch_datetime p
     else if c = 0x08 then Fetch W_BEGIN_TABLE p
     else if c = 0x09 then Fetch W_BEGIN_ARRAY p
     else if c = 0x0A then Fetch W_BEGIN_AOT p
     else if c = 0x0B then Fetch W_BEGIN_INLINE_TABLE p
     else if c = 0x0C then Fetch W_CLOSE p
     else if c = 0x0D then Fetch W_EMPTY_TABLE p
     else if c = 0x0E then Fetch W_EMPTY_ARRAY p
     else Fetch_bad)"

lemma w_fetch_length: "w_fetch c p = Fetch op q \<Longrightarrow> length q \<le> length p"
  by (auto simp: w_fetch_def fetch_counted_def fetch_word_def fetch_datetime_def Let_def split: if_splits)

function feed_loop :: "(u64 \<Rightarrow> bytes) \<Rightarrow> writer \<Rightarrow> bytes \<Rightarrow> writer" where
  "feed_loop d2s w [] = w"
| "feed_loop d2s w (c # p) =
    (if w_st w \<noteq> ST_OK then w
     else case w_fetch c p of
            Fetch_end \<Rightarrow> w
          | Fetch_bad \<Rightarrow> w_fail ERR_ARG w
          | Fetch op q \<Rightarrow> feed_loop d2s (w_step d2s w op) q)"
  by pat_completeness auto
termination
  by (relation "measure (\<lambda>(d2s, w, p). length p)") (auto dest: w_fetch_length simp: less_Suc_eq_le)

text \<open>\<open>teptris_writer_feed\<close>: no writer, or no operations where some are announced, is refused.\<close>

definition writer_feed ::
    "(u64 \<Rightarrow> bytes) \<Rightarrow> writer option \<Rightarrow> bytes option \<Rightarrow> status \<times> writer option" where
  "writer_feed d2s wo ops =
    (case (wo, ops) of
       (Some w, Some p) \<Rightarrow>
         (if w_finished w then (ERR_STATE, Some w)
          else (let w' = feed_loop d2s w p in (w_st w', Some w')))
     | _ \<Rightarrow> (ERR_ARG, wo))"

text \<open>
  \<open>teptris_writer_finish\<close>: status, \<open>*buf\<close> with its terminator, \<open>*len\<close>. The terminator is
  stored at \<open>p[len]\<close> without a test; like every store it is watched, and that it is inside the
  block is a property.
\<close>

definition eb_nul :: "ebuf \<Rightarrow> ebuf" where
  "eb_nul b = b\<lparr>eb_wild := eb_wild (eb_store b [0])\<rparr>"

definition writer_finish :: "writer option \<Rightarrow> status \<times> bytes option \<times> nat \<times> writer option" where
  "writer_finish wo =
    (case wo of
       None \<Rightarrow> (ERR_ARG, None, 0, None)
     | Some w \<Rightarrow>
         (if length (w_stack w) \<noteq> 1 then (ERR_STATE, None, 0, Some w)
          else if w_st w \<noteq> ST_OK then (w_st w, None, 0, Some w)
          else (let w = w\<lparr>w_finished := True\<rparr>
                in if \<not> eb_p (w_out w) then
                     (if \<not> w_grants w 1 then (ERR_ALLOC, None, 0, Some (w_spent w))
                      else (ST_OK, Some [0], 0, Some (w_spent w)))
                   else (ST_OK, Some (eb_bytes (w_out w) @ [0]), length (eb_bytes (w_out w)),
                         Some (w_emit (\<lambda>b. (eb_nul b)\<lparr>eb_p := False\<rparr>) w)))))"

end
