(* ===== verification/Api.thy ===== *)
theory Api
  imports Emitter Wire
begin

text \<open>
  The readers of \<open>api.c\<close>: the accessors of nodes, arrays and tables, and the bulk encoding
  of a document into one buffer (\<open>teptris_document_flatten\<close>). A null node pointer is
  \<open>None\<close>; an accessor returns its status on the left or the value on the right.
\<close>

subsection \<open>Accessors\<close>

definition document_root :: "document option \<Rightarrow> addr option" where
  "document_root d =
    (case d of None \<Rightarrow> None | Some doc \<Rightarrow> if pe_status (d_err doc) \<noteq> ST_OK then None else d_root doc)"

definition api_node_kind :: "node list \<Rightarrow> addr option \<Rightarrow> kind" where
  "api_node_kind ns n = (case n of None \<Rightarrow> K_STRING | Some i \<Rightarrow> n_kind (ns ! i))"

text \<open>The shape the five scalar accessors share: the kind is tested, the arm is read.\<close>

definition read_scalar :: "(kind \<Rightarrow> bool) \<Rightarrow> (payload \<Rightarrow> 'a) \<Rightarrow> node list \<Rightarrow> addr option \<Rightarrow> status + 'a" where
  "read_scalar is_kind arm ns n =
    (case n of
       None \<Rightarrow> Inl ERR_ARG
     | Some i \<Rightarrow> if \<not> is_kind (n_kind (ns ! i)) then Inl ERR_ARG else Inr (arm (n_as (ns ! i))))"

definition node_string :: "node list \<Rightarrow> addr option \<Rightarrow> status + bytes" where
  "node_string = read_scalar (\<lambda>k. k = K_STRING) payload_str"

definition node_integer :: "node list \<Rightarrow> addr option \<Rightarrow> status + u64" where
  "node_integer = read_scalar (\<lambda>k. k = K_INTEGER) payload_int"

definition node_float :: "node list \<Rightarrow> addr option \<Rightarrow> status + u64" where
  "node_float = read_scalar (\<lambda>k. k = K_FLOAT) payload_float"

definition node_boolean :: "node list \<Rightarrow> addr option \<Rightarrow> status + bool" where
  "node_boolean = read_scalar (\<lambda>k. k = K_BOOLEAN) payload_bool"

definition is_dt_kind :: "kind \<Rightarrow> bool" where
  "is_dt_kind k \<longleftrightarrow> k \<in> {K_DATETIME_OFFSET, K_DATETIME_LOCAL, K_DATE_LOCAL, K_TIME_LOCAL}"

definition node_datetime :: "node list \<Rightarrow> addr option \<Rightarrow> status + datetime" where
  "node_datetime = read_scalar is_dt_kind payload_dt"

definition node_array_length :: "node list \<Rightarrow> addr option \<Rightarrow> nat" where
  "node_array_length ns n =
    (case n of None \<Rightarrow> 0
     | Some i \<Rightarrow> if n_kind (ns ! i) = K_ARRAY then length (ar_items (payload_array (n_as (ns ! i)))) else 0)"

definition node_array_at :: "node list \<Rightarrow> addr option \<Rightarrow> nat \<Rightarrow> addr option" where
  "node_array_at ns n ix =
    (case n of None \<Rightarrow> None
     | Some i \<Rightarrow>
         if n_kind (ns ! i) \<noteq> K_ARRAY \<or> ix \<ge> length (ar_items (payload_array (n_as (ns ! i)))) then None
         else Some (ar_items (payload_array (n_as (ns ! i))) ! ix))"

definition node_table_length :: "node list \<Rightarrow> addr option \<Rightarrow> nat" where
  "node_table_length ns n =
    (case n of None \<Rightarrow> 0
     | Some i \<Rightarrow> if n_kind (ns ! i) = K_TABLE then length (t_entries (payload_table (n_as (ns ! i)))) else 0)"

definition node_table_at :: "node list \<Rightarrow> addr option \<Rightarrow> nat \<Rightarrow> (bytes \<times> addr) option" where
  "node_table_at ns n ix =
    (case n of None \<Rightarrow> None
     | Some i \<Rightarrow>
         if n_kind (ns ! i) \<noteq> K_TABLE \<or> ix \<ge> length (t_entries (payload_table (n_as (ns ! i)))) then None
         else (let e = t_entries (payload_table (n_as (ns ! i))) ! ix in Some (v_bytes (e_key e), e_value e)))"

text \<open>The outer option is \<open>None\<close> if the probing loop does not stop.\<close>

definition node_table_get :: "document \<Rightarrow> addr option \<Rightarrow> bytes option \<Rightarrow> addr option option" where
  "node_table_get doc n key =
    (case (n, key) of
       (Some i, Some k) \<Rightarrow>
         (if n_kind (the_node doc i) \<noteq> K_TABLE then Some None
          else map_option (map_option e_value) (dom_table_find doc i k))
     | _ \<Rightarrow> Some None)"

fun status_string :: "status \<Rightarrow> string" where
  "status_string ST_OK = ''ok''"
| "status_string ERR_ALLOC = ''out of memory''"
| "status_string ERR_SYNTAX = ''syntax error''"
| "status_string ERR_SEMANTIC = ''semantic error''"
| "status_string ERR_ENCODING = ''invalid encoding''"
| "status_string ERR_DEPTH = ''nesting too deep''"
| "status_string ERR_ARG = ''invalid argument''"
| "status_string ERR_STATE = ''invalid state''"

subsection \<open>The flat buffer\<close>

text \<open>\<open>fb_avail\<close> is the largest block \<open>realloc\<close> still gives; the block is gone after it fails.\<close>

record flatbuf =
  fb_bytes :: bytes
  fb_cap :: nat
  fb_st :: status
  fb_avail :: nat

definition fb_grow :: "flatbuf \<Rightarrow> nat \<Rightarrow> flatbuf" where
  "fb_grow b extra =
    (if fb_st b \<noteq> ST_OK then b
     else if length (fb_bytes b) + extra \<le> fb_cap b then b
     else (let ncap = grow_cap (length (fb_bytes b) + extra) (if fb_cap b \<noteq> 0 then fb_cap b else 512)
           in if ncap > fb_avail b then b\<lparr>fb_st := ERR_ALLOC\<rparr> else b\<lparr>fb_cap := ncap\<rparr>))"

definition fb_write :: "flatbuf \<Rightarrow> bytes \<Rightarrow> flatbuf" where
  "fb_write b s = b\<lparr>fb_bytes := fb_bytes b @ s\<rparr>"

definition fb_byte :: "flatbuf \<Rightarrow> byte \<Rightarrow> flatbuf" where
  "fb_byte b v = (let b' = fb_grow b 1 in if fb_st b' = ST_OK then fb_write b' [v] else b')"

definition fb_u32 :: "flatbuf \<Rightarrow> u32 \<Rightarrow> flatbuf" where
  "fb_u32 b v =
    (let b' = fb_grow b 4
     in if fb_st b' = ST_OK
        then fb_write b' [ucast v, ucast (drop_bit 8 v), ucast (drop_bit 16 v), ucast (drop_bit 24 v)]
        else b')"

definition fb_u64 :: "flatbuf \<Rightarrow> u64 \<Rightarrow> flatbuf" where
  "fb_u64 b v = foldl (\<lambda>b i. fb_byte b (ucast (drop_bit (8 * i) v))) b [0, 1, 2, 3, 4, 5, 6, 7]"

definition fb_dt :: "flatbuf \<Rightarrow> datetime \<Rightarrow> flatbuf" where
  "fb_dt b d =
    (let b = fb_u64 b (scast (dt_year d));
         b = fb_byte b (dt_month d);
         b = fb_byte b (dt_day d);
         b = fb_byte b (dt_hour d);
         b = fb_byte b (dt_minute d);
         b = fb_byte b (dt_second d);
         b = fb_u32 b (dt_nanosecond d)
     in fb_u64 b (scast (dt_offset_seconds d)))"

text \<open>
  A view's bytes go out by \<open>memcpy\<close> behind a test of the status: \<open>Inl\<close> is that early return.
\<close>

definition fb_view :: "flatbuf \<Rightarrow> bytes \<Rightarrow> flatbuf + flatbuf" where
  "fb_view b s =
    (let b' = fb_grow (fb_u32 b (of_nat (length s))) (length s)
     in if fb_st b' \<noteq> ST_OK then Inl b' else Inr (fb_write b' s))"

fun dt_tag :: "kind \<Rightarrow> byte" where
  "dt_tag K_DATETIME_OFFSET = 0x08"
| "dt_tag K_DATETIME_LOCAL = 0x09"
| "dt_tag K_DATE_LOCAL = 0x0A"
| "dt_tag _ = 0x0B"

text \<open>The loops over entries and items stop at the first status that is not \<open>TEPTRIS_OK\<close>.\<close>

fun flat_seq :: "(flatbuf \<Rightarrow> 'a \<Rightarrow> (flatbuf \<times> status) option) \<Rightarrow> flatbuf \<Rightarrow> 'a list
    \<Rightarrow> (flatbuf \<times> status) option" where
  "flat_seq f b [] = Some (b, ST_OK)"
| "flat_seq f b (x # xs) =
    (case f b x of
       None \<Rightarrow> None
     | Some (b', st) \<Rightarrow> if st \<noteq> ST_OK then Some (b', st) else flat_seq f b' xs)"

fun flatten_node :: "nat \<Rightarrow> node list \<Rightarrow> flatbuf \<Rightarrow> addr \<Rightarrow> (flatbuf \<times> status) option" where
  "flatten_node 0 ns b n = None"
| "flatten_node (Suc k) ns b n =
    (let v = n_as (ns ! n)
     in case n_kind (ns ! n) of
          K_TABLE \<Rightarrow>
            flat_seq (\<lambda>b e.
                case fb_view b (v_bytes (e_key e)) of
                  Inl b' \<Rightarrow> Some (b', fb_st b')
                | Inr b' \<Rightarrow> flatten_node k ns b' (e_value e))
              (fb_u32 (fb_byte b 0x01) (of_nat (length (t_entries (payload_table v)))))
              (t_entries (payload_table v))
        | K_ARRAY \<Rightarrow>
            flat_seq (flatten_node k ns)
              (fb_u32 (fb_byte b 0x02) (of_nat (length (ar_items (payload_array v)))))
              (ar_items (payload_array v))
        | K_STRING \<Rightarrow>
            (case fb_view (fb_byte b 0x03) (payload_str v) of
               Inl b' \<Rightarrow> Some (b', fb_st b')
             | Inr b' \<Rightarrow> Some (b', ST_OK))
        | K_INTEGER \<Rightarrow> Some (fb_u64 (fb_byte b 0x04) (payload_int v), ST_OK)
        | K_FLOAT \<Rightarrow> Some (fb_u64 (fb_byte b 0x05) (payload_float v), ST_OK)
        | K_BOOLEAN \<Rightarrow> Some (fb_byte b (if payload_bool v then 0x07 else 0x06), ST_OK)
        | kd \<Rightarrow> Some (fb_dt (fb_byte b (dt_tag kd)) (payload_dt v), ST_OK))"

text \<open>
  The entry point: status, \<open>*buf\<close> and \<open>*len\<close>. \<open>b.p\<close> is null when the buffer's own status is
  not \<open>TEPTRIS_OK\<close>, which the caller's status does not show.
\<close>

definition document_flatten :: "nat \<Rightarrow> nat \<Rightarrow> document \<Rightarrow> emitted option" where
  "document_flatten fuel avail doc =
    (case d_root doc of
       None \<Rightarrow> Some (Emitted ERR_ARG None 0)
     | Some r \<Rightarrow>
         (let b = fb_grow \<lparr>fb_bytes = [], fb_cap = 0, fb_st = ST_OK, fb_avail = avail\<rparr> 512
          in map_option (\<lambda>(b, st).
                 if st \<noteq> ST_OK then Emitted st None 0
                 else Emitted ST_OK (if fb_st b = ST_OK then Some (fb_bytes b) else None) (length (fb_bytes b)))
               (flatten_node fuel (d_nodes doc) b r)))"

end
