(* ===== verification/Api_Props.thy ===== *)
theory Api_Props
  imports Api Parse_Props
begin

text \<open>
  What \<open>api.c\<close> promises: the accessors read a well-formed document as the value it stands
  for, looking a key up is looking it up in the list of the table's pairs, and the flat
  encoding of a document is one from which the value can be read back.
\<close>

subsection \<open>Documents as values\<close>

datatype tvalue =
    TV_str bytes
  | TV_int u64
  | TV_float u64
  | TV_bool bool
  | TV_dt kind datetime
  | TV_arr "tvalue list"
  | TV_tab "(bytes \<times> tvalue) list"

fun tree_of :: "nat \<Rightarrow> node list \<Rightarrow> addr \<Rightarrow> tvalue option" where
  "tree_of 0 ns n = None"
| "tree_of (Suc k) ns n =
    (let v = n_as (ns ! n)
     in case n_kind (ns ! n) of
          K_STRING \<Rightarrow> Some (TV_str (payload_str v))
        | K_INTEGER \<Rightarrow> Some (TV_int (payload_int v))
        | K_FLOAT \<Rightarrow> Some (TV_float (payload_float v))
        | K_BOOLEAN \<Rightarrow> Some (TV_bool (payload_bool v))
        | K_ARRAY \<Rightarrow> map_option TV_arr (mapo (tree_of k ns) (ar_items (payload_array v)))
        | K_TABLE \<Rightarrow> map_option TV_tab
            (mapo (\<lambda>e. map_option (Pair (v_bytes (e_key e))) (tree_of k ns (e_value e)))
              (t_entries (payload_table v)))
        | kd \<Rightarrow> Some (TV_dt kd (payload_dt v)))"

subsection \<open>The flat text of a value\<close>

definition len32 :: "'a list \<Rightarrow> bytes" where
  "len32 xs = le_bytes 4 (of_nat (length xs) :: u32)"

definition view_flat :: "bytes \<Rightarrow> bytes" where
  "view_flat s = len32 s @ s"

definition dt_flat :: "datetime \<Rightarrow> bytes" where
  "dt_flat d = le_bytes 8 (scast (dt_year d) :: u64) @ [dt_month d, dt_day d, dt_hour d, dt_minute d, dt_second d]
    @ le_bytes 4 (dt_nanosecond d) @ le_bytes 8 (scast (dt_offset_seconds d) :: u64)"

fun flat_text :: "tvalue \<Rightarrow> bytes" where
  "flat_text (TV_tab es) = 0x01 # len32 es @ concat (map (\<lambda>(k, v). view_flat k @ flat_text v) es)"
| "flat_text (TV_arr vs) = 0x02 # len32 vs @ concat (map flat_text vs)"
| "flat_text (TV_str s) = 0x03 # view_flat s"
| "flat_text (TV_int i) = 0x04 # le_bytes 8 i"
| "flat_text (TV_float f) = 0x05 # le_bytes 8 f"
| "flat_text (TV_bool b) = [if b then 0x07 else 0x06]"
| "flat_text (TV_dt k d) = dt_tag k # dt_flat d"

subsection \<open>What the flat buffer's operations append\<close>

definition fb_ok :: "flatbuf \<Rightarrow> bool" where
  "fb_ok b \<longleftrightarrow> (fb_st b = ST_OK \<longrightarrow> length (fb_bytes b) \<le> fb_cap b \<and> fb_cap b \<le> fb_avail b)"

definition fb_room :: "flatbuf \<Rightarrow> bytes \<Rightarrow> bool" where
  "fb_room b s \<longleftrightarrow> fb_st b = ST_OK \<and> fb_ok b \<and> 2 * length (fb_bytes b @ s) + 512 \<le> fb_avail b"

definition fb_puts :: "flatbuf \<Rightarrow> bytes \<Rightarrow> flatbuf \<Rightarrow> bool" where
  "fb_puts b s b' \<longleftrightarrow> fb_avail b' = fb_avail b \<and> (fb_ok b \<longrightarrow> fb_ok b')
     \<and> (fb_st b' = ST_OK \<longrightarrow> fb_st b = ST_OK \<and> fb_bytes b' = fb_bytes b @ s)
     \<and> (fb_room b s \<longrightarrow> fb_st b' = ST_OK) \<and> fb_st b' \<in> {fb_st b, ERR_ALLOC}"

lemma fb_puts_trans [trans]:
  assumes ab: "fb_puts a s b" and bc: "fb_puts b t c"
  shows "fb_puts a (s @ t) c"
proof -
  have "fb_st c = ST_OK" if "fb_room a (s @ t)"
  proof -
    have "fb_room a s" using that by (simp add: fb_room_def)
    then have "fb_st b = ST_OK" "fb_bytes b = fb_bytes a @ s" "fb_avail b = fb_avail a" "fb_ok b"
      using ab by (simp_all add: fb_puts_def fb_room_def)
    then have "fb_room b t" using that by (simp add: fb_room_def)
    then show ?thesis using bc by (simp add: fb_puts_def)
  qed
  then show ?thesis using ab bc by (auto simp: fb_puts_def)
qed

lemma fb_puts_fail: "fb_puts a s b \<Longrightarrow> fb_st b \<noteq> ST_OK \<Longrightarrow> fb_puts a (s @ t) b"
  by (auto simp: fb_puts_def fb_room_def)

lemma fb_puts_refl: "fb_puts b [] b"
  by (simp add: fb_puts_def fb_room_def)

lemma fb_grow_write:
  "fb_puts b s (let b' = fb_grow b (length s) in if fb_st b' = ST_OK then fb_write b' s else b')"
proof -
  let ?cap = "if fb_cap b \<noteq> 0 then fb_cap b else 512" and ?need = "length (fb_bytes b) + length s"
  have cap: "0 < ?cap" by simp
  note g = grow_cap_bounds [OF cap, of ?need]
  show ?thesis
    using g by (auto simp: fb_puts_def fb_grow_def fb_write_def Let_def fb_ok_def fb_room_def)
qed

lemma fb_byte_puts: "fb_puts b [v] (fb_byte b v)"
  using fb_grow_write [of b "[v]"] by (simp add: fb_byte_def)

lemma fb_u32_puts: "fb_puts b (le_bytes 4 v) (fb_u32 b v)"
proof -
  have "fb_puts b (le_bytes 4 v)
      (let b' = fb_grow b 4 in if fb_st b' = ST_OK then fb_write b' (le_bytes 4 v) else b')"
    using fb_grow_write [of b "le_bytes 4 v"] by (simp only: length_le_bytes)
  then show ?thesis by (simp add: fb_u32_def le_bytes_4 Let_def cong: if_cong)
qed

lemma fb_u64_puts: "fb_puts b (le_bytes 8 v) (fb_u64 b v)"
proof -
  have "fb_puts b (map (\<lambda>i. ucast (drop_bit (8 * i) v)) is)
      (foldl (\<lambda>b i. fb_byte b (ucast (drop_bit (8 * i) v))) b is)" for "is"
  proof (induction "is" arbitrary: b)
    case (Cons i "is")
    from fb_puts_trans [OF fb_byte_puts Cons] show ?case by simp
  qed (simp add: fb_puts_refl)
  from this [of "[0, 1, 2, 3, 4, 5, 6, 7]"] show ?thesis
    unfolding fb_u64_def le_bytes_8 .
qed

lemma fb_dt_puts: "fb_puts b (dt_flat d) (fb_dt b d)"
proof -
  have "fb_puts b (le_bytes 8 (scast (dt_year d) :: u64) @ [dt_month d] @ [dt_day d] @ [dt_hour d] @ [dt_minute d]
      @ [dt_second d] @ le_bytes 4 (dt_nanosecond d) @ le_bytes 8 (scast (dt_offset_seconds d) :: u64)) (fb_dt b d)"
    unfolding fb_dt_def Let_def
    by (rule fb_puts_trans [OF fb_u64_puts fb_puts_trans [OF fb_byte_puts fb_puts_trans [OF fb_byte_puts
          fb_puts_trans [OF fb_byte_puts fb_puts_trans [OF fb_byte_puts fb_puts_trans [OF fb_byte_puts
          fb_puts_trans [OF fb_u32_puts fb_u64_puts]]]]]]])
  then show ?thesis by (simp add: dt_flat_def)
qed

lemma fb_view_puts:
  "case fb_view b s of Inl b' \<Rightarrow> fb_puts b (view_flat s) b' \<and> fb_st b' \<noteq> ST_OK | Inr b' \<Rightarrow> fb_puts b (view_flat s) b'"
proof -
  have u: "fb_puts b (len32 s) (fb_u32 b (of_nat (length s)))" unfolding len32_def by (rule fb_u32_puts)
  from fb_puts_trans [OF u fb_grow_write [of _ s]]
  show ?thesis by (auto simp: fb_view_def view_flat_def Let_def)
qed

text \<open>An outcome of the recursion: the text is appended, or the buffer has failed.\<close>

definition flat_out :: "flatbuf \<Rightarrow> bytes \<Rightarrow> (flatbuf \<times> status) option \<Rightarrow> bool" where
  "flat_out b s r \<longleftrightarrow> (\<exists>b' st. r = Some (b', st) \<and> fb_puts b s b' \<and> (st \<noteq> ST_OK \<longrightarrow> fb_st b' = st))"

lemma flat_outI: "fb_puts b s b' \<Longrightarrow> flat_out b s (Some (b', ST_OK))"
  by (simp add: flat_out_def)

lemma flat_out_fail: "fb_puts b s b' \<Longrightarrow> fb_st b' \<noteq> ST_OK \<Longrightarrow> flat_out b s (Some (b', fb_st b'))"
  by (simp add: flat_out_def)

lemma flat_out_after: "fb_puts a s b \<Longrightarrow> flat_out b t r \<Longrightarrow> flat_out a (s @ t) r"
  unfolding flat_out_def using fb_puts_trans by blast

lemma flat_seq_out:
  assumes "\<And>b x. x \<in> set xs \<Longrightarrow> flat_out b (g x) (f b x)"
  shows "flat_out b (concat (map g xs)) (flat_seq f b xs)"
  using assms
proof (induction xs arbitrary: b)
  case Nil
  then show ?case by (simp add: flat_outI fb_puts_refl)
next
  case (Cons x xs)
  obtain b' st where b': "f b x = Some (b', st)" and puts: "fb_puts b (g x) b'" and st: "st \<noteq> ST_OK \<longrightarrow> fb_st b' = st"
    using Cons.prems [of x b] by (auto simp: flat_out_def)
  show ?case
  proof (cases "st = ST_OK")
    case True
    have "flat_out b' (concat (map g xs)) (flat_seq f b' xs)" by (rule Cons.IH) (simp add: Cons.prems)
    from flat_out_after [OF puts this] show ?thesis by (simp add: b' True)
  next
    case False
    then have "fb_puts b (g x @ concat (map g xs)) b'" using puts st by (intro fb_puts_fail) simp_all
    from flat_out_fail [OF this] show ?thesis using False st by (simp add: b')
  qed
qed

lemma mapo_Some: "mapo f xs = Some ys \<longleftrightarrow> list_all2 (\<lambda>x y. f x = Some y) xs ys"
proof (induction xs arbitrary: ys)
  case (Cons x xs)
  then show ?case by (cases ys) (auto split: option.splits)
qed auto

lemma mapo_image: "mapo f xs = Some ys \<Longrightarrow> y \<in> set ys \<Longrightarrow> \<exists>x \<in> set xs. f x = Some y"
  by (fastforce simp: mapo_Some list_all2_conv_all_nth in_set_conv_nth)

lemma mapo_map: "mapo f xs = Some ys \<Longrightarrow> (\<And>x y. x \<in> set xs \<Longrightarrow> f x = Some y \<Longrightarrow> h y = g x) \<Longrightarrow> map h ys = map g xs"
proof (induction xs arbitrary: ys)
  case (Cons x xs)
  then show ?case by (auto split: option.splits)
qed simp

lemma flatten_node_out:
  "tree_of k ns n = Some t \<Longrightarrow> flat_out b (flat_text t) (flatten_node k ns b n)"
proof (induction k arbitrary: n t b)
  case (Suc k)
  let ?v = "n_as (ns ! n)"
  have head: "fb_puts b (c # len32 xs) (fb_u32 (fb_byte b c) (of_nat (length xs)))" for c and xs :: "'x list"
    using fb_puts_trans [OF fb_byte_puts fb_u32_puts, of b c "of_nat (length xs)"] by (simp add: len32_def)
  have word: "fb_puts b (c # le_bytes 8 w) (fb_u64 (fb_byte b c) w)" for c w
    using fb_puts_trans [OF fb_byte_puts fb_u64_puts, of b c w] by simp
  have dt: "fb_puts b (c # dt_flat d) (fb_dt (fb_byte b c) d)" for c d
    using fb_puts_trans [OF fb_byte_puts fb_dt_puts, of b c d] by simp
  show ?case
  proof (cases "n_kind (ns ! n)")
    case K_STRING
    have "case fb_view (fb_byte b 3) (payload_str ?v) of
        Inl b' \<Rightarrow> fb_puts b (3 # view_flat (payload_str ?v)) b' \<and> fb_st b' \<noteq> ST_OK
      | Inr b' \<Rightarrow> fb_puts b (3 # view_flat (payload_str ?v)) b'"
      using fb_view_puts [of "fb_byte b 3" "payload_str ?v"] fb_puts_trans [OF fb_byte_puts, of b 3]
      by (fastforce split: sum.splits)
    then show ?thesis using Suc.prems K_STRING
      by (auto simp: Let_def intro: flat_outI flat_out_fail split: sum.splits)
  next
    case K_ARRAY
    obtain vs where vs: "mapo (tree_of k ns) (ar_items (payload_array ?v)) = Some vs" "t = TV_arr vs"
      using Suc.prems K_ARRAY by auto
    let ?f = "flatten_node k ns"
    have "flat_out b' (concat (map (\<lambda>i. flat_text (the (tree_of k ns i))) (ar_items (payload_array ?v))))
        (flat_seq ?f b' (ar_items (payload_array ?v)))" for b'
    proof (rule flat_seq_out)
      fix b' i assume "i \<in> set (ar_items (payload_array ?v))"
      then obtain u where "tree_of k ns i = Some u" using vs(1) by (auto simp: mapo_Some list_all2_conv_all_nth in_set_conv_nth)
      then show "flat_out b' (flat_text (the (tree_of k ns i))) (?f b' i)" using Suc.IH by simp
    qed
    moreover have "map flat_text vs = map (\<lambda>i. flat_text (the (tree_of k ns i))) (ar_items (payload_array ?v))"
      using vs(1) by (rule mapo_map) simp
    moreover have "length vs = length (ar_items (payload_array ?v))" using vs(1) by (simp add: mapo_Some list_all2_lengthD)
    ultimately show ?thesis
      using flat_out_after [OF head [of 2 "ar_items (payload_array ?v)"]] K_ARRAY vs(2)
      by (simp add: Let_def len32_def)
  next
    case K_TABLE
    let ?es = "t_entries (payload_table ?v)"
    let ?pair = "\<lambda>e. map_option (Pair (v_bytes (e_key e))) (tree_of k ns (e_value e))"
    let ?txt = "\<lambda>e. view_flat (v_bytes (e_key e)) @ flat_text (the (tree_of k ns (e_value e)))"
    let ?f = "\<lambda>b e. case fb_view b (v_bytes (e_key e)) of
                  Inl b' \<Rightarrow> Some (b', fb_st b') | Inr b' \<Rightarrow> flatten_node k ns b' (e_value e)"
    obtain ps where ps: "mapo ?pair ?es = Some ps" "t = TV_tab ps" using Suc.prems K_TABLE by auto
    have "flat_out b' (concat (map ?txt ?es)) (flat_seq ?f b' ?es)" for b'
    proof (rule flat_seq_out)
      fix b' e assume "e \<in> set ?es"
      then obtain u where u: "tree_of k ns (e_value e) = Some u"
        using ps(1) by (fastforce simp: mapo_Some list_all2_conv_all_nth in_set_conv_nth)
      show "flat_out b' (?txt e) (?f b' e)"
      proof (cases "fb_view b' (v_bytes (e_key e))")
        case (Inl c)
        then show ?thesis using fb_view_puts [of b' "v_bytes (e_key e)"]
          by (auto intro!: flat_out_fail fb_puts_fail)
      next
        case (Inr c)
        then show ?thesis using fb_view_puts [of b' "v_bytes (e_key e)"] Suc.IH [OF u, of c] u
          by (auto intro: flat_out_after)
      qed
    qed
    moreover have "map (\<lambda>(k, v). view_flat k @ flat_text v) ps = map ?txt ?es"
      using ps(1) by (rule mapo_map) auto
    moreover have "length ps = length ?es" using ps(1) by (simp add: mapo_Some list_all2_lengthD)
    ultimately show ?thesis
      using flat_out_after [OF head [of 1 ?es]] K_TABLE ps(2) by (simp add: Let_def len32_def)
  qed (use Suc.prems word dt in \<open>auto simp: Let_def intro!: flat_outI fb_byte_puts\<close>)
qed simp

subsection \<open>Reading the flat text back\<close>

definition take_u32 :: "bytes \<Rightarrow> (nat \<times> bytes) option" where
  "take_u32 p = (if length p < 4 then None else Some (unat (le_u64 (take 4 p)), drop 4 p))"

definition take_view :: "bytes \<Rightarrow> (bytes \<times> bytes) option" where
  "take_view p =
    (case take_u32 p of
       None \<Rightarrow> None
     | Some (n, q) \<Rightarrow> if length q < n then None else Some (take n q, drop n q))"

definition take_u64 :: "bytes \<Rightarrow> (u64 \<times> bytes) option" where
  "take_u64 p = (if length p < 8 then None else Some (le_u64 (take 8 p), drop 8 p))"

definition take_dt :: "bytes \<Rightarrow> (datetime \<times> bytes) option" where
  "take_dt p =
    (if length p < 25 then None
     else Some (\<lparr>dt_year = ucast (le_u64 (take 8 p)), dt_month = p ! 8, dt_day = p ! 9, dt_hour = p ! 10,
                 dt_minute = p ! 11, dt_second = p ! 12,
                 dt_nanosecond = ucast (le_u64 (take 4 (drop 13 p))),
                 dt_offset_seconds = ucast (le_u64 (take 8 (drop 17 p)))\<rparr>, drop 25 p))"

fun take_n :: "(bytes \<Rightarrow> ('a \<times> bytes) option) \<Rightarrow> nat \<Rightarrow> bytes \<Rightarrow> ('a list \<times> bytes) option" where
  "take_n f 0 p = Some ([], p)"
| "take_n f (Suc n) p =
    (case f p of
       None \<Rightarrow> None
     | Some (x, q) \<Rightarrow> map_option (\<lambda>(xs, r). (x # xs, r)) (take_n f n q))"

definition take_pair :: "(bytes \<Rightarrow> (tvalue \<times> bytes) option) \<Rightarrow> bytes \<Rightarrow> ((bytes \<times> tvalue) \<times> bytes) option" where
  "take_pair f p =
    (case take_view p of
       None \<Rightarrow> None
     | Some (k, q) \<Rightarrow> map_option (\<lambda>(v, r). ((k, v), r)) (f q))"

fun unflat :: "nat \<Rightarrow> bytes \<Rightarrow> (tvalue \<times> bytes) option" where
  "unflat 0 p = None"
| "unflat (Suc k) [] = None"
| "unflat (Suc k) (c # p) =
    (if c = 0x01 then
       (case take_u32 p of None \<Rightarrow> None
        | Some (n, q) \<Rightarrow> map_option (\<lambda>(es, r). (TV_tab es, r)) (take_n (take_pair (unflat k)) n q))
     else if c = 0x02 then
       (case take_u32 p of None \<Rightarrow> None
        | Some (n, q) \<Rightarrow> map_option (\<lambda>(vs, r). (TV_arr vs, r)) (take_n (unflat k) n q))
     else if c = 0x03 then map_option (\<lambda>(s, r). (TV_str s, r)) (take_view p)
     else if c = 0x04 then map_option (\<lambda>(i, r). (TV_int i, r)) (take_u64 p)
     else if c = 0x05 then map_option (\<lambda>(f, r). (TV_float f, r)) (take_u64 p)
     else if c = 0x06 then Some (TV_bool False, p)
     else if c = 0x07 then Some (TV_bool True, p)
     else if c = 0x08 then map_option (\<lambda>(d, r). (TV_dt K_DATETIME_OFFSET d, r)) (take_dt p)
     else if c = 0x09 then map_option (\<lambda>(d, r). (TV_dt K_DATETIME_LOCAL d, r)) (take_dt p)
     else if c = 0x0A then map_option (\<lambda>(d, r). (TV_dt K_DATE_LOCAL d, r)) (take_dt p)
     else if c = 0x0B then map_option (\<lambda>(d, r). (TV_dt K_TIME_LOCAL d, r)) (take_dt p)
     else None)"

text \<open>The lengths of strings, keys and containers fit their 32-bit fields.\<close>

fun fits32 :: "tvalue \<Rightarrow> bool" where
  "fits32 (TV_str s) \<longleftrightarrow> length s < 2 ^ 32"
| "fits32 (TV_arr vs) \<longleftrightarrow> length vs < 2 ^ 32 \<and> list_all fits32 vs"
| "fits32 (TV_tab es) \<longleftrightarrow> length es < 2 ^ 32 \<and> list_all (\<lambda>(k, v). length k < 2 ^ 32 \<and> fits32 v) es"
| "fits32 (TV_dt k d) \<longleftrightarrow> is_dt_kind k"
| "fits32 v \<longleftrightarrow> True"

lemma take_u32_len: "length xs < 2 ^ 32 \<Longrightarrow> take_u32 (len32 xs @ r) = Some (length xs, r)"
  by (simp add: take_u32_def len32_def le_u64_bytes4 unsigned_ucast_eq unsigned_of_nat take_bit_eq_mod)

lemma take_view_flat: "length s < 2 ^ 32 \<Longrightarrow> take_view (view_flat s @ r) = Some (s, r)"
  by (simp add: take_view_def view_flat_def take_u32_len)

lemma take_u64_bytes: "take_u64 (le_bytes 8 v @ r) = Some (v, r)"
  by (simp add: take_u64_def le_u64_bytes)

lemma ucast_scast_u32: "ucast (scast v :: u64) = v" for v :: u32
  by (rule bit_word_eqI) (simp add: bit_simps)

lemma ucast_ucast_u32: "ucast (ucast v :: u64) = v" for v :: u32
  by (rule bit_word_eqI) (simp add: bit_simps)

lemma take_dt_flat: "take_dt (dt_flat d @ r) = Some (d, r)"
proof -
  have "take 8 (le_bytes 8 v @ s) = le_bytes 8 v" for v :: u64 and s by simp
  then show ?thesis
    by (simp add: take_dt_def dt_flat_def nth_append le_u64_bytes le_u64_bytes4 ucast_scast_u32 ucast_ucast_u32)
qed

lemma take_n_concat:
  assumes "\<And>x r. x \<in> set xs \<Longrightarrow> f (g x @ r) = Some (x, r)"
  shows "take_n f (length xs) (concat (map g xs) @ r) = Some (xs, r)"
  using assms by (induction xs) simp_all

lemma unflat_text:
  "tree_of k ns n = Some t \<Longrightarrow> fits32 t \<Longrightarrow> unflat k (flat_text t @ r) = Some (t, r)"
proof (induction k arbitrary: n t r)
  case (Suc k)
  let ?v = "n_as (ns ! n)"
  show ?case
  proof (cases "n_kind (ns ! n)")
    case K_ARRAY
    obtain vs where vs: "mapo (tree_of k ns) (ar_items (payload_array ?v)) = Some vs" "t = TV_arr vs"
      using Suc.prems K_ARRAY by auto
    have "unflat k (flat_text u @ r) = Some (u, r)" if u: "u \<in> set vs" for u r
    proof -
      obtain i where "tree_of k ns i = Some u"
        using mapo_image [OF vs(1) u] by blast
      moreover have "fits32 u" using Suc.prems(2) u vs(2) by (simp add: list_all_iff)
      ultimately show ?thesis by (rule Suc.IH)
    qed
    then have "take_n (unflat k) (length vs) (concat (map flat_text vs) @ r) = Some (vs, r)" by (rule take_n_concat)
    then show ?thesis using Suc.prems(2) by (simp add: vs(2) take_u32_len)
  next
    case K_TABLE
    let ?pair = "\<lambda>e. map_option (Pair (v_bytes (e_key e))) (tree_of k ns (e_value e))"
    obtain ps where ps: "mapo ?pair (t_entries (payload_table ?v)) = Some ps" "t = TV_tab ps"
      using Suc.prems K_TABLE by auto
    have "take_pair (unflat k) ((\<lambda>(k, v). view_flat k @ flat_text v) p @ r) = Some (p, r)" if p: "p \<in> set ps" for p r
    proof -
      obtain i where "tree_of k ns i = Some (snd p)"
        using mapo_image [OF ps(1) p] by auto
      moreover have "fits32 (snd p)" "length (fst p) < 2 ^ 32"
        using Suc.prems(2) p ps(2) by (auto simp: list_all_iff)
      ultimately show ?thesis using Suc.IH [of i "snd p" r]
        by (cases p) (simp add: take_pair_def take_view_flat)
    qed
    then have "take_n (take_pair (unflat k)) (length ps)
        (concat (map (\<lambda>(k, v). view_flat k @ flat_text v) ps) @ r) = Some (ps, r)" by (rule take_n_concat)
    then show ?thesis using Suc.prems(2) by (simp add: ps(2) take_u32_len)
  qed (use Suc.prems in \<open>auto simp: Let_def take_view_flat take_u64_bytes take_dt_flat\<close>)
qed simp

subsection \<open>Properties\<close>

text \<open>C17: flattening a document with memory for twice its text hands out the flat text of the value the
  document stands for, complete, and that text determines the value: reading it back, with
  anything behind it, yields the value and leaves the rest.\<close>

theorem flatten_round_trip:
  assumes root: "d_root doc = Some r" and tree: "tree_of fuel (d_nodes doc) r = Some t"
    and len: "fits32 t" and mem: "2 * length (flat_text t) + 512 \<le> avail"
  shows "document_flatten fuel avail doc = Some (Emitted ST_OK (Some (flat_text t)) (length (flat_text t)))
    \<and> unflat fuel (flat_text t @ rest) = Some (t, rest)"
proof -
  let ?b = "fb_grow \<lparr>fb_bytes = [], fb_cap = 0, fb_st = ST_OK, fb_avail = avail\<rparr> 512"
  have b: "?b = \<lparr>fb_bytes = [], fb_cap = 512, fb_st = ST_OK, fb_avail = avail\<rparr>"
    using mem by (simp add: fb_grow_def grow_cap.simps)
  then have "fb_room ?b (flat_text t)" using mem by (simp add: fb_room_def fb_ok_def)
  then obtain b' st where "flatten_node fuel (d_nodes doc) ?b r = Some (b', st)" "fb_st b' = ST_OK"
    "fb_bytes b' = flat_text t" "st = ST_OK"
    using flatten_node_out [OF tree, of ?b] b by (fastforce simp: flat_out_def fb_puts_def)
  then show ?thesis using unflat_text [OF tree len] by (simp add: document_flatten_def root)
qed

lemma fb_grow_fits: "length (fb_bytes b) + n \<le> fb_cap b \<Longrightarrow> fb_grow b n = b"
  by (simp add: fb_grow_def)

text \<open>C19: when the block cannot grow while the last value of a document is an integer, flattening
  reports success and hands out no buffer: the status of the buffer is not read again.\<close>

theorem flatten_loses_failure:
  assumes root: "d_root doc = Some r" "n_kind (the_node doc r) = K_TABLE"
    and entry: "t_entries (the_table doc r) = [e]" and int: "n_kind (the_node doc (e_value e)) = K_INTEGER"
    and len: "length (v_bytes (e_key e)) + 9 \<le> 512" "512 < length (v_bytes (e_key e)) + 18"
  shows "\<exists>n. document_flatten (Suc (Suc k)) 512 doc = Some (Emitted ST_OK None n)"
proof -
  let ?b0 = "\<lparr>fb_bytes = [], fb_cap = 512, fb_st = ST_OK, fb_avail = 512\<rparr>"
  let ?key = "v_bytes (e_key e)"
  define b1 where "b1 = fb_u32 (fb_byte ?b0 1) 1"
  have b1: "length (fb_bytes b1) = 5" "fb_st b1 = ST_OK" "fb_cap b1 = 512" "fb_avail b1 = 512"
    by (simp_all add: b1_def fb_u32_def fb_byte_def fb_grow_fits fb_write_def Let_def)
  obtain b2 where view: "fb_view b1 ?key = Inr b2" and b2: "length (fb_bytes b2) = 9 + length ?key"
    "fb_st b2 = ST_OK" "fb_cap b2 = 512" "fb_avail b2 = 512"
    using len b1 by (auto simp: fb_view_def fb_u32_def fb_grow_fits fb_write_def Let_def)
  define b3 where "b3 = fb_u64 (fb_byte b2 4) (payload_int (n_as (the_node doc (e_value e))))"
  have puts: "fb_puts b2 (4 # le_bytes 8 (payload_int (n_as (the_node doc (e_value e))))) b3"
    using fb_puts_trans [OF fb_byte_puts fb_u64_puts] by (simp add: b3_def)
  have "fb_ok b2" using b2 len by (simp add: fb_ok_def)
  then have "fb_st b3 \<noteq> ST_OK" using puts b2 len by (auto simp: fb_puts_def fb_ok_def)
  moreover have "fb_grow \<lparr>fb_bytes = [], fb_cap = 0, fb_st = ST_OK, fb_avail = 512\<rparr> 512 = ?b0"
    by (simp add: fb_grow_def grow_cap.simps)
  ultimately show ?thesis
    using root entry int view by (simp add: document_flatten_def Let_def b1_def b3_def)
qed

text \<open>C18: on an accepted document a lookup by key is the lookup in the list of the table's pairs: it
  stops, finds the value of a key that is there, and null for any other.\<close>

theorem table_get_finds:
  assumes len: "length data < 2 ^ 32 - 1" and ok: "teptris_parse fo avail data opts = Done ST_OK doc"
    and n: "n < length (d_nodes doc)" "n_kind (the_node doc n) = K_TABLE"
  shows "node_table_get doc (Some n) (Some key) =
    Some (map_of (map (\<lambda>e. (v_bytes (e_key e), e_value e)) (t_entries (the_table doc n))) key)"
proof -
  have "table_wf (the_table doc n)" using parse_nodes_ok [OF len ok] n(1) by (simp add: nodes_ok_def node_ok_def)
  then show ?thesis
    using n(2) map_of_table_list [of "the_table doc n" key]
    by (simp add: node_table_get_def dom_table_find_def table_find_h_spec table_list_def e_bytes_def)
qed

subsection \<open>Witnesses\<close>

fun value_check :: "run \<Rightarrow> bool" where
  "value_check (Done st doc) \<longleftrightarrow> st = ST_OK \<and> d_root doc = Some 0 \<and> 0 < length (d_nodes doc)
     \<and> n_kind (the_node doc 0) = K_TABLE
     \<and> map (\<lambda>e. v_bytes (e_key e)) (t_entries (the_table doc 0)) = [lit ''a'']
     \<and> tree_of 2 (d_nodes doc) 0 = Some (TV_tab [(lit ''a'', TV_bool True)])"
| "value_check _ \<longleftrightarrow> False"

lemma value_checked: "value_check (teptris_parse no_floats 100000 (lit ''a=true'') None)"
  by code_simp

lemma value_sample:
  obtains doc where "teptris_parse no_floats 100000 (lit ''a=true'') None = Done ST_OK doc"
    and "value_check (Done ST_OK doc)"
  using sample_ok value_checked by (metis (no_types, lifting))

lemma flatten_round_trip_witness:
  "\<exists>doc. teptris_parse no_floats 100000 (lit ''a=true'') None = Done ST_OK doc
     \<and> document_flatten 2 4096 doc = Some (Emitted ST_OK (Some [1, 1, 0, 0, 0, 1, 0, 0, 0, 0x61, 7]) 11)
     \<and> unflat 2 [1, 1, 0, 0, 0, 1, 0, 0, 0, 0x61, 7, 0xFF]
         = Some (TV_tab [(lit ''a'', TV_bool True)], [0xFF])"
proof -
  let ?t = "TV_tab [(lit ''a'', TV_bool True)]"
  obtain doc where doc: "teptris_parse no_floats 100000 (lit ''a=true'') None = Done ST_OK doc"
    and chk: "value_check (Done ST_OK doc)" by (rule value_sample)
  have out: "flat_text ?t = [1, 1, 0, 0, 0, 1, 0, 0, 0, 0x61, 7]" by code_simp
  have "fits32 ?t" "2 * length (flat_text ?t) + 512 \<le> 4096" by (simp add: lit_def, simp only: out list.size, simp)
  from flatten_round_trip [OF _ _ this, of doc 0 2 "[0xFF]"] chk doc show ?thesis by (simp add: out del: flat_text.simps)
qed

text \<open>A root with one key of 500 bytes and an integer below it.\<close>

definition tight_entry :: entry where
  "tight_entry = \<lparr>e_key = View None (replicate 500 0x6B), e_value = 1, e_hash = 0\<rparr>"

definition tight_doc :: document where
  "tight_doc = (new_document 512 512)\<lparr>d_root := Some 0, d_nodes :=
     [\<lparr>n_kind = K_TABLE, n_flags = TBL_EXPLICIT, n_as = P_Table (empty_table\<lparr>t_entries := [tight_entry]\<rparr>)\<rparr>,
      \<lparr>n_kind = K_INTEGER, n_flags = 0, n_as = P_Int 1\<rparr>]\<rparr>"

lemma flatten_loses_failure_witness:
  "\<exists>n. document_flatten 2 512 tight_doc = Some (Emitted ST_OK None n)"
  using flatten_loses_failure [of tight_doc 0 tight_entry 0]
  by (simp add: tight_doc_def tight_entry_def numeral_2_eq_2)

lemma table_get_finds_witness:
  "\<exists>doc v. teptris_parse no_floats 100000 (lit ''a=true'') None = Done ST_OK doc
     \<and> node_table_get doc (Some 0) (Some (lit ''a'')) = Some (Some v)
     \<and> node_table_get doc (Some 0) (Some (lit ''b'')) = Some None"
proof -
  obtain doc where doc: "teptris_parse no_floats 100000 (lit ''a=true'') None = Done ST_OK doc"
    and chk: "value_check (Done ST_OK doc)" by (rule value_sample)
  obtain e where e: "t_entries (the_table doc 0) = [e]" "v_bytes (e_key e) = lit ''a''" using chk by auto
  have "length (lit ''a=true'') < 2 ^ 32 - 1" by (simp add: lit_def)
  from table_get_finds [OF this doc, of 0] chk doc e show ?thesis by (simp add: lit_def)
qed

end
