(* ===== verification/Writer_Props.thy ===== *)
theory Writer_Props
  imports Writer Api_Props
begin

text \<open>
  The streaming writer against the document emitter: a document has an operation stream
  (\<open>ops_children\<close>, \<open>op_bytes\<close>), and the writer fed with it produces the text that the emitter
  produces for the document. The proof follows the stack: \<open>runs\<close> states what a sequence of
  operations appends and what it leaves of the stack.
\<close>

subsection \<open>The stream of a document\<close>

fun ops_value :: "nat \<Rightarrow> node list \<Rightarrow> addr \<Rightarrow> wop list option" where
  "ops_value 0 ns i = None"
| "ops_value (Suc k) ns i =
    (let v = n_as (ns ! i)
     in case n_kind (ns ! i) of
          K_STRING \<Rightarrow> Some [W_STRING (payload_str v)]
        | K_INTEGER \<Rightarrow> Some [W_INT (payload_int v)]
        | K_FLOAT \<Rightarrow> Some [W_FLOAT (payload_float v)]
        | K_BOOLEAN \<Rightarrow> Some [W_BOOL (payload_bool v)]
        | K_ARRAY \<Rightarrow>
            map_option (\<lambda>os. [W_BEGIN_ARRAY] @ concat os @ [W_CLOSE])
              (mapo (ops_value k ns) (ar_items (payload_array v)))
        | K_TABLE \<Rightarrow>
            map_option (\<lambda>os. [W_BEGIN_INLINE_TABLE] @ concat os @ [W_CLOSE])
              (mapo (\<lambda>e. map_option (Cons (W_KEY (v_bytes (e_key e)))) (ops_value k ns (e_value e)))
                (t_entries (payload_table v)))
        | kd \<Rightarrow> Some [W_DATETIME kd (payload_dt v)])"

definition ops_section :: "(addr \<Rightarrow> wop list option) \<Rightarrow> node list \<Rightarrow> bytes \<Rightarrow> addr \<Rightarrow> wop list option" where
  "ops_section children ns key v =
    (if n_kind (ns ! v) = K_ARRAY
     then map_option (\<lambda>os. [W_KEY key, W_BEGIN_AOT] @ concat os @ [W_CLOSE])
            (mapo (\<lambda>i. map_option (\<lambda>c. [W_BEGIN_TABLE] @ c @ [W_CLOSE]) (children i))
              (ar_items (payload_array (n_as (ns ! v)))))
     else map_option (\<lambda>c. [W_KEY key, W_BEGIN_TABLE] @ c @ [W_CLOSE]) (children v))"

fun ops_children :: "nat \<Rightarrow> node list \<Rightarrow> addr \<Rightarrow> wop list option" where
  "ops_children 0 ns t = None"
| "ops_children (Suc k) ns t =
    (let es = t_entries (payload_table (n_as (ns ! t)));
         line = (\<lambda>e. map_option (Cons (W_KEY (v_bytes (e_key e)))) (ops_value k ns (e_value e)));
         section = (\<lambda>e. ops_section (ops_children k ns) ns (v_bytes (e_key e)) (e_value e))
     in case (mapo line (filter (\<lambda>e. \<not> is_section (ns ! e_value e)) es),
              mapo section (filter (\<lambda>e. is_section (ns ! e_value e)) es)) of
          (Some ls, Some ss) \<Rightarrow> Some (concat ls @ concat ss)
        | _ \<Rightarrow> None)"

subsection \<open>Runs\<close>

text \<open>No outcome of the list is a failure; then what the size rule grants is granted.\<close>

definition granted :: "bool list \<Rightarrow> bool" where
  "granted mem \<longleftrightarrow> list_all id mem"

lemma granted_grants: "granted (w_mem w) \<Longrightarrow> n \<le> eb_avail (w_out w) \<Longrightarrow> w_grants w n"
  by (cases "w_mem w") (simp_all add: granted_def w_grants_def w_can_def)

lemma granted_tl: "granted mem \<Longrightarrow> granted (tl mem)"
  by (cases mem) (simp_all add: granted_def)

lemma w_spent_simps [simp]:
  "w_out (w_spent w) = w_out w" "w_key (w_spent w) = w_key w" "w_stack (w_spent w) = w_stack w"
  "w_finished (w_spent w) = w_finished w" "w_st (w_spent w) = w_st w" "w_mem (w_spent w) = tl (w_mem w)"
  by (simp_all add: w_spent_def)

definition w_ready :: "writer \<Rightarrow> bool" where
  "w_ready w \<longleftrightarrow> w_st w = ST_OK \<and> 260 \<le> eb_avail (w_out w) \<and> granted (w_mem w)"

definition arrives :: "writer \<Rightarrow> bytes \<Rightarrow> wframe list \<Rightarrow> writer \<Rightarrow> bool" where
  "arrives w s stk w' \<longleftrightarrow> w_key w' = None \<and> w_stack w' = stk \<and> w_st w' = w_st w \<and> w_finished w' = w_finished w
     \<and> renders (w_out w) s (w_out w') \<and> (granted (w_mem w) \<longrightarrow> granted (w_mem w'))"

lemma w_mem_simps [simp]:
  "w_mem (w_emit f w) = w_mem w" "w_mem (w_clear_key w) = w_mem w" "w_mem (w_fail st w) = w_mem w"
  "w_mem (w_path tail w) = w_mem w" "w_mem (map_top g w) = w_mem w" "w_mem (mark_saw w) = w_mem w"
  "w_mem (w_sep_top w) = w_mem w" "w_mem (w_end_line w) = w_mem w" "w_mem (w_keyed_prefix w) = w_mem w"
  by (simp_all add: w_emit_def w_clear_key_def w_fail_def w_path_def mark_saw_def map_top_def w_sep_top_def
      w_sep_val_def w_end_line_def w_keyed_prefix_def Let_def split: prod.split option.split list.split bool.split)

definition runs :: "(u64 \<Rightarrow> bytes) \<Rightarrow> writer \<Rightarrow> wop list \<Rightarrow> bytes \<Rightarrow> wframe list \<Rightarrow> bool" where
  "runs d2s w ops s stk \<longleftrightarrow> arrives w s stk (foldl (w_step d2s) w ops)"

lemma arrives_trans:
  "arrives a s stk b \<Longrightarrow> arrives b t stk' c \<Longrightarrow> arrives a (s @ t) stk' c"
  by (auto simp: arrives_def intro: renders_trans)

lemma arrives_ready: "w_ready w \<Longrightarrow> arrives w s stk w' \<Longrightarrow> w_ready w' \<and> w_stack w' = stk \<and> w_key w' = None"
  by (auto simp: w_ready_def arrives_def renders_def)

lemma runs_append:
  assumes "runs d2s w ops1 s1 stk1" "\<And>w'. arrives w s1 stk1 w' \<Longrightarrow> runs d2s w' ops2 s2 stk2"
  shows "runs d2s w (ops1 @ ops2) (s1 @ s2) stk2"
  using assms arrives_trans by (fastforce simp: runs_def)

text \<open>What stands before a value in a frame, what behind it, and the frame after it.\<close>

definition inline_kind :: "wkind \<Rightarrow> bool" where
  "inline_kind k \<longleftrightarrow> k = F_ARRAY \<or> k = F_ITAB"

definition sep_text :: "wframe \<Rightarrow> bytes" where
  "sep_text f = (if inline_kind (wf_kind f) \<and> wf_first f then lit '', '' else [])"

definition lead :: "wframe \<Rightarrow> bytes option \<Rightarrow> bytes" where
  "lead f key = sep_text f @ (case key of None \<Rightarrow> [] | Some k \<Rightarrow> key_to_buf k @ lit '' = '')"

definition trail :: "wframe \<Rightarrow> bytes" where
  "trail f = (if wf_kind f = F_TABLE then [LF] else [])"

definition used :: "wframe \<Rightarrow> wframe" where
  "used f = (if inline_kind (wf_kind f) then f\<lparr>wf_first := True\<rparr> else f)"

definition accepts :: "wframe \<Rightarrow> bytes option \<Rightarrow> bool" where
  "accepts f key \<longleftrightarrow> (wf_kind f = F_ARRAY \<and> key = None)
     \<or> ((wf_kind f = F_ITAB \<or> wf_kind f = F_TABLE) \<and> key \<noteq> None \<and> \<not> wf_saw f)"

lemmas frame_defs = inline_kind_def sep_text_def lead_def trail_def used_def accepts_def top_kind_def top_saw_def
  map_top_def w_sep_val_def w_sep_top_def w_emit_def w_fail_def w_clear_key_def

lemma emit_key_eq_renders: "renders b (key_to_buf k @ s) (eb_put (emit_key b k) s)"
  by (rule renders_trans [OF emit_key_renders eb_put_renders])

lemma sep_key_renders: "renders b (lit '', '' @ key_to_buf k @ s) (eb_put (emit_key (eb_put b (lit '', '')) k) s)"
  by (rule renders_trans [OF eb_put_renders emit_key_eq_renders])

lemma keyed_prefix_arrives:
  assumes "w_stack w = f # fs" "accepts f (w_key w)"
  shows "arrives w (lead f (w_key w)) (used f # fs) (w_keyed_prefix w)"
  using assms
  by (cases "wf_kind f"; cases "wf_first f"; cases "w_key w")
     (auto simp: arrives_def w_keyed_prefix_def frame_defs Let_def eb_put_renders emit_key_eq_renders
       sep_key_renders renders_refl)

lemma end_line_arrives:
  assumes "w_stack w = f # fs" "w_key w = None" "renders b s (w_out w)"
  shows "w_key (w_end_line w) = None \<and> w_stack (w_end_line w) = f # fs \<and> w_st (w_end_line w) = w_st w
    \<and> w_finished (w_end_line w) = w_finished w \<and> renders b (s @ trail f) (w_out (w_end_line w))"
  using assms renders_trans [OF assms(3) eb_c_renders] by (auto simp: w_end_line_def frame_defs)

lemma trail_used: "trail (used f) = trail f"
  by (simp add: trail_def used_def)

lemma value_arrives:
  assumes "w_st w = ST_OK" "w_stack w = f # fs" "accepts f (w_key w)" "\<And>b. renders b t (g b)"
  shows "arrives w (lead f (w_key w) @ t @ trail f) (used f # fs) (w_value g w)"
proof -
  let ?w = "w_keyed_prefix w"
  have p: "arrives w (lead f (w_key w)) (used f # fs) ?w" by (rule keyed_prefix_arrives [OF assms(2,3)])
  have "renders (w_out w) (lead f (w_key w) @ t) (w_out (w_emit g ?w))"
    using renders_trans [OF _ assms(4)] p by (auto simp: arrives_def w_emit_def)
  from end_line_arrives [OF _ _ this, of "used f" fs] p assms(1)
  show ?thesis by (simp add: arrives_def w_value_def Let_def w_emit_def trail_used)
qed

subsection \<open>Inline containers\<close>

lemma push_arrives:
  assumes "w_ready w" "arrives w0 s stk w"
  shows "arrives w0 s (new_frame k None # stk) (w_push k [] w)"
  using assms by (auto simp: arrives_def w_push_def granted_grants granted_tl w_ready_def Let_def)

lemma container_key_arrives:
  assumes "w_stack w = f # fs" "accepts f (w_key w)" "wf_kind f \<noteq> F_ARRAY"
  shows "arrives w (sep_text f @ key_to_buf (the (w_key w)) @ m) (used f # fs) (w_container_key m w)"
  using assms
  by (cases "wf_kind f"; cases "wf_first f"; cases "w_key w")
     (auto simp: arrives_def w_container_key_def frame_defs Let_def emit_key_eq_renders sep_key_renders)

lemma emit_arrives: "arrives w s stk w' \<Longrightarrow> (\<And>b. renders b t (g b)) \<Longrightarrow> arrives w (s @ t) stk (w_emit g w')"
  using renders_trans by (auto simp: arrives_def w_emit_def)

lemma array_key_text: "lit '' = ['' = lit '' = '' @ [LBRACK]"
  by (simp add: lit_def)

lemma begin_array_arrives:
  assumes "w_ready w" "w_stack w = f # fs" "accepts f (w_key w)"
  shows "arrives w (lead f (w_key w) @ [LBRACK]) (new_frame F_ARRAY None # used f # fs) (w_begin_array w)"
proof -
  let ?w = "if top_kind w F_ARRAY then w_emit (\<lambda>b. eb_c b LBRACK) (w_sep_top w) else w_container_key (lit '' = ['') w"
  have "arrives w (lead f (w_key w) @ [LBRACK]) (used f # fs) ?w"
  proof (cases "wf_kind f = F_ARRAY")
    case True
    then have "arrives w (lead f (w_key w)) (used f # fs) (w_sep_top w)"
      using assms(2,3) by (auto simp: arrives_def frame_defs eb_put_renders renders_refl)
    from emit_arrives [OF this eb_c_renders] show ?thesis using True assms(2) by (simp add: top_kind_def)
  next
    case False
    then have "w_key w \<noteq> None" using assms(3) by (auto simp: accepts_def)
    then show ?thesis
      using container_key_arrives [OF assms(2,3) False, of "lit '' = [''"] False assms(2)
      by (auto simp: top_kind_def lead_def array_key_text)
  qed
  moreover have "\<not> top_kind w F_AOT" using assms(2,3) by (auto simp: top_kind_def accepts_def)
  moreover have "w_ready ?w" "w_st ?w = ST_OK" using arrives_ready [OF assms(1) calculation(1)] by (auto simp: w_ready_def)
  ultimately show ?thesis using push_arrives [of ?w] by (simp add: w_begin_array_def Let_def)
qed

lemma begin_inline_arrives:
  assumes "w_ready w" "w_stack w = f # fs" "accepts f (w_key w)"
  shows "arrives w (lead f (w_key w) @ [LBRACE]) (new_frame F_ITAB None # used f # fs) (w_begin_inline w)"
proof -
  let ?w = "if top_kind w F_ARRAY then (if w_key w \<noteq> None then w_fail ERR_ARG w else w_sep_top w)
    else w_container_key (lit '' = '') w"
  have a: "arrives w (lead f (w_key w)) (used f # fs) ?w"
  proof (cases "wf_kind f = F_ARRAY")
    case True
    then show ?thesis using assms(2,3) by (auto simp: arrives_def frame_defs eb_put_renders renders_refl)
  next
    case False
    then have "w_key w \<noteq> None" using assms(3) by (auto simp: accepts_def)
    then show ?thesis
      using container_key_arrives [OF assms(2,3) False, of "lit '' = ''"] False assms(2)
      by (auto simp: top_kind_def lead_def)
  qed
  have r: "w_ready ?w" "w_st ?w = ST_OK" using arrives_ready [OF assms(1) a] by (auto simp: w_ready_def)
  have "arrives w (lead f (w_key w) @ [LBRACE]) (used f # fs) (w_emit (\<lambda>b. eb_c b LBRACE) ?w)"
    by (rule emit_arrives [OF a eb_c_renders])
  from push_arrives [OF _ this] arrives_ready [OF assms(1) this]
  show ?thesis using r by (simp add: w_begin_inline_def Let_def)
qed

definition closing :: "wkind \<Rightarrow> byte" where
  "closing k = (if k = F_ARRAY then RBRACK else RBRACE)"

lemma close_arrives:
  assumes "w_stack w = g # f # fs" "inline_kind (wf_kind g)" "w_key w = None"
  shows "arrives w ([closing (wf_kind g)] @ trail f) (f # fs) (w_close w)"
proof -
  let ?w = "w_emit (\<lambda>b. eb_c b (closing (wf_kind g))) (w\<lparr>w_stack := f # fs\<rparr>)"
  have "renders (w_out w) [closing (wf_kind g)] (w_out ?w)" by (simp add: w_emit_def eb_c_renders)
  from end_line_arrives [OF _ _ this, of f fs] assms
  show ?thesis by (auto simp: arrives_def w_close_def Let_def inline_kind_def closing_def w_emit_def)
qed

text \<open>The items of an inline container, each written behind a separator but the first.\<close>

definition item_runs :: "(u64 \<Rightarrow> bytes) \<Rightarrow> wkind \<Rightarrow> wop list \<Rightarrow> bytes \<Rightarrow> bool" where
  "item_runs d2s k ops t \<longleftrightarrow>
    (\<forall>w g fs. w_ready w \<longrightarrow> w_stack w = g # fs \<longrightarrow> wf_kind g = k \<longrightarrow> \<not> wf_saw g \<longrightarrow> w_key w = None \<longrightarrow>
       runs d2s w ops (sep_text g @ t) (g\<lparr>wf_first := True\<rparr> # fs))"

lemma items_run:
  assumes "list_all2 (item_runs d2s k) os ts" "inline_kind k"
  shows "w_ready w \<Longrightarrow> w_stack w = g # fs \<Longrightarrow> wf_kind g = k \<Longrightarrow> \<not> wf_saw g \<Longrightarrow> w_key w = None \<Longrightarrow>
    runs d2s w (concat os) (if wf_first g then concat (map (\<lambda>t. lit '', '' @ t) ts) else joined (lit '', '') ts)
      (g\<lparr>wf_first := wf_first g \<or> ts \<noteq> []\<rparr> # fs)"
  using assms(1)
proof (induction os ts arbitrary: w g rule: list_all2_induct)
  case Nil
  then show ?case by (simp add: runs_def arrives_def renders_refl)
next
  case (Cons o1 os t ts)
  let ?g = "g\<lparr>wf_first := True\<rparr>"
  have "runs d2s w o1 (sep_text g @ t) (?g # fs)" using Cons by (simp add: item_runs_def)
  moreover have "runs d2s w' (concat os) (concat (map (\<lambda>t. lit '', '' @ t) ts)) (?g # fs)"
    if "arrives w (sep_text g @ t) (?g # fs) w'" for w'
    using Cons.IH [of w' ?g] arrives_ready [OF Cons.prems(1) that] Cons.prems by simp
  ultimately have "runs d2s w (o1 @ concat os) ((sep_text g @ t) @ concat (map (\<lambda>t. lit '', '' @ t) ts)) (?g # fs)"
    by (rule runs_append)
  then show ?case using assms(2) Cons.prems by (cases "wf_first g") (simp_all add: sep_text_def)
qed

lemma container_runs:
  assumes w_ready: "w_ready w" and w: "w_stack w = f # fs" "accepts f (w_key w)"
    and items: "list_all2 (item_runs d2s k) os ts" "inline_kind k"
    and first: "arrives w (lead f (w_key w) @ [c]) (new_frame k None # used f # fs) (w_step d2s w op)"
  shows "runs d2s w ([op] @ concat os @ [W_CLOSE])
    (lead f (w_key w) @ in_braces c (closing k) (joined (lit '', '') ts) @ trail f) (used f # fs)"
proof -
  let ?g = "(new_frame k None)\<lparr>wf_first := ts \<noteq> []\<rparr>"
  have "runs d2s w [op] (lead f (w_key w) @ [c]) (new_frame k None # used f # fs)"
    using first by (simp add: runs_def)
  moreover have "runs d2s w1 (concat os @ [W_CLOSE]) (joined (lit '', '') ts @ [closing k] @ trail f) (used f # fs)"
    if a1: "arrives w (lead f (w_key w) @ [c]) (new_frame k None # used f # fs) w1" for w1
  proof (rule runs_append)
    note r1 = arrives_ready [OF w_ready a1]
    show "runs d2s w1 (concat os) (joined (lit '', '') ts) (?g # used f # fs)"
      using items_run [OF items, of w1 "new_frame k None" "used f # fs"] r1 by (simp add: new_frame_def)
    fix w2 assume "arrives w1 (joined (lit '', '') ts) (?g # used f # fs) w2"
    then show "runs d2s w2 [W_CLOSE] ([closing k] @ trail f) (used f # fs)"
      using close_arrives [of w2 ?g "used f" fs] items(2)
      by (simp add: runs_def arrives_def trail_used new_frame_def)
  qed
  ultimately have "runs d2s w ([op] @ concat os @ [W_CLOSE])
      ((lead f (w_key w) @ [c]) @ joined (lit '', '') ts @ [closing k] @ trail f) (used f # fs)"
    by (rule runs_append)
  then show ?thesis by (simp add: in_braces_def)
qed

lemma runs_single:
  assumes "w_ready w" "w_stack w = f # fs" "accepts f (w_key w)" "w_step d2s w op = w_value g w"
    "\<And>b. renders b t (g b)"
  shows "runs d2s w [op] (lead f (w_key w) @ t @ trail f) (used f # fs)"
  using value_arrives [OF _ assms(2,3,5)] assms(1,4) by (simp add: runs_def w_ready_def)

definition short_key :: "bytes \<Rightarrow> bool" where
  "short_key k \<longleftrightarrow> length k < 256"

text \<open>The writer behind a key that was granted its copy.\<close>

definition keyed :: "bytes \<Rightarrow> writer \<Rightarrow> writer" where
  "keyed k w = (w_spent w)\<lparr>w_key := Some k\<rparr>"

lemma keyed_simps [simp]:
  "w_out (keyed k w) = w_out w" "w_key (keyed k w) = Some k" "w_stack (keyed k w) = w_stack w"
  "w_finished (keyed k w) = w_finished w" "w_st (keyed k w) = w_st w" "w_mem (keyed k w) = tl (w_mem w)"
  by (simp_all add: keyed_def)

lemma take_key: "w_ready w \<Longrightarrow> short_key k \<Longrightarrow> w_step d2s w (W_KEY k) = keyed k w"
  by (simp add: w_take_key_def granted_grants w_ready_def short_key_def keyed_def)

lemma w_ready_key: "w_ready w \<Longrightarrow> w_ready (keyed k w)"
  by (simp add: w_ready_def granted_tl)

lemma runs_key: "w_ready w \<Longrightarrow> short_key k \<Longrightarrow> runs d2s (keyed k w) ops s stk \<Longrightarrow> runs d2s w (W_KEY k # ops) s stk"
  using take_key [of w k d2s] by (auto simp: runs_def arrives_def w_ready_def granted_tl)

definition op_short :: "wop \<Rightarrow> bool" where
  "op_short op \<longleftrightarrow> (case op of W_KEY k \<Rightarrow> short_key k | _ \<Rightarrow> True)"

lemma mapo_in: "mapo f xs = Some ys \<Longrightarrow> x \<in> set xs \<Longrightarrow> f x = Some y \<Longrightarrow> y \<in> set ys"
  by (fastforce simp: mapo_Some list_all2_conv_all_nth in_set_conv_nth)

lemma list_all2_mapo:
  assumes "mapo f xs = Some ys" "mapo g xs = Some zs" "\<And>x y z. x \<in> set xs \<Longrightarrow> f x = Some y \<Longrightarrow> g x = Some z \<Longrightarrow> P y z"
  shows "list_all2 P ys zs"
  using assms
proof (induction xs arbitrary: ys zs)
  case (Cons x xs)
  obtain y ys' z zs' where "f x = Some y" "mapo f xs = Some ys'" "ys = y # ys'"
    "g x = Some z" "mapo g xs = Some zs'" "zs = z # zs'"
    using Cons.prems(1,2) by (auto split: option.splits)
  then show ?case using Cons.prems(3) Cons.IH [of ys' zs'] by auto
qed simp

lemma ops_value_runs:
  "ops_value k ns i = Some ops \<Longrightarrow> value_text k d2s ns i = Some t \<Longrightarrow> list_all op_short ops \<Longrightarrow> w_ready w \<Longrightarrow>
   w_stack w = f # fs \<Longrightarrow> accepts f (w_key w) \<Longrightarrow>
   runs d2s w ops (lead f (w_key w) @ t @ trail f) (used f # fs)"
proof (induction k arbitrary: i ops t w f fs)
  case (Suc k)
  let ?v = "n_as (ns ! i)"
  note single = runs_single [OF Suc.prems(4-6)]
  show ?case
  proof (cases "n_kind (ns ! i)")
    case K_ARRAY
    obtain os where os: "mapo (ops_value k ns) (ar_items (payload_array ?v)) = Some os"
      "ops = [W_BEGIN_ARRAY] @ concat os @ [W_CLOSE]" using Suc.prems(1) K_ARRAY by (auto simp: Let_def)
    obtain ts where ts: "mapo (value_text k d2s ns) (ar_items (payload_array ?v)) = Some ts"
      "t = in_braces LBRACK RBRACK (joined (lit '', '') ts)" using Suc.prems(2) K_ARRAY by (auto simp: Let_def)
    have short: "\<forall>o1 \<in> set os. list_all op_short o1" using Suc.prems(3) os(2) by (auto simp: list_all_iff)
    have "list_all2 (item_runs d2s F_ARRAY) os ts"
    proof (rule list_all2_mapo [OF os(1) ts(1)])
      fix j o1 t1 assume j: "ops_value k ns j = Some o1" "value_text k d2s ns j = Some t1"
        and mem: "j \<in> set (ar_items (payload_array ?v))"
      have "o1 \<in> set os" using mapo_in [OF os(1) mem j(1)] .
      then show "item_runs d2s F_ARRAY o1 t1"
        using Suc.IH [OF j] short by (fastforce simp: item_runs_def lead_def trail_def used_def accepts_def inline_kind_def)
    qed
    from container_runs [OF Suc.prems(4-6) this, of LBRACK W_BEGIN_ARRAY]
    show ?thesis using begin_array_arrives [OF Suc.prems(4-6)] by (simp add: os(2) ts(2) inline_kind_def closing_def)
  next
    case K_TABLE
    let ?es = "t_entries (payload_table ?v)"
    let ?op = "\<lambda>e. map_option (Cons (W_KEY (v_bytes (e_key e)))) (ops_value k ns (e_value e))"
    let ?tx = "\<lambda>e. map_option (pair_text (key_to_buf (v_bytes (e_key e))) (lit '' = '')) (value_text k d2s ns (e_value e))"
    obtain os where os: "mapo ?op ?es = Some os" "ops = [W_BEGIN_INLINE_TABLE] @ concat os @ [W_CLOSE]"
      using Suc.prems(1) K_TABLE by (auto simp: Let_def)
    obtain ts where ts: "mapo ?tx ?es = Some ts" "t = in_braces LBRACE RBRACE (joined (lit '', '') ts)"
      using Suc.prems(2) K_TABLE by (auto simp: Let_def)
    have short: "\<forall>o1 \<in> set os. list_all op_short o1" using Suc.prems(3) os(2) by (auto simp: list_all_iff)
    have "list_all2 (item_runs d2s F_ITAB) os ts"
    proof (rule list_all2_mapo [OF os(1) ts(1)])
      fix e o1 t1 assume e: "?op e = Some o1" "?tx e = Some t1" and mem: "e \<in> set ?es"
      obtain o2 t2 where o2: "ops_value k ns (e_value e) = Some o2" "o1 = W_KEY (v_bytes (e_key e)) # o2"
        "value_text k d2s ns (e_value e) = Some t2" "t1 = key_to_buf (v_bytes (e_key e)) @ lit '' = '' @ t2"
        using e by (auto simp: pair_text_def)
      have "o1 \<in> set os" using mapo_in [OF os(1) mem e(1)] .
      then have sh: "short_key (v_bytes (e_key e))" "list_all op_short o2" using short o2(2) by (auto simp: op_short_def)
      show "item_runs d2s F_ITAB o1 t1"
        unfolding item_runs_def
      proof (intro allI impI)
        fix w :: writer and g fs
        assume w: "w_ready w" "w_stack w = g # fs" "wf_kind g = F_ITAB" "\<not> wf_saw g" "w_key w = None"
        have "runs d2s (keyed (v_bytes (e_key e)) w) o2
            (lead g (Some (v_bytes (e_key e))) @ t2 @ trail g) (used g # fs)"
          using Suc.IH [OF o2(1,3) sh(2) w_ready_key [OF w(1)], of "v_bytes (e_key e)" g fs] w
          by (simp add: accepts_def)
        from runs_key [OF w(1) sh(1) this] show "runs d2s w o1 (sep_text g @ t1) (g\<lparr>wf_first := True\<rparr> # fs)"
          using w(3) by (simp add: o2(2,4) lead_def trail_def used_def inline_kind_def)
      qed
    qed
    from container_runs [OF Suc.prems(4-6) this, of LBRACE W_BEGIN_INLINE_TABLE]
    show ?thesis using begin_inline_arrives [OF Suc.prems(4-6)] by (simp add: os(2) ts(2) inline_kind_def closing_def)
  qed (use Suc.prems(1,2) in \<open>auto simp: Let_def intro!: single emit_string_renders emit_i64_renders
         emit_float_renders emit_dt_renders eb_put_renders\<close>)
qed simp

subsection \<open>Sections\<close>

fun frame_keys :: "wframe list \<Rightarrow> bytes list" where
  "frame_keys [] = []"
| "frame_keys (f # fs) =
    (if wf_kind f = F_TABLE \<or> wf_kind f = F_AOT then (case wf_key f of None \<Rightarrow> [] | Some k \<Rightarrow> [k]) else []) @ frame_keys fs"

definition dotted :: "bytes list \<Rightarrow> bytes" where
  "dotted ks = joined [DOT] (map key_to_buf ks)"

definition stack_path :: "wframe list \<Rightarrow> bytes" where
  "stack_path stk = dotted (frame_keys (rev stk))"

lemma frame_keys_append: "frame_keys (a @ b) = frame_keys a @ frame_keys b"
  by (induction a) simp_all

lemma key_to_buf_ne: "key_to_buf k \<noteq> []"
  by (auto simp: key_to_buf_def)

lemma joined_snoc: "joined s (xs @ [x]) = (if xs = [] then x else joined s xs @ s @ x)"
  by (cases xs) simp_all

lemma dotted_eq_Nil: "dotted ks = [] \<longleftrightarrow> ks = []"
  by (cases ks) (simp_all add: dotted_def key_to_buf_ne)

lemma section_header_dotted: "section_header (dotted ks) key = dotted (ks @ [key])"
  by (simp add: section_header_def dotted_eq_Nil) (simp add: dotted_def joined_snoc)

lemma stack_path_push:
  assumes "wf_kind f = F_TABLE \<or> wf_kind f = F_AOT"
  shows "stack_path (f # fs) = (case wf_key f of None \<Rightarrow> stack_path fs | Some k \<Rightarrow> section_header (stack_path fs) k)"
  using assms by (auto simp: stack_path_def frame_keys_append section_header_dotted split: option.split)

lemma stack_path_saw: "stack_path (f\<lparr>wf_saw := b\<rparr> # fs) = stack_path (f # fs)"
  by (simp add: stack_path_def frame_keys_append)

lemma w_path_loop_renders:
  "case w_path_loop b fr fs of (b', fr') \<Rightarrow>
     renders b (if fr then dotted (frame_keys fs) else concat (map (\<lambda>k. DOT # key_to_buf k) (frame_keys fs))) b'
     \<and> fr' = (fr \<and> frame_keys fs = [])"
proof (induction fs arbitrary: b fr)
  case Nil
  then show ?case by (simp add: renders_refl dotted_def)
next
  case (Cons f fs)
  show ?case
  proof (cases "(wf_kind f = F_TABLE \<or> wf_kind f = F_AOT) \<and> wf_key f \<noteq> None")
    case True
    then obtain key where key: "wf_key f = Some key" by auto
    let ?b = "emit_key (if \<not> fr then eb_c b DOT else b) key"
    have "renders b ((if fr then [] else [DOT]) @ key_to_buf key) ?b"
      using emit_key_renders renders_trans [OF eb_c_renders emit_key_renders] by auto
    moreover have "case w_path_loop ?b False fs of (b', fr') \<Rightarrow>
        renders ?b (concat (map (\<lambda>k. DOT # key_to_buf k) (frame_keys fs))) b' \<and> \<not> fr'"
      using Cons [of ?b False] by (simp add: case_prod_beta)
    ultimately show ?thesis
      using True key by (auto simp: dotted_def comp_def intro: renders_trans dest: renders_trans split: prod.splits)
  next
    case False
    then show ?thesis using Cons [of b fr] by (cases fr; cases "wf_kind f"; cases "wf_key f") simp_all
  qed
qed

lemma path_arrives:
  assumes "length (w_stack w) \<le> 600" "w_stack w = stk"
  shows "renders (w_out w) (if tail \<and> w_key w \<noteq> None then section_header (stack_path stk) (the (w_key w)) else stack_path stk)
      (w_out (w_path tail w))
    \<and> w_key (w_path tail w) = w_key w \<and> w_stack (w_path tail w) = stk \<and> w_st (w_path tail w) = w_st w
    \<and> w_finished (w_path tail w) = w_finished w"
proof -
  obtain b fr where loop: "w_path_loop (w_out w) True (rev (take W_PATH_MAX (w_stack w))) = (b, fr)"
    by (cases "w_path_loop (w_out w) True (rev (take W_PATH_MAX (w_stack w)))") blast
  have b: "renders (w_out w) (stack_path stk) b" and fr: "fr \<longleftrightarrow> stack_path stk = []"
    using w_path_loop_renders [of "w_out w" True "rev (take W_PATH_MAX (w_stack w))"] assms loop
    by (auto simp: stack_path_def dotted_eq_Nil)
  have "renders (w_out w) (section_header (stack_path stk) key) (emit_key (if \<not> fr then eb_c b DOT else b) key)" for key
    using renders_trans [OF b renders_trans [OF eb_c_renders emit_key_renders]] renders_trans [OF b emit_key_renders] fr
    by (auto simp: section_header_def)
  then show ?thesis using b assms(2) loop by (cases tail) (auto simp: w_path_def split: option.split)
qed

lemma begin_table_arrives:
  assumes "w_ready w" "w_stack w = f # fs" "wf_kind f = F_TABLE" "w_key w = Some key" "length (w_stack w) \<le> 600"
  shows "arrives w ([LBRACK] @ section_header (stack_path (f # fs)) key @ [RBRACK, LF])
    (new_frame F_TABLE (Some key) # f\<lparr>wf_saw := True\<rparr> # fs) (w_begin_table w)"
proof -
  let ?w1 = "w_emit (\<lambda>b. eb_c b LBRACK) (mark_saw w)"
  have w1: "w_stack ?w1 = f\<lparr>wf_saw := True\<rparr> # fs" "w_key ?w1 = Some key" "w_st ?w1 = w_st w"
    "w_finished ?w1 = w_finished w" "renders (w_out w) [LBRACK] (w_out ?w1)"
    using assms(2,4) by (simp_all add: mark_saw_def frame_defs eb_c_renders)
  note p = path_arrives [of ?w1 _ True, OF _ w1(1)]
  let ?w2 = "w_path True ?w1"
  have w2: "renders (w_out ?w1) (section_header (stack_path (f # fs)) key) (w_out ?w2)"
    "w_stack ?w2 = f\<lparr>wf_saw := True\<rparr> # fs" "w_st ?w2 = w_st w" "w_finished ?w2 = w_finished w"
    using p assms(2,5) w1 by (simp_all add: stack_path_saw)
  let ?w3 = "w_clear_key (w_emit (\<lambda>b. eb_put b [RBRACK, LF]) ?w2)"
  have w3: "arrives w ([LBRACK] @ section_header (stack_path (f # fs)) key @ [RBRACK, LF]) (f\<lparr>wf_saw := True\<rparr> # fs) ?w3"
    using renders_trans [OF w1(5) renders_trans [OF w2(1) eb_put_renders]] w2
    by (simp add: arrives_def w_emit_def w_clear_key_def)
  from arrives_ready [OF assms(1) this] have "w_ready ?w3" by simp
  then have "arrives w ([LBRACK] @ section_header (stack_path (f # fs)) key @ [RBRACK, LF])
      (new_frame F_TABLE (Some key) # f\<lparr>wf_saw := True\<rparr> # fs) (w_push_steal F_TABLE key ?w3)"
    using w3 by (auto simp: arrives_def w_push_steal_def granted_grants granted_tl w_ready_def Let_def)
  moreover have "\<not> top_kind w F_ARRAY" "\<not> top_kind w F_ITAB" "\<not> top_kind w F_AOT"
    using assms(2,3) by (simp_all add: top_kind_def)
  ultimately show ?thesis using assms(4) by (simp add: w_begin_table_def)
qed

lemma begin_element_arrives:
  assumes "w_ready w" "w_stack w = f # fs" "wf_kind f = F_AOT" "w_key w = None" "length (w_stack w) \<le> 600"
  shows "arrives w (lit ''[['' @ stack_path (f # fs) @ [RBRACK, RBRACK, LF])
    (new_frame F_TABLE None # f # fs) (w_begin_table w)"
proof -
  let ?w1 = "w_emit (\<lambda>b. eb_put b (lit ''[['')) w"
  have w1: "w_stack ?w1 = f # fs" "w_key ?w1 = None" "w_st ?w1 = w_st w"
    "w_finished ?w1 = w_finished w" "renders (w_out w) (lit ''[['') (w_out ?w1)"
    using assms(2,4) by (simp_all add: w_emit_def eb_put_renders)
  let ?w2 = "w_path False ?w1"
  have w2: "renders (w_out ?w1) (stack_path (f # fs)) (w_out ?w2)"
    "w_stack ?w2 = f # fs" "w_st ?w2 = w_st w" "w_finished ?w2 = w_finished w"
    using path_arrives [of ?w1 "f # fs" False] assms(2,5) w1 by simp_all
  let ?w3 = "w_clear_key (w_emit (\<lambda>b. eb_put b (lit '']]'' @ [LF])) ?w2)"
  have "lit '']]'' @ [LF] = [RBRACK, RBRACK, LF]" by (simp add: lit_def)
  then have w3: "arrives w (lit ''[['' @ stack_path (f # fs) @ [RBRACK, RBRACK, LF]) (f # fs) ?w3"
    using renders_trans [OF w1(5) renders_trans [OF w2(1) eb_put_renders, of "lit '']]'' @ [LF]"]] w2
    by (simp add: arrives_def w_emit_def w_clear_key_def)
  from push_arrives [OF _ this] arrives_ready [OF assms(1) this]
  show ?thesis using assms(2,3) by (simp add: w_begin_table_def top_kind_def)
qed

lemma begin_aot_arrives:
  assumes "w_ready w" "w_stack w = f # fs" "wf_kind f = F_TABLE" "w_key w = Some key"
  shows "arrives w [] (new_frame F_AOT (Some key) # f\<lparr>wf_saw := True\<rparr> # fs) (w_begin_aot w)"
  using assms
  by (simp add: arrives_def w_begin_aot_def w_push_steal_def granted_grants granted_tl w_ready_def frame_defs
      mark_saw_def renders_refl Let_def)

lemma close_section_arrives:
  assumes "w_stack w = g # f # fs" "wf_kind g = F_TABLE \<or> wf_kind g = F_AOT" "w_key w = None"
  shows "arrives w [] (f # fs) (w_close w)"
  using assms by (auto simp: arrives_def w_close_def Let_def renders_refl)

text \<open>A sequence of pieces each of which may be entered with the stack before or behind the first.\<close>

definition piece_runs :: "(u64 \<Rightarrow> bytes) \<Rightarrow> wframe list \<Rightarrow> wframe list \<Rightarrow> wop list \<Rightarrow> bytes \<Rightarrow> bool" where
  "piece_runs d2s stk0 stk1 ops t \<longleftrightarrow>
    (\<forall>w. w_ready w \<longrightarrow> w_key w = None \<longrightarrow> w_stack w = stk0 \<or> w_stack w = stk1 \<longrightarrow> runs d2s w ops t stk1)"

lemma pieces_run:
  assumes "list_all2 (piece_runs d2s stk0 stk1) os ts"
  shows "w_ready w \<Longrightarrow> w_key w = None \<Longrightarrow> w_stack w = stk0 \<or> w_stack w = stk1 \<Longrightarrow>
    runs d2s w (concat os) (concat ts) (if os = [] then w_stack w else stk1)"
  using assms
proof (induction os ts arbitrary: w rule: list_all2_induct)
  case Nil
  then show ?case by (simp add: runs_def arrives_def renders_refl)
next
  case (Cons o1 os t ts)
  have "runs d2s w o1 t stk1" using Cons by (auto simp: piece_runs_def)
  moreover have "runs d2s w' (concat os) (concat ts) stk1" if "arrives w t stk1 w'" for w'
    using Cons.IH [of w'] arrives_ready [OF Cons.prems(1) that] by (simp split: if_splits)
  ultimately have "runs d2s w (o1 @ concat os) (t @ concat ts) stk1" by (rule runs_append)
  then show ?case by simp
qed

lemma runs_step: "runs d2s w [op] s stk \<longleftrightarrow> arrives w s stk (w_step d2s w op)"
  by (simp add: runs_def)

lemma bracketed_runs:
  assumes ready: "w_ready w" and enter: "arrives w s (g # f # fs) (w_step d2s w op)"
    and body: "\<And>w'. arrives w s (g # f # fs) w' \<Longrightarrow> \<exists>b. runs d2s w' c t (g\<lparr>wf_saw := b\<rparr> # f # fs)"
    and g: "wf_kind g = F_TABLE \<or> wf_kind g = F_AOT"
  shows "runs d2s w ([op] @ c @ [W_CLOSE]) (s @ t) (f # fs)"
proof -
  have "runs d2s w1 (c @ [W_CLOSE]) (t @ []) (f # fs)" if a1: "arrives w s (g # f # fs) w1" for w1
  proof -
    obtain b where b: "runs d2s w1 c t (g\<lparr>wf_saw := b\<rparr> # f # fs)" using body [OF a1] by blast
    show ?thesis
    proof (rule runs_append [OF b])
      fix w2 assume "arrives w1 t (g\<lparr>wf_saw := b\<rparr> # f # fs) w2"
      then show "runs d2s w2 [W_CLOSE] [] (f # fs)"
        using close_section_arrives [of w2 "g\<lparr>wf_saw := b\<rparr>" f fs] g by (simp add: runs_step arrives_def)
    qed
  qed
  from runs_append [OF enter [folded runs_step] this] show ?thesis by simp
qed

text \<open>What the operations of a table's content do in its frame.\<close>

definition table_runs :: "(u64 \<Rightarrow> bytes) \<Rightarrow> nat \<Rightarrow> bytes \<Rightarrow> wop list \<Rightarrow> bytes \<Rightarrow> bool" where
  "table_runs d2s room pre ops s \<longleftrightarrow>
    (\<forall>w f fs. w_ready w \<longrightarrow> w_stack w = f # fs \<longrightarrow> wf_kind f = F_TABLE \<longrightarrow> \<not> wf_saw f \<longrightarrow> w_key w = None \<longrightarrow>
       stack_path (f # fs) = pre \<longrightarrow> length (f # fs) \<le> room \<longrightarrow>
       (\<exists>b. runs d2s w ops s (f\<lparr>wf_saw := b\<rparr> # fs)))"

lemma table_runsD:
  "table_runs d2s room pre ops s \<Longrightarrow> w_ready w \<Longrightarrow> w_stack w = f # fs \<Longrightarrow> wf_kind f = F_TABLE \<Longrightarrow> \<not> wf_saw f \<Longrightarrow>
   w_key w = None \<Longrightarrow> stack_path (f # fs) = pre \<Longrightarrow> length (f # fs) \<le> room \<Longrightarrow>
   \<exists>b. runs d2s w ops s (f\<lparr>wf_saw := b\<rparr> # fs)"
  by (simp add: table_runs_def)

lemma table_section_runs:
  assumes body: "table_runs d2s (600 - 2 * k) (section_header pre key) c s"
    and f: "wf_kind f = F_TABLE" "stack_path (f # fs) = pre" "length (f # fs) + 2 * k + 2 \<le> 600" and key: "short_key key"
    and w: "w_ready w" "w_key w = None" "w_stack w = f\<lparr>wf_saw := b\<rparr> # fs"
  shows "runs d2s w ([W_KEY key, W_BEGIN_TABLE] @ c @ [W_CLOSE])
    ([LBRACK] @ section_header pre key @ [RBRACK, LF] @ s) (f\<lparr>wf_saw := True\<rparr> # fs)"
proof -
  let ?w = "keyed key w" and ?f = "f\<lparr>wf_saw := True\<rparr>" and ?g = "new_frame F_TABLE (Some key)"
  let ?h = "[LBRACK] @ section_header pre key @ [RBRACK, LF]"
  note ready = w_ready_key [OF w(1), of key]
  have enter: "arrives ?w ?h (?g # ?f # fs) (w_step d2s ?w W_BEGIN_TABLE)"
    using begin_table_arrives [OF ready, of "f\<lparr>wf_saw := b\<rparr>" fs key] f w(3) by (simp add: stack_path_saw)
  have "runs d2s ?w ([W_BEGIN_TABLE] @ c @ [W_CLOSE]) (?h @ s) (?f # fs)"
  proof (rule bracketed_runs [OF ready enter])
    fix w' assume a: "arrives ?w ?h (?g # ?f # fs) w'"
    note r = arrives_ready [OF ready a]
    have "stack_path (?g # ?f # fs) = section_header pre key"
      using f(2) by (subst stack_path_push) (simp_all add: new_frame_def stack_path_saw)
    moreover have "length (?g # ?f # fs) \<le> 600 - 2 * k" using f(3) by simp
    ultimately show "\<exists>b. runs d2s w' c s (?g\<lparr>wf_saw := b\<rparr> # ?f # fs)"
      using r by (intro table_runsD [OF body]) (simp_all add: new_frame_def)
  qed (simp add: new_frame_def)
  from runs_key [OF w(1) key this] show ?thesis by simp
qed

lemma aot_section_runs:
  assumes bodies: "list_all2 (table_runs d2s (600 - 2 * k) (section_header pre key)) cs ss"
    and f: "wf_kind f = F_TABLE" "stack_path (f # fs) = pre" "length (f # fs) + 2 * k + 2 \<le> 600" and key: "short_key key"
    and w: "w_ready w" "w_key w = None" "w_stack w = f\<lparr>wf_saw := b\<rparr> # fs"
  shows "runs d2s w ([W_KEY key, W_BEGIN_AOT] @ concat (map (\<lambda>c. [W_BEGIN_TABLE] @ c @ [W_CLOSE]) cs) @ [W_CLOSE])
    (concat (map (\<lambda>s. lit ''[['' @ section_header pre key @ [RBRACK, RBRACK, LF] @ s) ss)) (f\<lparr>wf_saw := True\<rparr> # fs)"
proof -
  let ?w = "keyed key w" and ?f = "f\<lparr>wf_saw := True\<rparr>" and ?g = "new_frame F_AOT (Some key)"
  let ?stk = "?g # ?f # fs" and ?h = "lit ''[['' @ section_header pre key @ [RBRACK, RBRACK, LF]"
  note ready = w_ready_key [OF w(1), of key]
  have path: "stack_path ?stk = section_header pre key"
    using f(2) by (subst stack_path_push) (simp_all add: new_frame_def stack_path_saw)
  have piece: "piece_runs d2s ?stk ?stk ([W_BEGIN_TABLE] @ c @ [W_CLOSE]) (?h @ s)"
    if c: "table_runs d2s (600 - 2 * k) (section_header pre key) c s" for c s
    unfolding piece_runs_def
  proof (intro allI impI)
    fix w1 assume w1: "w_ready w1" "w_key w1 = None" "w_stack w1 = ?stk \<or> w_stack w1 = ?stk"
    have enter: "arrives w1 ?h (new_frame F_TABLE None # ?stk) (w_step d2s w1 W_BEGIN_TABLE)"
      using begin_element_arrives [OF w1(1), of ?g "?f # fs"] w1 f(3) path by (simp add: new_frame_def)
    show "runs d2s w1 ([W_BEGIN_TABLE] @ c @ [W_CLOSE]) (?h @ s) ?stk"
    proof (rule bracketed_runs [OF w1(1) enter])
      fix w' assume a: "arrives w1 ?h (new_frame F_TABLE None # ?stk) w'"
      note r = arrives_ready [OF w1(1) a]
      have "stack_path (new_frame F_TABLE None # ?stk) = section_header pre key"
        using path by (subst stack_path_push) (simp_all add: new_frame_def)
      moreover have "length (new_frame F_TABLE None # ?stk) \<le> 600 - 2 * k" using f(3) by simp
      ultimately show "\<exists>b. runs d2s w' c s ((new_frame F_TABLE None)\<lparr>wf_saw := b\<rparr> # ?stk)"
        using r by (intro table_runsD [OF c]) (simp_all add: new_frame_def)
    qed (simp add: new_frame_def)
  qed
  let ?os = "map (\<lambda>c. [W_BEGIN_TABLE] @ c @ [W_CLOSE]) cs" and ?ts = "map (\<lambda>s. ?h @ s) ss"
  have "list_all2 (piece_runs d2s ?stk ?stk) ?os ?ts"
    using bodies piece by (simp only: list.rel_map) (auto elim: list_all2_mono)
  note body = pieces_run [OF this]
  have enter: "arrives ?w [] ?stk (w_step d2s ?w W_BEGIN_AOT)"
    using begin_aot_arrives [OF ready, of "f\<lparr>wf_saw := b\<rparr>" fs key] f w(3) by simp
  have "runs d2s ?w ([W_BEGIN_AOT] @ concat ?os @ [W_CLOSE]) ([] @ concat ?ts) (?f # fs)"
  proof (rule bracketed_runs [OF ready enter])
    fix w' assume a: "arrives ?w [] ?stk w'"
    note r = arrives_ready [OF ready a]
    have "?g\<lparr>wf_saw := False\<rparr> = ?g" by (simp add: new_frame_def)
    then show "\<exists>b. runs d2s w' (concat ?os) (concat ?ts) (?g\<lparr>wf_saw := b\<rparr> # ?f # fs)"
      using body [of w'] r by (intro exI [of _ False]) (simp split: if_splits)
  qed (simp add: new_frame_def)
  from runs_key [OF w(1) key this] show ?thesis by simp
qed

lemma mapo_map_option: "mapo (\<lambda>x. map_option h (f x)) xs = map_option (map h) (mapo f xs)"
proof (induction xs)
  case (Cons x xs)
  then show ?case by (cases "f x"; cases "mapo f xs") simp_all
qed simp

lemma list_all_concat: "list_all P (concat xss) = list_all (list_all P) xss"
  by (induction xss) simp_all

lemma section_runs:
  assumes IH: "\<And>v c s pre. ops_children k ns v = Some c \<Longrightarrow> children_text k d2s ns pre v = Some s \<Longrightarrow>
      list_all op_short c \<Longrightarrow> table_runs d2s (600 - 2 * k) pre c s"
    and o1: "ops_section (ops_children k ns) ns key v = Some o1"
    and t: "section_text (children_text k d2s ns) ns pre key v = Some t" and short: "list_all op_short o1"
    and f: "wf_kind f = F_TABLE" "stack_path (f # fs) = pre" "length (f # fs) + 2 * k + 2 \<le> 600"
    and w: "w_ready w" "w_key w = None" "w_stack w = f\<lparr>wf_saw := b\<rparr> # fs"
  shows "runs d2s w o1 t (f\<lparr>wf_saw := True\<rparr> # fs)"
proof (cases "n_kind (ns ! v) = K_ARRAY")
  case False
  obtain c where c: "ops_children k ns v = Some c" "o1 = [W_KEY key, W_BEGIN_TABLE] @ c @ [W_CLOSE]"
    using o1 False by (auto simp: ops_section_def)
  obtain s where s: "children_text k d2s ns (section_header pre key) v = Some s"
    "t = [LBRACK] @ section_header pre key @ [RBRACK, LF] @ s"
    using t False by (auto simp: section_text_def Let_def)
  have "list_all op_short c" "short_key key" using short by (simp_all add: c(2) op_short_def)
  then show ?thesis
    unfolding c(2) s(2) by (intro table_section_runs [OF IH [OF c(1) s(1)] f _ w])
next
  case True
  let ?items = "ar_items (payload_array (n_as (ns ! v)))"
  obtain cs where cs: "mapo (ops_children k ns) ?items = Some cs"
    "o1 = [W_KEY key, W_BEGIN_AOT] @ concat (map (\<lambda>c. [W_BEGIN_TABLE] @ c @ [W_CLOSE]) cs) @ [W_CLOSE]"
    using o1 True by (auto simp: ops_section_def mapo_map_option)
  obtain ss where ss: "mapo (children_text k d2s ns (section_header pre key)) ?items = Some ss"
    "t = concat (map (\<lambda>s. lit ''[['' @ section_header pre key @ [RBRACK, RBRACK, LF] @ s) ss)"
    using t True by (auto simp: section_text_def Let_def mapo_map_option)
  have sh: "list_all op_short (concat (map (\<lambda>c. [W_BEGIN_TABLE] @ c @ [W_CLOSE]) cs))" "short_key key"
    using short by (simp_all add: cs(2) op_short_def)
  have "list_all2 (table_runs d2s (600 - 2 * k) (section_header pre key)) cs ss"
  proof (rule list_all2_mapo [OF cs(1) ss(1)])
    fix i c s assume i: "ops_children k ns i = Some c" "children_text k d2s ns (section_header pre key) i = Some s"
      and mem: "i \<in> set ?items"
    have "c \<in> set cs" using mapo_in [OF cs(1) mem i(1)] .
    then have "list_all op_short c" using sh(1) by (force simp: list_all_iff split: if_splits)
    then show "table_runs d2s (600 - 2 * k) (section_header pre key) c s" by (rule IH [OF i])
  qed
  then show ?thesis unfolding cs(2) ss(2) by (intro aot_section_runs [OF _ f sh(2) w])
qed

lemma line_runs:
  assumes "ops_value k ns i = Some o1" "value_text k d2s ns i = Some v" "short_key key" "list_all op_short o1"
    and f: "wf_kind f = F_TABLE" "\<not> wf_saw f" and w: "w_ready w" "w_key w = None" "w_stack w = f # fs"
  shows "runs d2s w (W_KEY key # o1) (pair_text (key_to_buf key) (lit '' = '') (v @ [LF])) (f # fs)"
proof -
  have "accepts f (Some key)" using f by (simp add: accepts_def)
  then have "runs d2s (keyed key w) o1 (lead f (Some key) @ v @ trail f) (used f # fs)"
    using ops_value_runs [OF assms(1,2,4) w_ready_key [OF w(1), of key], of f fs] w(3) by simp
  from runs_key [OF w(1) assms(3) this] show ?thesis
    using f by (simp add: lead_def sep_text_def trail_def used_def inline_kind_def pair_text_def)
qed

lemma ops_children_runs:
  "ops_children k ns t = Some ops \<Longrightarrow> children_text k d2s ns pre t = Some s \<Longrightarrow> list_all op_short ops \<Longrightarrow>
   table_runs d2s (600 - 2 * k) pre ops s"
proof (induction k arbitrary: t ops s pre)
  case (Suc k)
  let ?es = "t_entries (payload_table (n_as (ns ! t)))"
  let ?key = "\<lambda>e. v_bytes (e_key e)"
  let ?lo = "\<lambda>e. map_option (Cons (W_KEY (?key e))) (ops_value k ns (e_value e))"
  let ?lt = "\<lambda>e. map_option (\<lambda>v. pair_text (key_to_buf (?key e)) (lit '' = '') (v @ [LF])) (value_text k d2s ns (e_value e))"
  let ?so = "\<lambda>e. ops_section (ops_children k ns) ns (?key e) (e_value e)"
  let ?st = "\<lambda>e. section_text (children_text k d2s ns) ns pre (?key e) (e_value e)"
  let ?E = "filter (\<lambda>e. \<not> is_section (ns ! e_value e)) ?es" and ?S = "filter (\<lambda>e. is_section (ns ! e_value e)) ?es"
  obtain los sos where os: "mapo ?lo ?E = Some los" "mapo ?so ?S = Some sos" "ops = concat los @ concat sos"
    using Suc.prems(1) by (auto simp: Let_def split: option.splits)
  obtain lts sts where ts: "mapo ?lt ?E = Some lts" "mapo ?st ?S = Some sts" "s = concat lts @ concat sts"
    using Suc.prems(2) by (auto simp: Let_def split: option.splits)
  have short: "\<forall>o1 \<in> set los \<union> set sos. list_all op_short o1"
    using Suc.prems(3) by (auto simp: os(3) list_all_iff)
  show ?case
    unfolding table_runs_def
  proof (intro allI impI)
    fix w :: writer and f fs
    assume w: "w_ready w" "w_stack w = f # fs" and f: "wf_kind f = F_TABLE" "\<not> wf_saw f" and key: "w_key w = None"
      and path: "stack_path (f # fs) = pre" and len: "length (f # fs) \<le> 600 - 2 * Suc k"
    have lines: "list_all2 (piece_runs d2s (f # fs) (f # fs)) los lts"
    proof (rule list_all2_mapo [OF os(1) ts(1)])
      fix e o1 t1 assume e: "?lo e = Some o1" "?lt e = Some t1" and mem: "e \<in> set ?E"
      obtain o2 v where o2: "ops_value k ns (e_value e) = Some o2" "o1 = W_KEY (?key e) # o2"
        "value_text k d2s ns (e_value e) = Some v" "t1 = pair_text (key_to_buf (?key e)) (lit '' = '') (v @ [LF])"
        using e by auto
      have "o1 \<in> set los" using mapo_in [OF os(1) mem e(1)] .
      then have "list_all op_short o1" using short by blast
      then have "short_key (?key e)" "list_all op_short o2" by (simp_all add: o2(2) op_short_def)
      then show "piece_runs d2s (f # fs) (f # fs) o1 t1"
        unfolding piece_runs_def o2(2,4) using line_runs [OF o2(1,3) _ _ f] by blast
    qed
    let ?f = "f\<lparr>wf_saw := True\<rparr>"
    have sections: "list_all2 (piece_runs d2s (f # fs) (?f # fs)) sos sts"
    proof (rule list_all2_mapo [OF os(2) ts(2)])
      fix e o1 t1 assume e: "?so e = Some o1" "?st e = Some t1" and mem: "e \<in> set ?S"
      have "o1 \<in> set sos" using mapo_in [OF os(2) mem e(1)] .
      then have sh: "list_all op_short o1" using short by blast
      have len': "length (f # fs) + 2 * k + 2 \<le> 600" using len by simp
      have same: "f\<lparr>wf_saw := wf_saw f\<rparr> = f" by simp
      show "piece_runs d2s (f # fs) (?f # fs) o1 t1"
        unfolding piece_runs_def
      proof (intro allI impI)
        fix w' assume w': "w_ready w'" "w_key w' = None" "w_stack w' = f # fs \<or> w_stack w' = ?f # fs"
        obtain b where "w_stack w' = f\<lparr>wf_saw := b\<rparr> # fs" using w'(3) same by metis
        from section_runs [OF Suc.IH e sh f(1) path len' w'(1,2) this] show "runs d2s w' o1 t1 (?f # fs)" .
      qed
    qed
    have "runs d2s w (concat los @ concat sos) (concat lts @ concat sts) (if sos = [] then f # fs else ?f # fs)"
    proof (rule runs_append)
      show "runs d2s w (concat los) (concat lts) (f # fs)"
        using pieces_run [OF lines w(1) key] w(2) by (simp split: if_splits)
      fix w' assume "arrives w (concat lts) (f # fs) w'"
      then show "runs d2s w' (concat sos) (concat sts) (if sos = [] then f # fs else ?f # fs)"
        using pieces_run [OF sections, of w'] arrives_ready [OF w(1)] by fastforce
    qed
    then show "\<exists>b. runs d2s w ops s (f\<lparr>wf_saw := b\<rparr> # fs)"
      unfolding os(3) ts(3) by (intro exI [of _ "wf_saw f \<or> sos \<noteq> []"]) (cases "sos = []"; simp)
  qed
qed simp

subsection \<open>The binary form of an operation\<close>

definition dt_kind_byte :: "kind \<Rightarrow> byte" where
  "dt_kind_byte k = dt_tag k - 4"

fun op_bytes :: "wop \<Rightarrow> bytes" where
  "op_bytes (W_KEY k) = [0x01, of_nat (length k)] @ k"
| "op_bytes (W_STRING s) = 0x02 # view_flat s"
| "op_bytes (W_INT v) = 0x03 # le_bytes 8 v"
| "op_bytes (W_FLOAT f) = 0x04 # le_bytes 8 f"
| "op_bytes (W_BOOL t) = [if t then 0x06 else 0x05]"
| "op_bytes (W_DATETIME k d) = [0x07, dt_kind_byte k] @ dt_flat d"
| "op_bytes W_BEGIN_TABLE = [0x08]"
| "op_bytes W_BEGIN_ARRAY = [0x09]"
| "op_bytes W_BEGIN_AOT = [0x0A]"
| "op_bytes W_BEGIN_INLINE_TABLE = [0x0B]"
| "op_bytes W_CLOSE = [0x0C]"
| "op_bytes W_EMPTY_TABLE = [0x0D]"
| "op_bytes W_EMPTY_ARRAY = [0x0E]"

fun op_fits :: "wop \<Rightarrow> bool" where
  "op_fits (W_KEY k) \<longleftrightarrow> length k < 256"
| "op_fits (W_STRING s) \<longleftrightarrow> length s < 2 ^ 32"
| "op_fits (W_DATETIME k d) \<longleftrightarrow> is_dt_kind k"
| "op_fits _ \<longleftrightarrow> True"

lemma op_fits_short: "op_fits op \<Longrightarrow> op_short op"
  by (cases op) (simp_all add: op_short_def short_key_def)

lemma le_u64_byte: "le_u64 [c] = ucast c"
  by (simp add: le_u64_def)

lemma fetch_key:
  assumes "length k < 256"
  shows "fetch_counted 1 W_KEY (of_nat (length k) # k @ r) = Fetch (W_KEY k) r"
proof -
  have "unat (ucast (of_nat (length k) :: byte) :: u64) = length k"
    using assms by (simp add: unsigned_ucast_eq unsigned_of_nat take_bit_eq_mod)
  then show ?thesis by (simp add: fetch_counted_def le_u64_byte)
qed

lemma fetch_string:
  assumes "length s < 2 ^ 32"
  shows "fetch_counted 4 W_STRING (view_flat s @ r) = Fetch (W_STRING s) r"
proof -
  have "unat (ucast (of_nat (length s) :: u32) :: u64) = length s"
    using assms by (simp add: unsigned_ucast_eq unsigned_of_nat take_bit_eq_mod)
  then show ?thesis by (simp add: fetch_counted_def view_flat_def len32_def le_u64_bytes4)
qed

lemma fetch_dt_flat: "fetch_dt (c # dt_flat d @ r) = d"
  by (simp add: fetch_dt_def dt_flat_def nth_append le_u64_bytes le_u64_bytes4 ucast_scast_u32 ucast_ucast_u32)

lemma fetch_op: "op_fits op \<Longrightarrow> w_fetch (hd (op_bytes op)) (tl (op_bytes op) @ r) = Fetch op r"
proof (cases op)
  case (W_DATETIME k d)
  assume "op_fits op"
  then have k: "dt_kind_of (dt_kind_byte k) = k" "\<not> dt_kind_byte k < 4" "\<not> 7 < dt_kind_byte k"
    by (auto simp: W_DATETIME is_dt_kind_def dt_kind_byte_def dt_kind_of_def)
  have "length (dt_flat d) = 25" by (simp add: dt_flat_def)
  then have "fetch_datetime (dt_kind_byte k # dt_flat d @ r) = Fetch (W_DATETIME k d) r"
    using k by (simp add: fetch_datetime_def fetch_dt_flat)
  then show ?thesis by (simp add: W_DATETIME w_fetch_def)
qed (auto simp: w_fetch_def fetch_key [unfolded One_nat_def] fetch_string fetch_word_def le_u64_bytes)

lemma op_bytes_Cons: "op_bytes op = hd (op_bytes op) # tl (op_bytes op)"
  by (cases op) (simp_all add: view_flat_def)

text \<open>Every step but the last leaves the status at \<open>TEPTRIS_OK\<close>, or the loop has stopped.\<close>

lemma w_stuck: "w_st w \<noteq> ST_OK \<Longrightarrow> feed_loop d2s w p = w"
  by (cases p) simp_all

lemma feed_loop_op:
  "op_fits op \<Longrightarrow> w_st w = ST_OK \<Longrightarrow> feed_loop d2s w (op_bytes op @ r) = feed_loop d2s (w_step d2s w op) r"
  using fetch_op [of op r] by (subst op_bytes_Cons) simp

text \<open>The status never becomes \<open>TEPTRIS_OK\<close> again.\<close>

lemma w_st_simps [simp]:
  "w_st (w_emit f w) = w_st w" "w_st (w_clear_key w) = w_st w" "w_st (w_fail st w) = st"
  "w_st (w_path tail w) = w_st w" "w_st (mark_saw w) = w_st w" "w_st (w_sep_top w) = w_st w" "w_st (w_end_line w) = w_st w"
  by (simp_all add: w_emit_def w_clear_key_def w_fail_def w_path_def mark_saw_def map_top_def w_sep_top_def
      w_sep_val_def w_end_line_def split: prod.split option.split list.split bool.split)

lemma w_step_failed:
  assumes "w_st w \<noteq> ST_OK"
  shows "w_st (w_step d2s w op) \<noteq> ST_OK"
proof -
  have push: "w_st v \<noteq> ST_OK \<Longrightarrow> w_st (w_push k key v) \<noteq> ST_OK" "w_st v \<noteq> ST_OK \<Longrightarrow> w_st (w_push_steal k key' v) \<noteq> ST_OK"
    for k key key' v by (simp_all add: w_push_def w_push_steal_def Let_def)
  have pre: "w_st (w_keyed_prefix w) \<noteq> ST_OK"
    using assms by (auto simp: w_keyed_prefix_def Let_def split: option.splits)
  have con: "w_st (w_container_key m w) \<noteq> ST_OK" for m
    using assms by (auto simp: w_container_key_def split: option.splits)
  have val: "w_st (w_value g w) \<noteq> ST_OK" for g using pre by (simp add: w_value_def Let_def)
  show ?thesis
  proof (cases op)
    case W_CLOSE
    then show ?thesis using assms by (auto simp: w_close_def Let_def split: list.splits)
  qed (use assms val con push in \<open>auto simp: w_take_key_def w_begin_table_def w_begin_array_def w_begin_aot_def
         w_begin_inline_def Let_def split: option.splits\<close>)
qed

lemma feed_loop_ops:
  assumes "list_all op_fits ops" "w_st (foldl (w_step d2s) w ops) = ST_OK"
  shows "feed_loop d2s w (concat (map op_bytes ops)) = foldl (w_step d2s) w ops"
  using assms
proof (induction ops arbitrary: w)
  case (Cons op ops)
  have failed: "w_st v \<noteq> ST_OK \<Longrightarrow> w_st (foldl (w_step d2s) v os) \<noteq> ST_OK" for v os
    by (induction os arbitrary: v) (simp_all add: w_step_failed)
  have "w_st w = ST_OK" using Cons.prems(2) failed [of w "op # ops"] by blast
  then show ?case using Cons feed_loop_op [of op w d2s "concat (map op_bytes ops)"] by simp
qed simp

lemma mapo_None: "mapo f xs = None \<longleftrightarrow> (\<exists>x \<in> set xs. f x = None)"
  by (induction xs) (auto split: option.splits)

lemma ops_value_None: "ops_value k ns i = None \<longleftrightarrow> value_text k d2s ns i = None"
proof (induction k arbitrary: i)
  case (Suc k)
  then show ?case by (cases "n_kind (ns ! i)") (simp_all add: Let_def mapo_None)
qed simp

lemma ops_section_None:
  assumes "\<And>v pre. ops_children k ns v = None \<longleftrightarrow> children_text k d2s ns pre v = None"
  shows "ops_section (ops_children k ns) ns key v = None \<longleftrightarrow> section_text (children_text k d2s ns) ns pre key v = None"
  using assms by (simp add: ops_section_def section_text_def Let_def mapo_None)

lemma both_None: "(case a of None \<Rightarrow> None | Some x \<Rightarrow> (case b of None \<Rightarrow> None | Some y \<Rightarrow> Some (h x y))) = None \<longleftrightarrow> a = None \<or> b = None"
  by (cases a; cases b) simp_all

lemma ops_children_None: "ops_children k ns t = None \<longleftrightarrow> children_text k d2s ns pre t = None"
proof (induction k arbitrary: t pre)
  case (Suc k)
  show ?case
    using ops_section_None [OF Suc, of _ _ pre] ops_value_None [of k ns _ d2s]
    by (simp add: Let_def both_None mapo_None)
qed simp

subsection \<open>Properties\<close>

lemma writer_start:
  assumes "512 \<le> avail" "granted mem"
  shows "writer_new mem avail = Some \<lparr>w_out = eb_init avail, w_key = None, w_stack = [new_frame F_TABLE None],
    w_finished = False, w_st = ST_OK, w_mem = tl (tl mem)\<rparr>"
  using assms by (simp add: writer_new_def w_push_def granted_grants granted_tl eb_init_def w_spent_def)

text \<open>C20: the streaming writer and the document emitter agree. Every well-formed document without
  a cycle has an operation stream; feeding the writer with its bytes (keys below 256 bytes,
  strings below 4 GiB, no deeper than the writer's path buffer) and finishing it hands out
  the very buffer that emitting the document hands out, when no allocation fails.\<close>

theorem writer_emits_document:
  assumes ok: "root_ok m doc r" and rk: "ranked (d_nodes doc) rk" "rk r < fuel" and deep: "2 * fuel < 600"
  shows "\<exists>s ops. children_text fuel d2s (d_nodes doc) [] r = Some s \<and> ops_children fuel (d_nodes doc) r = Some ops \<and>
    (list_all op_fits ops \<and> 6 * length s + 512 \<le> avail \<and> granted mem \<longrightarrow>
      (\<exists>w0 w w'. writer_new mem avail = Some w0
        \<and> writer_feed d2s (Some w0) (Some (concat (map op_bytes ops))) = (ST_OK, Some w)
        \<and> writer_finish (Some w) = (ST_OK, Some (s @ [0]), length s, w')
        \<and> emit_document fuel d2s avail doc = Some (Emitted ST_OK (Some (s @ [0])) (length s))))"
proof -
  obtain s where s: "children_text fuel d2s (d_nodes doc) [] r = Some s"
    using children_text_total [OF rk(1) _ rk(2)] ok by (fastforce simp: root_ok_def)
  then obtain ops where ops: "ops_children fuel (d_nodes doc) r = Some ops"
    using ops_children_None [of fuel "d_nodes doc" r d2s "[]"] by auto
  have "\<exists>w0 w w'. writer_new mem avail = Some w0
        \<and> writer_feed d2s (Some w0) (Some (concat (map op_bytes ops))) = (ST_OK, Some w)
        \<and> writer_finish (Some w) = (ST_OK, Some (s @ [0]), length s, w')
        \<and> emit_document fuel d2s avail doc = Some (Emitted ST_OK (Some (s @ [0])) (length s))"
    if fits: "list_all op_fits ops" and mem: "6 * length s + 512 \<le> avail" and gr: "granted mem"
  proof -
    let ?f = "new_frame F_TABLE None"
    let ?start = "\<lparr>w_out = eb_init avail, w_key = None, w_stack = [?f], w_finished = False, w_st = ST_OK,
      w_mem = tl (tl mem)\<rparr>"
    have new: "writer_new mem avail = Some ?start" using mem gr by (intro writer_start) simp_all
    have gs: "granted (tl (tl mem))" by (intro granted_tl gr)
    have "list_all op_short ops" using fits by (auto simp: list_all_iff op_fits_short)
    note tr = table_runsD [OF ops_children_runs [OF ops s this], of ?start ?f "[]"]
    have "length [?f] \<le> 600 - 2 * fuel" using deep by simp
    then obtain b where b: "runs d2s ?start ops s [?f\<lparr>wf_saw := b\<rparr>]"
      using tr mem gs by (auto simp: w_ready_def eb_init_def new_frame_def stack_path_def dotted_def)
    let ?w = "foldl (w_step d2s) ?start ops"
    have w: "w_st ?w = ST_OK" "w_stack ?w = [?f\<lparr>wf_saw := b\<rparr>]" "renders (eb_init avail) s (w_out ?w)"
      "granted (w_mem ?w)"
      using b gs by (simp_all add: runs_def arrives_def)
    have "\<not> w_finished ?start" by simp
    then have feed: "writer_feed d2s (Some ?start) (Some (concat (map op_bytes ops))) = (ST_OK, Some ?w)"
      using feed_loop_ops [OF fits w(1)] w(1) by (simp add: writer_feed_def)
    have "roomy (eb_init avail) s" "eb_ok (eb_init avail)" using mem by (simp_all add: roomy_def eb_ok_def eb_init_def)
    then have out: "eb_st (w_out ?w) = ST_OK" "eb_bytes (w_out ?w) = s" "eb_ok (w_out ?w)" "eb_avail (w_out ?w) = avail"
      using w(3) by (simp_all add: renders_def eb_init_def)
    then have "\<not> eb_p (w_out ?w) \<Longrightarrow> s = []" by (auto simp: eb_ok_def)
    then have "\<exists>w'. writer_finish (Some ?w) = (ST_OK, Some (s @ [0]), length s, w')"
      using w out mem by (auto simp: writer_finish_def Let_def granted_grants)
    moreover obtain e where e: "emit_table_children fuel d2s (d_nodes doc) (emit_start avail) [] r = Some e"
      "renders (emit_start avail) s e"
      using emit_children_renders [OF _ _ _ s, of m "emit_start avail"] ok by (auto simp: root_ok_def)
    moreover have "emit_document fuel d2s avail doc = Some (Emitted ST_OK (Some (s @ [0])) (length s))"
      using e(1) ok emit_end_renders [OF e(2) mem] by (simp add: emit_document_def root_ok_def)
    ultimately show ?thesis using new feed by blast
  qed
  then show ?thesis using s ops by blast
qed

subsection \<open>The block\<close>

text \<open>
  While the pointer is not null there is room for a terminator, whatever the status is, and no
  store was outside the block.
\<close>

definition eb_inv :: "ebuf \<Rightarrow> bool" where
  "eb_inv b \<longleftrightarrow> (eb_p b \<longrightarrow> length (eb_bytes b) + 1 \<le> eb_cap b)
     \<and> (eb_st b = ST_OK \<and> \<not> eb_p b \<longrightarrow> eb_bytes b = [] \<and> eb_cap b = 0) \<and> \<not> eb_wild b"

named_theorems keeps \<open>operations that keep the invariant of the buffer\<close>

lemma eb_inv_put [keeps]: "eb_inv b \<Longrightarrow> eb_inv (eb_put b s)"
proof -
  let ?cap = "if eb_cap b \<noteq> 0 then eb_cap b else 256" and ?need = "length (eb_bytes b) + length s + 1"
  have "?need \<le> grow_cap ?need ?cap" by (rule grow_cap_bounds) simp
  then show "eb_inv b \<Longrightarrow> eb_inv (eb_put b s)"
    by (auto simp: eb_inv_def eb_put_def eb_reserve_def eb_store_def Let_def)
qed

lemma eb_inv_c [keeps]: "eb_inv b \<Longrightarrow> eb_inv (eb_c b c)"
  unfolding eb_c_eq by (rule eb_inv_put)

lemma eb_inv_body: "eb_inv b \<Longrightarrow> eb_inv (basic_body b s)"
proof (induction b s rule: basic_body.induct)
  case (1 b s)
  let ?b1 = "eb_put b (takeWhile (\<lambda>c. \<not> needs_escape c) s)"
  have b1: "eb_inv ?b1" using 1(2) by (rule eb_inv_put)
  have "eb_inv (case short_escape c of Some e \<Rightarrow> eb_put ?b1 e
      | None \<Rightarrow> if c < 0x20 \<or> c = DEL then eb_put ?b1 (u_escape c) else ?b1)" for c
    using b1 by (auto intro: eb_inv_put split: option.split)
  then show ?case using 1 b1 by (subst basic_body.simps) (auto simp: Let_def split: list.split)
qed

lemma eb_inv_emit [keeps]:
  "eb_inv b \<Longrightarrow> eb_inv (emit_string_value b s)" "eb_inv b \<Longrightarrow> eb_inv (emit_i64 b v)"
  "eb_inv b \<Longrightarrow> eb_inv (emit_float d2s b f)" "eb_inv b \<Longrightarrow> eb_inv (emit_dt b d k)"
  by (auto simp: emit_string_value_def emit_basic_bytes_def emit_i64_def emit_float_def emit_dt_def eb_str_def
      intro!: eb_inv_put eb_inv_c eb_inv_body)



text \<open>
  The invariant of the writer: the buffer's, and at the bottom of the stack the frame \<open>r\<close> it was
  made with, or, when it was made without one, any stack.
\<close>

definition root_frame :: "wframe \<Rightarrow> bool" where
  "root_frame f \<longleftrightarrow> wf_kind f = F_TABLE \<and> wf_key f = None"

definition writer_inv :: "bool \<Rightarrow> writer \<Rightarrow> bool" where
  "writer_inv r w \<longleftrightarrow> eb_inv (w_out w) \<and> (r \<longrightarrow> w_stack w \<noteq> [] \<and> root_frame (last (w_stack w)))"


lemma writer_inv_same [simp]:
  "writer_inv r (w_fail st w) = writer_inv r w" "writer_inv r (w_clear_key w) = writer_inv r w"
  "writer_inv r (w\<lparr>w_key := k\<rparr>) = writer_inv r w" "writer_inv r (w\<lparr>w_st := st\<rparr>) = writer_inv r w"
  "writer_inv r (w_spent w) = writer_inv r w"
  by (simp_all add: writer_inv_def w_fail_def w_clear_key_def)















text \<open>
  Without its root frame a writer prints a line and refuses to finish; and when a table is left
  open, which ought to be refused, it finishes.
\<close>

definition write_all :: "bool list \<Rightarrow> bytes \<Rightarrow> (status \<times> status \<times> bytes option) option" where
  "write_all mem p =
    (let wo = writer_new mem 4096
     in if wo = None then None
        else (let (st, w) = writer_feed (\<lambda>_. []) wo (Some p); (st', buf, _) = writer_finish w
              in Some (st, st', buf)))"

lemma lost_root:
  "write_all [True, False] ([0x01, 0x01] @ lit ''a'' @ [0x06]) = Some (ST_OK, ERR_STATE, None)"
  "write_all [True, False] ([0x01, 0x01] @ lit ''a'' @ [0x08]) = Some (ST_OK, ST_OK, Some (lit ''[a]'' @ [LF, 0]))"
  by code_simp+

lemma eb_put_too_long:
  assumes "eb_st b = ST_OK" "eb_cap b \<le> eb_avail b" "eb_avail b \<le> length s"
  shows "eb_st (eb_put b s) = ERR_ALLOC \<and> \<not> eb_p (eb_put b s)"
proof -
  let ?cap = "if eb_cap b \<noteq> 0 then eb_cap b else 256" and ?need = "length (eb_bytes b) + length s + 1"
  have "?need \<le> grow_cap ?need ?cap" by (rule grow_cap_bounds) simp
  then show ?thesis using assms by (auto simp: eb_put_def eb_reserve_def Let_def)
qed

lemma eb_failed: "eb_st b = ERR_ALLOC \<Longrightarrow> eb_c b c = b"
  by (simp add: eb_c_def eb_put_def)

text \<open>C22: a failure of the buffer is lost: \<open>teptris_writer_finish\<close> looks at the writer's status, never
  at the buffer's. Whenever the memory for a string of the document runs out, the feed and the
  finish still report success, with an empty text.\<close>

theorem writer_hides_failure:
  assumes "literal_ok s" "length s < 2 ^ 32" "256 \<le> avail" "avail \<le> length s"
  shows "\<exists>w0 w w'. writer_new [] avail = Some w0
    \<and> writer_feed d2s (Some w0) (Some (op_bytes (W_KEY (lit ''k'')) @ op_bytes (W_STRING s))) = (ST_OK, Some w)
    \<and> eb_st (w_out w) = ERR_ALLOC
    \<and> writer_finish (Some w) = (ST_OK, Some [0], 0, w')"
proof -
  let ?f = "new_frame F_TABLE None"
  define v where "v = \<lparr>w_out = eb_init avail, w_key = None, w_stack = [?f], w_finished = False, w_st = ST_OK,
    w_mem = []\<rparr>"
  define b where "b = \<lparr>eb_bytes = lit ''k = '' @ [SQUOTE], eb_cap = 256, eb_st = ST_OK, eb_avail = avail, eb_p = True,
      eb_wild = False\<rparr>"
  define u where "u = foldl (w_step d2s) v [W_KEY (lit ''k''), W_STRING s]"
  have new: "writer_new [] avail = Some v"
    using assms(3) by (simp add: writer_new_def w_push_def w_grants_def w_can_def w_spent_def eb_init_def v_def)
  have cap: "grow_cap (Suc (Suc 0)) 256 = 256" by (simp add: grow_cap.simps)
  have "lit ''k'' = [0x6B]" "is_barekey 0x6B" by code_simp+
  then have key: "emit_key (eb_init avail) (lit ''k'') =
      \<lparr>eb_bytes = lit ''k'', eb_cap = 256, eb_st = ST_OK, eb_avail = avail, eb_p = True,
      eb_wild = False\<rparr>"
    using assms(3) cap
    by (simp add: emit_key_def key_to_buf_def key_buf_cap_def eb_init_def eb_put_def eb_reserve_def eb_store_def)
  have b: "eb_c (eb_put (emit_key (eb_init avail) (lit ''k'')) (lit '' = '')) SQUOTE = b"
    unfolding key by (simp add: eb_put_def eb_c_def eb_store_def b_def lit_def)
  have bad: "eb_st (eb_put b s) = ERR_ALLOC" "\<not> eb_p (eb_put b s)"
    using eb_put_too_long [of b s] assms(3,4) by (simp_all add: b_def)
  have u: "u = \<lparr>w_out = eb_put b s, w_key = None, w_stack = [?f], w_finished = False, w_st = ST_OK, w_mem = []\<rparr>"
  proof -
    have "w_take_key (lit ''k'') v = v\<lparr>w_key := Some (lit ''k'')\<rparr>"
      using assms(3) by (simp add: w_take_key_def w_grants_def w_can_def w_spent_def v_def eb_init_def lit_def)
    then show ?thesis
      using assms(1) b bad
      by (simp add: u_def v_def w_value_def w_keyed_prefix_def top_kind_def top_saw_def
          w_clear_key_def w_emit_def w_end_line_def emit_string_value_def new_frame_def eb_failed)
  qed
  have "list_all op_fits [W_KEY (lit ''k''), W_STRING s]" using assms(2) by (simp add: lit_def)
  from feed_loop_ops [OF this, of d2s v]
  have "writer_feed d2s (Some v) (Some (op_bytes (W_KEY (lit ''k'')) @ op_bytes (W_STRING s))) = (ST_OK, Some u)"
    unfolding u_def [symmetric] by (simp add: u writer_feed_def v_def del: op_bytes.simps)
  moreover have "\<exists>w'. writer_finish (Some u) = (ST_OK, Some [0], 0, w')"
    using bad assms(3) by (simp add: u writer_finish_def w_grants_def w_can_def w_spent_def b_def eb_put_def eb_reserve_def eb_store_def Let_def)
  ultimately show ?thesis using new bad by (auto simp: u)
qed


subsection \<open>Witnesses\<close>

fun sample_stream :: "run \<Rightarrow> bool" where
  "sample_stream (Done st doc) \<longleftrightarrow>
     ops_children 2 (d_nodes doc) 0 = Some [W_KEY (lit ''a''), W_BOOL True]
     \<and> children_text 2 (\<lambda>_. []) (d_nodes doc) [] 0 = Some (lit ''a = true'' @ [LF])"
| "sample_stream _ \<longleftrightarrow> False"

lemma sample_streamed: "sample_stream (teptris_parse no_floats 100000 (lit ''a=true'') None)"
  by code_simp

lemma writer_emits_document_witness:
  "\<exists>doc w0 w w'. teptris_parse no_floats 100000 (lit ''a=true'') None = Done ST_OK doc
    \<and> writer_new [True, True, True] 4096 = Some w0
    \<and> writer_feed (\<lambda>_. []) (Some w0) (Some ([0x01, 0x01] @ lit ''a'' @ [0x06])) = (ST_OK, Some w)
    \<and> writer_finish (Some w) = (ST_OK, Some (lit ''a = true'' @ [LF, 0]), 9, w')"
proof -
  obtain doc where doc: "teptris_parse no_floats 100000 (lit ''a=true'') None = Done ST_OK doc"
    "root_ok 6 doc 0" "ranked (d_nodes doc) sample_rank" using sample_doc by blast
  then have "sample_stream (Done ST_OK doc)" using sample_streamed by simp
  then show ?thesis
    using writer_emits_document [OF doc(2,3), of 2 "\<lambda>_. []" 4096 "[True, True, True]"] doc(1)
    by (auto simp: sample_rank_def lit_def granted_def)
qed


lemma writer_hides_failure_witness:
  "\<exists>w0 w w'. writer_new [] 300 = Some w0
    \<and> writer_feed (\<lambda>_. []) (Some w0) (Some (op_bytes (W_KEY (lit ''k'')) @ op_bytes (W_STRING (replicate 1000 0x61)))) = (ST_OK, Some w)
    \<and> eb_st (w_out w) = ERR_ALLOC \<and> writer_finish (Some w) = (ST_OK, Some [0], 0, w')"
  using writer_hides_failure [of "replicate 1000 0x61" 300 "\<lambda>_. []"] by (simp add: literal_ok_def list_all_iff)

end
