(* ===== verification/Regex_Syntax.thy ===== *)
theory Regex_Syntax
  imports Prelude
begin

text \<open>
  The pattern parser of \<open>schema/regex.c\<close>: decoding of the pattern to code points, character
  classes with the block their ranges are stored in, escapes, quantifiers and the recursive
  descent over groups, alternations and sequences. The generated Unicode property table is an
  argument (\<open>ucs\<close>). Allocations from the arena succeed; a store past a block, or a read of
  memory that was never written, raises the flag \<open>rx_undef\<close>, and nothing is claimed of what follows.
\<close>

subsection \<open>Trees and the parser's state\<close>

record urange =
  ur_lo :: u32
  ur_hi :: u32

datatype ra =
    RA_CHAR u32 bool
  | RA_ANY
  | RA_CLASS "urange list" bool
  | RA_SEQ "ra list"
  | RA_ALT "ra list"
  | RA_QUANT ra int int
  | RA_BOL
  | RA_EOL
  | RA_WORDB
  | RA_NWORDB

record uc_prop =
  up_name :: bytes
  up_ranges :: "urange list"

record pctx =
  rx_s :: "u32 list"
  rx_pos :: nat
  rx_fold :: bool
  rx_err :: string
  rx_undef :: bool

text \<open>A class under construction: the ranges so far and the number its block has room for.\<close>

record cls =
  cl_ranges :: "urange list"
  cl_room :: nat

abbreviation (input) code :: "char \<Rightarrow> u32" where "code \<equiv> of_char"

definition pfail :: "string \<Rightarrow> pctx \<Rightarrow> pctx" where
  "pfail msg c = (if rx_err c = [] then c\<lparr>rx_err := msg\<rparr> else c)"

definition rx_advance :: "nat \<Rightarrow> pctx \<Rightarrow> pctx" where
  "rx_advance k c = c\<lparr>rx_pos := rx_pos c + k\<rparr>"

text \<open>The tests \<open>c->pos < c->n && c->s[c->pos] == ch\<close> and \<open>c->pos >= c->n\<close>.\<close>

definition rx_here :: "pctx \<Rightarrow> u32 \<Rightarrow> bool" where
  "rx_here c ch \<longleftrightarrow> rx_pos c < length (rx_s c) \<and> rx_s c ! rx_pos c = ch"

definition rx_done :: "pctx \<Rightarrow> bool" where
  "rx_done c \<longleftrightarrow> length (rx_s c) \<le> rx_pos c"

definition fold_cp :: "u32 \<Rightarrow> u32" where
  "fold_cp cp = (if code CHR ''A'' \<le> cp \<and> cp \<le> code CHR ''Z'' then cp + 32 else cp)"

definition is_word_cp :: "u32 \<Rightarrow> bool" where
  "is_word_cp cp =
    (if code CHR ''a'' \<le> cp \<and> cp \<le> code CHR ''z'' then True
     else if code CHR ''A'' \<le> cp \<and> cp \<le> code CHR ''Z'' then True
     else if code CHR ''0'' \<le> cp \<and> cp \<le> code CHR ''9'' then True
     else cp = code CHR ''_'')"

subsection \<open>Decoding\<close>

definition is_cont :: "byte \<Rightarrow> bool" where
  "is_cont b \<longleftrightarrow> b AND 0xC0 = 0x80"

definition low6 :: "byte \<Rightarrow> u32" where
  "low6 b = ucast (b AND 0x3F)"

text \<open>One code point and the number of its bytes, for a nonempty rest of the input.\<close>

definition cp_decode :: "bytes \<Rightarrow> u32 \<times> nat" where
  "cp_decode r =
    (let b = r ! 0
     in if b < 0x80 then (ucast b, 1)
        else if b AND 0xE0 = 0xC0 \<and> 1 < length r \<and> is_cont (r ! 1)
          then (push_bit 6 (ucast (b AND 0x1F)) OR low6 (r ! 1), 2)
        else if b AND 0xF0 = 0xE0 \<and> 2 < length r \<and> is_cont (r ! 1) \<and> is_cont (r ! 2)
          then (push_bit 12 (ucast (b AND 0x0F)) OR push_bit 6 (low6 (r ! 1)) OR low6 (r ! 2), 3)
        else if b AND 0xF8 = 0xF0 \<and> 3 < length r \<and> is_cont (r ! 1) \<and> is_cont (r ! 2) \<and> is_cont (r ! 3)
          then (push_bit 18 (ucast (b AND 0x07)) OR push_bit 12 (low6 (r ! 1))
                  OR push_bit 6 (low6 (r ! 2)) OR low6 (r ! 3), 4)
        else (0xFFFD, 1))"

lemma cp_decode_step: "0 < snd (cp_decode r)"
  by (simp add: cp_decode_def Let_def)

function cp_list :: "bytes \<Rightarrow> u32 list" where
  "cp_list [] = []"
| "cp_list (b # r) = fst (cp_decode (b # r)) # cp_list (drop (snd (cp_decode (b # r))) (b # r))"
  by pat_completeness auto
termination by (relation "measure length") (auto simp: cp_decode_step)

text \<open>The pass that counts code points to size the array looks at lead bytes only.\<close>

function cp_count :: "bytes \<Rightarrow> nat" where
  "cp_count [] = 0"
| "cp_count (b # r) =
    (let step = (if b < 0x80 then 1 else if b < 0xE0 then 2 else if b < 0xF0 then 3 else 4)
     in 1 + cp_count (drop (if step > length (b # r) then 1 else step) (b # r)))"
  by pat_completeness auto
termination by (relation "measure length") auto

definition utf8_to_cp :: "bytes \<Rightarrow> pctx \<Rightarrow> pctx" where
  "utf8_to_cp src c =
    (let cps = cp_list src
     in c\<lparr>rx_s := cps, rx_undef := rx_undef c \<or> cp_count src + 1 < length cps\<rparr>)"

definition jhexv :: "u32 \<Rightarrow> int" where
  "jhexv cp =
    (if code CHR ''0'' \<le> cp \<and> cp \<le> code CHR ''9'' then uint (cp - code CHR ''0'')
     else if code CHR ''a'' \<le> cp \<and> cp \<le> code CHR ''f'' then uint (cp - code CHR ''a'' + 10)
     else if code CHR ''A'' \<le> cp \<and> cp \<le> code CHR ''F'' then uint (cp - code CHR ''A'' + 10)
     else - 1)"

subsection \<open>Ranges of a class\<close>

text \<open>The store \<open>cl->ranges[cl->n_ranges++] = \<dots>\<close>, which no routine checks against the block.\<close>

fun cls_push :: "urange \<Rightarrow> pctx \<times> cls \<Rightarrow> pctx \<times> cls" where
  "cls_push r (c, cl) =
    (c\<lparr>rx_undef := rx_undef c \<or> cl_room cl \<le> length (cl_ranges cl)\<rparr>,
     cl\<lparr>cl_ranges := cl_ranges cl @ [r]\<rparr>)"

definition mk_range :: "u32 \<Rightarrow> u32 \<Rightarrow> urange" where
  "mk_range lo hi = \<lparr>ur_lo = lo, ur_hi = hi\<rparr>"

text \<open>A new block; the ranges move into it, however small it is.\<close>

fun cls_reserve :: "nat \<Rightarrow> pctx \<times> cls \<Rightarrow> pctx \<times> cls" where
  "cls_reserve cap (c, cl) =
    (c\<lparr>rx_undef := rx_undef c \<or> cap < length (cl_ranges cl)\<rparr>, cl\<lparr>cl_room := cap\<rparr>)"

fun cls_add :: "u32 \<Rightarrow> u32 \<Rightarrow> pctx \<times> cls \<Rightarrow> pctx \<times> cls" where
  "cls_add lo hi (c, cl) =
    (let A = code CHR ''A''; Z = code CHR ''Z''; a = code CHR ''a''; z = code CHR ''z'';
         x = (c, cl);
         x = (if rx_fold c \<and> lo \<le> Z \<and> A \<le> hi then
                (let mlo = (if lo < A then A else lo); mhi = (if hi > Z then Z else hi)
                 in if mlo \<le> mhi then cls_push (mk_range (fold_cp mlo) (fold_cp mhi)) x else x)
              else x);
         x = (if rx_fold c \<and> lo \<le> z \<and> a \<le> hi then
                (let mlo = (if lo < a then a else lo); mhi = (if hi > z then z else hi)
                 in if mlo \<le> mhi then cls_push (mk_range (mlo - 32) (mhi - 32)) x else x)
              else x)
     in cls_push (mk_range lo hi) x)"

fun cls_add_cp :: "u32 \<Rightarrow> pctx \<times> cls \<Rightarrow> pctx \<times> cls" where
  "cls_add_cp cp (c, cl) =
    (if rx_fold c \<and> code CHR ''A'' \<le> cp \<and> cp \<le> code CHR ''Z'' then
       cls_push (mk_range (fold_cp cp) (fold_cp cp)) (cls_push (mk_range cp cp) (c, cl))
     else
       cls_push (mk_range cp cp)
         (if rx_fold c \<and> code CHR ''a'' \<le> cp \<and> cp \<le> code CHR ''z''
          then cls_push (mk_range (fold_cp cp) (fold_cp cp)) (c, cl) else (c, cl)))"

text \<open>
  Comparison of a table name, a C string, with the decoded name, and the binary search
  over the table sorted by name.
\<close>

fun uc_cmp :: "bytes \<Rightarrow> u32 list \<Rightarrow> int" where
  "uc_cmp [] [] = 0"
| "uc_cmp (b # name) [] = 1"
| "uc_cmp [] (x # s) = (if 0 < x then - 1 else 1)"
| "uc_cmp (b # name) (x # s) =
    (if ucast b \<noteq> x then (if ucast b < x then - 1 else 1) else uc_cmp name s)"

function uc_find_loop :: "uc_prop list \<Rightarrow> u32 list \<Rightarrow> int \<Rightarrow> int \<Rightarrow> uc_prop option" where
  "uc_find_loop ucs s lo hi =
    (if lo \<le> hi then
       (let mid = (lo + hi) div 2; cmp = uc_cmp (up_name (ucs ! nat mid)) s
        in if cmp = 0 then Some (ucs ! nat mid)
           else if cmp < 0 then uc_find_loop ucs s (mid + 1) hi
           else uc_find_loop ucs s lo (mid - 1))
     else None)"
  by pat_completeness auto
termination by (relation "measure (\<lambda>(ucs, s, lo, hi). nat (hi - lo + 1))") auto

declare uc_find_loop.simps [simp del]

definition uc_find :: "uc_prop list \<Rightarrow> u32 list \<Rightarrow> uc_prop option" where
  "uc_find ucs s = uc_find_loop ucs s 0 (int (length ucs) - 1)"

text \<open>The gaps between sorted ranges; the step behind the last range closes at 0x110000.\<close>

fun complement_loop :: "u32 \<Rightarrow> urange list \<Rightarrow> pctx \<times> cls \<Rightarrow> pctx \<times> cls" where
  "complement_loop expect [] x = (if 0x110000 > expect then cls_push (mk_range expect (0x110000 - 1)) x else x)"
| "complement_loop expect (r # rs) x =
    (let x = (if ur_lo r > expect then cls_push (mk_range expect (ur_lo r - 1)) x else x)
     in complement_loop (if ur_hi r + 1 > expect then ur_hi r + 1 else expect) rs x)"

definition cls_append_complement :: "urange list \<Rightarrow> pctx \<times> cls \<Rightarrow> pctx \<times> cls" where
  "cls_append_complement rs = complement_loop 0 rs"

text \<open>The name in braces, with the mark of an inner negation; or a diagnostic.\<close>

definition prop_name :: "pctx \<Rightarrow> pctx \<times> (bool \<times> u32 list) option" where
  "prop_name c =
    (let inner_neg = rx_here c (code CHR ''^'');
         c = (if inner_neg then rx_advance 1 c else c);
         name = takeWhile (\<lambda>x. x \<noteq> code CHR ''}'') (drop (rx_pos c) (rx_s c));
         c = rx_advance (length name) c
     in if rx_done c then (pfail (''unterminated '' @ CHR 0x5C # ''p{...}'') c, None)
        else if name = [] then (pfail (''empty '' @ CHR 0x5C # ''p{} property name'') (rx_advance 1 c), None)
        else (rx_advance 1 c, Some (inner_neg, name)))"

definition prop_append :: "bool \<Rightarrow> uc_prop \<Rightarrow> pctx \<times> cls \<Rightarrow> pctx \<times> cls" where
  "prop_append negate p x =
    (let n = length (up_ranges p);
         x = cls_reserve (if negate then 2 * n + 8 else n + 8) x
     in if negate then cls_append_complement (up_ranges p) x else fold cls_push (up_ranges p) x)"

fun prop_escape :: "uc_prop list \<Rightarrow> bool \<Rightarrow> pctx \<times> cls \<Rightarrow> pctx \<times> cls" where
  "prop_escape ucs negate_letter (c, cl) =
    (if \<not> rx_here c (code CHR ''{'') then (pfail (CHR 0x5C # ''p needs a {property} name'') c, cl)
     else case prop_name (rx_advance 1 c) of
       (c, None) \<Rightarrow> (c, cl)
     | (c, Some (inner_neg, name)) \<Rightarrow>
         (case uc_find ucs name of
            None \<Rightarrow> (pfail (''unknown '' @ CHR 0x5C # ''p{...} property name'') c, cl)
          | Some p \<Rightarrow> prop_append (negate_letter \<noteq> inner_neg) p (c, cl)))"

definition cls_shorthand :: "u32 \<Rightarrow> pctx \<times> cls \<Rightarrow> pctx \<times> cls" where
  "cls_shorthand e x =
    (if e = code CHR ''d'' \<or> e = code CHR ''D'' then
       cls_push (mk_range (code CHR ''0'') (code CHR ''9'')) x
     else if e = code CHR ''w'' \<or> e = code CHR ''W'' then
       (let x = cls_add (code CHR ''a'') (code CHR ''z'') x;
            x = cls_add (code CHR ''A'') (code CHR ''Z'') x;
            x = cls_add (code CHR ''0'') (code CHR ''9'') x
        in cls_add (code CHR ''_'') (code CHR ''_'') x)
     else
       (let x = cls_add_cp 0x20 x; x = cls_add_cp 0x09 x; x = cls_add_cp 0x0A x;
            x = cls_add_cp 0x0D x; x = cls_add_cp 0x0C x
        in cls_add_cp 0x0B x))"


subsection \<open>Escapes and classes\<close>

text \<open>A code point, or -1 for a shorthand already expanded, or -2 for a failure.\<close>

datatype esc = Esc_cp u32 | Esc_short | Esc_err

fun hex_digits :: "nat \<Rightarrow> pctx \<Rightarrow> int option" where
  "hex_digits k c =
    (let ds = map jhexv (take k (drop (rx_pos c) (rx_s c)))
     in if list_all (\<lambda>d. 0 \<le> d) ds then Some (foldl (\<lambda>v d. v * 16 + d) 0 ds) else None)"

definition hex_escape :: "nat \<Rightarrow> string \<Rightarrow> pctx \<times> cls \<Rightarrow> (pctx \<times> cls) \<times> esc" where
  "hex_escape k name x =
    (let c = rx_advance 1 (fst x)
     in if length (rx_s c) < rx_pos c + k then
          ((pfail (''incomplete '' @ name @ '' escape'') c, snd x), Esc_err)
        else case hex_digits k c of
          None \<Rightarrow> ((pfail (''invalid '' @ name @ '' escape'') c, snd x), Esc_err)
        | Some v \<Rightarrow> ((rx_advance k c, snd x), Esc_cp (word_of_int v)))"

definition control_escape :: "u32 \<Rightarrow> u32 option" where
  "control_escape e =
    (if e = code CHR ''n'' then Some 0x0A
     else if e = code CHR ''r'' then Some 0x0D
     else if e = code CHR ''t'' then Some 0x09
     else if e = code CHR ''f'' then Some 0x0C
     else if e = code CHR ''v'' then Some 0x0B
     else if e = code CHR ''0'' then Some 0
     else None)"

definition is_shorthand :: "u32 \<Rightarrow> bool" where
  "is_shorthand e \<longleftrightarrow> e \<in> set (map of_char ''dDwWsS'')"

definition class_escape :: "uc_prop list \<Rightarrow> pctx \<times> cls \<Rightarrow> (pctx \<times> cls) \<times> esc" where
  "class_escape ucs x =
    (let c = fst x
     in if rx_done c then ((pfail ''trailing backslash in pattern'' c, snd x), Esc_err)
        else let e = rx_s c ! rx_pos c in
        if is_shorthand e then (cls_shorthand e (rx_advance 1 c, snd x), Esc_short)
        else if e = code CHR ''p'' \<or> e = code CHR ''P'' then
          (prop_escape ucs (e = code CHR ''P'') (rx_advance 1 c, snd x), Esc_short)
        else if e = code CHR ''x'' then hex_escape 2 (CHR 0x5C # ''x'') x
        else if e = code CHR ''u'' then hex_escape 4 (CHR 0x5C # ''u'') x
        else case control_escape e of
          Some v \<Rightarrow> ((rx_advance 1 c, snd x), Esc_cp v)
        | None \<Rightarrow>
            (if code CHR ''1'' \<le> e \<and> e \<le> code CHR ''9'' then
               ((pfail ''backreferences are not supported'' c, snd x), Esc_err)
             else ((rx_advance 1 c, snd x), Esc_cp e)))"

text \<open>
  The insertion sort moves a range in front of the larger ones at the end of the sorted part.
  The merge joins ranges that touch. On an empty class it leaves one range that no store has
  written.
\<close>

definition cls_insert :: "urange list \<Rightarrow> urange \<Rightarrow> urange list" where
  "cls_insert acc r =
    rev (dropWhile (\<lambda>x. ur_lo x > ur_lo r) (rev acc)) @ [r] @
    rev (takeWhile (\<lambda>x. ur_lo x > ur_lo r) (rev acc))"

fun cls_merge :: "urange \<Rightarrow> urange list \<Rightarrow> urange list" where
  "cls_merge w [] = [w]"
| "cls_merge w (r # rs) =
    (if ur_lo r \<le> ur_hi w + 1 then cls_merge (if ur_hi r > ur_hi w then w\<lparr>ur_hi := ur_hi r\<rparr> else w) rs
     else w # cls_merge r rs)"

fun cls_sort_merge :: "pctx \<times> cls \<Rightarrow> pctx \<times> cls" where
  "cls_sort_merge (c, cl) =
    (case foldl cls_insert [] (cl_ranges cl) of
       [] \<Rightarrow> (c\<lparr>rx_undef := True\<rparr>, cl\<lparr>cl_ranges := [mk_range 0 0]\<rparr>)
     | r # rs \<Rightarrow> (c, cl\<lparr>cl_ranges := cls_merge r rs\<rparr>))"

text \<open>One endpoint of a class: an escape, or the code point itself.\<close>

definition class_atom :: "uc_prop list \<Rightarrow> pctx \<times> cls \<Rightarrow> (pctx \<times> cls) \<times> esc" where
  "class_atom ucs x =
    (let c = fst x; ch = rx_s c ! rx_pos c; x = (rx_advance 1 c, snd x)
     in if ch = 0x5C then class_escape ucs x else (x, Esc_cp ch))"

definition cls_grow :: "nat \<Rightarrow> pctx \<times> cls \<Rightarrow> nat \<times> (pctx \<times> cls)" where
  "cls_grow cap x =
    (if cap \<le> length (cl_ranges (snd x)) + 2 then (cap * 2, cls_reserve (cap * 2) x) else (cap, x))"

definition range_follows :: "pctx \<Rightarrow> bool" where
  "range_follows c \<longleftrightarrow>
    rx_pos c + 1 < length (rx_s c) \<and> rx_s c ! rx_pos c = code CHR ''-'' \<and> rx_s c ! (rx_pos c + 1) \<noteq> code CHR '']''"

text \<open>The pattern never changes and the cursor only moves forward, inside the pattern.\<close>

lemma place_push [simp]:
  "rx_s (fst (cls_push r x)) = rx_s (fst x)" "rx_pos (fst (cls_push r x)) = rx_pos (fst x)"
  "rx_fold (fst (cls_push r x)) = rx_fold (fst x)"
  by (cases x; simp)+

lemma place_reserve [simp]:
  "rx_s (fst (cls_reserve n x)) = rx_s (fst x)" "rx_pos (fst (cls_reserve n x)) = rx_pos (fst x)"
  "rx_fold (fst (cls_reserve n x)) = rx_fold (fst x)"
  by (cases x; simp)+

lemma place_add [simp]:
  "rx_s (fst (cls_add lo hi x)) = rx_s (fst x)" "rx_pos (fst (cls_add lo hi x)) = rx_pos (fst x)"
  "rx_fold (fst (cls_add lo hi x)) = rx_fold (fst x)"
  by (cases x; simp add: Let_def)+

lemma place_add_cp [simp]:
  "rx_s (fst (cls_add_cp cp x)) = rx_s (fst x)" "rx_pos (fst (cls_add_cp cp x)) = rx_pos (fst x)"
  "rx_fold (fst (cls_add_cp cp x)) = rx_fold (fst x)"
  by (cases x; simp)+

lemma place_grow [simp]:
  "rx_s (fst (snd (cls_grow n x))) = rx_s (fst x)" "rx_pos (fst (snd (cls_grow n x))) = rx_pos (fst x)"
  "rx_fold (fst (snd (cls_grow n x))) = rx_fold (fst x)"
  by (simp_all add: cls_grow_def)

lemma place_fold_push [simp]:
  "rx_s (fst (fold cls_push rs x)) = rx_s (fst x)" "rx_pos (fst (fold cls_push rs x)) = rx_pos (fst x)"
  "rx_fold (fst (fold cls_push rs x)) = rx_fold (fst x)"
  by (induction rs arbitrary: x) simp_all

lemma place_complement [simp]:
  "rx_s (fst (complement_loop e rs x)) = rx_s (fst x)" "rx_pos (fst (complement_loop e rs x)) = rx_pos (fst x)"
  "rx_fold (fst (complement_loop e rs x)) = rx_fold (fst x)"
  by (induction rs arbitrary: e x) (simp_all add: Let_def)

lemma place_shorthand [simp]:
  "rx_s (fst (cls_shorthand e x)) = rx_s (fst x)" "rx_pos (fst (cls_shorthand e x)) = rx_pos (fst x)"
  "rx_fold (fst (cls_shorthand e x)) = rx_fold (fst x)"
  by (simp_all add: cls_shorthand_def Let_def)

lemma place_fail [simp]:
  "rx_s (pfail m c) = rx_s c" "rx_pos (pfail m c) = rx_pos c" "rx_fold (pfail m c) = rx_fold c"
  by (simp_all add: pfail_def)

lemma place_advance [simp]:
  "rx_s (rx_advance k c) = rx_s c" "rx_pos (rx_advance k c) = rx_pos c + k" "rx_fold (rx_advance k c) = rx_fold c"
  by (simp_all add: rx_advance_def)

definition moved :: "pctx \<Rightarrow> pctx \<Rightarrow> bool" where
  "moved c d \<longleftrightarrow> rx_s d = rx_s c \<and> rx_fold d = rx_fold c \<and> rx_pos c \<le> rx_pos d \<and>
     (rx_pos c \<le> length (rx_s c) \<longrightarrow> rx_pos d \<le> length (rx_s d))"

lemma moved_refl [simp]: "moved c c"
  by (simp add: moved_def)

lemma moved_trans: "moved c d \<Longrightarrow> moved d e \<Longrightarrow> moved c e"
  by (auto simp: moved_def)

lemma moved_fail [simp]: "moved c (pfail m d) = moved c d"
  by (simp add: moved_def)

lemma length_takeWhile_drop: "n \<le> length s \<Longrightarrow> n + length (takeWhile P (drop n s)) \<le> length s"
  using length_takeWhile_le [of P "drop n s"] by simp

lemma moved_advance: "rx_pos c + k \<le> length (rx_s c) \<Longrightarrow> moved c (rx_advance k c)"
  by (simp add: moved_def)

lemma moved_here: "rx_here c ch \<Longrightarrow> moved c (rx_advance 1 c)"
  by (rule moved_advance) (simp add: rx_here_def)

lemma moved_not_done: "\<not> rx_done c \<Longrightarrow> moved c (rx_advance 1 c)"
  by (rule moved_advance) (simp add: rx_done_def)

lemma moved_takeWhile: "moved c (rx_advance (length (takeWhile P (drop (rx_pos c) (rx_s c)))) c)"
  using length_takeWhile_drop [of "rx_pos c" "rx_s c" P] by (simp add: moved_def)

lemma moved_same:
  "moved c d \<Longrightarrow> rx_s e = rx_s d \<Longrightarrow> rx_pos e = rx_pos d \<Longrightarrow> rx_fold e = rx_fold d \<Longrightarrow> moved c e"
  by (auto simp: moved_def)

lemma prop_name_moved: "moved c (fst (prop_name c))"
proof -
  define b where "b = rx_here c (code CHR ''^'')"
  define c2 where "c2 = (if b then rx_advance 1 c else c)"
  define name where "name = takeWhile (\<lambda>x. x \<noteq> code CHR ''}'') (drop (rx_pos c2) (rx_s c2))"
  define c3 where "c3 = rx_advance (length name) c2"
  have "moved c c2" using moved_here unfolding c2_def b_def by simp
  moreover have "moved c2 c3" unfolding c3_def name_def by (rule moved_takeWhile)
  ultimately have c3: "moved c c3" by (rule moved_trans)
  have last: "moved c (rx_advance 1 c3)" if "\<not> rx_done c3"
    using c3 moved_not_done [OF that] by (rule moved_trans)
  have "prop_name c =
     (if rx_done c3 then (pfail (''unterminated '' @ CHR 0x5C # ''p{...}'') c3, None)
      else if name = [] then (pfail (''empty '' @ CHR 0x5C # ''p{} property name'') (rx_advance 1 c3), None)
      else (rx_advance 1 c3, Some (b, name)))"
    unfolding prop_name_def Let_def c3_def name_def c2_def b_def ..
  then show ?thesis using c3 last by simp
qed

lemma place_append [simp]:
  "rx_s (fst (prop_append b p x)) = rx_s (fst x)" "rx_pos (fst (prop_append b p x)) = rx_pos (fst x)"
  "rx_fold (fst (prop_append b p x)) = rx_fold (fst x)"
  by (simp_all add: prop_append_def Let_def cls_append_complement_def)

lemma prop_escape_moved: "moved (fst x) (fst (prop_escape ucs neg x))"
proof (cases x)
  case (Pair c cl)
  show ?thesis
  proof (cases "rx_here c (code CHR ''{'')")
    case True
    obtain d r where d: "prop_name (rx_advance 1 c) = (d, r)" by (cases "prop_name (rx_advance 1 c)")
    have "moved c d"
      using moved_here [OF True] prop_name_moved [of "rx_advance 1 c"] unfolding d fst_conv by (rule moved_trans)
    then show ?thesis
      using True d by (auto simp: Pair intro: moved_same split: option.split)
  qed (simp add: Pair)
qed

lemma hex_escape_moved: "rx_pos (fst x) < length (rx_s (fst x)) \<Longrightarrow> moved (fst x) (fst (fst (hex_escape k m x)))"
  by (auto simp: hex_escape_def Let_def moved_def split: option.split)

declare prop_escape.simps [simp del]

lemma class_escape_moved: "moved (fst x) (fst (fst (class_escape ucs x)))"
proof (cases "rx_done (fst x)")
  case False
  have one: "moved (fst x) (rx_advance 1 (fst x))" by (rule moved_not_done [OF False])
  then have "moved (fst x) (fst (prop_escape ucs b (rx_advance 1 (fst x), snd x)))" for b
    using prop_escape_moved [of "(rx_advance 1 (fst x), snd x)" ucs b] by (auto intro: moved_trans)
  moreover have "moved (fst x) (fst (fst (hex_escape k m x)))" for k m
    using False by (simp add: hex_escape_moved rx_done_def)
  moreover have "moved (fst x) (fst (cls_shorthand e (rx_advance 1 (fst x), snd x)))" for e
    using one by (rule moved_same) simp_all
  ultimately show ?thesis using False one
    by (simp add: class_escape_def Let_def split: option.split)
qed (simp add: class_escape_def Let_def)

lemma class_atom_moved:
  assumes "\<not> rx_done (fst x)"
  shows "moved (fst x) (fst (fst (class_atom ucs x)))" "rx_pos (fst x) < rx_pos (fst (fst (class_atom ucs x)))"
proof -
  have "moved (fst x) (rx_advance 1 (fst x))" using assms by (simp add: moved_def rx_done_def)
  then show "moved (fst x) (fst (fst (class_atom ucs x)))" "rx_pos (fst x) < rx_pos (fst (fst (class_atom ucs x)))"
    using class_escape_moved [of "(rx_advance 1 (fst x), snd x)" ucs]
    by (auto simp: class_atom_def Let_def moved_def)
qed


lemma class_atom_less:
  assumes "\<not> rx_done (fst x)" "class_atom ucs x = (y, e)"
  shows "length (rx_s (fst y)) - rx_pos (fst y) < length (rx_s (fst x)) - rx_pos (fst x)"
  using class_atom_moved [OF assms(1), of ucs] assms by (auto simp: moved_def rx_done_def)

text \<open>
  The body of a class; its own variable \<open>cap\<close> is what the capacity is taken to be, whatever
  block the escapes have left behind.
\<close>

function rclass_loop :: "uc_prop list \<Rightarrow> bool \<Rightarrow> nat \<Rightarrow> pctx \<times> cls \<Rightarrow> pctx \<times> cls option" where
  "rclass_loop ucs first cap x =
    (if rx_done (fst x) then (pfail ''unterminated character class'' (fst x), None)
     else if rx_here (fst x) (code CHR '']'') \<and> \<not> first then
       (case cls_sort_merge (rx_advance 1 (fst x), snd x) of (c, cl) \<Rightarrow> (c, Some cl))
     else case class_atom ucs x of
       (y, Esc_err) \<Rightarrow> (fst y, None)
     | (y, Esc_short) \<Rightarrow> rclass_loop ucs False cap y
     | (y, Esc_cp lo) \<Rightarrow>
         (if range_follows (fst y) then
            (case class_atom ucs (rx_advance 1 (fst y), snd y) of
               (z, Esc_err) \<Rightarrow> (fst z, None)
             | (z, Esc_short) \<Rightarrow> (pfail ''class shorthand as a range endpoint'' (fst z), None)
             | (z, Esc_cp hi) \<Rightarrow>
                 (if hi < lo then (pfail ''class range out of order'' (fst z), None)
                  else (case cls_grow cap z of (cap, z) \<Rightarrow> rclass_loop ucs False cap (cls_add lo hi z))))
          else (case cls_grow cap y of (cap, y) \<Rightarrow> rclass_loop ucs False cap (cls_add_cp lo y))))"
  by pat_completeness auto
termination
proof (relation "measure (\<lambda>(ucs, first, cap, x). length (rx_s (fst x)) - rx_pos (fst x))", goal_cases)
  case (2 ucs first cap x y e lo z e' hi cap' z')
  have y: "\<not> rx_done (rx_advance 1 (fst y))"
    using 2(5) by (simp add: range_follows_def rx_done_def)
  have "length (rx_s (fst z)) - rx_pos (fst z) < length (rx_s (fst y)) - rx_pos (fst y)"
    using class_atom_less [OF _ sym [OF 2(6)]] y by simp
  then show ?case
    using class_atom_less [of x ucs y e] 2 place_grow [of cap z] by (simp flip: 2(9))
next
  case (3 ucs first cap x y e lo cap' y')
  then show ?case
    using class_atom_less [of x ucs y e] place_grow [of cap y] by (simp flip: 3(6))
next
  case (4 ucs first cap x y e)
  then show ?case using class_atom_less [of x ucs y e] by simp
qed simp

declare rclass_loop.simps [simp del]

definition rclass :: "uc_prop list \<Rightarrow> pctx \<Rightarrow> pctx \<times> ra option" where
  "rclass ucs c =
    (let negated = rx_here c (code CHR ''^'');
         c = (if negated then rx_advance 1 c else c)
     in case rclass_loop ucs True 8 (cls_reserve 8 (c, \<lparr>cl_ranges = [], cl_room = 0\<rparr>)) of
          (c, None) \<Rightarrow> (c, None)
        | (c, Some cl) \<Rightarrow> (c, Some (RA_CLASS (cl_ranges cl) negated)))"

subsection \<open>Quantifiers\<close>

datatype quant = Q_none | Q_err | Q_some int int

text \<open>
  Digits as a \<open>long\<close>, whose overflow is undefined, and whether there are any.
\<close>

definition digits_at :: "pctx \<Rightarrow> u32 list" where
  "digits_at c = takeWhile (\<lambda>x. code CHR ''0'' \<le> x \<and> x \<le> code CHR ''9'') (drop (rx_pos c) (rx_s c))"

definition digits_value :: "u32 list \<Rightarrow> int" where
  "digits_value ds = foldl (\<lambda>v d. v * 10 + uint (d - code CHR ''0'')) 0 ds"

definition rx_digits :: "pctx \<Rightarrow> pctx \<times> int" where
  "rx_digits c =
    (let v = digits_value (digits_at c)
     in (rx_advance (length (digits_at c)) c\<lparr>rx_undef := rx_undef c \<or> v > 2 ^ 63 - 1\<rparr>, v))"

text \<open>The braces behind the opening one; no quantifier puts the cursor back in front of it.\<close>

definition rquant_braces :: "pctx \<Rightarrow> pctx \<times> quant" where
  "rquant_braces save =
    (let c = rx_advance 1 save
     in if digits_at c = [] then (save, Q_none)
        else (case rx_digits c of (c, lo) \<Rightarrow>
          (let back = save\<lparr>rx_undef := rx_undef c\<rparr>
           in if rx_here c (code CHR ''}'') then (rx_advance 1 c, Q_some lo lo)
              else if rx_here c (code CHR '','') then
                (let c = rx_advance 1 c
                 in if rx_here c (code CHR ''}'') then (rx_advance 1 c, Q_some lo (- 1))
                    else (let any = digits_at c \<noteq> []
                          in case rx_digits c of (c, hi) \<Rightarrow>
                            (let back = save\<lparr>rx_undef := rx_undef c\<rparr>
                             in if \<not> any \<or> \<not> rx_here c (code CHR ''}'') then (back, Q_none)
                                else if hi < lo then
                                  (pfail ''quantifier range out of order'' (rx_advance 1 c), Q_err)
                                else (rx_advance 1 c, Q_some lo hi))))
              else (back, Q_none))))"

definition rquant :: "pctx \<Rightarrow> pctx \<times> quant" where
  "rquant c =
    (case (if rx_here c (code CHR ''*'') then (rx_advance 1 c, Q_some 0 (- 1))
           else if rx_here c (code CHR ''+'') then (rx_advance 1 c, Q_some 1 (- 1))
           else if rx_here c (code CHR ''?'') then (rx_advance 1 c, Q_some 0 1)
           else if rx_here c (code CHR ''{'') then rquant_braces c
           else (c, Q_none)) of
       (c, Q_some lo hi) \<Rightarrow> (if rx_here c (code CHR ''?'') then rx_advance 1 c else c, Q_some lo hi)
     | r \<Rightarrow> r)"

end
