(* ===== verification/Regex_Parse.thy ===== *)
theory Regex_Parse
  imports Regex_Syntax
begin

text \<open>
  The recursive descent of \<open>schema/regex.c\<close>: atoms, repeated atoms, sequences, alternations. A
  result is \<open>None\<close> when the fuel ends: the parameter of \<open>ralternation\<close> bounds the depth of
  groups, the loops count the pieces, and both are bounded by the code points that remain
  (\<open>ralternation_returns\<close>). \<open>(c, None)\<close> is the source's null.
\<close>

type_synonym rres = "(pctx \<times> ra option) option"

definition group_flags :: "pctx \<Rightarrow> pctx \<times> bool" where
  "group_flags c =
    (if \<not> rx_here c (code CHR ''?'') then (c, True)
     else (let c = rx_advance 1 c
           in if rx_here c (code CHR '':'') then (rx_advance 1 c, True)
              else if rx_here c (code CHR ''='') \<or> rx_here c (code CHR ''!'') then
                (pfail ''lookahead is not supported'' c, False)
              else if rx_here c (code CHR ''<'') then
                (if rx_here (rx_advance 1 c) (code CHR ''='') \<or> rx_here (rx_advance 1 c) (code CHR ''!'') then
                   (pfail ''lookbehind is not supported'' c, False)
                 else (let c = rx_advance (length (takeWhile (\<lambda>x. x \<noteq> code CHR ''>'') (drop (rx_pos c) (rx_s c)))) c
                       in if rx_done c then (pfail ''unterminated group name'' c, False)
                          else (rx_advance 1 c, True)))
              else (pfail ''inline flags other than a leading (?i) are not supported'' c, False)))"

definition rgroup :: "(pctx \<Rightarrow> rres) \<Rightarrow> pctx \<Rightarrow> rres" where
  "rgroup alt c =
    (case group_flags c of
       (c, False) \<Rightarrow> Some (c, None)
     | (c, True) \<Rightarrow>
         (case alt c of
            None \<Rightarrow> None
          | Some (c, body) \<Rightarrow>
              (if body = None \<and> rx_err c \<noteq> [] then Some (c, None)
               else if \<not> rx_here c (code CHR '')'') then Some (pfail ''unterminated group'' c, None)
               else Some (rx_advance 1 c, Some (RA_ALT [case body of Some b \<Rightarrow> b | None \<Rightarrow> RA_SEQ []])))))"

definition is_lower :: "u32 \<Rightarrow> bool" where
  "is_lower cp \<longleftrightarrow> code CHR ''a'' \<le> cp \<and> cp \<le> code CHR ''z''"

definition is_upper :: "u32 \<Rightarrow> bool" where
  "is_upper cp \<longleftrightarrow> code CHR ''A'' \<le> cp \<and> cp \<le> code CHR ''Z''"

text \<open>An escape outside brackets. The last call cannot meet a shorthand: they were tried before.\<close>

definition no_class :: cls where
  "no_class = \<lparr>cl_ranges = [], cl_room = 0\<rparr>"

definition rescape :: "uc_prop list \<Rightarrow> pctx \<Rightarrow> pctx \<times> ra option" where
  "rescape ucs c =
    (if rx_done c then (pfail ''trailing backslash in pattern'' c, None)
     else let e = rx_s c ! rx_pos c in
        if is_shorthand e then
          (case cls_shorthand e (cls_reserve 8 (rx_advance 1 c, no_class)) of
             (c, cl) \<Rightarrow> (c, Some (RA_CLASS (cl_ranges cl) (e \<in> set (map of_char ''DWS'')))))
        else if e = code CHR ''p'' \<or> e = code CHR ''P'' then
          (case prop_escape ucs (e = code CHR ''P'') (rx_advance 1 c, no_class) of
             (c, cl) \<Rightarrow> (c, if rx_err c \<noteq> [] then None else Some (RA_CLASS (cl_ranges cl) False)))
        else if e = code CHR ''b'' then (rx_advance 1 c, Some RA_WORDB)
        else if e = code CHR ''B'' then (rx_advance 1 c, Some RA_NWORDB)
        else case class_escape ucs (c, no_class) of
          ((c, cl), Esc_err) \<Rightarrow> (c, None)
        | ((c, cl), Esc_short) \<Rightarrow> (pfail ''class shorthand outside a class'' c, None)
        | ((c, cl), Esc_cp cp) \<Rightarrow>
            (c, Some (RA_CHAR (if rx_fold c then fold_cp cp else cp) (rx_fold c \<and> is_lower cp))))"

definition ratom :: "uc_prop list \<Rightarrow> (pctx \<Rightarrow> rres) \<Rightarrow> pctx \<Rightarrow> rres" where
  "ratom ucs alt c =
    (if rx_done c then Some (c, None)
     else let ch = rx_s c ! rx_pos c in
        if ch = code CHR '')'' then Some (c, None)
        else if ch = code CHR ''^'' then Some (rx_advance 1 c, Some RA_BOL)
        else if ch = code CHR ''$'' then Some (rx_advance 1 c, Some RA_EOL)
        else if ch = code CHR ''.'' then Some (rx_advance 1 c, Some RA_ANY)
        else if ch = code CHR ''['' then Some (rclass ucs (rx_advance 1 c))
        else if ch = code CHR ''('' then rgroup alt (rx_advance 1 c)
        else if ch = 0x5C then Some (rescape ucs (rx_advance 1 c))
        else Some (rx_advance 1 c,
                   Some (RA_CHAR (if rx_fold c then fold_cp ch else ch)
                     (rx_fold c \<and> (is_lower ch \<or> is_upper ch)))))"

definition is_anchor :: "ra \<Rightarrow> bool" where
  "is_anchor r \<longleftrightarrow> r = RA_BOL \<or> r = RA_EOL \<or> r = RA_WORDB \<or> r = RA_NWORDB"

definition rrepeat :: "uc_prop list \<Rightarrow> (pctx \<Rightarrow> rres) \<Rightarrow> pctx \<Rightarrow> rres" where
  "rrepeat ucs alt c =
    (case ratom ucs alt c of
       Some (c, Some atom) \<Rightarrow>
         (case rquant c of
            (c, Q_err) \<Rightarrow> Some (c, None)
          | (c, Q_none) \<Rightarrow> Some (c, Some atom)
          | (c, Q_some lo hi) \<Rightarrow>
              (if is_anchor atom then Some (pfail ''cannot quantify an anchor'' c, None)
               else Some (c, Some (RA_QUANT atom lo hi))))
     | r \<Rightarrow> r)"

fun rconcat_loop :: "(pctx \<Rightarrow> rres) \<Rightarrow> nat \<Rightarrow> ra list \<Rightarrow> pctx \<Rightarrow> rres" where
  "rconcat_loop piece 0 acc c = None"
| "rconcat_loop piece (Suc n) acc c =
    (if rx_here c (code CHR ''|'') then Some (c, Some (RA_SEQ acc))
     else case piece c of
       None \<Rightarrow> None
     | Some (c, None) \<Rightarrow> Some (c, if rx_err c \<noteq> [] then None else Some (RA_SEQ acc))
     | Some (c, Some p) \<Rightarrow> rconcat_loop piece n (acc @ [p]) c)"

definition rconcat :: "uc_prop list \<Rightarrow> (pctx \<Rightarrow> rres) \<Rightarrow> pctx \<Rightarrow> rres" where
  "rconcat ucs alt c = rconcat_loop (rrepeat ucs alt) (Suc (length (rx_s c) - rx_pos c)) [] c"

fun ralt_loop :: "(pctx \<Rightarrow> rres) \<Rightarrow> nat \<Rightarrow> ra list \<Rightarrow> pctx \<Rightarrow> rres" where
  "ralt_loop branch 0 acc c = None"
| "ralt_loop branch (Suc n) acc c =
    (if rx_here c (code CHR ''|'') then
       (case branch (rx_advance 1 c) of
          Some (c, Some b) \<Rightarrow> ralt_loop branch n (acc @ [b]) c
        | r \<Rightarrow> r)
     else Some (c, Some (RA_ALT acc)))"

fun ralternation :: "uc_prop list \<Rightarrow> nat \<Rightarrow> pctx \<Rightarrow> rres" where
  "ralternation ucs 0 c = None"
| "ralternation ucs (Suc k) c =
    (case rconcat ucs (ralternation ucs k) c of
       Some (c, Some first) \<Rightarrow>
         (if \<not> rx_here c (code CHR ''|'') then Some (c, Some first)
          else ralt_loop (rconcat ucs (ralternation ucs k)) (Suc (length (rx_s c) - rx_pos c)) [first] c)
     | r \<Rightarrow> r)"

declare ralternation.simps [simp del]

subsection \<open>The parser returns\<close>

text \<open>
  \<open>progress\<close>: a routine moves the cursor forward inside the pattern, past at least one code
  point when it delivers a tree.
\<close>

definition returns :: "bool \<Rightarrow> pctx \<Rightarrow> rres \<Rightarrow> bool" where
  "returns strict c r \<longleftrightarrow>
    (\<exists>d t. r = Some (d, t) \<and> moved c d \<and> (strict \<and> t \<noteq> None \<longrightarrow> rx_pos c < rx_pos d))"

lemma returns_cursor: "moved c d \<Longrightarrow> (strict \<and> t \<noteq> None \<longrightarrow> rx_pos c < rx_pos d) \<Longrightarrow> returns strict c (Some (d, t))"
  by (simp add: returns_def)

lemma group_flags_moved: "moved c (fst (group_flags c))"
proof -
  have "moved c (fst (group_flags c))" if q: "rx_here c (code CHR ''?'')"
  proof -
    define d where "d = rx_advance 1 c"
    have d: "moved c d" unfolding d_def by (rule moved_here [OF q])
    define e where "e = rx_advance (length (takeWhile (\<lambda>x. x \<noteq> code CHR ''>'') (drop (rx_pos d) (rx_s d)))) d"
    have e: "moved c e" unfolding e_def by (rule moved_trans [OF d moved_takeWhile])
    have "moved c (rx_advance 1 e)" if "\<not> rx_done e" by (rule moved_trans [OF e moved_not_done [OF that]])
    moreover have "moved c (rx_advance 1 d)" if "rx_here d ch" for ch by (rule moved_trans [OF d moved_here [OF that]])
    ultimately show ?thesis
      unfolding group_flags_def Let_def d_def [symmetric] e_def [symmetric] using d e by auto
  qed
  then show ?thesis by (cases "rx_here c (code CHR ''?'')") (auto simp: group_flags_def)
qed

lemma place_sort_merge [simp]:
  "rx_s (fst (cls_sort_merge x)) = rx_s (fst x)" "rx_pos (fst (cls_sort_merge x)) = rx_pos (fst x)"
  "rx_fold (fst (cls_sort_merge x)) = rx_fold (fst x)"
  by (cases x; simp split: list.split)+

lemma moved_range: "range_follows c \<Longrightarrow> moved c (rx_advance 1 c)"
  by (rule moved_advance) (simp add: range_follows_def)

lemma rclass_loop_moved: "moved (fst x) (fst (rclass_loop ucs first cap x))"
proof (induction ucs first cap x rule: rclass_loop.induct)
  case (1 ucs first cap x)
  consider "rx_done (fst x)" | "\<not> rx_done (fst x)" "rx_here (fst x) (code CHR '']'') \<and> \<not> first"
    | "\<not> rx_done (fst x)" "\<not> (rx_here (fst x) (code CHR '']'') \<and> \<not> first)" by blast
  then show ?case
  proof cases
    case 2
    obtain c cl where m: "cls_sort_merge (rx_advance 1 (fst x), snd x) = (c, cl)" by fastforce
    have "moved (fst x) (rx_advance 1 (fst x))" using 2 by (intro moved_not_done)
    then have "moved (fst x) c"
      using place_sort_merge [of "(rx_advance 1 (fst x), snd x)"] unfolding m by (auto intro: moved_same)
    then show ?thesis using 2 m by (subst rclass_loop.simps) simp
  next
    case 3
    obtain y e where ce: "class_atom ucs x = (y, e)" by fastforce
    have y: "moved (fst x) (fst y)" using class_atom_moved(1) [OF 3(1), of ucs] unfolding ce by simp
    have unfold: "rclass_loop ucs first cap x = (case (y, e) of
       (y, Esc_err) \<Rightarrow> (fst y, None)
     | (y, Esc_short) \<Rightarrow> rclass_loop ucs False cap y
     | (y, Esc_cp lo) \<Rightarrow>
         (if range_follows (fst y) then
            (case class_atom ucs (rx_advance 1 (fst y), snd y) of
               (z, Esc_err) \<Rightarrow> (fst z, None)
             | (z, Esc_short) \<Rightarrow> (pfail ''class shorthand as a range endpoint'' (fst z), None)
             | (z, Esc_cp hi) \<Rightarrow>
                 (if hi < lo then (pfail ''class range out of order'' (fst z), None)
                  else (case cls_grow cap z of (cap, z) \<Rightarrow> rclass_loop ucs False cap (cls_add lo hi z))))
          else (case cls_grow cap y of (cap, y) \<Rightarrow> rclass_loop ucs False cap (cls_add_cp lo y))))"
      unfolding rclass_loop.simps [of ucs first cap x] if_not_P [OF 3(1)] if_not_P [OF 3(2)] ce ..
    show ?thesis
    proof (cases e)
      case (Esc_cp lo)
      show ?thesis
      proof (cases "range_follows (fst y)")
        case True
        obtain z e' where cz: "class_atom ucs (rx_advance 1 (fst y), snd y) = (z, e')" by fastforce
        have "\<not> rx_done (rx_advance 1 (fst y))" using True by (simp add: range_follows_def rx_done_def)
        then have "moved (rx_advance 1 (fst y)) (fst z)"
          using class_atom_moved(1) [of "(rx_advance 1 (fst y), snd y)" ucs] unfolding cz by simp
        then have z: "moved (fst x) (fst z)" using y moved_range [OF True] by (blast intro: moved_trans)
        obtain cap' z' where g: "cls_grow cap z = (cap', z')" by (cases "cls_grow cap z")
        have z': "moved (fst x) (fst (cls_add lo hi z'))" for hi
          using z place_grow [of cap z] unfolding g by (auto intro: moved_same)
        have "moved (fst x) (fst (rclass_loop ucs False cap' (cls_add lo hi z')))" if "e' = Esc_cp hi" "\<not> hi < lo" for hi
          using z' 1(1) [OF 3 ce [symmetric] Esc_cp True cz [symmetric] that g [symmetric]] by (rule moved_trans)
        then show ?thesis unfolding unfold using Esc_cp True cz g z by (cases e') simp_all
      next
        case False
        obtain cap' y' where g: "cls_grow cap y = (cap', y')" by (cases "cls_grow cap y")
        have "moved (fst x) (fst (cls_add_cp lo y'))"
          using y place_grow [of cap y] unfolding g by (auto intro: moved_same)
        then have "moved (fst x) (fst (rclass_loop ucs False cap' (cls_add_cp lo y')))"
          using 1(2) [OF 3 ce [symmetric] Esc_cp False g [symmetric]] by (rule moved_trans)
        then show ?thesis unfolding unfold using Esc_cp False g by simp
      qed
    next
      case Esc_short
      have "moved (fst x) (fst (rclass_loop ucs False cap y))"
        using y 1(3) [OF 3 ce [symmetric] Esc_short] by (rule moved_trans)
      then show ?thesis unfolding unfold using Esc_short by simp
    next
      case Esc_err
      then show ?thesis unfolding unfold using y by simp
    qed
  qed (subst rclass_loop.simps, simp)
qed

lemma rclass_moved: "moved c (fst (rclass ucs c))"
proof -
  define b where "b = rx_here c (code CHR ''^'')"
  define d where "d = (if b then rx_advance 1 c else c)"
  have d: "moved c d" using moved_here by (simp add: d_def b_def)
  obtain e r where r: "rclass_loop ucs True 8 (cls_reserve 8 (d, \<lparr>cl_ranges = [], cl_room = 0\<rparr>)) = (e, r)" by fastforce
  have "moved d e"
    using rclass_loop_moved [of "cls_reserve 8 (d, \<lparr>cl_ranges = [], cl_room = 0\<rparr>)" ucs True 8]
    unfolding r by (auto simp: moved_def)
  with d have "moved c e" by (rule moved_trans)
  then show ?thesis
    using r unfolding rclass_def Let_def b_def [symmetric] d_def [symmetric] by (cases r) simp_all
qed

lemma rescape_moved: "moved c (fst (rescape ucs c))"
proof (cases "rx_done c")
  case False
  have one: "moved c (rx_advance 1 c)" by (rule moved_not_done [OF False])
  define e where "e = rx_s c ! rx_pos c"
  obtain d1 l1 where sh: "cls_shorthand e (cls_reserve 8 (rx_advance 1 c, no_class)) = (d1, l1)" by fastforce
  obtain d2 l2 where pe: "prop_escape ucs (e = code CHR ''P'') (rx_advance 1 c, no_class) = (d2, l2)" by fastforce
  obtain d3 l3 r where ce: "class_escape ucs (c, no_class) = ((d3, l3), r)" by (metis prod.exhaust)
  have "moved c d1"
    using place_shorthand [of e "cls_reserve 8 (rx_advance 1 c, no_class)"] one unfolding sh by (auto intro: moved_same)
  moreover have "moved c d2"
    using prop_escape_moved [of "(rx_advance 1 c, no_class)" ucs "e = code CHR ''P''"] unfolding pe fst_conv
    by (rule moved_trans [OF one])
  moreover have "moved c d3" using class_escape_moved [of "(c, no_class)" ucs] by (simp add: ce)
  ultimately show ?thesis
    unfolding rescape_def e_def [symmetric] Let_def sh pe ce using False one
    by (cases r) simp_all
qed (simp add: rescape_def Let_def)

lemma rgroup_returns:
  assumes "returns False (fst (group_flags c)) (alt (fst (group_flags c)))"
  shows "returns False c (rgroup alt c)"
proof -
  obtain d ok where g: "group_flags c = (d, ok)" by fastforce
  have d: "moved c d" using group_flags_moved [of c] by (simp add: g)
  obtain e body where e: "alt d = Some (e, body)" "moved d e" using assms by (auto simp: returns_def g)
  have ce: "moved c e" by (rule moved_trans [OF d e(2)])
  have "moved c (rx_advance 1 e)" if "rx_here e ch" for ch by (rule moved_trans [OF ce moved_here [OF that]])
  then show ?thesis using d ce by (cases ok) (simp_all add: rgroup_def g e returns_def)
qed

lemma returns_behind:
  "moved c d \<Longrightarrow> rx_pos c < rx_pos d \<Longrightarrow> returns False d r \<Longrightarrow> returns True c r"
  by (auto simp: returns_def intro: moved_trans) (auto simp: moved_def)

lemma ratom_returns:
  assumes "\<And>d. rx_s d = rx_s c \<Longrightarrow> rx_pos c < rx_pos d \<Longrightarrow> moved c d \<Longrightarrow> returns False d (alt d)"
  shows "returns True c (ratom ucs alt c)"
proof (cases "rx_done c")
  case False
  let ?d = "rx_advance 1 c"
  have one: "moved c ?d" by (rule moved_not_done [OF False])
  have "moved ?d (fst (group_flags ?d))" by (rule group_flags_moved)
  then have "returns False ?d (rgroup alt ?d)"
    using one by (intro rgroup_returns assms) (auto simp: moved_def)
  moreover have "returns False ?d (Some (rclass ucs ?d))"
    using rclass_moved [of ?d ucs] by (simp add: returns_def split: prod.splits) (metis fst_conv prod.exhaust)
  moreover have "returns False ?d (Some (rescape ucs ?d))"
    using rescape_moved [of ?d ucs] by (simp add: returns_def split: prod.splits) (metis fst_conv prod.exhaust)
  moreover have "returns False ?d (Some (?d, t))" for t by (simp add: returns_def)
  moreover have "returns True c (Some (c, None))" by (simp add: returns_def)
  ultimately show ?thesis
    using returns_behind [OF one] False unfolding ratom_def Let_def by auto
qed (simp add: ratom_def Let_def returns_def)

lemma rquant_moved: "moved c (fst (rquant c))"
proof -
  have digits: "moved d (rx_advance (length (digits_at d)) d\<lparr>rx_undef := b\<rparr>)" for d b
    using moved_takeWhile [of d] by (simp add: digits_at_def moved_def rx_advance_def)
  have braces: "moved d (fst (rquant_braces d))" if "rx_here d (code CHR ''{'')" for d
  proof -
    define c1 where "c1 = rx_advance 1 d"
    have c1: "moved d c1" unfolding c1_def by (rule moved_here [OF that])
    obtain c2 lo where c2: "rx_digits c1 = (c2, lo)" by fastforce
    have m2: "moved d c2" using c2 by (auto simp: rx_digits_def Let_def intro: moved_trans [OF c1 digits])
    define c3 where "c3 = rx_advance 1 c2"
    have m3: "moved d c3" if "rx_here c2 ch" for ch
      unfolding c3_def by (rule moved_trans [OF m2 moved_here [OF that]])
    obtain c4 hi where c4: "rx_digits c3 = (c4, hi)" by fastforce
    have m4: "moved d c4" if "rx_here c2 ch" for ch
      using c4 by (auto simp: rx_digits_def Let_def intro: moved_trans [OF m3 [OF that] digits])
    have "moved d (rx_advance 1 c3)" if "rx_here c2 ch" "rx_here c3 ch'" for ch ch'
      using m3 [OF that(1)] moved_here [OF that(2)] by (rule moved_trans)
    moreover have "moved d (rx_advance 1 c4)" if "rx_here c2 ch" "rx_here c4 ch'" for ch ch'
      using m4 [OF that(1)] moved_here [OF that(2)] by (rule moved_trans)
    moreover have "moved d (d\<lparr>rx_undef := b\<rparr>)" for b by (simp add: moved_def)
    ultimately show ?thesis
      unfolding rquant_braces_def Let_def c1_def [symmetric] c2 prod.case c3_def [symmetric] c4
      using c1 m3 by (simp split: if_split) blast
  qed
  obtain d q where q: "(if rx_here c (code CHR ''*'') then (rx_advance 1 c, Q_some 0 (- 1))
           else if rx_here c (code CHR ''+'') then (rx_advance 1 c, Q_some 1 (- 1))
           else if rx_here c (code CHR ''?'') then (rx_advance 1 c, Q_some 0 1)
           else if rx_here c (code CHR ''{'') then rquant_braces c
           else (c, Q_none)) = (d, q)" by fastforce
  have d: "moved c d" using q braces [of c] moved_here [of c] by (auto split: if_splits)
  then have "moved c (rx_advance 1 d)" if "rx_here d ch" for ch using moved_here [OF that] by (rule moved_trans)
  then show ?thesis using d unfolding rquant_def q by (cases q) simp_all
qed

lemma rrepeat_returns:
  assumes "returns True c (ratom ucs alt c)"
  shows "returns True c (rrepeat ucs alt c)"
proof -
  obtain d t where d: "ratom ucs alt c = Some (d, t)" "moved c d" "t \<noteq> None \<Longrightarrow> rx_pos c < rx_pos d"
    using assms by (auto simp: returns_def)
  obtain e q where e: "rquant d = (e, q)" by fastforce
  have "moved d e" using rquant_moved [of d] by (simp add: e)
  then have "moved c e" "rx_pos d \<le> rx_pos e" using d(2) by (auto intro: moved_trans) (simp add: moved_def)
  then show ?thesis using d by (cases t; cases q) (auto simp: rrepeat_def e returns_def)
qed

lemma rconcat_loop_returns:
  assumes "\<And>d. moved c d \<Longrightarrow> returns True d (piece d)" "rx_pos c \<le> length (rx_s c)"
    "length (rx_s c) - rx_pos c < n"
  shows "returns False c (rconcat_loop piece n acc c)"
  using assms
proof (induction n arbitrary: c acc)
  case (Suc n)
  obtain d t where d: "piece c = Some (d, t)" "moved c d" "t \<noteq> None \<Longrightarrow> rx_pos c < rx_pos d"
    using Suc.prems(1) [OF moved_refl] by (auto simp: returns_def)
  show ?case
  proof (cases t)
    case (Some p)
    have pos: "rx_pos c < rx_pos d" using d(3) Some by simp
    have "returns False d (rconcat_loop piece n (acc @ [p]) d)"
    proof (rule Suc.IH)
      show "returns True e (piece e)" if "moved d e" for e
        using Suc.prems(1) [OF moved_trans [OF d(2) that]] .
    qed (use d(2) pos Suc.prems in \<open>auto simp: moved_def\<close>)
    then have "returns False c (rconcat_loop piece n (acc @ [p]) d)"
      using d(2) by (auto simp: returns_def intro: moved_trans)
    then show ?thesis by (simp add: Some d(1) returns_cursor)
  qed (simp add: d(1,2) returns_def)
qed simp

lemma ralt_loop_returns:
  assumes "\<And>d. moved c d \<Longrightarrow> returns False d (branch d)" "rx_pos c \<le> length (rx_s c)"
    "length (rx_s c) - rx_pos c < n"
  shows "returns False c (ralt_loop branch n acc c)"
  using assms
proof (induction n arbitrary: c acc)
  case (Suc n)
  show ?case
  proof (cases "rx_here c (code CHR ''|'')")
    case True
    have one: "moved c (rx_advance 1 c)" by (rule moved_here [OF True])
    obtain d t where d: "branch (rx_advance 1 c) = Some (d, t)" "moved (rx_advance 1 c) d"
      using Suc.prems(1) [OF one] by (auto simp: returns_def)
    have cd: "moved c d" "rx_pos c < rx_pos d" using moved_trans [OF one d(2)] d(2) by (auto simp: moved_def)
    show ?thesis
    proof (cases t)
      case (Some b)
      have "returns False d (ralt_loop branch n (acc @ [b]) d)"
      proof (rule Suc.IH)
        show "returns False e (branch e)" if "moved d e" for e
          using Suc.prems(1) [OF moved_trans [OF cd(1) that]] .
      qed (use cd Suc.prems in \<open>auto simp: moved_def\<close>)
      then show ?thesis using cd d True by (auto simp: Some returns_def intro: moved_trans)
    qed (use d cd True in \<open>simp add: returns_def\<close>)
  qed (simp add: returns_def)
qed simp

lemma rconcat_returns:
  assumes "\<And>d. rx_s d = rx_s c \<Longrightarrow> rx_pos c < rx_pos d \<Longrightarrow> moved c d \<Longrightarrow> returns False d (alt d)"
    and "rx_pos c \<le> length (rx_s c)"
  shows "returns False c (rconcat ucs alt c)"
  unfolding rconcat_def
proof (rule rconcat_loop_returns)
  show "returns True d (rrepeat ucs alt d)" if "moved c d" for d
    using that by (intro rrepeat_returns ratom_returns assms(1)) (auto simp: moved_def)
qed (use assms in simp_all)

lemma ralternation_returns:
  assumes "rx_pos c \<le> length (rx_s c)" "length (rx_s c) - rx_pos c < k"
  shows "returns False c (ralternation ucs k c)"
  using assms
proof (induction k arbitrary: c)
  case (Suc k)
  have branch: "returns False d (rconcat ucs (ralternation ucs k) d)" if "moved c d" for d
    using that Suc.prems by (intro rconcat_returns Suc.IH) (auto simp: moved_def)
  obtain d t where d: "rconcat ucs (ralternation ucs k) c = Some (d, t)" "moved c d"
    using branch [OF moved_refl] by (auto simp: returns_def)
  show ?case
  proof (cases t)
    case (Some f)
    have "returns False d (ralt_loop (rconcat ucs (ralternation ucs k)) (Suc (length (rx_s d) - rx_pos d)) [f] d)"
      using branch d(2) Suc.prems by (intro ralt_loop_returns) (auto simp: moved_def)
    then have "returns False c (ralt_loop (rconcat ucs (ralternation ucs k)) (Suc (length (rx_s d) - rx_pos d)) [f] d)"
      using d(2) by (auto simp: returns_def intro: moved_trans)
    then show ?thesis using d by (simp add: ralternation.simps Some returns_cursor del: ralt_loop.simps)
  qed (simp add: ralternation.simps d returns_def)
qed simp

end
