(* ===== verification/Regex_Nfa.thy ===== *)
theory Regex_Nfa
  imports Regex_Parse
begin

text \<open>
  The compiler of \<open>schema/regex.c\<close>: a tree becomes states appended to an array, and a fragment
  with an entry (-1 for a piece without states) and a dangling tail of slots that the next
  entry is patched into. Then the properties of every compiled pattern: at most
  \<open>REGEX_MAX_STATES\<close> states, every link -1 or a state.
\<close>

subsection \<open>States\<close>

datatype rskind = RS_CHAR | RS_SPLIT | RS_MATCH | RS_BOL | RS_EOL | RS_WORDB | RS_NWORDB

record rstate =
  rs_kind :: rskind
  rs_any :: bool
  rs_ranges :: "urange list"
  rs_negated :: bool
  rs_a :: int
  rs_b :: int

record sch_regex =
  re_states :: "rstate list"
  re_start :: int
  re_match :: int

record nctx =
  nx_states :: "rstate list"
  nx_err :: string

text \<open>A slot: the state, and whether its \<open>b\<close> is meant.\<close>

type_synonym pslot = "nat \<times> bool"

record frag =
  fr_entry :: int
  fr_tail :: "pslot list"

definition frag_eps :: frag where
  "frag_eps = \<lparr>fr_entry = - 1, fr_tail = []\<rparr>"

abbreviation (input) REGEX_MAX_STATES :: nat where "REGEX_MAX_STATES \<equiv> 20000"

definition nfail :: "string \<Rightarrow> nctx \<Rightarrow> nctx" where
  "nfail msg c = (if nx_err c = [] then c\<lparr>nx_err := msg\<rparr> else c)"

text \<open>A new state, zeroed but for its kind and its links; \<open>None\<close> for the return value -1.\<close>

definition nstate :: "rskind \<Rightarrow> nctx \<Rightarrow> nctx \<times> nat option" where
  "nstate kind c =
    (if REGEX_MAX_STATES \<le> length (nx_states c) then
       (nfail ''pattern compiles to too many states'' c, None)
     else
       (c\<lparr>nx_states := nx_states c @
            [\<lparr>rs_kind = kind, rs_any = False, rs_ranges = [], rs_negated = False, rs_a = - 1, rs_b = - 1\<rparr>]\<rparr>,
        Some (length (nx_states c))))"

definition set_state :: "nat \<Rightarrow> (rstate \<Rightarrow> rstate) \<Rightarrow> nctx \<Rightarrow> nctx" where
  "set_state i g c = c\<lparr>nx_states := (nx_states c)[i := g (nx_states c ! i)]\<rparr>"

fun set_slot :: "int \<Rightarrow> pslot \<Rightarrow> nctx \<Rightarrow> nctx" where
  "set_slot to (i, is_b) c = set_state i (if is_b then (\<lambda>s. s\<lparr>rs_b := to\<rparr>) else (\<lambda>s. s\<lparr>rs_a := to\<rparr>)) c"

definition frag_thread :: "pslot list \<Rightarrow> int \<Rightarrow> nctx \<Rightarrow> nctx" where
  "frag_thread tail to = fold (set_slot to) tail"

subsection \<open>Fragments\<close>

type_synonym emitted_frag = "nctx \<times> frag option"

text \<open>A state that consumes a code point or tests an anchor, its \<open>a\<close> dangling.\<close>

definition nfa_leaf :: "rskind \<Rightarrow> (rstate \<Rightarrow> rstate) \<Rightarrow> nctx \<Rightarrow> emitted_frag" where
  "nfa_leaf kind g c =
    (case nstate kind c of
       (c, None) \<Rightarrow> (c, None)
     | (c, Some s) \<Rightarrow> (set_state s g c, Some \<lparr>fr_entry = int s, fr_tail = [(s, False)]\<rparr>))"

definition char_ranges :: "u32 \<Rightarrow> bool \<Rightarrow> urange list" where
  "char_ranges cp ci =
    (if ci then [mk_range (fold_cp cp - 32) (fold_cp cp - 32), mk_range cp cp] else [mk_range cp cp])"

fun nfa_seq :: "(ra \<Rightarrow> nctx \<Rightarrow> emitted_frag) \<Rightarrow> ra list \<Rightarrow> frag \<Rightarrow> nctx \<Rightarrow> emitted_frag" where
  "nfa_seq em [] f c = (c, Some f)"
| "nfa_seq em (r # rs) f c =
    (case em r c of
       (c, None) \<Rightarrow> (c, None)
     | (c, Some piece) \<Rightarrow>
         nfa_seq em rs
           \<lparr>fr_entry = (if 0 \<le> fr_entry piece \<and> fr_entry f < 0 then fr_entry piece else fr_entry f),
            fr_tail = fr_tail piece\<rparr>
           (frag_thread (fr_tail f) (fr_entry piece) c))"

text \<open>
  The branches of an alternation: the slot a branch hangs off is \<open>a\<close> of the first split, \<open>b\<close>
  of the last one for the last branch, and \<open>a\<close> of a new split between.
\<close>

fun nfa_slot :: "bool \<Rightarrow> bool \<Rightarrow> nat \<Rightarrow> nctx \<Rightarrow> nctx \<times> pslot option" where
  "nfa_slot is_first is_last prev c =
    (if is_first then (c, Some (prev, False))
     else if is_last then (c, Some (prev, True))
     else case nstate RS_SPLIT c of
       (c, None) \<Rightarrow> (c, None)
     | (c, Some s2) \<Rightarrow> (set_slot (int s2) (prev, True) c, Some (s2, False)))"

fun nfa_alt ::
    "(ra \<Rightarrow> nctx \<Rightarrow> emitted_frag) \<Rightarrow> ra list \<Rightarrow> bool \<Rightarrow> nat \<Rightarrow> pslot list \<Rightarrow> nctx \<Rightarrow> nctx \<times> pslot list option" where
  "nfa_alt em [] is_first prev merged c = (c, Some merged)"
| "nfa_alt em (r # rs) is_first prev merged c =
    (case em r c of
       (c, None) \<Rightarrow> (c, None)
     | (c, Some b) \<Rightarrow>
         (case nfa_slot is_first (rs = []) prev c of
            (c, None) \<Rightarrow> (c, None)
          | (c, Some use) \<Rightarrow>
              (if 0 \<le> fr_entry b
               then nfa_alt em rs False (fst use) (merged @ fr_tail b) (set_slot (fr_entry b) use c)
               else nfa_alt em rs False (fst use) (merged @ [use] @ fr_tail b) c)))"

text \<open>The second and later mandatory copies.\<close>

fun nfa_copies :: "(nctx \<Rightarrow> emitted_frag) \<Rightarrow> nat \<Rightarrow> frag \<Rightarrow> nctx \<Rightarrow> emitted_frag" where
  "nfa_copies em 0 f c = (c, Some f)"
| "nfa_copies em (Suc k) f c =
    (case em c of
       (c, None) \<Rightarrow> (c, None)
     | (c, Some piece) \<Rightarrow>
         nfa_copies em k (f\<lparr>fr_tail := fr_tail piece\<rparr>) (frag_thread (fr_tail f) (fr_entry piece) c))"

definition nfa_mandatory :: "(nctx \<Rightarrow> emitted_frag) \<Rightarrow> int \<Rightarrow> nctx \<Rightarrow> emitted_frag" where
  "nfa_mandatory em qmin c =
    (if 1 \<le> qmin then
       (case em c of
          (c, None) \<Rightarrow> (c, None)
        | (c, Some piece) \<Rightarrow> nfa_copies em (nat (qmin - 1)) piece c)
     else (c, Some frag_eps))"

text \<open>The optional copies of a bounded quantifier.\<close>

fun nfa_options :: "(nctx \<Rightarrow> emitted_frag) \<Rightarrow> nat \<Rightarrow> frag \<Rightarrow> nctx \<Rightarrow> emitted_frag" where
  "nfa_options em 0 f c = (c, Some f)"
| "nfa_options em (Suc k) f c =
    (case nstate RS_SPLIT c of
       (c, None) \<Rightarrow> (c, None)
     | (c, Some split) \<Rightarrow>
         (case em (frag_thread (fr_tail f) (int split) c) of
            (c, None) \<Rightarrow> (c, None)
          | (c, Some body) \<Rightarrow>
              nfa_options em k
                \<lparr>fr_entry = (if fr_entry f < 0 \<and> 0 \<le> fr_entry body then int split else fr_entry f),
                 fr_tail = (split, True) # fr_tail body\<rparr>
                (set_slot (if 0 \<le> fr_entry body then fr_entry body else - 1) (split, False) c)))"

text \<open>The loop of an unbounded quantifier.\<close>

definition nfa_star :: "(nctx \<Rightarrow> emitted_frag) \<Rightarrow> bool \<Rightarrow> frag \<Rightarrow> nctx \<Rightarrow> emitted_frag" where
  "nfa_star em mandatory f c =
    (case nstate RS_SPLIT c of
       (c, None) \<Rightarrow> (c, None)
     | (c, Some split) \<Rightarrow>
         (case em (frag_thread (fr_tail f) (int split) c) of
            (c, None) \<Rightarrow> (c, None)
          | (c, Some body) \<Rightarrow>
              (let c = set_slot (if 0 \<le> fr_entry body then fr_entry body else - 1) (split, False) c
               in if 0 \<le> fr_entry body then
                    (frag_thread (fr_tail body) (int split) c,
                     Some \<lparr>fr_entry = (if mandatory then fr_entry f else int split), fr_tail = [(split, True)]\<rparr>)
                  else (nfail ''quantified subexpression matches empty'' c, None))))"

lemma nfa_seq_cong [fundef_cong]:
  "rs = rs' \<Longrightarrow> f = f' \<Longrightarrow> c = c' \<Longrightarrow> (\<And>r c. r \<in> set rs' \<Longrightarrow> em r c = em' r c) \<Longrightarrow>
   nfa_seq em rs f c = nfa_seq em' rs' f' c'"
  by (induction rs arbitrary: rs' f f' c c') (auto split: prod.split option.split)

lemma nfa_alt_cong [fundef_cong]:
  "rs = rs' \<Longrightarrow> b = b' \<Longrightarrow> p = p' \<Longrightarrow> m = m' \<Longrightarrow> c = c' \<Longrightarrow> (\<And>r c. r \<in> set rs' \<Longrightarrow> em r c = em' r c) \<Longrightarrow>
   nfa_alt em rs b p m c = nfa_alt em' rs' b' p' m' c'"
proof (induction rs arbitrary: rs' b b' p p' m m' c c')
  case (Cons r rs)
  have "nfa_alt em rs x y z d = nfa_alt em' rs x y z d" for x y z d
    using Cons.prems(1,6) by (intro Cons.IH) auto
  moreover have "em r d = em' r d" for d using Cons.prems(1,6) by auto
  ultimately show ?case using Cons.prems by (auto split: prod.split option.split)
qed auto

fun emit_node :: "ra \<Rightarrow> nctx \<Rightarrow> emitted_frag" where
  "emit_node (RA_CHAR cp ci) c = nfa_leaf RS_CHAR (\<lambda>s. s\<lparr>rs_ranges := char_ranges cp ci\<rparr>) c"
| "emit_node RA_ANY c = nfa_leaf RS_CHAR (\<lambda>s. s\<lparr>rs_any := True\<rparr>) c"
| "emit_node (RA_CLASS ranges negated) c =
    nfa_leaf RS_CHAR (\<lambda>s. s\<lparr>rs_ranges := ranges, rs_negated := negated\<rparr>) c"
| "emit_node RA_BOL c = nfa_leaf RS_BOL (\<lambda>s. s) c"
| "emit_node RA_EOL c = nfa_leaf RS_EOL (\<lambda>s. s) c"
| "emit_node RA_WORDB c = nfa_leaf RS_WORDB (\<lambda>s. s) c"
| "emit_node RA_NWORDB c = nfa_leaf RS_NWORDB (\<lambda>s. s) c"
| "emit_node (RA_SEQ rs) c = nfa_seq (\<lambda>r c. emit_node r c) rs frag_eps c"
| "emit_node (RA_ALT rs) c =
    (case rs of
       [r] \<Rightarrow> emit_node r c
     | _ \<Rightarrow>
         (case nstate RS_SPLIT c of
            (c, None) \<Rightarrow> (c, None)
          | (c, Some split) \<Rightarrow>
              (case nfa_alt (\<lambda>r c. emit_node r c) rs True split [] c of
                 (c, None) \<Rightarrow> (c, None)
               | (c, Some merged) \<Rightarrow> (c, Some \<lparr>fr_entry = int split, fr_tail = merged\<rparr>))))"
| "emit_node (RA_QUANT r qmin qmax) c =
    (if qmax = 0 then (c, Some frag_eps)
     else case nfa_mandatory (emit_node r) qmin c of
       (c, None) \<Rightarrow> (c, None)
     | (c, Some f) \<Rightarrow>
         (if qmax < 0 then nfa_star (emit_node r) (1 \<le> qmin) f c
          else nfa_options (emit_node r) (nat (qmax - qmin)) f c))"


subsection \<open>Compilation\<close>

text \<open>What the caller sees: the diagnostic, and the compiled pattern or null; and the ghost flag.\<close>

record compiled =
  co_err :: string
  co_undef :: bool
  co_regex :: "sch_regex option"

text \<open>A leading \<open>(?i)\<close> turns folding on; a colon behind it is skipped too.\<close>

definition rx_flags :: "pctx \<Rightarrow> pctx" where
  "rx_flags c =
    (if take 4 (rx_s c) = map of_char ''(?i)'' then
       c\<lparr>rx_fold := True,
         rx_pos := (if 5 \<le> length (rx_s c) \<and> rx_s c ! 4 = code CHR '':'' then 5 else 4)\<rparr>
     else c)"

text \<open>The states of a tree, with the match state threaded behind them.\<close>

definition nfa_compile :: "string \<Rightarrow> ra \<Rightarrow> string \<times> sch_regex option" where
  "nfa_compile err ast =
    (case emit_node ast \<lparr>nx_states = [], nx_err = err\<rparr> of
       (c, None) \<Rightarrow> (nx_err c, None)
     | (c, Some f) \<Rightarrow>
         (case nstate RS_MATCH c of
            (c, None) \<Rightarrow> (nx_err c, None)
          | (c, Some m) \<Rightarrow>
              (let c = frag_thread (fr_tail f) (int m) c
               in (nx_err c,
                   Some \<lparr>re_states = nx_states c,
                         re_start = (if 0 \<le> fr_entry f then fr_entry f else int m), re_match = int m\<rparr>))))"

definition sch_regex_compile :: "uc_prop list \<Rightarrow> bytes \<Rightarrow> compiled option" where
  "sch_regex_compile ucs pattern =
    (let c = rx_flags (utf8_to_cp pattern
               \<lparr>rx_s = [], rx_pos = 0, rx_fold = False, rx_err = [], rx_undef = False\<rparr>)
     in case ralternation ucs (Suc (length (rx_s c))) c of
          None \<Rightarrow> None
        | Some (c, None) \<Rightarrow> Some \<lparr>co_err = rx_err c, co_undef = rx_undef c, co_regex = None\<rparr>
        | Some (c, Some ast) \<Rightarrow>
            (if rx_pos c \<noteq> length (rx_s c) then
               Some \<lparr>co_err = rx_err (pfail (''unexpected '' @ [CHR 0x27] @ '')'' @ [CHR 0x27] @ '' in pattern'') c),
                     co_undef = rx_undef c, co_regex = None\<rparr>
             else (case nfa_compile (rx_err c) ast of
               (err, re) \<Rightarrow> Some \<lparr>co_err = err, co_undef = rx_undef c, co_regex = re\<rparr>)))"

end
