(* ===== verification/Regex_Search.thy ===== *)
theory Regex_Search
  imports Regex_Nfa
begin

text \<open>
  The simulation of \<open>schema/regex.c\<close>: one array of generation stamps serves as the current and the
  next set of states (\<open>gen\<close> is open, \<open>-gen\<close> is closed). An access outside the array, and a
  generation past \<open>INT_MAX\<close>, is \<open>None\<close>; the two working arrays are allocated.
\<close>

subsection \<open>One state\<close>

function cls_search :: "urange list \<Rightarrow> u32 \<Rightarrow> int \<Rightarrow> int \<Rightarrow> bool" where
  "cls_search rs cp lo hi =
    (if lo \<le> hi then
       (let mid = (lo + hi) div 2; r = rs ! nat mid
        in if cp < ur_lo r then cls_search rs cp lo (mid - 1)
           else if cp > ur_hi r then cls_search rs cp (mid + 1) hi
           else True)
     else False)"
  by pat_completeness auto
termination by (relation "measure (\<lambda>(rs, cp, lo, hi). nat (hi - lo + 1))") auto

declare cls_search.simps [simp del]

definition cls_match :: "rstate \<Rightarrow> u32 \<Rightarrow> bool" where
  "cls_match st cp =
    (if rs_any st then True
     else (let inside = cls_search (rs_ranges st) cp 0 (int (length (rs_ranges st)) - 1)
           in if rs_negated st then \<not> inside else inside))"

text \<open>Whether the text has a word character before and behind a position.\<close>

definition word_before :: "u32 list \<Rightarrow> nat \<Rightarrow> bool" where
  "word_before s pos \<longleftrightarrow> 0 < pos \<and> is_word_cp (s ! (pos - 1))"

definition word_after :: "u32 list \<Rightarrow> nat \<Rightarrow> bool" where
  "word_after s pos \<longleftrightarrow> pos < length s \<and> is_word_cp (s ! pos)"

definition eps_targets :: "u32 list \<Rightarrow> nat \<Rightarrow> rstate \<Rightarrow> int list" where
  "eps_targets s pos st =
    (case rs_kind st of
       RS_SPLIT \<Rightarrow> [rs_a st, rs_b st]
     | RS_BOL \<Rightarrow> if pos = 0 then [rs_a st] else []
     | RS_EOL \<Rightarrow> if length s \<le> pos then [rs_a st] else []
     | RS_WORDB \<Rightarrow> if word_before s pos \<noteq> word_after s pos then [rs_a st] else []
     | RS_NWORDB \<Rightarrow> if word_before s pos = word_after s pos then [rs_a st] else []
     | RS_CHAR \<Rightarrow> []
     | RS_MATCH \<Rightarrow> [])"

subsection \<open>The closure\<close>

definition stamped :: "int \<Rightarrow> int list \<Rightarrow> nat \<Rightarrow> bool" where
  "stamped gen mark i \<longleftrightarrow> mark ! i = gen \<or> mark ! i = - gen"

fun visit_all :: "int \<Rightarrow> int list \<Rightarrow> nat list \<times> int list \<Rightarrow> (nat list \<times> int list) option" where
  "visit_all gen [] x = Some x"
| "visit_all gen (t # ts) (stack, mark) =
    (if t < 0 then visit_all gen ts (stack, mark)
     else if length mark \<le> nat t then None
     else if stamped gen mark (nat t) then visit_all gen ts (stack, mark)
     else visit_all gen ts (nat t # stack, mark[nat t := gen]))"

text \<open>What the stack and the unstamped states still cost.\<close>

definition unstamped :: "int \<Rightarrow> int list \<Rightarrow> nat" where
  "unstamped gen mark = length (filter (\<lambda>m. m \<noteq> gen \<and> m \<noteq> - gen) mark)"

lemma unstamped_update:
  assumes "i < length mark" "v = gen \<or> v = - gen"
  shows "unstamped gen (mark[i := v]) + (if stamped gen mark i then 0 else 1) = unstamped gen mark"
  using assms
proof (induction mark arbitrary: i)
  case (Cons m mark)
  then show ?case by (cases i) (auto simp: unstamped_def stamped_def)
qed simp

lemma visit_all_cost:
  "visit_all gen ts (stack, mark) = Some (stack', mark') \<Longrightarrow>
   length stack' + unstamped gen mark' = length stack + unstamped gen mark
     \<and> length mark' = length mark \<and> unstamped gen mark' \<le> unstamped gen mark"
proof (induction gen ts "(stack, mark)" arbitrary: stack mark rule: visit_all.induct)
  case (2 gen t ts stack mark)
  consider "t < 0 \<or> stamped gen mark (nat t)" | "0 \<le> t" "nat t < length mark" "\<not> stamped gen mark (nat t)"
    using 2(4) by (fastforce split: if_splits)
  then show ?case
  proof cases
    case 2
    have "unstamped gen (mark[nat t := gen]) + 1 = unstamped gen mark"
      using unstamped_update [OF 2(2), of gen gen] 2(3) by simp
    then show ?thesis using "2.hyps"(3) "2.prems" 2 by fastforce
  qed (use 2 in \<open>auto split: if_splits\<close>)
qed simp

function closure_loop :: "sch_regex \<Rightarrow> u32 list \<Rightarrow> nat \<Rightarrow> int \<Rightarrow> nat list \<Rightarrow> int list \<Rightarrow> int list option" where
  "closure_loop re s pos gen [] mark = Some mark"
| "closure_loop re s pos gen (i # stack) mark =
    (if length (re_states re) \<le> i \<or> length mark \<le> i then None
     else case visit_all gen (eps_targets s pos (re_states re ! i)) (stack, mark) of
       None \<Rightarrow> None
     | Some (stack, mark) \<Rightarrow> closure_loop re s pos gen stack (mark[i := - gen]))"
  by pat_completeness auto
termination
proof (relation "measure (\<lambda>(re, s, pos, gen, stack, mark). length stack + unstamped gen mark)", goal_cases)
  case (2 re s pos gen i stack mark x stack' mark')
  then have "visit_all gen (eps_targets s pos (re_states re ! i)) (stack, mark) = Some (stack', mark')" by simp
  note c = visit_all_cost [OF this]
  have "unstamped gen (mark'[i := - gen]) \<le> unstamped gen mark'"
    using unstamped_update [of i mark' "- gen" gen] 2 c by fastforce
  then show ?case using c by simp
qed simp

text \<open>The open states are pushed in ascending order, so the last one is popped first.\<close>

definition closure :: "sch_regex \<Rightarrow> u32 list \<Rightarrow> nat \<Rightarrow> int \<Rightarrow> int list \<Rightarrow> int list option" where
  "closure re s pos gen mark =
    closure_loop re s pos gen (rev (filter (\<lambda>i. mark ! i = gen) [0..<length (re_states re)])) mark"

subsection \<open>The search\<close>

text \<open>
  The states before a code point are those stamped with \<open>gen - 1\<close> when the loop reaches them;
  a successor is stamped with \<open>gen\<close> in the same array.
\<close>

fun char_steps :: "sch_regex \<Rightarrow> u32 \<Rightarrow> int \<Rightarrow> nat list \<Rightarrow> int list \<Rightarrow> int list option" where
  "char_steps re cp gen [] mark = Some mark"
| "char_steps re cp gen (i # is) mark =
    (if stamped (gen - 1) mark i \<and> rs_kind (re_states re ! i) = RS_CHAR \<and> cls_match (re_states re ! i) cp then
       (let t = rs_a (re_states re ! i)
        in if t < 0 then char_steps re cp gen is mark
           else if length mark \<le> nat t then None
           else char_steps re cp gen is (if stamped gen mark (nat t) then mark else mark[nat t := gen]))
     else char_steps re cp gen is mark)"

abbreviation (input) INT_MAX :: int where "INT_MAX \<equiv> 2147483647"

text \<open>The positions from one start on: whether the match state was met, and the array.\<close>

function sim_loop :: "sch_regex \<Rightarrow> u32 list \<Rightarrow> nat \<Rightarrow> int \<Rightarrow> int list \<Rightarrow> (bool \<times> int \<times> int list) option" where
  "sim_loop re s pos gen mark =
    (if re_match re < 0 \<or> length mark \<le> nat (re_match re) then None
     else if stamped gen mark (nat (re_match re)) then Some (True, gen, mark)
     else if length s \<le> pos then Some (False, gen, mark)
     else if INT_MAX < gen + 1 then None
     else case char_steps re (s ! pos) (gen + 1) [0..<length (re_states re)] mark of
       None \<Rightarrow> None
     | Some mark \<Rightarrow>
         (case closure re s (pos + 1) (gen + 1) mark of
            None \<Rightarrow> None
          | Some mark \<Rightarrow> sim_loop re s (pos + 1) (gen + 1) mark))"
  by pat_completeness auto
termination by (relation "measure (\<lambda>(re, s, pos, gen, mark). length s - pos)") auto

declare sim_loop.simps [simp del]

definition mark_start :: "sch_regex \<Rightarrow> int \<Rightarrow> int list \<Rightarrow> int list option" where
  "mark_start re gen mark =
    (if 0 \<le> re_start re then
       (if length mark \<le> nat (re_start re) then None
        else Some (if stamped gen mark (nat (re_start re)) then mark else mark[nat (re_start re) := gen]))
     else if re_match re < 0 \<or> length mark \<le> nat (re_match re) then None
     else Some (mark[nat (re_match re) := gen]))"

function search_from :: "sch_regex \<Rightarrow> u32 list \<Rightarrow> nat \<Rightarrow> int \<Rightarrow> int list \<Rightarrow> bool option" where
  "search_from re s start gen mark =
    (if length s < start then Some False
     else if INT_MAX < gen + 1 then None
     else case mark_start re (gen + 1) mark of
       None \<Rightarrow> None
     | Some mark \<Rightarrow>
         (case closure re s start (gen + 1) mark of
            None \<Rightarrow> None
          | Some mark \<Rightarrow>
              (case sim_loop re s start (gen + 1) mark of
                 None \<Rightarrow> None
               | Some (True, gen, mark) \<Rightarrow> Some True
               | Some (False, gen, mark) \<Rightarrow> search_from re s (start + 1) gen mark)))"
  by pat_completeness auto
termination by (relation "measure (\<lambda>(re, s, start, gen, mark). Suc (length s) - start)") auto

declare search_from.simps [simp del]

definition sch_regex_search :: "sch_regex \<Rightarrow> u32 list \<Rightarrow> bool option" where
  "sch_regex_search re s =
    (if re_states re = [] then Some False
     else search_from re s 0 0 (replicate (length (re_states re)) 0))"

definition sch_regex_is_match :: "sch_regex \<Rightarrow> bytes \<Rightarrow> bool option" where
  "sch_regex_is_match re utf8 = sch_regex_search re (cp_list utf8)"

end
