(* ===== verification/Regex_Match.thy ===== *)
theory Regex_Match
  imports Regex_Search
begin

text \<open>
  What the simulation computes. \<open>reach re s start pos q\<close>: the automaton, started at \<open>start\<close>, can be
  in \<open>q\<close> at \<open>pos\<close>; \<open>accepts\<close> is the textbook language of the automaton, searched in a text.
\<close>

subsection \<open>The automaton\<close>

definition link_ok :: "nat \<Rightarrow> int \<Rightarrow> bool" where
  "link_ok n t \<longleftrightarrow> - 1 \<le> t \<and> t < int n"

definition wf_states :: "nat \<Rightarrow> rstate list \<Rightarrow> bool" where
  "wf_states n ss \<longleftrightarrow> list_all (\<lambda>st. link_ok n (rs_a st) \<and> link_ok n (rs_b st)) ss"

definition wf_regex :: "sch_regex \<Rightarrow> bool" where
  "wf_regex re \<longleftrightarrow>
    (let n = length (re_states re)
     in wf_states n (re_states re) \<and> 0 \<le> re_start re \<and> re_start re < int n \<and> 0 \<le> re_match re \<and> re_match re < int n)"

definition eps_edge :: "sch_regex \<Rightarrow> u32 list \<Rightarrow> nat \<Rightarrow> nat \<Rightarrow> nat \<Rightarrow> bool" where
  "eps_edge re s pos i t \<longleftrightarrow> i < length (re_states re) \<and> int t \<in> set (eps_targets s pos (re_states re ! i))"

definition char_edge :: "sch_regex \<Rightarrow> u32 list \<Rightarrow> nat \<Rightarrow> nat \<Rightarrow> nat \<Rightarrow> bool" where
  "char_edge re s pos i t \<longleftrightarrow> i < length (re_states re) \<and> pos < length s \<and> rs_kind (re_states re ! i) = RS_CHAR
     \<and> cls_match (re_states re ! i) (s ! pos) \<and> rs_a (re_states re ! i) = int t"

inductive reach :: "sch_regex \<Rightarrow> u32 list \<Rightarrow> nat \<Rightarrow> nat \<Rightarrow> nat \<Rightarrow> bool"
  for re s start where
  reach_start: "re_start re = int q \<Longrightarrow> reach re s start start q"
| reach_eps: "reach re s start pos i \<Longrightarrow> eps_edge re s pos i t \<Longrightarrow> reach re s start pos t"
| reach_char: "reach re s start pos i \<Longrightarrow> char_edge re s pos i t \<Longrightarrow> reach re s start (Suc pos) t"

definition accepts :: "sch_regex \<Rightarrow> u32 list \<Rightarrow> bool" where
  "accepts re s \<longleftrightarrow> (\<exists>start pos. start \<le> length s \<and> reach re s start pos (nat (re_match re)))"

text \<open>
  A clash: two states are active together, the first one steps to the second one, which is
  further back in the array and could step itself. The loop of \<open>sch_regex_search\<close> then stamps the
  second one before it has looked at it.
\<close>

definition clash :: "sch_regex \<Rightarrow> u32 list \<Rightarrow> bool" where
  "clash re s \<longleftrightarrow> (\<exists>start pos i t u. reach re s start pos i \<and> reach re s start pos t \<and> i < t
     \<and> char_edge re s pos i t \<and> char_edge re s pos t u)"

subsection \<open>The closure\<close>

definition open_set :: "int \<Rightarrow> int list \<Rightarrow> nat set" where
  "open_set gen mark = {i. i < length mark \<and> mark ! i = gen}"

definition active :: "int \<Rightarrow> int list \<Rightarrow> nat set" where
  "active gen mark = {i. i < length mark \<and> stamped gen mark i}"

inductive_set eps_closure :: "sch_regex \<Rightarrow> u32 list \<Rightarrow> nat \<Rightarrow> nat set \<Rightarrow> nat set"
  for re s pos Q where
  ec_base: "i \<in> Q \<Longrightarrow> i \<in> eps_closure re s pos Q"
| ec_step: "i \<in> eps_closure re s pos Q \<Longrightarrow> eps_edge re s pos i t \<Longrightarrow> t \<in> eps_closure re s pos Q"

text \<open>Visiting opens the targets that were not stamped yet and stacks them.\<close>

lemma visit_all_spec:
  assumes "0 < gen" "\<forall>t \<in> set ts. t < int (length mark)"
  shows "\<exists>stack' mark'. visit_all gen ts (stack, mark) = Some (stack', mark') \<and> length mark' = length mark
    \<and> active gen mark' = active gen mark \<union> {nat t | t. t \<in> set ts \<and> 0 \<le> t}
    \<and> set stack' = set stack \<union> ({nat t | t. t \<in> set ts \<and> 0 \<le> t} - active gen mark)
    \<and> open_set gen mark' = open_set gen mark \<union> ({nat t | t. t \<in> set ts \<and> 0 \<le> t} - active gen mark)
    \<and> (\<forall>i < length mark. mark' ! i = mark ! i \<or> i \<notin> active gen mark \<and> mark' ! i = gen)"
  using assms(2)
proof (induction ts arbitrary: stack mark)
  case (Cons t ts)
  let ?T = "{nat u | u. u \<in> set ts \<and> 0 \<le> u}"
  show ?case
  proof (cases "t < 0 \<or> stamped gen mark (nat t)")
    case True
    have "visit_all gen (t # ts) (stack, mark) = visit_all gen ts (stack, mark)" using True Cons.prems by auto
    moreover have "{nat u | u. u \<in> set (t # ts) \<and> 0 \<le> u} - active gen mark = ?T - active gen mark"
      using True Cons.prems by (auto simp: active_def)
    moreover have "active gen mark \<union> {nat u | u. u \<in> set (t # ts) \<and> 0 \<le> u} = active gen mark \<union> ?T"
      using True Cons.prems by (auto simp: active_def)
    ultimately show ?thesis using Cons.IH [of mark stack] Cons.prems by simp
  next
    case False
    let ?m = "mark[nat t := gen]"
    have t: "0 \<le> t" "nat t < length mark" using False Cons.prems by auto
    have step: "visit_all gen (t # ts) (stack, mark) = visit_all gen ts (nat t # stack, ?m)" using False t by auto
    have act: "active gen ?m = insert (nat t) (active gen mark)"
      using t by (auto simp: active_def stamped_def nth_list_update)
    have op: "open_set gen ?m = insert (nat t) (open_set gen mark)"
      using t by (auto simp: open_set_def nth_list_update)
    have new: "nat t \<notin> active gen mark" using False by (simp add: active_def)
    have T: "{nat u | u. u \<in> set (t # ts) \<and> 0 \<le> u} = insert (nat t) ?T" using t by auto
    have "\<forall>u \<in> set ts. u < int (length ?m)" using Cons.prems by simp
    from Cons.IH [OF this, of "nat t # stack"] obtain stack' mark' where
      v: "visit_all gen ts (nat t # stack, ?m) = Some (stack', mark')" "length mark' = length mark"
      "active gen mark' = insert (nat t) (active gen mark) \<union> ?T"
      "set stack' = insert (nat t) (set stack) \<union> (?T - insert (nat t) (active gen mark))"
      "open_set gen mark' = insert (nat t) (open_set gen mark) \<union> (?T - insert (nat t) (active gen mark))"
      "\<forall>i < length mark. mark' ! i = ?m ! i \<or> i \<notin> active gen ?m \<and> mark' ! i = gen"
      unfolding act op by auto
    have "\<forall>i < length mark. mark' ! i = mark ! i \<or> i \<notin> active gen mark \<and> mark' ! i = gen"
      using v(6) new t unfolding act by (auto simp: nth_list_update split: if_splits)
    then show ?thesis unfolding step T using v new by auto
  qed
qed simp

lemma wf_state_links:
  assumes "wf_regex re" "i < length (re_states re)"
  shows "link_ok (length (re_states re)) (rs_a (re_states re ! i))" "link_ok (length (re_states re)) (rs_b (re_states re ! i))"
  using assms by (auto simp: wf_regex_def wf_states_def list_all_length Let_def)

lemma eps_targets_ok:
  assumes "wf_regex re" "i < length (re_states re)" "t \<in> set (eps_targets s pos (re_states re ! i))"
  shows "t < int (length (re_states re))"
  using wf_state_links [OF assms(1,2)] assms(3)
  by (auto simp: eps_targets_def link_ok_def split: rskind.splits if_splits)

lemma eps_edge_targets:
  "i < length (re_states re) \<Longrightarrow>
   {nat t | t. t \<in> set (eps_targets s pos (re_states re ! i)) \<and> 0 \<le> t} = {t. eps_edge re s pos i t}"
  by (auto simp: eps_edge_def) (metis nat_int of_nat_0_le_iff)

definition closing :: "sch_regex \<Rightarrow> u32 list \<Rightarrow> nat \<Rightarrow> int \<Rightarrow> nat set \<Rightarrow> nat list \<Rightarrow> int list \<Rightarrow> bool" where
  "closing re s pos gen Q stack mark \<longleftrightarrow> length mark = length (re_states re)
     \<and> open_set gen mark \<subseteq> set stack \<and> set stack \<subseteq> active gen mark
     \<and> Q \<subseteq> active gen mark \<and> active gen mark \<subseteq> eps_closure re s pos Q
     \<and> (\<forall>i t. i \<in> active gen mark - open_set gen mark \<longrightarrow> eps_edge re s pos i t \<longrightarrow> t \<in> active gen mark)"

definition bounded :: "int \<Rightarrow> int list \<Rightarrow> bool" where
  "bounded gen mark \<longleftrightarrow> (\<forall>i < length mark. \<bar>mark ! i\<bar> \<le> gen)"

lemma closing_step:
  assumes wf: "wf_regex re" and gen: "0 < gen" and c: "closing re s pos gen Q (i # stack) mark"
  shows "\<exists>stack' mark'. visit_all gen (eps_targets s pos (re_states re ! i)) (stack, mark) = Some (stack', mark')
    \<and> closing re s pos gen Q stack' (mark'[i := - gen]) \<and> (bounded gen mark \<longrightarrow> bounded gen (mark'[i := - gen]))"
proof -
  let ?n = "length (re_states re)"
  have i: "i \<in> active gen mark" "i < ?n" "length mark = ?n" using c by (auto simp: closing_def active_def)
  obtain stack' mark' where v: "visit_all gen (eps_targets s pos (re_states re ! i)) (stack, mark) = Some (stack', mark')"
    "length mark' = length mark" "active gen mark' = active gen mark \<union> {t. eps_edge re s pos i t}"
    "set stack' = set stack \<union> ({t. eps_edge re s pos i t} - active gen mark)"
    "open_set gen mark' = open_set gen mark \<union> ({t. eps_edge re s pos i t} - active gen mark)"
    "\<forall>i < length mark. mark' ! i = mark ! i \<or> i \<notin> active gen mark \<and> mark' ! i = gen"
    using visit_all_spec [OF gen, of "eps_targets s pos (re_states re ! i)" mark stack] eps_targets_ok [OF wf i(2)] i(3)
    unfolding eps_edge_targets [OF i(2)] by auto
  let ?m = "mark'[i := - gen]"
  have act: "active gen ?m = active gen mark'"
    using i v(2,3) by (auto simp: active_def stamped_def nth_list_update)
  have op: "open_set gen ?m = open_set gen mark' - {i}"
    using gen i v(2) by (auto simp: open_set_def nth_list_update split: if_splits)
  have ec: "{t. eps_edge re s pos i t} \<subseteq> eps_closure re s pos Q"
    using c i(1) by (auto simp: closing_def intro: ec_step)
  have "closing re s pos gen Q stack' ?m"
    unfolding closing_def act op
  proof (intro conjI)
    show "open_set gen mark' - {i} \<subseteq> set stack'" using c v by (auto simp: closing_def)
    show "set stack' \<subseteq> active gen mark'" using c v by (auto simp: closing_def)
    show "Q \<subseteq> active gen mark'" using c v by (auto simp: closing_def)
    show "active gen mark' \<subseteq> eps_closure re s pos Q" using c v ec by (auto simp: closing_def)
    show "\<forall>j t. j \<in> active gen mark' - (open_set gen mark' - {i}) \<longrightarrow> eps_edge re s pos j t \<longrightarrow> t \<in> active gen mark'"
      using c v(3,5) by (auto simp: closing_def)
  qed (use i v in simp)
  moreover have "bounded gen ?m" if "bounded gen mark"
    unfolding bounded_def
  proof (intro allI impI)
    fix j assume "j < length ?m"
    then have j: "j < length mark" using v(2) by simp
    have "\<bar>mark' ! j\<bar> \<le> gen" using v(6) j that gen by (auto simp: bounded_def)
    then show "\<bar>?m ! j\<bar> \<le> gen" using gen v(2) j by (cases "j = i") simp_all
  qed
  ultimately show ?thesis using v(1) by blast
qed

lemma closure_loop_spec:
  assumes "wf_regex re" "0 < gen" "closing re s pos gen Q stack mark" "bounded gen mark"
  shows "\<exists>mark'. closure_loop re s pos gen stack mark = Some mark' \<and> length mark' = length (re_states re)
    \<and> active gen mark' = eps_closure re s pos Q \<and> bounded gen mark'"
  using assms
proof (induction re s pos gen stack mark rule: closure_loop.induct)
  case (1 re s pos gen mark)
  have "i \<in> active gen mark" if "i \<in> eps_closure re s pos Q" for i
    using that
  proof induction
    case (ec_step i t)
    then show ?case using 1(3) by (auto simp: closing_def)
  qed (use 1(3) in \<open>auto simp: closing_def\<close>)
  then show ?case using 1(3,4) by (auto simp: closing_def)
next
  case (2 re s pos gen i stack mark)
  have i: "i < length (re_states re)" "length mark = length (re_states re)"
    using "2.prems"(3) by (auto simp: closing_def active_def)
  obtain stack' mark' where v: "visit_all gen (eps_targets s pos (re_states re ! i)) (stack, mark) = Some (stack', mark')"
    "closing re s pos gen Q stack' (mark'[i := - gen])" "bounded gen (mark'[i := - gen])"
    using closing_step [OF "2.prems"(1-3)] "2.prems"(4) by blast
  have "\<exists>m. closure_loop re s pos gen stack' (mark'[i := - gen]) = Some m \<and> length m = length (re_states re)
    \<and> active gen m = eps_closure re s pos Q \<and> bounded gen m"
    using i v "2.prems"(1,2) by (intro "2.IH") auto
  then show ?case using i v(1) by simp
qed

text \<open>From a set that is open and nothing closed.\<close>

lemma closure_spec:
  assumes wf: "wf_regex re" and gen: "0 < gen" and len: "length mark = length (re_states re)"
    and op: "active gen mark = open_set gen mark" and b: "bounded gen mark"
  shows "\<exists>mark'. closure re s pos gen mark = Some mark' \<and> length mark' = length (re_states re)
    \<and> active gen mark' = eps_closure re s pos (active gen mark) \<and> bounded gen mark'"
proof -
  let ?stack = "rev (filter (\<lambda>i. mark ! i = gen) [0..<length (re_states re)])"
  have "set ?stack = open_set gen mark" using len by (auto simp: open_set_def)
  then have "closing re s pos gen (active gen mark) ?stack mark"
    using len op by (auto simp: closing_def intro: ec_base)
  from closure_loop_spec [OF wf gen this b] show ?thesis by (simp add: closure_def)
qed

subsection \<open>One code point\<close>

definition successors :: "sch_regex \<Rightarrow> u32 list \<Rightarrow> nat \<Rightarrow> nat set \<Rightarrow> nat set" where
  "successors re s pos Q = {t. \<exists>i \<in> Q. char_edge re s pos i t}"

definition set_clash :: "sch_regex \<Rightarrow> u32 list \<Rightarrow> nat \<Rightarrow> nat set \<Rightarrow> bool" where
  "set_clash re s pos Q \<longleftrightarrow> (\<exists>i t u. i \<in> Q \<and> t \<in> Q \<and> i < t \<and> char_edge re s pos i t \<and> char_edge re s pos t u)"

text \<open>Some states, or all of them unless there is a clash.\<close>

definition tracks :: "bool \<Rightarrow> nat set \<Rightarrow> nat set \<Rightarrow> bool" where
  "tracks exact A B \<longleftrightarrow> A \<subseteq> B \<and> (exact \<longrightarrow> B \<subseteq> A)"

lemma active_update: "i < length mark \<Longrightarrow> active gen (mark[i := gen]) = insert i (active gen mark)"
  by (auto simp: active_def stamped_def nth_list_update)

lemma char_step_one:
  assumes wf: "wf_regex re" and pos: "pos < length s" and k: "k < length (re_states re)"
    and len: "length mark = length (re_states re)"
    and fires: "fires \<longleftrightarrow> stamped (gen - 1) mark k \<and> (\<exists>t. char_edge re s pos k t)"
  shows "char_steps re (s ! pos) gen (k # ks) mark = char_steps re (s ! pos) gen ks
    (if fires \<and> \<not> stamped gen mark (nat (rs_a (re_states re ! k)))
     then mark[nat (rs_a (re_states re ! k)) := gen] else mark)"
proof -
  let ?a = "rs_a (re_states re ! k)"
  have a: "- 1 \<le> ?a" "?a < int (length mark)" using wf_state_links(1) [OF wf k] len by (auto simp: link_ok_def)
  have "(\<exists>t. char_edge re s pos k t) \<longleftrightarrow>
      rs_kind (re_states re ! k) = RS_CHAR \<and> cls_match (re_states re ! k) (s ! pos) \<and> 0 \<le> ?a"
    using k pos by (auto simp: char_edge_def) (metis nat_0_le)
  then show ?thesis using a unfolding fires by (auto simp: Let_def)
qed

lemma char_steps_spec:
  assumes wf: "wf_regex re" and pos: "pos < length s" and gen: "1 < gen"
    and m0: "length mark0 = length (re_states re)" "bounded (gen - 1) mark0"
    and Q: "Q = active (gen - 1) mark0"
  shows "k + m = length (re_states re) \<Longrightarrow> length mark = length (re_states re) \<Longrightarrow>
      (\<forall>j < length mark. mark ! j = mark0 ! j \<or> mark ! j = gen) \<Longrightarrow>
      tracks (\<not> set_clash re s pos Q) (active gen mark) (successors re s pos {i \<in> Q. i < k}) \<Longrightarrow>
      \<exists>mark'. char_steps re (s ! pos) gen [k..<k + m] mark = Some mark' \<and> length mark' = length (re_states re)
        \<and> (\<forall>j < length mark'. mark' ! j = mark0 ! j \<or> mark' ! j = gen)
        \<and> tracks (\<not> set_clash re s pos Q) (active gen mark') (successors re s pos Q)"
proof (induction m arbitrary: k mark)
  case 0
  have "{i \<in> Q. i < k} = Q" using 0(1) Q m0(1) by (auto simp: active_def)
  then show ?case using 0 by (intro exI [of _ mark]) simp
next
  case (Suc m)
  let ?a = "rs_a (re_states re ! k)"
  have k: "k < length (re_states re)" using Suc.prems(1) by simp
  have old: "j < length mark \<Longrightarrow> \<bar>mark0 ! j\<bar> \<le> gen - 1" for j using m0 Suc.prems(2) by (simp add: bounded_def)
  have act: "active gen mark = {j. j < length mark \<and> mark ! j = gen}"
    using Suc.prems(3) old gen by (fastforce simp: active_def stamped_def)
  define fires where "fires \<longleftrightarrow> stamped (gen - 1) mark k \<and> (\<exists>t. char_edge re s pos k t)"
  define mark1 where "mark1 = (if fires \<and> \<not> stamped gen mark (nat ?a) then mark[nat ?a := gen] else mark)"
  have upt: "[k..<k + Suc m] = k # [Suc k..<Suc k + m]" by (simp add: upt_conv_Cons)
  have step: "char_steps re (s ! pos) gen [k..<k + Suc m] mark = char_steps re (s ! pos) gen [Suc k..<Suc k + m] mark1"
    unfolding upt char_step_one [OF wf pos k Suc.prems(2) fires_def] mark1_def ..
  have len1: "length mark1 = length mark" by (simp add: mark1_def)
  have same1: "\<forall>j < length mark1. mark1 ! j = mark0 ! j \<or> mark1 ! j = gen"
  proof (intro allI impI)
    fix j assume "j < length mark1"
    then have "mark1 ! j = mark ! j \<or> mark1 ! j = gen"
      unfolding len1 unfolding mark1_def by (cases "j = nat ?a") simp_all
    then show "mark1 ! j = mark0 ! j \<or> mark1 ! j = gen" using Suc.prems(3) \<open>j < length mark1\<close> len1 by auto
  qed
  have a: "nat ?a < length mark" if fires
    using wf_state_links(1) [OF wf k] Suc.prems(2) that k by (auto simp: link_ok_def fires_def char_edge_def)
  have act1: "active gen mark1 = active gen mark \<union> (if fires then {nat ?a} else {})"
  proof (cases "fires \<and> \<not> stamped gen mark (nat ?a)")
    case True
    then show ?thesis using a active_update [of "nat ?a" mark gen] by (simp add: mark1_def)
  next
    case False
    then have "fires \<Longrightarrow> nat ?a \<in> active gen mark" using a by (simp add: active_def)
    moreover have "mark1 = mark" unfolding mark1_def by (rule if_not_P [OF False])
    ultimately show ?thesis by auto
  qed
  have sub: "nat ?a \<in> successors re s pos {i \<in> Q. i < Suc k}" if fires
  proof -
    have "mark ! k \<noteq> gen" using that gen by (auto simp: fires_def stamped_def)
    then have "k \<in> Q" using Suc.prems(2,3) that k m0(1) by (auto simp: Q active_def fires_def stamped_def)
    then show ?thesis using that by (auto simp: successors_def fires_def char_edge_def)
  qed
  have new: "successors re s pos {i \<in> Q. i < Suc k} \<subseteq> successors re s pos {i \<in> Q. i < k} \<union> (if fires then {nat ?a} else {})"
    if nc: "\<not> set_clash re s pos Q"
  proof
    fix t assume "t \<in> successors re s pos {i \<in> Q. i < Suc k}"
    then obtain i where i: "i \<in> Q" "i < Suc k" "char_edge re s pos i t" by (auto simp: successors_def)
    show "t \<in> successors re s pos {i \<in> Q. i < k} \<union> (if fires then {nat ?a} else {})"
    proof (cases "i < k")
      case True
      then show ?thesis using i by (auto simp: successors_def)
    next
      case False
      then have ik: "i = k" using i(2) by simp
      have "mark ! k \<noteq> gen"
      proof
        assume "mark ! k = gen"
        then have "k \<in> active gen mark" using k Suc.prems(2) by (simp add: act)
        then obtain j where "j \<in> Q" "j < k" "char_edge re s pos j k"
          using Suc.prems(4) by (auto simp: tracks_def successors_def)
        then show False using nc i(1,3) unfolding set_clash_def ik by blast
      qed
      then have "stamped (gen - 1) mark k"
        using Suc.prems(2,3) k i(1) ik by (auto simp: Q active_def stamped_def)
      then have fires using i(3) ik by (auto simp: fires_def)
      moreover have "t = nat ?a" using i(3) ik by (auto simp: char_edge_def)
      ultimately show ?thesis by simp
    qed
  qed
  have mono: "successors re s pos {i \<in> Q. i < k} \<subseteq> successors re s pos {i \<in> Q. i < Suc k}"
    by (auto simp: successors_def)
  have "tracks (\<not> set_clash re s pos Q) (active gen mark1) (successors re s pos {i \<in> Q. i < Suc k})"
    unfolding tracks_def act1
  proof (intro conjI impI)
    show "active gen mark \<union> (if fires then {nat ?a} else {}) \<subseteq> successors re s pos {i \<in> Q. i < Suc k}"
      using Suc.prems(4) sub mono by (cases fires) (auto simp: tracks_def)
    show "successors re s pos {i \<in> Q. i < Suc k} \<subseteq> active gen mark \<union> (if fires then {nat ?a} else {})"
      if "\<not> set_clash re s pos Q"
      using Suc.prems(4) new [OF that] that unfolding tracks_def by blast
  qed
  then show ?case
    unfolding step using Suc.prems(1,2) len1 same1 by (intro Suc.IH) simp_all
qed

text \<open>The whole loop, from an array without a stamp of the new generation.\<close>

lemma char_steps_all:
  assumes wf: "wf_regex re" and pos: "pos < length s" and gen: "0 < gen"
    and m: "length mark = length (re_states re)" "bounded gen mark"
  shows "\<exists>mark'. char_steps re (s ! pos) (gen + 1) [0..<length (re_states re)] mark = Some mark'
    \<and> length mark' = length (re_states re) \<and> bounded (gen + 1) mark' \<and> active (gen + 1) mark' = open_set (gen + 1) mark'
    \<and> tracks (\<not> set_clash re s pos (active gen mark)) (active (gen + 1) mark') (successors re s pos (active gen mark))"
proof -
  have b: "j < length mark \<Longrightarrow> \<bar>mark ! j\<bar> \<le> gen" for j using m by (simp add: bounded_def)
  have "active (gen + 1) mark = {}" using b by (fastforce simp: active_def stamped_def)
  then have none: "tracks (\<not> set_clash re s pos (active gen mark)) (active (gen + 1) mark)
      (successors re s pos {i \<in> active gen mark. i < 0})"
    by (simp add: tracks_def successors_def)
  have "1 < gen + 1" using gen by simp
  from char_steps_spec [OF wf pos this, of mark "active gen mark" 0 "length (re_states re)" mark] none
  obtain mark' where mark': "char_steps re (s ! pos) (gen + 1) [0..<length (re_states re)] mark = Some mark'"
    "length mark' = length (re_states re)" "\<forall>j < length mark'. mark' ! j = mark ! j \<or> mark' ! j = gen + 1"
    "tracks (\<not> set_clash re s pos (active gen mark)) (active (gen + 1) mark') (successors re s pos (active gen mark))"
    using m by auto
  have "j < length mark' \<Longrightarrow> mark' ! j = gen + 1 \<or> \<bar>mark' ! j\<bar> \<le> gen" for j using mark'(2,3) m(1) b by metis
  then have "bounded (gen + 1) mark'" "active (gen + 1) mark' = open_set (gen + 1) mark'"
    using gen by (fastforce simp: bounded_def active_def open_set_def stamped_def)+
  then show ?thesis using mark' by blast
qed

subsection \<open>The states at a position\<close>

definition at_pos :: "sch_regex \<Rightarrow> u32 list \<Rightarrow> nat \<Rightarrow> nat \<Rightarrow> nat set" where
  "at_pos re s start pos = {q. reach re s start pos q}"

lemma reach_pos: "reach re s start pos q \<Longrightarrow> start \<le> pos"
  by (induction rule: reach.induct) auto

lemma reach_end: "reach re s start pos q \<Longrightarrow> start \<le> length s \<Longrightarrow> pos \<le> length s"
  by (induction rule: reach.induct) (auto simp: char_edge_def)

lemma closure_reach: "q \<in> eps_closure re s pos Q \<Longrightarrow> Q \<subseteq> at_pos re s start pos \<Longrightarrow> q \<in> at_pos re s start pos"
  by (induction rule: eps_closure.induct) (auto simp: at_pos_def intro: reach_eps)

lemma at_start:
  assumes "0 \<le> re_start re"
  shows "at_pos re s start start = eps_closure re s start {nat (re_start re)}"
proof
  have "reach re s start pos q \<Longrightarrow> pos = start \<longrightarrow> q \<in> eps_closure re s start {nat (re_start re)}" for pos q
  proof (induction rule: reach.induct)
    case (reach_char pos i t)
    then show ?case using reach_pos by fastforce
  qed (auto intro: ec_base ec_step)
  then show "at_pos re s start start \<subseteq> eps_closure re s start {nat (re_start re)}" by (auto simp: at_pos_def)
  have "{nat (re_start re)} \<subseteq> at_pos re s start start" using assms by (auto simp: at_pos_def intro: reach_start)
  then show "eps_closure re s start {nat (re_start re)} \<subseteq> at_pos re s start start" using closure_reach by blast
qed

lemma at_next:
  assumes "start \<le> pos"
  shows "at_pos re s start (Suc pos) = eps_closure re s (Suc pos) (successors re s pos (at_pos re s start pos))"
proof
  have "reach re s start p q \<Longrightarrow> p = Suc pos \<longrightarrow> q \<in> eps_closure re s (Suc pos) (successors re s pos (at_pos re s start pos))"
    for p q
  proof (induction rule: reach.induct)
    case (reach_char p i t)
    then show ?case by (auto simp: successors_def at_pos_def intro!: ec_base)
  qed (use assms in \<open>auto intro: ec_step\<close>)
  then show "at_pos re s start (Suc pos) \<subseteq> eps_closure re s (Suc pos) (successors re s pos (at_pos re s start pos))"
    by (auto simp: at_pos_def)
  have "successors re s pos (at_pos re s start pos) \<subseteq> at_pos re s start (Suc pos)"
    by (auto simp: at_pos_def successors_def intro: reach_char)
  then show "eps_closure re s (Suc pos) (successors re s pos (at_pos re s start pos)) \<subseteq> at_pos re s start (Suc pos)"
    using closure_reach by blast
qed

lemma eps_closure_mono: "A \<subseteq> B \<Longrightarrow> eps_closure re s pos A \<subseteq> eps_closure re s pos B"
proof
  fix q assume "q \<in> eps_closure re s pos A" "A \<subseteq> B"
  then show "q \<in> eps_closure re s pos B" by induction (auto intro: ec_base ec_step)
qed

lemma tracks_closure: "tracks ex A B \<Longrightarrow> tracks ex (eps_closure re s pos A) (eps_closure re s pos B)"
  by (simp add: tracks_def eps_closure_mono)

lemma tracks_successors:
  assumes "tracks ex Q R" "tracks (\<not> set_clash re s pos Q) A (successors re s pos Q)" "ex \<longrightarrow> \<not> set_clash re s pos R"
  shows "tracks ex A (successors re s pos R)"
proof -
  have "successors re s pos Q \<subseteq> successors re s pos R" using assms(1) by (auto simp: tracks_def successors_def)
  then show ?thesis using assms by (cases ex) (auto simp: tracks_def dest: subset_antisym)
qed

lemma no_set_clash: "\<not> clash re s \<Longrightarrow> \<not> set_clash re s pos (at_pos re s start pos)"
  by (auto simp: clash_def set_clash_def at_pos_def)

subsection \<open>The loops\<close>

text \<open>The array holds the states at \<open>pos\<close>, some of them, or all if \<open>ex\<close>.\<close>

definition simulates :: "bool \<Rightarrow> sch_regex \<Rightarrow> u32 list \<Rightarrow> nat \<Rightarrow> nat \<Rightarrow> int \<Rightarrow> int list \<Rightarrow> bool" where
  "simulates ex re s start pos gen mark \<longleftrightarrow> 0 < gen \<and> length mark = length (re_states re) \<and> bounded gen mark
     \<and> tracks ex (active gen mark) (at_pos re s start pos)"

lemma sim_step:
  assumes wf: "wf_regex re" and sim: "simulates ex re s start pos gen mark" and pos: "start \<le> pos" "pos < length s"
    and ex: "ex \<longrightarrow> \<not> clash re s"
  shows "\<exists>m m'. char_steps re (s ! pos) (gen + 1) [0..<length (re_states re)] mark = Some m
    \<and> closure re s (pos + 1) (gen + 1) m = Some m' \<and> simulates ex re s start (pos + 1) (gen + 1) m'"
proof -
  have g: "0 < gen" "0 < gen + 1" and lb: "length mark = length (re_states re)" "bounded gen mark"
    using sim by (simp_all add: simulates_def)
  obtain m where m: "char_steps re (s ! pos) (gen + 1) [0..<length (re_states re)] mark = Some m"
    "length m = length (re_states re)" "bounded (gen + 1) m" "active (gen + 1) m = open_set (gen + 1) m"
    "tracks (\<not> set_clash re s pos (active gen mark)) (active (gen + 1) m) (successors re s pos (active gen mark))"
    using char_steps_all [OF wf pos(2) g(1) lb] by blast
  obtain m' where m': "closure re s (pos + 1) (gen + 1) m = Some m'" "length m' = length (re_states re)"
    "active (gen + 1) m' = eps_closure re s (pos + 1) (active (gen + 1) m)" "bounded (gen + 1) m'"
    using closure_spec [OF wf g(2) m(2,4,3)] by blast
  have "ex \<longrightarrow> \<not> set_clash re s pos (at_pos re s start pos)" using ex no_set_clash by blast
  then have "tracks ex (active (gen + 1) m) (successors re s pos (at_pos re s start pos))"
    using sim m(5) tracks_successors unfolding simulates_def by blast
  then have "tracks ex (active (gen + 1) m') (at_pos re s start (Suc pos))"
    unfolding at_next [OF pos(1)] m'(3) by (auto intro: tracks_closure)
  then have "simulates ex re s start (pos + 1) (gen + 1) m'" using m' g by (simp add: simulates_def)
  then show ?thesis using m(1) m'(1) by blast
qed

lemma match_stamped:
  assumes "wf_regex re" "simulates ex re s start pos gen mark"
  shows "\<not> (re_match re < 0 \<or> length mark \<le> nat (re_match re))"
    "stamped gen mark (nat (re_match re)) \<Longrightarrow> reach re s start pos (nat (re_match re))"
    "ex \<Longrightarrow> reach re s start pos (nat (re_match re)) \<Longrightarrow> stamped gen mark (nat (re_match re))"
proof -
  have m: "0 \<le> re_match re" "nat (re_match re) < length mark"
    using assms by (auto simp: wf_regex_def simulates_def Let_def)
  then show "\<not> (re_match re < 0 \<or> length mark \<le> nat (re_match re))" by simp
  have "stamped gen mark (nat (re_match re)) \<longleftrightarrow> nat (re_match re) \<in> active gen mark" using m by (simp add: active_def)
  then show "stamped gen mark (nat (re_match re)) \<Longrightarrow> reach re s start pos (nat (re_match re))"
    "ex \<Longrightarrow> reach re s start pos (nat (re_match re)) \<Longrightarrow> stamped gen mark (nat (re_match re))"
    using assms(2) by (auto simp: simulates_def tracks_def at_pos_def)
qed

definition loop_result ::
    "bool \<Rightarrow> sch_regex \<Rightarrow> u32 list \<Rightarrow> nat \<Rightarrow> nat \<Rightarrow> int \<Rightarrow> bool \<times> int \<times> int list \<Rightarrow> bool" where
  "loop_result ex re s start pos gen r \<longleftrightarrow> (case r of (b, gen', mark') \<Rightarrow>
     gen \<le> gen' \<and> gen' \<le> gen + int (length s - pos) \<and> length mark' = length (re_states re) \<and> bounded gen' mark'
     \<and> (b \<longrightarrow> (\<exists>p. reach re s start p (nat (re_match re))))
     \<and> (ex \<and> \<not> b \<longrightarrow> (\<forall>p. pos \<le> p \<longrightarrow> p \<le> length s \<longrightarrow> \<not> reach re s start p (nat (re_match re)))))"

lemma loop_result_stop:
  assumes "wf_regex re" "simulates ex re s start pos gen mark" "b \<longleftrightarrow> stamped gen mark (nat (re_match re))"
    "b \<or> pos = length s"
  shows "loop_result ex re s start pos gen (b, gen, mark)"
proof -
  have "p = pos" if "pos = length s" "pos \<le> p" "p \<le> length s" for p using that by simp
  then show ?thesis
    using match_stamped(2,3) [OF assms(1,2)] assms(2-4) unfolding loop_result_def simulates_def by auto
qed

lemma loop_result_step:
  assumes "wf_regex re" "simulates ex re s start pos gen mark" "\<not> stamped gen mark (nat (re_match re))"
    "pos < length s" "loop_result ex re s start (pos + 1) (gen + 1) r"
  shows "loop_result ex re s start pos gen r"
proof -
  obtain b gen' mark' where r: "r = (b, gen', mark')" by (cases r)
  have now: "\<not> reach re s start pos (nat (re_match re))" if ex
    using match_stamped(3) [OF assms(1,2) that] assms(3) by blast
  have l: "gen + 1 \<le> gen'" "gen' \<le> gen + 1 + int (length s - (pos + 1))" "length mark' = length (re_states re)"
    "bounded gen' mark'" "b \<longrightarrow> (\<exists>p. reach re s start p (nat (re_match re)))"
    "ex \<and> \<not> b \<longrightarrow> (\<forall>p. pos + 1 \<le> p \<longrightarrow> p \<le> length s \<longrightarrow> \<not> reach re s start p (nat (re_match re)))"
    using assms(5) unfolding loop_result_def r prod.case by blast+
  have "gen \<le> gen'" "gen' \<le> gen + int (length s - pos)" using l(1,2) assms(4) by auto
  moreover have "\<not> reach re s start p (nat (re_match re))" if "ex \<and> \<not> b" "pos \<le> p" "p \<le> length s" for p
  proof (cases "p = pos")
    case False
    then have "pos + 1 \<le> p" using that(2) by simp
    then show ?thesis using l(6) that by blast
  qed (use now that in blast)
  ultimately show ?thesis using l(3-5) unfolding loop_result_def r prod.case by blast
qed

lemma sim_loop_spec:
  assumes wf: "wf_regex re" and ex: "ex \<longrightarrow> \<not> clash re s"
  shows "simulates ex re s start pos gen mark \<Longrightarrow> start \<le> pos \<Longrightarrow> pos \<le> length s \<Longrightarrow> gen + int (length s - pos) \<le> INT_MAX \<Longrightarrow>
    \<exists>r. sim_loop re s pos gen mark = Some r \<and> loop_result ex re s start pos gen r"
proof (induction "length s - pos" arbitrary: pos gen mark)
  case 0
  have pos: "pos = length s" using 0 by simp
  have "sim_loop re s pos gen mark = Some (stamped gen mark (nat (re_match re)), gen, mark)"
    using match_stamped(1) [OF wf 0(2)] pos by (subst sim_loop.simps) auto
  then show ?case using loop_result_stop [OF wf 0(2) refl] pos by blast
next
  case (Suc n)
  have pos: "pos < length s" using Suc(2) by simp
  show ?case
  proof (cases "stamped gen mark (nat (re_match re))")
    case True
    have "sim_loop re s pos gen mark = Some (True, gen, mark)"
      using match_stamped(1) [OF wf Suc.prems(1)] True by (subst sim_loop.simps) auto
    then show ?thesis using loop_result_stop [OF wf Suc.prems(1), of True] True by blast
  next
    case False
    obtain m m' where m: "char_steps re (s ! pos) (gen + 1) [0..<length (re_states re)] mark = Some m"
      "closure re s (pos + 1) (gen + 1) m = Some m'" "simulates ex re s start (pos + 1) (gen + 1) m'"
      using sim_step [OF wf Suc.prems(1,2) pos ex] by blast
    have gen: "\<not> INT_MAX < gen + 1" "gen + 1 + int (length s - (pos + 1)) \<le> INT_MAX" using Suc.prems(4) pos by auto
    have step: "sim_loop re s pos gen mark = sim_loop re s (pos + 1) (gen + 1) m'"
      using match_stamped(1) [OF wf Suc.prems(1)] False pos gen(1) m(1,2) by (subst sim_loop.simps) auto
    have n: "n = length s - (pos + 1)" using Suc(2) by simp
    obtain r where "sim_loop re s (pos + 1) (gen + 1) m' = Some r" "loop_result ex re s start (pos + 1) (gen + 1) r"
      using Suc(1) [OF n m(3)] Suc.prems(2) pos gen(2) by auto
    then show ?thesis unfolding step using loop_result_step [OF wf Suc.prems(1) False pos] by blast
  qed
qed

lemma start_spec:
  assumes wf: "wf_regex re" and gen: "0 \<le> gen" and m: "length mark = length (re_states re)" "bounded gen mark"
  shows "\<exists>m m'. mark_start re (gen + 1) mark = Some m \<and> closure re s start (gen + 1) m = Some m'
    \<and> simulates ex re s start start (gen + 1) m'"
proof -
  let ?q = "nat (re_start re)"
  have q: "0 \<le> re_start re" "?q < length mark" using wf m(1) by (auto simp: wf_regex_def Let_def)
  have b: "j < length mark \<Longrightarrow> \<bar>mark ! j\<bar> \<le> gen" for j using m by (simp add: bounded_def)
  have none: "active (gen + 1) mark = {}" using b gen by (fastforce simp: active_def stamped_def)
  let ?m = "mark[?q := gen + 1]"
  have start: "mark_start re (gen + 1) mark = Some ?m" using q none by (auto simp: mark_start_def active_def)
  have act: "active (gen + 1) ?m = {?q}" using active_update [OF q(2), of "gen + 1"] none by simp
  have op: "active (gen + 1) ?m = open_set (gen + 1) ?m"
    unfolding act using b q gen by (auto simp: open_set_def nth_list_update split: if_splits)
      (metis abs_ge_self add.commute add_le_cancel_left order.trans not_one_le_zero add_0)
  have bd: "bounded (gen + 1) ?m" using b gen q by (auto simp: bounded_def nth_list_update) (meson order.trans zle_add1_eq_le less_imp_le)
  have "0 < gen + 1" using gen by simp
  from closure_spec [OF wf this _ op bd, of s start] m(1) obtain m' where m': "closure re s start (gen + 1) ?m = Some m'"
    "length m' = length (re_states re)" "active (gen + 1) m' = eps_closure re s start {?q}" "bounded (gen + 1) m'"
    unfolding act by auto
  then have "simulates ex re s start start (gen + 1) m'"
    using gen at_start [OF q(1), of s start] by (auto simp: simulates_def tracks_def)
  then show ?thesis using start m'(1) by blast
qed

lemma search_from_spec:
  assumes wf: "wf_regex re" and ex: "ex \<longrightarrow> \<not> clash re s"
  shows "0 \<le> gen \<Longrightarrow> length mark = length (re_states re) \<Longrightarrow> bounded gen mark \<Longrightarrow>
    gen + int (\<Sum>i \<le> Suc (length s) - start. i) \<le> INT_MAX \<Longrightarrow>
    \<exists>b. search_from re s start gen mark = Some b
      \<and> (b \<longrightarrow> (\<exists>st p. st \<le> length s \<and> reach re s st p (nat (re_match re))))
      \<and> (ex \<and> \<not> b \<longrightarrow> (\<forall>st p. start \<le> st \<longrightarrow> st \<le> length s \<longrightarrow> \<not> reach re s st p (nat (re_match re))))"
proof (induction "Suc (length s) - start" arbitrary: start gen mark)
  case 0
  then have "length s < start" by simp
  then show ?case by (subst search_from.simps) auto
next
  case (Suc n)
  have start: "start \<le> length s" "n = Suc (length s) - (start + 1)" using Suc(2) by auto
  have sum: "(\<Sum>i \<le> Suc (length s) - start. i) = (\<Sum>i \<le> n. i) + Suc n" using Suc(2) by (simp flip: Suc(2))
  have len: "length s - start = n" using Suc(2) by simp
  obtain m m' where m: "mark_start re (gen + 1) mark = Some m" "closure re s start (gen + 1) m = Some m'"
    "simulates ex re s start start (gen + 1) m'"
    using start_spec [OF wf Suc.prems(1-3)] by blast
  have gen: "\<not> INT_MAX < gen + 1" "gen + 1 + int (length s - start) \<le> INT_MAX"
    using Suc.prems(4) unfolding sum len by linarith+
  obtain r where r: "sim_loop re s start (gen + 1) m' = Some r" "loop_result ex re s start start (gen + 1) r"
    using sim_loop_spec [OF wf ex m(3) order.refl start(1) gen(2)] by blast
  obtain b gen' mark' where b: "r = (b, gen', mark')" by (cases r)
  note l = r(2) [unfolded loop_result_def b prod.case]
  show ?case
  proof (cases b)
    case True
    have "search_from re s start gen mark = Some True"
      using start(1) gen(1) m(1,2) r(1) b True by (subst search_from.simps) auto
    then show ?thesis using l True start(1) by blast
  next
    case False
    have step: "search_from re s start gen mark = search_from re s (start + 1) gen' mark'"
      using start(1) gen(1) m(1,2) r(1) b False by (subst search_from.simps) auto
    have g: "0 \<le> gen'" "gen' + int (\<Sum>i \<le> Suc (length s) - (start + 1). i) \<le> INT_MAX"
      using l Suc.prems(1,4) unfolding sum len start(2) [symmetric] by linarith+
    obtain c where c: "search_from re s (start + 1) gen' mark' = Some c"
      "c \<longrightarrow> (\<exists>st p. st \<le> length s \<and> reach re s st p (nat (re_match re)))"
      "ex \<and> \<not> c \<longrightarrow> (\<forall>st p. start + 1 \<le> st \<longrightarrow> st \<le> length s \<longrightarrow> \<not> reach re s st p (nat (re_match re)))"
      using Suc(1) [OF start(2) g(1) _ _ g(2)] l by blast
    have here: "\<not> reach re s start p (nat (re_match re))" if ex for p
      using l False that reach_pos [of re s start p] reach_end [of re s start p] start(1) by blast
    have "\<not> reach re s st p (nat (re_match re))" if "ex \<and> \<not> c" "start \<le> st" "st \<le> length s" for st p
    proof (cases "st = start")
      case False
      then have "start + 1 \<le> st" using that(2) by simp
      then show ?thesis using c(3) that by blast
    qed (use here that in blast)
    then show ?thesis unfolding step using c(1,2) by blast
  qed
qed

text \<open>The search ends without overflow, finds only what the automaton accepts, and all of it without a clash.\<close>

lemma search_spec:
  assumes wf: "wf_regex re" and len: "length s \<le> 65534"
  shows "\<exists>b. sch_regex_search re s = Some b \<and> (b \<longrightarrow> accepts re s) \<and> (\<not> clash re s \<longrightarrow> b = accepts re s)"
proof -
  have n: "re_states re \<noteq> []" using wf by (auto simp: wf_regex_def Let_def)
  have "(\<Sum>i \<le> Suc (length s) - 0. i) = Suc (length s) * Suc (Suc (length s)) div 2"
    using gauss_sum_nat [of "Suc (length s)"] by (simp add: atMost_atLeast0)
  also have "\<dots> \<le> 65535 * 65536 div 2"
    using len by (intro div_le_mono mult_le_mono) auto
  finally have "(\<Sum>i \<le> Suc (length s) - 0. i) \<le> 2147450880" by simp
  then have sum: "0 + int (\<Sum>i \<le> Suc (length s) - 0. i) \<le> INT_MAX" by linarith
  have "bounded 0 (replicate (length (re_states re)) 0)" by (simp add: bounded_def)
  from search_from_spec [OF wf, of "\<not> clash re s" s 0 _ 0, OF _ order.refl _ this sum]
  obtain b where "search_from re s 0 0 (replicate (length (re_states re)) 0) = Some b"
    "b \<longrightarrow> accepts re s" "\<not> clash re s \<and> \<not> b \<longrightarrow> \<not> accepts re s"
    unfolding accepts_def by auto
  then show ?thesis using n by (auto simp: sch_regex_search_def)
qed

end
