(* ===== verification/Regex_Props.thy ===== *)
theory Regex_Props
  imports Regex_Match Utf8
begin

text \<open>
  Properties of the pattern engine as a whole: what every compiled pattern satisfies, the
  decoding of patterns and texts, and the search on what the compiler builds.
\<close>

subsection \<open>Compiled patterns are well formed\<close>

abbreviation (input) n_states :: "nctx \<Rightarrow> nat" where "n_states c \<equiv> length (nx_states c)"

definition nctx_ok :: "nctx \<Rightarrow> bool" where
  "nctx_ok c \<longleftrightarrow> n_states c \<le> REGEX_MAX_STATES \<and> wf_states (n_states c) (nx_states c)"

definition slots_ok :: "nat \<Rightarrow> pslot list \<Rightarrow> bool" where
  "slots_ok n ps \<longleftrightarrow> list_all (\<lambda>p. fst p < n) ps"

definition frag_ok :: "nat \<Rightarrow> frag \<Rightarrow> bool" where
  "frag_ok n f \<longleftrightarrow> link_ok n (fr_entry f) \<and> slots_ok n (fr_tail f)"

text \<open>A step of the compiler keeps the array well formed and delivers slots and entries in it.\<close>

definition emits :: "(nat \<Rightarrow> 'a \<Rightarrow> bool) \<Rightarrow> nctx \<Rightarrow> nctx \<times> 'a option \<Rightarrow> bool" where
  "emits ok c r \<longleftrightarrow> (case r of (d, x) \<Rightarrow>
     nctx_ok d \<and> n_states c \<le> n_states d \<and> (case x of None \<Rightarrow> True | Some y \<Rightarrow> ok (n_states d) y))"

lemma link_ok_mono: "link_ok n t \<Longrightarrow> n \<le> m \<Longrightarrow> link_ok m t"
  by (auto simp: link_ok_def)

lemma slots_ok_mono: "slots_ok n ps \<Longrightarrow> n \<le> m \<Longrightarrow> slots_ok m ps"
  by (auto simp: slots_ok_def list_all_iff)

lemma frag_ok_mono: "frag_ok n f \<Longrightarrow> n \<le> m \<Longrightarrow> frag_ok m f"
  by (auto simp: frag_ok_def intro: link_ok_mono slots_ok_mono)

lemma link_ok_simps [simp]: "link_ok n (- 1)" "i < n \<Longrightarrow> link_ok n (int i)"
  by (auto simp: link_ok_def)

lemma slots_ok_simps [simp]:
  "slots_ok n []" "slots_ok n (p # ps) = (fst p < n \<and> slots_ok n ps)" "slots_ok n (ps @ qs) = (slots_ok n ps \<and> slots_ok n qs)"
  by (auto simp: slots_ok_def)

lemma frag_eps_ok [simp]: "frag_ok n frag_eps"
  by (simp add: frag_ok_def frag_eps_def)

lemma n_states_set [simp]: "n_states (set_state i g c) = n_states c" "n_states (set_slot t p c) = n_states c"
  by (cases p; simp add: set_state_def)+

lemma n_states_thread [simp]: "n_states (frag_thread ps t c) = n_states c"
proof (induction ps arbitrary: c)
  case (Cons p ps)
  then show ?case by (simp add: frag_thread_def)
qed (simp add: frag_thread_def)

lemma wf_states_update:
  "wf_states n ss \<Longrightarrow> (\<And>st. link_ok n (rs_a st) \<and> link_ok n (rs_b st) \<Longrightarrow> link_ok n (rs_a (g st)) \<and> link_ok n (rs_b (g st))) \<Longrightarrow>
   wf_states n (ss[i := g (ss ! i)])"
  by (cases "i < length ss") (auto simp: wf_states_def list_all_length nth_list_update)

lemma nctx_ok_set [simp]:
  "nctx_ok c \<Longrightarrow> link_ok (n_states c) t \<Longrightarrow> nctx_ok (set_slot t p c)"
  by (cases p) (auto simp: nctx_ok_def set_state_def intro!: wf_states_update)

lemma nctx_ok_thread [simp]: "nctx_ok c \<Longrightarrow> link_ok (n_states c) t \<Longrightarrow> nctx_ok (frag_thread ps t c)"
proof (induction ps arbitrary: c)
  case (Cons p ps)
  then show ?case by (simp add: frag_thread_def)
qed (simp add: frag_thread_def)

lemma nctx_ok_fail [simp]: "nctx_ok (nfail m c) = nctx_ok c" "n_states (nfail m c) = n_states c"
  by (auto simp: nctx_ok_def nfail_def)

lemma nstate_emits: "nctx_ok c \<Longrightarrow> emits (\<lambda>n s. s < n) c (nstate k c)"
proof (cases "REGEX_MAX_STATES \<le> n_states c")
  case False
  assume "nctx_ok c"
  then show ?thesis
    using False by (auto simp: nstate_def emits_def nctx_ok_def wf_states_def list_all_iff intro: link_ok_mono)
qed (simp add: nstate_def emits_def)

lemma emitsI_step:
  assumes "emits P c r" "\<And>d. r = (d, None) \<Longrightarrow> nctx_ok d \<Longrightarrow> n_states c \<le> n_states d \<Longrightarrow> emits Q c (h d None)"
    and "\<And>d x. r = (d, Some x) \<Longrightarrow> nctx_ok d \<Longrightarrow> n_states c \<le> n_states d \<Longrightarrow> P (n_states d) x \<Longrightarrow> emits Q c (h d (Some x))"
  shows "emits Q c (case r of (d, x) \<Rightarrow> h d x)"
  using assms by (cases r; cases "snd r") (auto simp: emits_def)

lemma emits_None: "nctx_ok d \<Longrightarrow> n_states c \<le> n_states d \<Longrightarrow> emits Q c (d, None)"
  by (simp add: emits_def)

lemma emits_Some: "nctx_ok d \<Longrightarrow> n_states c \<le> n_states d \<Longrightarrow> Q (n_states d) x \<Longrightarrow> emits Q c (d, Some x)"
  by (simp add: emits_def)

lemma emits_from: "emits Q d r \<Longrightarrow> n_states c \<le> n_states d \<Longrightarrow> emits Q c r"
  by (auto simp: emits_def split: prod.splits)

lemma nfa_leaf_emits:
  assumes "nctx_ok c" "\<And>st. rs_a (g st) = rs_a st \<and> rs_b (g st) = rs_b st"
  shows "emits frag_ok c (nfa_leaf k g c)"
proof -
  have "nctx_ok (set_state s g d)" if "nctx_ok d" for s d
    using that assms(2) by (auto simp: nctx_ok_def set_state_def intro!: wf_states_update)
  then show ?thesis
    unfolding nfa_leaf_def
    by (auto intro!: emitsI_step [OF nstate_emits [OF assms(1)]] emits_None emits_Some simp: frag_ok_def split: option.split)
qed

lemma nfa_seq_emits:
  assumes "\<And>r c. r \<in> set rs \<Longrightarrow> nctx_ok c \<Longrightarrow> emits frag_ok c (em r c)" "nctx_ok c" "frag_ok (n_states c) f"
  shows "emits frag_ok c (nfa_seq em rs f c)"
  using assms
proof (induction rs arbitrary: f c)
  case (Cons r rs)
  obtain d x where d: "em r c = (d, x)" by fastforce
  have ok: "nctx_ok d" "n_states c \<le> n_states d" "\<And>y. x = Some y \<Longrightarrow> frag_ok (n_states d) y"
    using Cons.prems(1) [of r c] Cons.prems(2) by (auto simp: emits_def d)
  show ?case
  proof (cases x)
    case (Some y)
    have y: "frag_ok (n_states d) y" using ok(3) Some .
    have "emits frag_ok (frag_thread (fr_tail f) (fr_entry y) d)
       (nfa_seq em rs \<lparr>fr_entry = (if 0 \<le> fr_entry y \<and> fr_entry f < 0 then fr_entry y else fr_entry f), fr_tail = fr_tail y\<rparr>
         (frag_thread (fr_tail f) (fr_entry y) d))"
      using Cons.prems y ok frag_ok_mono [OF Cons.prems(3) ok(2)] by (intro Cons.IH) (auto simp: frag_ok_def)
    from emits_from [OF this] show ?thesis using ok(2) by (simp add: d Some)
  qed (use ok in \<open>simp add: d emits_def\<close>)
qed (simp add: emits_def)

lemma nfa_slot_emits:
  assumes "nctx_ok c" "prev < n_states c"
  shows "emits (\<lambda>n p. fst p < n) c (nfa_slot is_first is_last prev c)"
proof -
  obtain d x where d: "nstate RS_SPLIT c = (d, x)" by fastforce
  have "nctx_ok d" "n_states c \<le> n_states d" "\<And>y. x = Some y \<Longrightarrow> y < n_states d"
    using nstate_emits [OF assms(1), of RS_SPLIT] by (auto simp: emits_def d)
  then show ?thesis using assms by (cases x) (auto simp: emits_def d simp del: set_slot.simps)
qed

lemma nfa_alt_emits:
  assumes "\<And>r c. r \<in> set rs \<Longrightarrow> nctx_ok c \<Longrightarrow> emits frag_ok c (em r c)" "nctx_ok c" "prev < n_states c"
    "slots_ok (n_states c) merged"
  shows "emits slots_ok c (nfa_alt em rs is_first prev merged c)"
  using assms
proof (induction rs arbitrary: is_first prev merged c)
  case (Cons r rs)
  obtain d x where d: "em r c = (d, x)" by fastforce
  have ok: "nctx_ok d" "n_states c \<le> n_states d" "\<And>y. x = Some y \<Longrightarrow> frag_ok (n_states d) y"
    using Cons.prems(1) [of r c] Cons.prems(2) by (auto simp: emits_def d)
  show ?case
  proof (cases x)
    case (Some b)
    have b: "frag_ok (n_states d) b" using ok(3) Some .
    obtain e u where e: "nfa_slot is_first (rs = []) prev d = (e, u)" by fastforce
    have ok2: "nctx_ok e" "n_states d \<le> n_states e" "\<And>y. u = Some y \<Longrightarrow> fst y < n_states e"
      using nfa_slot_emits [OF ok(1), of prev is_first "rs = []"] Cons.prems(3) ok(2)
      by (auto simp: emits_def e simp del: nfa_slot.simps)
    show ?thesis
    proof (cases u)
      case (Some use)
      have bm: "slots_ok (n_states e) (fr_tail b)" "link_ok (n_states e) (fr_entry b)" "slots_ok (n_states e) merged"
        using frag_ok_mono [OF b ok2(2)] slots_ok_mono [OF Cons.prems(4)] ok(2) ok2(2) by (auto simp: frag_ok_def)
      have "emits slots_ok (set_slot (fr_entry b) use e)
          (nfa_alt em rs False (fst use) (merged @ fr_tail b) (set_slot (fr_entry b) use e))"
        using Cons.prems(1) bm ok2 Some by (intro Cons.IH) auto
      moreover have "emits slots_ok e (nfa_alt em rs False (fst use) (merged @ [use] @ fr_tail b) e)"
        using Cons.prems(1) bm ok2 Some by (intro Cons.IH) auto
      ultimately show ?thesis using ok(2) ok2(2)
        by (auto simp: d e \<open>x = Some b\<close> Some intro: emits_from simp del: nfa_slot.simps)
    qed (use ok ok2 Some in \<open>simp add: d e emits_def del: nfa_slot.simps\<close>)
  qed (use ok in \<open>simp add: d emits_def\<close>)
qed (simp add: emits_def)

lemma nfa_copies_emits:
  assumes "\<And>c. nctx_ok c \<Longrightarrow> emits frag_ok c (em c)" "nctx_ok c" "frag_ok (n_states c) f"
  shows "emits frag_ok c (nfa_copies em k f c)"
  using assms(2,3)
proof (induction k arbitrary: f c)
  case (Suc k)
  obtain d x where d: "em c = (d, x)" by fastforce
  have ok: "nctx_ok d" "n_states c \<le> n_states d" "\<And>y. x = Some y \<Longrightarrow> frag_ok (n_states d) y"
    using assms(1) [OF Suc.prems(1)] by (auto simp: emits_def d)
  show ?case
  proof (cases x)
    case (Some y)
    have "emits frag_ok (frag_thread (fr_tail f) (fr_entry y) d)
      (nfa_copies em k (f\<lparr>fr_tail := fr_tail y\<rparr>) (frag_thread (fr_tail f) (fr_entry y) d))"
      using ok(1) ok(3) [OF Some] frag_ok_mono [OF Suc.prems(2) ok(2)] by (intro Suc.IH) (auto simp: frag_ok_def)
    from emits_from [OF this] show ?thesis using ok(2) by (simp add: d Some)
  qed (use ok in \<open>simp add: d emits_def\<close>)
qed (simp add: emits_def)

lemma nfa_mandatory_emits:
  assumes "\<And>c. nctx_ok c \<Longrightarrow> emits frag_ok c (em c)" "nctx_ok c"
  shows "emits frag_ok c (nfa_mandatory em q c)"
proof -
  obtain d x where d: "em c = (d, x)" by fastforce
  have ok: "nctx_ok d" "n_states c \<le> n_states d" "\<And>y. x = Some y \<Longrightarrow> frag_ok (n_states d) y"
    using assms(1) [OF assms(2)] by (auto simp: emits_def d)
  have "emits frag_ok c (nfa_copies em k y d)" if "x = Some y" for y k
    using nfa_copies_emits [OF assms(1) ok(1) ok(3) [OF that]] ok(2) by (rule emits_from)
  then show ?thesis using ok assms(2)
    by (cases x) (auto simp: nfa_mandatory_def d emits_None emits_Some)
qed

lemma nfa_options_emits:
  assumes "\<And>c. nctx_ok c \<Longrightarrow> emits frag_ok c (em c)" "nctx_ok c" "frag_ok (n_states c) f"
  shows "emits frag_ok c (nfa_options em k f c)"
  using assms(2,3)
proof (induction k arbitrary: f c)
  case (Suc k)
  obtain d x where d: "nstate RS_SPLIT c = (d, x)" by fastforce
  have ok: "nctx_ok d" "n_states c \<le> n_states d" "\<And>y. x = Some y \<Longrightarrow> y < n_states d"
    using nstate_emits [OF Suc.prems(1), of RS_SPLIT] by (auto simp: emits_def d)
  show ?case
  proof (cases x)
    case (Some split)
    let ?d = "frag_thread (fr_tail f) (int split) d"
    obtain e y where e: "em ?d = (e, y)" by fastforce
    have "nctx_ok ?d" using ok Some by simp
    then have ok2: "nctx_ok e" "n_states d \<le> n_states e" "\<And>b. y = Some b \<Longrightarrow> frag_ok (n_states e) b"
      using assms(1) [of ?d] by (auto simp: emits_def e)
    show ?thesis
    proof (cases y)
      case (Some body)
      let ?e = "set_slot (if 0 \<le> fr_entry body then fr_entry body else - 1) (split, False) e"
      have "emits frag_ok ?e
        (nfa_options em k \<lparr>fr_entry = (if fr_entry f < 0 \<and> 0 \<le> fr_entry body then int split else fr_entry f),
           fr_tail = (split, True) # fr_tail body\<rparr> ?e)"
        using ok2(1,2) ok2(3) [OF Some] ok(2) ok(3) [OF \<open>x = Some split\<close>] frag_ok_mono [OF Suc.prems(2), of "n_states e"]
        by (intro Suc.IH) (auto simp: frag_ok_def simp del: set_slot.simps)
      from emits_from [OF this] show ?thesis
        using ok(2) ok2(2) by (simp add: d e \<open>x = Some split\<close> Some del: set_slot.simps)
    qed (use ok ok2 Some in \<open>simp add: d e emits_def\<close>)
  qed (use ok in \<open>simp add: d emits_def\<close>)
qed (simp add: emits_def)

lemma nfa_star_emits:
  assumes "\<And>c. nctx_ok c \<Longrightarrow> emits frag_ok c (em c)" "nctx_ok c" "frag_ok (n_states c) f"
  shows "emits frag_ok c (nfa_star em b f c)"
proof -
  obtain d x where d: "nstate RS_SPLIT c = (d, x)" by fastforce
  have ok: "nctx_ok d" "n_states c \<le> n_states d" "\<And>y. x = Some y \<Longrightarrow> y < n_states d"
    using nstate_emits [OF assms(2), of RS_SPLIT] by (auto simp: emits_def d)
  show ?thesis
  proof (cases x)
    case (Some split)
    let ?d = "frag_thread (fr_tail f) (int split) d"
    obtain e y where e: "em ?d = (e, y)" by fastforce
    have "nctx_ok ?d" using ok Some by simp
    then have ok2: "nctx_ok e" "n_states d \<le> n_states e" "\<And>b. y = Some b \<Longrightarrow> frag_ok (n_states e) b"
      using assms(1) [of ?d] by (auto simp: emits_def e)
    then show ?thesis
      using ok(2) ok(3) [OF Some] frag_ok_mono [OF assms(3), of "n_states e"]
      by (cases y) (auto simp: nfa_star_def d e Some Let_def frag_ok_def emits_None emits_Some simp del: set_slot.simps)
  qed (use ok in \<open>simp add: nfa_star_def d emits_def\<close>)
qed

lemma emit_node_emits: "nctx_ok c \<Longrightarrow> emits frag_ok c (emit_node r c)"
proof (induction r arbitrary: c)
  case (RA_SEQ rs)
  then show ?case by (auto intro: nfa_seq_emits)
next
  case (RA_ALT rs)
  obtain d x where d: "nstate RS_SPLIT c = (d, x)" by fastforce
  have ok: "nctx_ok d" "n_states c \<le> n_states d" "\<And>y. x = Some y \<Longrightarrow> y < n_states d"
    using nstate_emits [OF RA_ALT.prems, of RS_SPLIT] by (auto simp: emits_def d)
  have "emits frag_ok c (case nstate RS_SPLIT c of
            (c, None) \<Rightarrow> (c, None)
          | (c, Some split) \<Rightarrow>
              (case nfa_alt (\<lambda>r c. emit_node r c) rs True split [] c of
                 (c, None) \<Rightarrow> (c, None)
               | (c, Some merged) \<Rightarrow> (c, Some \<lparr>fr_entry = int split, fr_tail = merged\<rparr>)))"
  proof (cases x)
    case (Some split)
    obtain e y where e: "nfa_alt (\<lambda>r c. emit_node r c) rs True split [] d = (e, y)" by fastforce
    have "emits slots_ok d (e, y)"
      using nfa_alt_emits [of rs emit_node d split "[]" True] RA_ALT.IH ok Some by (simp add: e)
    then show ?thesis
      using ok ok(3) [OF Some] by (cases y) (auto simp: d Some e emits_def frag_ok_def)
  qed (use ok in \<open>simp add: d emits_def\<close>)
  moreover have "emits frag_ok c (emit_node r c)" if "rs = [r]" for r using RA_ALT that by simp
  ultimately show ?case by (auto split: list.split simp del: nfa_alt.simps)
next
  case (RA_QUANT r lo hi)
  obtain d x where d: "nfa_mandatory (emit_node r) lo c = (d, x)" by fastforce
  have ok: "nctx_ok d" "n_states c \<le> n_states d" "\<And>y. x = Some y \<Longrightarrow> frag_ok (n_states d) y"
    using nfa_mandatory_emits [of "emit_node r" c lo] RA_QUANT by (auto simp: emits_def d)
  have "emits frag_ok c (nfa_star (emit_node r) b y d)" if "x = Some y" for y b
    using nfa_star_emits [OF RA_QUANT.IH ok(1) ok(3) [OF that]] ok(2) by (rule emits_from)
  moreover have "emits frag_ok c (nfa_options (emit_node r) k y d)" if "x = Some y" for y k
    using nfa_options_emits [OF RA_QUANT.IH ok(1) ok(3) [OF that]] ok(2) by (rule emits_from)
  ultimately show ?case using ok RA_QUANT.prems by (cases x) (auto simp: d emits_None emits_Some)
qed (auto intro: nfa_leaf_emits)

lemma nfa_compile_wf:
  assumes "nfa_compile err ast = (e, Some re)"
  shows "wf_regex re \<and> length (re_states re) \<le> REGEX_MAX_STATES"
proof -
  let ?c0 = "\<lparr>nx_states = [], nx_err = err\<rparr>"
  obtain d x where d: "emit_node ast ?c0 = (d, x)" by fastforce
  have "nctx_ok ?c0" by (simp add: nctx_ok_def wf_states_def)
  then have ok: "nctx_ok d" "\<And>y. x = Some y \<Longrightarrow> frag_ok (n_states d) y"
    using emit_node_emits [of ?c0 ast] by (auto simp: emits_def d)
  obtain f where f: "x = Some f" using assms by (cases x) (simp_all add: nfa_compile_def d)
  obtain g y where g: "nstate RS_MATCH d = (g, y)" by fastforce
  have ok2: "nctx_ok g" "n_states d \<le> n_states g" "\<And>m. y = Some m \<Longrightarrow> m < n_states g"
    using nstate_emits [OF ok(1), of RS_MATCH] by (auto simp: emits_def g)
  obtain m where m: "y = Some m" using assms by (cases y) (simp_all add: nfa_compile_def d f g)
  let ?h = "frag_thread (fr_tail f) (int m) g"
  have "nctx_ok ?h" using ok2 m by simp
  moreover have "re = \<lparr>re_states = nx_states ?h, re_start = (if 0 \<le> fr_entry f then fr_entry f else int m), re_match = int m\<rparr>"
    using assms by (simp add: nfa_compile_def d f g m Let_def)
  moreover have "link_ok (n_states g) (fr_entry f)"
    using frag_ok_mono [OF ok(2) [OF f] ok2(2)] by (simp add: frag_ok_def)
  ultimately show ?thesis
    using ok2(3) [OF m] by (auto simp: wf_regex_def nctx_ok_def link_ok_def Let_def)
qed

subsection \<open>Decoding\<close>

lemma low6_mask: "low6 b = ucast b AND 0x3F"
  by (rule bit_word_eqI) (auto simp: low6_def bit_simps dest: bit_imp_le_length)

lemma is_cont_nat: "is_cont b \<longleftrightarrow> unat b div 64 = 2"
  by (simp add: is_cont_def cont_iff)

lemma fields_joined:
  "push_bit 12 x OR push_bit 6 y OR z = push_bit 6 (push_bit 6 x OR y) OR (z :: u32)"
  "push_bit 18 x OR push_bit 12 y OR push_bit 6 z OR w = push_bit 6 (push_bit 6 (push_bit 6 x OR y) OR z) OR (w :: u32)"
  by (simp_all add: push_bit_or push_bit_push_bit or.assoc)

lemma cp_decode_ascii: "b < 0x80 \<Longrightarrow> cp_decode (b # r) = (ucast b, 1)"
  by (simp add: cp_decode_def)

lemma cp_decode_utf8:
  assumes top: "unat cp \<le> 1114111"
  shows "cp_decode (utf8_bytes cp @ r) = (cp, length (utf8_bytes cp))"
proof -
  consider "unat cp < 128" | "128 \<le> unat cp" "unat cp < 2048" | "2048 \<le> unat cp" "unat cp < 65536" | "65536 \<le> unat cp"
    by linarith
  then show ?thesis
  proof cases
    case 1
    then have cp: "cp < 0x80" by (simp add: word_less_nat_alt)
    then have "ucast cp < (0x80 :: byte)" using out_ascii [OF cp] 1 by (simp add: word_less_nat_alt)
    moreover have "ucast (ucast cp :: byte) = cp" using out_ascii [OF cp] by (simp add: word_unat_eq_iff unat_ucast_32)
    ultimately show ?thesis using cp by (simp add: utf8_bytes_def cp_decode_ascii)
  next
    case 2
    obtain a b where ab: "utf8_bytes cp = [a, b]" "unat a = 192 + unat cp div 64" "unat b = 128 + unat cp mod 64"
      using utf8_bytes_2 2 by blast
    define cp0 where "cp0 = (ucast (a AND 0x1F) :: u32)"
    have 0: "unat cp0 = unat cp div 64"
      using ab 2 lead_numbers(1) [of "unat cp div 64"] by (simp add: cp0_def unat_ucast_32 lead_fields)
    have "unat (push_bit 6 cp0 OR (ucast b AND 0x3F)) = unat cp"
      using ab 0 2 by (subst cont_field) (simp_all add: cont_number)
    then have "push_bit 6 cp0 OR low6 b = cp" by (simp only: word_unat_eq_iff low6_mask)
    moreover have "\<not> a < 0x80" "a AND 0xE0 = 0xC0" "is_cont b"
      using ab 2 lead_numbers(1) [of "unat cp div 64"]
      by (simp_all add: word_less_nat_alt lead2_iff is_cont_nat cont_number)
    ultimately show ?thesis by (simp add: ab(1) cp_decode_def cp0_def)
  next
    case 3
    obtain a b c where ab: "utf8_bytes cp = [a, b, c]" "unat a = 224 + unat cp div 4096"
      "unat b = 128 + unat cp div 64 mod 64" "unat c = 128 + unat cp mod 64"
      using utf8_bytes_3 3 by blast
    define cp0 where "cp0 = (ucast (a AND 0x0F) :: u32)"
    define cp1 where "cp1 = push_bit 6 cp0 OR (ucast b AND 0x3F)"
    have 0: "unat cp0 = unat cp div 4096"
      using ab 3 lead_numbers(2) [of "unat cp div 4096"] by (simp add: cp0_def unat_ucast_32 lead_fields)
    have 1: "unat cp1 = unat cp div 64"
      using ab 0 3 unfolding cp1_def by (subst cont_field) (simp_all add: cont_number shift_numbers)
    have "unat (push_bit 6 cp1 OR (ucast c AND 0x3F)) = unat cp"
      using ab 1 3 by (subst cont_field) (simp_all add: cont_number)
    then have "push_bit 12 cp0 OR push_bit 6 (low6 b) OR low6 c = cp"
      unfolding fields_joined(1) by (simp only: word_unat_eq_iff low6_mask cp1_def)
    moreover have "\<not> a < 0x80" "a AND 0xE0 \<noteq> 0xC0" "a AND 0xF0 = 0xE0" "is_cont b" "is_cont c"
      using ab 3 lead_numbers(2) [of "unat cp div 4096"]
      by (simp_all add: word_less_nat_alt lead2_iff lead3_iff is_cont_nat cont_number)
    ultimately show ?thesis by (simp add: ab(1) cp_decode_def cp0_def)
  next
    case 4
    obtain a b c d where ab: "utf8_bytes cp = [a, b, c, d]" "unat a = 240 + unat cp div 262144"
      "unat b = 128 + unat cp div 4096 mod 64" "unat c = 128 + unat cp div 64 mod 64" "unat d = 128 + unat cp mod 64"
    proof (rule utf8_bytes_4 [OF 4])
      show "unat cp < 2 ^ 22" using top by simp
    qed
    define cp0 where "cp0 = (ucast (a AND 0x07) :: u32)"
    define cp1 where "cp1 = push_bit 6 cp0 OR (ucast b AND 0x3F)"
    define cp2 where "cp2 = push_bit 6 cp1 OR (ucast c AND 0x3F)"
    have q: "unat cp div 262144 < 8" using top by auto
    have 0: "unat cp0 = unat cp div 262144"
      using ab lead_numbers(3) [OF q] by (simp add: cp0_def unat_ucast_32 lead_fields)
    have 1: "unat cp1 = unat cp div 4096"
      using ab 0 top unfolding cp1_def by (subst cont_field) (simp_all add: cont_number shift_numbers)
    have 2: "unat cp2 = unat cp div 64"
      using ab 1 top unfolding cp2_def by (subst cont_field) (simp_all add: cont_number shift_numbers)
    have "unat (push_bit 6 cp2 OR (ucast d AND 0x3F)) = unat cp"
      using ab 2 top by (subst cont_field) (simp_all add: cont_number)
    then have "push_bit 18 cp0 OR push_bit 12 (low6 b) OR push_bit 6 (low6 c) OR low6 d = cp"
      unfolding fields_joined(2) by (simp only: word_unat_eq_iff low6_mask cp1_def cp2_def)
    moreover have "\<not> a < 0x80" "a AND 0xE0 \<noteq> 0xC0" "a AND 0xF0 \<noteq> 0xE0" "a AND 0xF8 = 0xF0" "is_cont b" "is_cont c" "is_cont d"
      using ab lead_numbers(3) [OF q]
      by (simp_all add: word_less_nat_alt lead2_iff lead3_iff lead4_iff is_cont_nat cont_number)
    ultimately show ?thesis by (simp add: ab(1) cp_decode_def cp0_def)
  qed
qed

lemma utf8_bytes_nonempty: "\<exists>b bs. utf8_bytes cp = b # bs"
  by (simp add: utf8_bytes_def)

lemma cp_list_utf8: "list_all (\<lambda>cp. cp \<le> 0x10FFFF) cps \<Longrightarrow> cp_list (concat (map utf8_bytes cps) @ r) = cps @ cp_list r"
proof (induction cps)
  case (Cons cp cps)
  obtain b bs where b: "utf8_bytes cp = b # bs" using utf8_bytes_nonempty by blast
  have "cp_decode (utf8_bytes cp @ concat (map utf8_bytes cps) @ r) = (cp, length (utf8_bytes cp))"
    using Cons.prems by (intro cp_decode_utf8) (simp add: word_le_nat_alt)
  then show ?case using Cons by (simp add: b)
qed simp

lemma cp_count_utf8: "list_all (\<lambda>cp. cp \<le> 0x10FFFF) cps \<Longrightarrow> cp_count (concat (map utf8_bytes cps)) = length cps"
proof (induction cps)
  case (Cons cp cps)
  obtain b bs where b: "utf8_bytes cp = b # bs" using utf8_bytes_nonempty by blast
  let ?step = "if b < 0x80 then 1 else if b < 0xE0 then 2 else if b < 0xF0 then 3 else 4 :: nat"
  have "?step = length (utf8_bytes cp)"
  proof -
    have top: "unat cp \<le> 1114111" using Cons.prems by (simp add: word_le_nat_alt)
    consider "unat cp < 128" | "128 \<le> unat cp" "unat cp < 2048" | "2048 \<le> unat cp" "unat cp < 65536" | "65536 \<le> unat cp"
      by linarith
    then show ?thesis
    proof cases
      case 1
      then have cp: "cp < 0x80" by (simp add: word_less_nat_alt)
      then show ?thesis using out_ascii [OF cp] b by (auto simp: utf8_bytes_def word_less_nat_alt)
    next
      case 2
      obtain x y where "utf8_bytes cp = [x, y]" "unat x = 192 + unat cp div 64" using utf8_bytes_2 2 by blast
      then show ?thesis using b 2 by (simp add: word_less_nat_alt)
    next
      case 3
      obtain x y z where "utf8_bytes cp = [x, y, z]" "unat x = 224 + unat cp div 4096" using utf8_bytes_3 3 by blast
      then show ?thesis using b 3 by (simp add: word_less_nat_alt)
    next
      case 4
      have "unat cp < 2 ^ 22" using top by simp
      then obtain x y z w where "utf8_bytes cp = [x, y, z, w]" "unat x = 240 + unat cp div 262144"
        by (rule utf8_bytes_4 [OF 4])
      then have "length (utf8_bytes cp) = 4" "240 \<le> unat b" using b by simp_all
      then show ?thesis by (simp add: word_less_nat_alt)
    qed
  qed
  then have step: "?step = Suc (length bs)" by (simp add: b)
  have "cp_count (b # bs @ concat (map utf8_bytes cps)) = 1 + cp_count (concat (map utf8_bytes cps))"
    unfolding cp_count.simps(2) Let_def step by simp
  then show ?case using Cons by (simp add: b del: cp_count.simps)
qed simp
lemma cp_decode_stray: "cp_decode (0x80 # r) = (0xFFFD, 1)"
  by (simp add: cp_decode_def)

lemma cp_list_stray: "cp_list (replicate n 0x80) = replicate n 0xFFFD"
  by (induction n) (simp_all add: cp_decode_stray)

lemma cp_count_stray: "cp_count (replicate n 0x80) = (n + 1) div 2"
proof (induction n rule: less_induct)
  case (less n)
  show ?case
  proof (cases n)
    case (Suc m)
    have "(0x80 :: byte) \<noteq> 0" "\<not> (0x80 :: byte) < 0x80" "(0x80 :: byte) < 0xE0" by simp_all
    then have "cp_count (replicate n 0x80) = 1 + cp_count (drop (if 2 > n then 1 else 2) (replicate n 0x80))"
      by (simp add: Suc Let_def)
    also have "\<dots> = 1 + cp_count (replicate (n - 2) 0x80)" by (auto simp: drop_replicate Suc)
    also have "\<dots> = 1 + (n - 2 + 1) div 2" using less [of "n - 2"] by (simp add: Suc)
    finally show ?thesis by (cases m) (simp_all add: Suc)
  qed simp
qed

subsection \<open>Patterns without operators\<close>

definition plain :: "u32 \<Rightarrow> bool" where
  "plain cp \<longleftrightarrow> cp \<notin> set (map of_char ('')^$.[(|*+?{'')) \<and> cp \<noteq> 0x5C"

definition reading :: "u32 list \<Rightarrow> nat \<Rightarrow> pctx \<Rightarrow> bool" where
  "reading p k c \<longleftrightarrow> rx_s c = p \<and> rx_pos c = k \<and> \<not> rx_fold c \<and> rx_err c = []"

lemma plain_not:
  "plain cp \<Longrightarrow> cp \<noteq> code CHR '')'' \<and> cp \<noteq> code CHR ''^'' \<and> cp \<noteq> code CHR ''$'' \<and> cp \<noteq> code CHR ''.''
    \<and> cp \<noteq> code CHR ''['' \<and> cp \<noteq> code CHR ''('' \<and> cp \<noteq> code CHR ''|'' \<and> cp \<noteq> code CHR ''*'' \<and> cp \<noteq> code CHR ''+''
    \<and> cp \<noteq> code CHR ''?'' \<and> cp \<noteq> code CHR ''{'' \<and> cp \<noteq> 0x5C"
  by (simp add: plain_def)

lemma plain_here:
  assumes "reading p k c" "list_all plain p" "ch \<in> set (map of_char ('')|*+?{''))"
  shows "\<not> rx_here c ch"
proof
  assume h: "rx_here c ch"
  then have "plain ch" using assms(1,2) by (auto simp: rx_here_def reading_def list_all_length)
  then show False using assms(3) by (auto simp: plain_def)
qed

lemma plain_atom:
  assumes "reading p k c" "list_all plain p" "k < length p"
  shows "rrepeat ucs alt c = Some (rx_advance 1 c, Some (RA_CHAR (p ! k) False))"
proof -
  have "plain (p ! k)" using assms(2,3) by (simp add: list_all_length)
  then have atom: "ratom ucs alt c = Some (rx_advance 1 c, Some (RA_CHAR (p ! k) False))"
    using assms(1,3) plain_not [of "p ! k"] by (simp add: ratom_def reading_def rx_done_def Let_def)
  have "reading p (Suc k) (rx_advance 1 c)" using assms(1) by (simp add: reading_def rx_advance_def)
  note no = plain_here [OF this assms(2)]
  have "rquant (rx_advance 1 c) = (rx_advance 1 c, Q_none)"
    using no [of "code CHR ''*''"] no [of "code CHR ''+''"] no [of "code CHR ''?''"] no [of "code CHR ''{''"]
    by (simp add: rquant_def)
  then show ?thesis by (simp add: rrepeat_def atom)
qed

lemma plain_concat:
  assumes "list_all plain p"
  shows "reading p k c \<Longrightarrow> k \<le> length p \<Longrightarrow> length p - k < n \<Longrightarrow>
    rconcat_loop (rrepeat ucs alt) n acc c =
      Some (rx_advance (length p - k) c, Some (RA_SEQ (acc @ map (\<lambda>cp. RA_CHAR cp False) (drop k p))))"
proof (induction n arbitrary: k acc c)
  case (Suc n)
  have bar: "\<not> rx_here c (code CHR ''|'')" using Suc.prems(1) assms by (rule plain_here) simp
  show ?case
  proof (cases "k < length p")
    case True
    have r: "reading p (Suc k) (rx_advance 1 c)" using Suc.prems(1) by (simp add: reading_def rx_advance_def)
    have adv: "rx_advance (length p - Suc k) (rx_advance 1 c) = rx_advance (length p - k) c"
      using True Suc.prems(1) by (simp add: rx_advance_def)
    have "drop k p = p ! k # drop (Suc k) p" using True by (rule Cons_nth_drop_Suc [symmetric])
    then show ?thesis
      using bar plain_atom [OF Suc.prems(1) assms True] Suc.IH [OF r] True Suc.prems(3) adv by simp
  next
    case False
    have "ratom ucs alt c = Some (c, None)" using False Suc.prems(1) by (simp add: ratom_def reading_def rx_done_def)
    then show ?thesis
      using bar False Suc.prems(1,2) by (simp add: rrepeat_def reading_def rx_advance_def)
  qed
qed simp

lemma plain_parse:
  assumes "list_all plain p" "reading p 0 c"
  shows "ralternation ucs (Suc k) c = Some (rx_advance (length p) c, Some (RA_SEQ (map (\<lambda>cp. RA_CHAR cp False) p)))"
proof -
  have s: "rx_s c = p" "rx_pos c = 0" using assms(2) by (simp_all add: reading_def)
  have "\<not> rx_here (rx_advance (length p) c) (code CHR ''|'')" using s by (simp add: rx_here_def)
  then show ?thesis
    using plain_concat [OF assms, of "Suc (length p)" ucs "ralternation ucs k" "[]"] s
    by (simp add: ralternation.simps rconcat_def del: rconcat_loop.simps)
qed

text \<open>The states of a chain of characters; the last link is the argument.\<close>

definition char_state :: "u32 \<Rightarrow> int \<Rightarrow> rstate" where
  "char_state cp a = \<lparr>rs_kind = RS_CHAR, rs_any = False, rs_ranges = [mk_range cp cp], rs_negated = False, rs_a = a, rs_b = - 1\<rparr>"

definition match_state :: rstate where
  "match_state = \<lparr>rs_kind = RS_MATCH, rs_any = False, rs_ranges = [], rs_negated = False, rs_a = - 1, rs_b = - 1\<rparr>"

definition chain :: "u32 list \<Rightarrow> nat \<Rightarrow> int \<Rightarrow> rstate list" where
  "chain p k z = map (\<lambda>i. char_state (p ! i) (if Suc i < k then int (Suc i) else z)) [0..<k]"

definition chain_tail :: "nat \<Rightarrow> pslot list" where
  "chain_tail k = (if k = 0 then [] else [(k - 1, False)])"

lemma length_chain [simp]: "length (chain p k z) = k"
  by (simp add: chain_def)

lemma chain_thread:
  "frag_thread (chain_tail k) z (c\<lparr>nx_states := chain p k y @ r\<rparr>) = c\<lparr>nx_states := chain p k z @ r\<rparr>"
proof (cases k)
  case (Suc m)
  have "(chain p (Suc m) y @ r)[m := ((chain p (Suc m) y @ r) ! m)\<lparr>rs_a := z\<rparr>] = chain p (Suc m) z @ r"
    by (rule nth_equalityI) (auto simp: nth_list_update nth_append chain_def char_state_def)
  then show ?thesis by (simp add: Suc frag_thread_def chain_tail_def set_state_def)
qed (simp add: frag_thread_def chain_tail_def chain_def)

lemma chain_snoc: "chain p k (int k) @ [char_state (p ! k) (- 1)] = chain p (Suc k) (- 1)"
  by (rule nth_equalityI) (auto simp: nth_append chain_def less_Suc_eq)

lemma char_emit:
  assumes "n_states c < REGEX_MAX_STATES"
  shows "emit_node (RA_CHAR cp False) c =
    (c\<lparr>nx_states := nx_states c @ [char_state cp (- 1)]\<rparr>, Some \<lparr>fr_entry = int (n_states c), fr_tail = [(n_states c, False)]\<rparr>)"
  using assms by (simp add: nfa_leaf_def nstate_def set_state_def char_ranges_def char_state_def)

lemma chain_seq:
  assumes "length p < REGEX_MAX_STATES"
  shows "k \<le> length p \<Longrightarrow> nx_states c = chain p k (- 1) \<Longrightarrow>
    nfa_seq emit_node (map (\<lambda>cp. RA_CHAR cp False) (drop k p))
        \<lparr>fr_entry = (if k = 0 then - 1 else 0), fr_tail = chain_tail k\<rparr> c =
      (c\<lparr>nx_states := chain p (length p) (- 1)\<rparr>,
       Some \<lparr>fr_entry = (if p = [] then - 1 else 0), fr_tail = chain_tail (length p)\<rparr>)"
proof (induction "length p - k" arbitrary: k c)
  case 0
  then have "k = length p" by simp
  then show ?case using 0 by simp
next
  case (Suc n)
  have k: "k < length p" using Suc(2) by simp
  have "drop k p = p ! k # drop (Suc k) p" using k by (rule Cons_nth_drop_Suc [symmetric])
  moreover have "emit_node (RA_CHAR (p ! k) False) c =
     (c\<lparr>nx_states := chain p k (- 1) @ [char_state (p ! k) (- 1)]\<rparr>, Some \<lparr>fr_entry = int k, fr_tail = [(k, False)]\<rparr>)"
    using char_emit [of c] assms k Suc.prems(2) by simp
  moreover have "frag_thread (chain_tail k) (int k) (c\<lparr>nx_states := chain p k (- 1) @ [char_state (p ! k) (- 1)]\<rparr>) =
      c\<lparr>nx_states := chain p (Suc k) (- 1)\<rparr>"
    unfolding chain_thread chain_snoc ..
  moreover have "nfa_seq emit_node (map (\<lambda>cp. RA_CHAR cp False) (drop (Suc k) p))
        \<lparr>fr_entry = (if Suc k = 0 then - 1 else 0), fr_tail = chain_tail (Suc k)\<rparr> (c\<lparr>nx_states := chain p (Suc k) (- 1)\<rparr>) =
      (c\<lparr>nx_states := chain p (length p) (- 1)\<rparr>,
       Some \<lparr>fr_entry = (if p = [] then - 1 else 0), fr_tail = chain_tail (length p)\<rparr>)"
    using Suc(1) [of "Suc k" "c\<lparr>nx_states := chain p (Suc k) (- 1)\<rparr>"] Suc(2) k by simp
  ultimately show ?case using k by (simp add: chain_tail_def split: if_splits)
qed

definition literal_regex :: "u32 list \<Rightarrow> sch_regex" where
  "literal_regex p =
    \<lparr>re_states = chain p (length p) (int (length p)) @ [match_state], re_start = 0, re_match = int (length p)\<rparr>"

lemma literal_regex_simps [simp]:
  "re_start (literal_regex p) = 0" "re_match (literal_regex p) = int (length p)"
  by (simp_all add: literal_regex_def)

lemma plain_compile:
  assumes "length p < REGEX_MAX_STATES"
  shows "nfa_compile [] (RA_SEQ (map (\<lambda>cp. RA_CHAR cp False) p)) = ([], Some (literal_regex p))"
proof -
  let ?c0 = "\<lparr>nx_states = [], nx_err = []\<rparr>"
  have "nx_states ?c0 = chain p 0 (- 1)" by (simp add: chain_def)
  from chain_seq [OF assms _ this] have seq: "nfa_seq emit_node (map (\<lambda>cp. RA_CHAR cp False) p) frag_eps ?c0 =
      (?c0\<lparr>nx_states := chain p (length p) (- 1)\<rparr>,
       Some \<lparr>fr_entry = (if p = [] then - 1 else 0), fr_tail = chain_tail (length p)\<rparr>)"
    by (simp add: frag_eps_def chain_tail_def)
  have "nstate RS_MATCH (?c0\<lparr>nx_states := chain p (length p) (- 1)\<rparr>) =
      (?c0\<lparr>nx_states := chain p (length p) (- 1) @ [match_state]\<rparr>, Some (length p))"
    using assms by (simp add: nstate_def match_state_def)
  moreover have "frag_thread (chain_tail (length p)) (int (length p)) (?c0\<lparr>nx_states := chain p (length p) (- 1) @ [match_state]\<rparr>) =
      ?c0\<lparr>nx_states := chain p (length p) (int (length p)) @ [match_state]\<rparr>"
    by (rule chain_thread)
  ultimately show ?thesis by (simp add: nfa_compile_def seq literal_regex_def Let_def)
qed

lemma cls_match_char: "cls_match (char_state x a) cp \<longleftrightarrow> cp = x"
  by (subst cls_match_def, subst cls_search.simps, simp add: char_state_def mk_range_def cls_search.simps) auto

lemma literal_state:
  "i < length p \<Longrightarrow> re_states (literal_regex p) ! i = char_state (p ! i) (int (Suc i))"
  "re_states (literal_regex p) ! length p = match_state" "length (re_states (literal_regex p)) = Suc (length p)"
  by (auto simp: literal_regex_def nth_append chain_def intro: arg_cong [where f = "char_state (p ! i)"])

lemma literal_edges:
  "\<not> eps_edge (literal_regex p) s pos i t"
  "char_edge (literal_regex p) s pos i t \<longleftrightarrow> i < length p \<and> pos < length s \<and> s ! pos = p ! i \<and> t = Suc i"
proof -
  have "i < length p \<or> i = length p" if "i < length (re_states (literal_regex p))"
    using that by (simp add: literal_state(3)) linarith
  then show "\<not> eps_edge (literal_regex p) s pos i t"
    "char_edge (literal_regex p) s pos i t \<longleftrightarrow> i < length p \<and> pos < length s \<and> s ! pos = p ! i \<and> t = Suc i"
    by (auto simp: eps_edge_def char_edge_def literal_state cls_match_char eps_targets_def)
      (auto simp: char_state_def match_state_def)
qed

lemma literal_reach:
  "reach (literal_regex p) s start pos q \<longleftrightarrow>
    pos = start + q \<and> q \<le> length p \<and> (\<forall>i < q. start + i < length s \<and> s ! (start + i) = p ! i)"
proof
  show "pos = start + q \<and> q \<le> length p \<and> (\<forall>i < q. start + i < length s \<and> s ! (start + i) = p ! i)"
    if "reach (literal_regex p) s start pos q"
    using that
  proof (induction rule: reach.induct)
    case (reach_char pos i t)
    then show ?case by (auto simp: literal_edges less_Suc_eq)
  qed (auto simp: literal_edges)
  show "reach (literal_regex p) s start pos q"
    if "pos = start + q \<and> q \<le> length p \<and> (\<forall>i < q. start + i < length s \<and> s ! (start + i) = p ! i)"
    using that
  proof (induction q arbitrary: pos)
    case 0
    then show ?case by (auto intro: reach_start)
  next
    case (Suc q)
    then have "reach (literal_regex p) s start (start + q) q" by auto
    moreover have "char_edge (literal_regex p) s (start + q) q (Suc q)" using Suc.prems by (auto simp: literal_edges)
    ultimately have "reach (literal_regex p) s start (Suc (start + q)) (Suc q)" by (rule reach_char)
    then show ?case using Suc.prems by simp
  qed
qed

lemma literal_accepts: "accepts (literal_regex p) s \<longleftrightarrow> sublist p s"
proof
  assume "accepts (literal_regex p) s"
  then obtain start where st: "start \<le> length s" "\<forall>i < length p. start + i < length s \<and> s ! (start + i) = p ! i"
    by (auto simp: accepts_def literal_reach)
  then have le: "start + length p \<le> length s"
    by (cases "p = []") (auto dest: spec [of _ "length p - 1"])
  then have "take (length p) (drop start s) = p" using st(2) by (intro nth_equalityI) auto
  then have "s = take start s @ p @ drop (length p) (drop start s)"
    by (metis append_take_drop_id)
  then show "sublist p s" unfolding sublist_def by blast
next
  assume "sublist p s"
  then obtain as bs where s: "s = as @ p @ bs" by (auto simp: sublist_def)
  have "reach (literal_regex p) s (length as) (length as + length p) (length p)"
    by (auto simp: literal_reach s nth_append)
  then show "accepts (literal_regex p) s"
    unfolding accepts_def by (intro exI [of _ "length as"] exI [of _ "length as + length p"]) (simp add: s)
qed

lemma literal_no_clash: "\<not> clash (literal_regex p) s"
  by (auto simp: clash_def literal_reach)

lemma literal_wf: "wf_regex (literal_regex p)"
proof -
  have "link_ok (Suc (length p)) (rs_a (re_states (literal_regex p) ! i)) \<and> link_ok (Suc (length p)) (rs_b (re_states (literal_regex p) ! i))"
    if "i < Suc (length p)" for i
    using that by (cases "i < length p") (auto simp: literal_state less_Suc_eq, auto simp: char_state_def match_state_def link_ok_def)
  then show ?thesis unfolding wf_regex_def wf_states_def list_all_length literal_state(3) Let_def
    by simp
qed

subsection \<open>Ranges of a class\<close>

definition in_range :: "u32 \<Rightarrow> urange \<Rightarrow> bool" where
  "in_range cp r \<longleftrightarrow> ur_lo r \<le> cp \<and> cp \<le> ur_hi r"

definition in_ranges :: "u32 \<Rightarrow> urange list \<Rightarrow> bool" where
  "in_ranges cp rs \<longleftrightarrow> (\<exists>r \<in> set rs. in_range cp r)"

definition range_ok :: "urange \<Rightarrow> bool" where
  "range_ok r \<longleftrightarrow> ur_lo r \<le> ur_hi r \<and> ur_hi r \<le> 0x10FFFF"

definition separated :: "urange list \<Rightarrow> bool" where
  "separated = sorted_wrt (\<lambda>a b. ur_hi a < ur_lo b)"

lemma cls_insert_sorted:
  assumes "sorted (map ur_lo acc)"
  shows "sorted (map ur_lo (cls_insert acc r))" "set (cls_insert acc r) = insert r (set acc)"
proof -
  let ?P = "\<lambda>x. ur_lo x > ur_lo r"
  define big small where "big = rev (takeWhile ?P (rev acc))" and "small = rev (dropWhile ?P (rev acc))"
  have acc: "acc = small @ big"
    unfolding big_def small_def by (metis rev_append rev_rev_ident takeWhile_dropWhile_id)
  have b: "\<forall>x \<in> set big. ur_lo r < ur_lo x" unfolding big_def by (auto dest: set_takeWhileD)
  have s: "\<forall>x \<in> set small. ur_lo x \<le> ur_lo r"
  proof (cases "dropWhile ?P (rev acc)")
    case (Cons y ys)
    then have "\<not> ?P y" using hd_dropWhile [of ?P "rev acc"] by simp
    moreover have "small = rev ys @ [y]" by (simp add: small_def Cons)
    ultimately show ?thesis using assms by (fastforce simp: acc sorted_append)
  next
    case Nil
    show ?thesis unfolding small_def Nil by simp
  qed
  have ins: "cls_insert acc r = small @ [r] @ big" by (simp add: cls_insert_def small_def big_def)
  show "sorted (map ur_lo (cls_insert acc r))"
    using assms [unfolded acc] s b unfolding ins by (auto simp: sorted_append less_imp_le)
  show "set (cls_insert acc r) = insert r (set acc)" unfolding ins by (auto simp: acc)
qed

lemma cls_sorted: "sorted (map ur_lo acc) \<Longrightarrow>
  sorted (map ur_lo (foldl cls_insert acc rs)) \<and> set (foldl cls_insert acc rs) = set acc \<union> set rs"
proof (induction rs arbitrary: acc)
  case (Cons r rs)
  then show ?case using cls_insert_sorted [OF Cons.prems, of r] Cons.IH [of "cls_insert acc r"] by auto
qed simp

lemma cls_merge_spec:
  assumes "sorted (map ur_lo (w # rs))" "\<forall>r \<in> set (w # rs). range_ok r"
  shows "separated (cls_merge w rs) \<and> (\<forall>r \<in> set (cls_merge w rs). range_ok r \<and> ur_lo w \<le> ur_lo r)
    \<and> (\<forall>cp. in_ranges cp (cls_merge w rs) = in_ranges cp (w # rs))"
  using assms
proof (induction rs arbitrary: w)
  case Nil
  then show ?case by (simp add: separated_def)
next
  case (Cons r rs)
  have ok: "range_ok w" "range_ok r" "ur_lo w \<le> ur_lo r" using Cons.prems by auto
  then have next_hi: "ur_lo r \<le> ur_hi w + 1 \<longleftrightarrow> unat (ur_lo r) \<le> unat (ur_hi w) + 1"
    by (simp add: range_ok_def word_le_nat_alt unat_word_ariths)
  show ?case
  proof (cases "ur_lo r \<le> ur_hi w + 1")
    case True
    let ?w = "if ur_hi r > ur_hi w then w\<lparr>ur_hi := ur_hi r\<rparr> else w"
    have w: "range_ok ?w" "ur_lo ?w = ur_lo w" using ok by (auto simp: range_ok_def)
    have "in_range cp ?w \<longleftrightarrow> in_range cp w \<or> in_range cp r" for cp
      using True ok unfolding next_hi by (auto simp: in_range_def range_ok_def word_le_nat_alt word_less_nat_alt)
    then have "in_ranges cp (?w # rs) \<longleftrightarrow> in_ranges cp (w # r # rs)" for cp by (auto simp: in_ranges_def)
    moreover have "separated (cls_merge ?w rs) \<and> (\<forall>r \<in> set (cls_merge ?w rs). range_ok r \<and> ur_lo ?w \<le> ur_lo r)
      \<and> (\<forall>cp. in_ranges cp (cls_merge ?w rs) = in_ranges cp (?w # rs))"
      using Cons.prems w by (intro Cons.IH) auto
    moreover have "cls_merge w (r # rs) = cls_merge ?w rs" using True by simp
    ultimately show ?thesis unfolding w(2) by presburger
  next
    case False
    have m: "separated (cls_merge r rs)" "\<forall>x \<in> set (cls_merge r rs). range_ok x \<and> ur_lo r \<le> ur_lo x"
      "\<forall>cp. in_ranges cp (cls_merge r rs) = in_ranges cp (r # rs)"
      using Cons.IH [of r] Cons.prems by auto
    have "ur_hi w < ur_lo r" using False unfolding next_hi by (simp add: word_less_nat_alt)
    then have "\<forall>x \<in> set (cls_merge r rs). ur_hi w < ur_lo x" using m(2) by (auto intro: order_less_le_trans)
    then show ?thesis using False m ok by (auto simp: separated_def in_ranges_def intro: order_trans)
  qed
qed

lemma separated_nth:
  "separated rs \<Longrightarrow> i < j \<Longrightarrow> j < length rs \<Longrightarrow> ur_hi (rs ! i) < ur_lo (rs ! j)"
  unfolding separated_def by (rule sorted_wrt_nth_less)

lemma cls_search_spec:
  "separated rs \<Longrightarrow> \<forall>r \<in> set rs. range_ok r \<Longrightarrow> 0 \<le> lo \<Longrightarrow> hi < int (length rs) \<Longrightarrow>
    cls_search rs cp lo hi \<longleftrightarrow> (\<exists>i. lo \<le> i \<and> i \<le> hi \<and> in_range cp (rs ! nat i))"
proof (induction rs cp lo hi rule: cls_search.induct)
  case (1 rs cp lo hi)
  show ?case
  proof (cases "lo \<le> hi")
    case True
    let ?mid = "(lo + hi) div 2"
    have mid: "lo \<le> ?mid" "?mid \<le> hi" "0 \<le> ?mid" "nat ?mid < length rs" using True 1(5,6) by auto
    have okm: "ur_lo (rs ! nat ?mid) \<le> ur_hi (rs ! nat ?mid)" using 1(4) mid(4) by (simp add: range_ok_def)
    have above: "\<not> in_range cp (rs ! nat i)" if "cp < ur_lo (rs ! nat ?mid)" "?mid \<le> i" "i \<le> hi" for i
    proof (cases "i = ?mid")
      case False
      then have "ur_hi (rs ! nat ?mid) < ur_lo (rs ! nat i)"
        using that mid 1(6) by (intro separated_nth [OF 1(3)]) auto
      then show ?thesis using that(1) okm by (auto simp: in_range_def)
    qed (use that in \<open>auto simp: in_range_def\<close>)
    have below: "\<not> in_range cp (rs ! nat i)" if "ur_hi (rs ! nat ?mid) < cp" "i \<le> ?mid" "lo \<le> i" for i
    proof (cases "i = ?mid")
      case False
      then have "ur_hi (rs ! nat i) < ur_lo (rs ! nat ?mid)"
        using that mid 1(5) by (intro separated_nth [OF 1(3)]) auto
      then show ?thesis using that(1) okm by (auto simp: in_range_def)
    qed (use that in \<open>auto simp: in_range_def\<close>)
    consider "cp < ur_lo (rs ! nat ?mid)" | "\<not> cp < ur_lo (rs ! nat ?mid)" "ur_hi (rs ! nat ?mid) < cp"
      | "\<not> cp < ur_lo (rs ! nat ?mid)" "\<not> ur_hi (rs ! nat ?mid) < cp" by blast
    then show ?thesis
    proof cases
      case 1
      have "cls_search rs cp lo hi = cls_search rs cp lo (?mid - 1)" using True 1 by (subst cls_search.simps) (simp add: Let_def)
      also have "\<dots> \<longleftrightarrow> (\<exists>i. lo \<le> i \<and> i \<le> ?mid - 1 \<and> in_range cp (rs ! nat i))"
        using "1.IH"(1) [OF True refl refl 1] "1.prems" mid by auto
      also have "\<dots> \<longleftrightarrow> (\<exists>i. lo \<le> i \<and> i \<le> hi \<and> in_range cp (rs ! nat i))"
      proof -
        have "i \<le> ?mid - 1" if "in_range cp (rs ! nat i)" "i \<le> hi" for i using above [OF 1, of i] that by linarith
        moreover have "i \<le> hi" if "i \<le> ?mid - 1" for i using that mid(2) by linarith
        ultimately show ?thesis by blast
      qed
      finally show ?thesis .
    next
      case 2
      have "cls_search rs cp lo hi = cls_search rs cp (?mid + 1) hi" using True 2 by (subst cls_search.simps) (simp add: Let_def)
      also have "\<dots> \<longleftrightarrow> (\<exists>i. ?mid + 1 \<le> i \<and> i \<le> hi \<and> in_range cp (rs ! nat i))"
        using "1.IH"(2) [OF True refl refl 2] "1.prems" mid by auto
      also have "\<dots> \<longleftrightarrow> (\<exists>i. lo \<le> i \<and> i \<le> hi \<and> in_range cp (rs ! nat i))"
      proof -
        have "?mid + 1 \<le> i" if "in_range cp (rs ! nat i)" "lo \<le> i" for i using below [OF 2(2), of i] that by linarith
        moreover have "lo \<le> i" if "?mid + 1 \<le> i" for i using that mid(1) by linarith
        ultimately show ?thesis by blast
      qed
      finally show ?thesis .
    next
      case 3
      have "cls_search rs cp lo hi" using True 3 by (subst cls_search.simps) (simp add: Let_def)
      moreover have "in_range cp (rs ! nat ?mid)" using 3 by (simp add: in_range_def not_less)
      ultimately show ?thesis using mid by blast
    qed
  next
    case False
    then show ?thesis by (subst cls_search.simps) auto
  qed
qed

lemma class_match_spec:
  assumes "cl_ranges cl \<noteq> []" "\<forall>r \<in> set (cl_ranges cl). range_ok r" "cls_sort_merge (c, cl) = (d, cl')"
    "rs_any st = False" "rs_ranges st = cl_ranges cl'"
  shows "cls_match st cp \<longleftrightarrow> in_ranges cp (cl_ranges cl) \<noteq> rs_negated st"
proof -
  let ?s = "foldl cls_insert [] (cl_ranges cl)"
  have s: "sorted (map ur_lo ?s)" "set ?s = set (cl_ranges cl)" using cls_sorted [of "[]" "cl_ranges cl"] by simp_all
  have "?s \<noteq> []" using s(2) assms(1) by auto
  then obtain w rs where w: "?s = w # rs" by (meson neq_Nil_conv)
  have m: "separated (cls_merge w rs)" "\<forall>r \<in> set (cls_merge w rs). range_ok r"
    "in_ranges cp (cls_merge w rs) = in_ranges cp (w # rs)"
    using cls_merge_spec [of w rs] s assms(2) unfolding w by blast+
  have r: "rs_ranges st = cls_merge w rs" using assms(3,5) w by auto
  have "cls_search (cls_merge w rs) cp 0 (int (length (cls_merge w rs)) - 1) \<longleftrightarrow> in_ranges cp (cls_merge w rs)"
  proof -
    let ?rs = "cls_merge w rs"
    have "cls_search ?rs cp 0 (int (length ?rs) - 1) \<longleftrightarrow> (\<exists>i. 0 \<le> i \<and> i \<le> int (length ?rs) - 1 \<and> in_range cp (?rs ! nat i))"
      using m by (intro cls_search_spec) auto
    also have "\<dots> \<longleftrightarrow> (\<exists>j < length ?rs. in_range cp (?rs ! j))"
    proof
      assume "\<exists>i. 0 \<le> i \<and> i \<le> int (length ?rs) - 1 \<and> in_range cp (?rs ! nat i)"
      then obtain i where "0 \<le> i" "i \<le> int (length ?rs) - 1" "in_range cp (?rs ! nat i)" by blast
      then show "\<exists>j < length ?rs. in_range cp (?rs ! j)" by (intro exI [of _ "nat i"]) auto
    next
      assume "\<exists>j < length ?rs. in_range cp (?rs ! j)"
      then obtain j where "j < length ?rs" "in_range cp (?rs ! j)" by blast
      then show "\<exists>i. 0 \<le> i \<and> i \<le> int (length ?rs) - 1 \<and> in_range cp (?rs ! nat i)" by (intro exI [of _ "int j"]) auto
    qed
    also have "\<dots> \<longleftrightarrow> in_ranges cp ?rs" unfolding in_ranges_def by (metis in_set_conv_nth)
    finally show ?thesis .
  qed
  also have "\<dots> \<longleftrightarrow> in_ranges cp (cl_ranges cl)"
  proof -
    have "set (w # rs) = set (cl_ranges cl)" using s(2) w by simp
    then show ?thesis by (subst m(3)) (simp only: in_ranges_def)
  qed
  finally show ?thesis using assms(4) by (simp add: cls_match_def Let_def r)
qed

subsection \<open>Properties\<close>

text \<open>C25: the compiler always returns, and a pattern it accepts has at most 20,000 states, a start and a
  match state among them, and links that are -1 or name a state.\<close>

theorem regex_compile_ok:
  "\<exists>c. sch_regex_compile ucs pattern = Some c \<and>
     (case co_regex c of None \<Rightarrow> True | Some re \<Rightarrow> wf_regex re \<and> length (re_states re) \<le> REGEX_MAX_STATES)"
proof -
  define c0 where "c0 = rx_flags (utf8_to_cp pattern \<lparr>rx_s = [], rx_pos = 0, rx_fold = False, rx_err = [], rx_undef = False\<rparr>)"
  have pos: "rx_pos c0 \<le> length (rx_s c0)"
  proof (cases "take 4 (cp_list pattern) = map of_char ''(?i)''")
    case True
    then have "length (take 4 (cp_list pattern)) = 4" by simp
    then have "4 \<le> length (cp_list pattern)" by simp
    then show ?thesis by (simp add: c0_def rx_flags_def utf8_to_cp_def Let_def)
  qed (simp add: c0_def rx_flags_def utf8_to_cp_def Let_def)
  have "length (rx_s c0) - rx_pos c0 < Suc (length (rx_s c0))" by simp
  from ralternation_returns [OF pos this, of ucs]
  obtain d t where d: "ralternation ucs (Suc (length (rx_s c0))) c0 = Some (d, t)" by (auto simp: returns_def)
  have wf: "case re of None \<Rightarrow> True | Some re \<Rightarrow> wf_regex re \<and> length (re_states re) \<le> REGEX_MAX_STATES"
    if "nfa_compile err ast = (e, re)" for err ast e re
    using that nfa_compile_wf by (cases re) auto
  show ?thesis
    unfolding sch_regex_compile_def Let_def c0_def [symmetric] d using wf by (cases t) (auto split: prod.split)
qed

text \<open>C23: a search with a compiled pattern in a text below 64 KiB ends without an overflow of the stamps or
  an access outside its arrays, and a reported match is one of the automaton. Without a clash (two
  active states of which one steps to the other, further back in the array) it is exact.\<close>

theorem regex_match_correct:
  assumes "sch_regex_compile ucs pattern = Some c" "co_regex c = Some re" "length text \<le> 65534"
  shows "\<exists>b. sch_regex_is_match re text = Some b \<and> (b \<longrightarrow> accepts re (cp_list text))
    \<and> (\<not> clash re (cp_list text) \<longrightarrow> b = accepts re (cp_list text))"
proof -
  have "nfa_compile err ast = (e, Some re) \<Longrightarrow> wf_regex re" for err ast e using nfa_compile_wf by blast
  then have "wf_regex re"
    using assms(1,2) by (auto simp: sch_regex_compile_def Let_def split: option.splits if_splits prod.splits)
  moreover have "length (cp_list r) \<le> length r" for r
  proof (induction r rule: cp_list.induct)
    case (2 b r)
    have "0 < snd (cp_decode (b # r))" by (rule cp_decode_step)
    then show ?case using 2 by simp
  qed simp
  ultimately show ?thesis
    unfolding sch_regex_is_match_def using assms(3) by (intro search_spec) (auto intro: order_trans)
qed

text \<open>C24: a pattern without operators is a substring search: it compiles, and it matches a text
  exactly when its code points occur in the text in a row.\<close>

theorem literal_pattern_search:
  assumes "list_all plain p" "list_all (\<lambda>cp. cp \<le> 0x10FFFF) (p @ s)" "length p < REGEX_MAX_STATES" "length s \<le> 65534"
  shows "\<exists>re. sch_regex_compile ucs (concat (map utf8_bytes p)) = Some \<lparr>co_err = [], co_undef = False, co_regex = Some re\<rparr>
    \<and> sch_regex_is_match re (concat (map utf8_bytes s)) = Some (sublist p s)"
proof -
  let ?c = "\<lparr>rx_s = p, rx_pos = 0, rx_fold = False, rx_err = [], rx_undef = False\<rparr>"
  have cps: "cp_list (concat (map utf8_bytes p)) = p" "cp_list (concat (map utf8_bytes s)) = s"
    "cp_count (concat (map utf8_bytes p)) = length p"
    using assms(2) cp_list_utf8 [of p "[]"] cp_list_utf8 [of s "[]"] cp_count_utf8 [of p] by simp_all
  then have dec: "utf8_to_cp (concat (map utf8_bytes p)) \<lparr>rx_s = [], rx_pos = 0, rx_fold = False, rx_err = [], rx_undef = False\<rparr> = ?c"
    by (simp add: utf8_to_cp_def)
  have "take 4 p \<noteq> map of_char ''(?i)''"
    using assms(1) by (cases p) (auto simp: plain_def)
  then have flags: "rx_flags ?c = ?c" by (simp add: rx_flags_def)
  have "reading p 0 ?c" by (simp add: reading_def)
  note parse = plain_parse [OF assms(1) this, of ucs "length p"]
  have "sch_regex_compile ucs (concat (map utf8_bytes p)) = Some \<lparr>co_err = [], co_undef = False, co_regex = Some (literal_regex p)\<rparr>"
    unfolding sch_regex_compile_def dec flags Let_def using parse plain_compile [OF assms(3)]
    by (simp add: rx_advance_def)
  moreover have "sch_regex_is_match (literal_regex p) (concat (map utf8_bytes s)) = Some (sublist p s)"
    using search_spec [OF literal_wf assms(4), of p] literal_no_clash [of p s]
    by (simp add: sch_regex_is_match_def cps literal_accepts)
  ultimately show ?thesis by blast
qed

text \<open>C26: a bracketed class matches the code points in its ranges, or all others when it is negated: the
  sort, the merge and the binary search of the state agree with the list of ranges as written.\<close>

theorem class_matches_ranges:
  assumes "cl_ranges cl \<noteq> []" "\<forall>r \<in> set (cl_ranges cl). ur_lo r \<le> ur_hi r \<and> ur_hi r \<le> 0x10FFFF"
    and "cls_sort_merge (c, cl) = (d, cl')" "n_states nc < REGEX_MAX_STATES"
    and "emit_node (RA_CLASS (cl_ranges cl') negated) nc = (nc', Some f)"
  shows "cls_match (last (nx_states nc')) cp \<longleftrightarrow>
    (\<exists>r \<in> set (cl_ranges cl). ur_lo r \<le> cp \<and> cp \<le> ur_hi r) \<noteq> negated"
proof -
  have "last (nx_states nc') = \<lparr>rs_kind = RS_CHAR, rs_any = False, rs_ranges = cl_ranges cl', rs_negated = negated, rs_a = - 1, rs_b = - 1\<rparr>"
    using assms(4,5) by (auto simp: nfa_leaf_def nstate_def set_state_def)
  then show ?thesis
    using class_match_spec [OF assms(1) _ assms(3), of "last (nx_states nc')" cp] assms(2)
    by (simp add: range_ok_def in_ranges_def in_range_def)
qed

text \<open>Decoding is the inverse of UTF-8 encoding for all code points up to U+10FFFF, and the pass that
  sizes the array counts them exactly, so it is not overrun.\<close>

theorem pattern_decoding:
  assumes "list_all (\<lambda>cp. cp \<le> 0x10FFFF) cps"
  shows "utf8_to_cp (concat (map utf8_bytes cps)) c = c\<lparr>rx_s := cps\<rparr>"
  using assms cp_list_utf8 [of cps "[]"] by (simp add: utf8_to_cp_def cp_count_utf8)

text \<open>C29: on input that is not UTF-8 the sizing pass counts too little: four or more stray continuation
  bytes, which the JSON reader lets through, are decoded past the end of the array.\<close>

theorem decoding_overrun:
  assumes "4 \<le> n"
  shows "rx_undef (utf8_to_cp (replicate n 0x80) c)"
proof -
  have "(n + 1) div 2 + 1 < n" using assms by linarith
  then show ?thesis by (simp add: utf8_to_cp_def Let_def cp_count_stray cp_list_stray)
qed

text \<open>C27: the search loses matches: \<open>a?a\<close> compiles, its automaton accepts the one-letter input \<open>a\<close>, the search does not
  find it, because the step of the first \<open>a\<close> stamps the state of the second one before it is visited.\<close>

theorem search_loses_match:
  "\<exists>c re. sch_regex_compile [] (lit ''a?a'') = Some c \<and> co_regex c = Some re \<and> co_undef c = False
     \<and> accepts re (cp_list (lit ''a'')) \<and> sch_regex_is_match re (lit ''a'') = Some False"
proof -
  let ?re = "\<lparr>re_states = [\<lparr>rs_kind = RS_SPLIT, rs_any = False, rs_ranges = [], rs_negated = False, rs_a = 1, rs_b = 2\<rparr>,
      char_state 0x61 2, char_state 0x61 3, match_state], re_start = 0, re_match = 3\<rparr>"
  have compile: "sch_regex_compile [] (lit ''a?a'') = Some \<lparr>co_err = [], co_undef = False, co_regex = Some ?re\<rparr>"
    by code_simp
  have miss: "sch_regex_is_match ?re (lit ''a'') = Some False" by code_simp
  have cps: "cp_list (lit ''a'') = [0x61]" by code_simp
  have "reach ?re [0x61] 0 0 0" by (rule reach_start) simp
  then have "reach ?re [0x61] 0 0 2" by (rule reach_eps) (simp add: eps_edge_def eps_targets_def)
  then have "reach ?re [0x61] 0 (Suc 0) 3"
    by (rule reach_char) (simp add: char_edge_def cls_match_char, simp add: char_state_def)
  then have "accepts ?re [0x61]" unfolding accepts_def by (intro exI [of _ 0] exI [of _ "Suc 0"]) simp
  then show ?thesis
    by (intro exI [of _ "\<lparr>co_err = [], co_undef = False, co_regex = Some ?re\<rparr>"] exI [of _ ?re]) (simp add: compile miss cps)
qed

text \<open>A pattern of one class.\<close>

definition single_regex :: "rstate \<Rightarrow> sch_regex" where
  "single_regex st = \<lparr>re_states = [st\<lparr>rs_a := 1\<rparr>, match_state], re_start = 0, re_match = 1\<rparr>"

lemma single_search:
  assumes st: "rs_kind st = RS_CHAR" "rs_b st = - 1" and len: "length s \<le> 65534"
  shows "sch_regex_search (single_regex st) s = Some (\<exists>x \<in> set s. cls_match st x)"
proof -
  let ?re = "single_regex st"
  have simps: "re_states ?re = [st\<lparr>rs_a := 1\<rparr>, match_state]" "re_start ?re = 0" "re_match ?re = 1"
    by (simp_all add: single_regex_def)
  have cm: "cls_match (st\<lparr>rs_a := z\<rparr>) x = cls_match st x" for x z by (simp add: cls_match_def)
  have two: "i = 0 \<or> i = 1" if "i < length (re_states ?re)" for i using that by (auto simp: simps)
  have eps: "\<not> eps_edge ?re s pos i t" for pos i t
    using two [of i] st by (auto simp: eps_edge_def simps eps_targets_def match_state_def)
  have char: "char_edge ?re s pos i t \<longleftrightarrow> i = 0 \<and> pos < length s \<and> cls_match st (s ! pos) \<and> t = 1" for pos i t
    using two [of i] st by (auto simp: char_edge_def simps cm match_state_def)
  have r: "reach ?re s start pos q \<Longrightarrow> q = 0 \<and> pos = start \<or>
      q = 1 \<and> pos = Suc start \<and> start < length s \<and> cls_match st (s ! start)" for start pos q
  proof (induction rule: reach.induct)
    case (reach_char pos i t)
    then show ?case by (auto simp: char)
  qed (auto simp: eps simps)
  have r0: "reach ?re s start start 0" for start by (rule reach_start) (simp add: simps)
  have "reach ?re s start (Suc start) 1" if "start < length s" "cls_match st (s ! start)" for start
    using r0 by (rule reach_char) (simp add: char that)
  then have "accepts ?re s \<longleftrightarrow> (\<exists>start < length s. cls_match st (s ! start))"
    using r unfolding accepts_def simps by (metis One_nat_def less_imp_le_nat nat_one_as_int zero_neq_one)
  then have "accepts ?re s \<longleftrightarrow> (\<exists>x \<in> set s. cls_match st x)" by (metis in_set_conv_nth)
  moreover have "\<not> clash ?re s" unfolding clash_def char by (auto dest: r)
  moreover have "wf_regex ?re" using st by (simp add: wf_regex_def wf_states_def simps match_state_def link_ok_def)
  ultimately show ?thesis using search_spec [of ?re s] len by auto
qed

text \<open>A piece that needs no state cuts a sequence: behind an empty group the tail of the piece before is
  threaded to -1 and lost. The pattern \<open>a()b\<close> compiles and matches no text at all.\<close>

lemma empty_group_never_matches:
  "\<exists>c re. sch_regex_compile [] (lit ''a()b'') = Some c \<and> co_regex c = Some re \<and> co_undef c = False
     \<and> (\<forall>s. sch_regex_search re s = Some False \<or> 65534 < length s)"
proof -
  let ?re = "\<lparr>re_states = [char_state 0x61 (- 1), char_state 0x62 2, match_state], re_start = 0, re_match = 2\<rparr>"
  have compile: "sch_regex_compile [] (lit ''a()b'') = Some \<lparr>co_err = [], co_undef = False, co_regex = Some ?re\<rparr>"
    by code_simp
  have wf: "wf_regex ?re" by (simp add: wf_regex_def wf_states_def char_state_def match_state_def link_ok_def)
  have r: "reach ?re s start pos q \<Longrightarrow> q = 0" for s start pos q
  proof (induction rule: reach.induct)
    case (reach_eps pos i t)
    then show ?case by (simp add: eps_edge_def eps_targets_def char_state_def)
  next
    case (reach_char pos i t)
    then show ?case by (simp add: char_edge_def char_state_def)
  qed simp
  have "\<not> accepts ?re s" for s
  proof
    assume "accepts ?re s"
    then obtain start pos where "reach ?re s start pos 2" by (auto simp: accepts_def)
    from r [OF this] show False by simp
  qed
  then have "sch_regex_search ?re s = Some False" if "length s \<le> 65534" for s
    using search_spec [OF wf that] by auto
  then have "\<forall>s. sch_regex_search ?re s = Some False \<or> 65534 < length s" by (meson not_less)
  then show ?thesis
    by (intro exI [of _ "\<lparr>co_err = [], co_undef = False, co_regex = Some ?re\<rparr>"] exI [of _ ?re]) (simp add: compile)
qed

text \<open>The escape for word characters outside brackets is stored unsorted, although the state's binary
  search needs sorted ranges: it matches no lower-case letter and no digit, only upper-case
  letters and the underscore.\<close>

lemma word_escape_misses:
  "\<exists>c re. sch_regex_compile [] [0x5C, 0x77] = Some c \<and> co_regex c = Some re \<and> co_undef c = False
     \<and> (\<forall>cp. sch_regex_search re [cp] = Some (0x41 \<le> cp \<and> cp \<le> 0x5A \<or> cp = 0x5F))"
proof -
  let ?st = "\<lparr>rs_kind = RS_CHAR, rs_any = False, rs_ranges = [mk_range 0x61 0x7A, mk_range 0x41 0x5A, mk_range 0x30 0x39, mk_range 0x5F 0x5F],
     rs_negated = False, rs_a = - 1, rs_b = - 1\<rparr>"
  have "sch_regex_compile [] [0x5C, 0x77] = Some \<lparr>co_err = [], co_undef = False, co_regex = Some (single_regex ?st)\<rparr>"
    by code_simp
  moreover have "cls_match ?st cp \<longleftrightarrow> 0x41 \<le> cp \<and> cp \<le> 0x5A \<or> cp = 0x5F" for cp
    by (simp add: cls_match_def cls_search.simps mk_range_def Let_def) (auto simp: word_less_nat_alt word_le_nat_alt word_unat_eq_iff)
  then have "sch_regex_search (single_regex ?st) [cp] = Some (0x41 \<le> cp \<and> cp \<le> 0x5A \<or> cp = 0x5F)" for cp
    by (subst single_search) simp_all
  ultimately show ?thesis
    by (intro exI [of _ "\<lparr>co_err = [], co_undef = False, co_regex = Some (single_regex ?st)\<rparr>"] exI [of _ "single_regex ?st"]) simp
qed

text \<open>A run of the parser on the pattern of the next property.\<close>

lemma fold_push_room:
  "length (cl_ranges cl) + length rs \<le> cl_room cl \<Longrightarrow> fold cls_push rs (c, cl) = (c, cl\<lparr>cl_ranges := cl_ranges cl @ rs\<rparr>)"
  by (induction rs arbitrary: cl) simp_all

definition class_pattern :: "u32 list" where
  "class_pattern = map of_char (''['' @ [CHR 0x5C] @ ''p{L}_]'')"

definition class_at :: "nat \<Rightarrow> bool \<Rightarrow> pctx" where
  "class_at k u = \<lparr>rx_s = class_pattern, rx_pos = k, rx_fold = False, rx_err = [], rx_undef = u\<rparr>"

lemma class_at_simps [simp]:
  "rx_s (class_at k u) = class_pattern" "rx_pos (class_at k u) = k" "\<not> rx_fold (class_at k u)"
  "rx_err (class_at k u) = []" "rx_undef (class_at k u) = u" "rx_advance n (class_at k u) = class_at (k + n) u"
  "class_at k u\<lparr>rx_undef := v\<rparr> = class_at k v"
  by (simp_all add: class_at_def rx_advance_def)

lemma class_pattern_cps: "class_pattern = [0x5B, 0x5C, 0x70, 0x7B, 0x4C, 0x7D, 0x5F, 0x5D]"
  by (simp add: class_pattern_def)

lemma class_escape_step:
  assumes "uc_find ucs [of_char CHR ''L''] = Some p"
  shows "class_atom ucs (class_at 1 False, cl) =
    (fold cls_push (up_ranges p) (cls_reserve (length (up_ranges p) + 8) (class_at 6 False, cl)), Esc_short)"
proof -
  have "prop_name (class_at 4 False) = (class_at 6 False, Some (False, [0x4C]))"
    by (simp add: prop_name_def rx_here_def rx_done_def class_pattern_cps Let_def)
  then have "prop_escape ucs False (class_at 3 False, cl) =
      fold cls_push (up_ranges p) (cls_reserve (length (up_ranges p) + 8) (class_at 6 False, cl))"
    using assms by (simp add: prop_escape.simps rx_here_def class_pattern_cps prop_append_def Let_def)
  then show ?thesis
    by (simp add: class_atom_def class_escape_def class_pattern_cps rx_done_def is_shorthand_def Let_def
        flip: numeral_3_eq_3)
qed

lemma class_run:
  assumes p: "uc_find ucs [of_char CHR ''L''] = Some p" "16 < length (up_ranges p)"
  shows "\<exists>cl :: cls. rclass ucs (class_at 1 False) = (class_at 8 True, Some (RA_CLASS (cl_ranges cl) False))"
proof -
  let ?n = "length (up_ranges p)"
  let ?c1 = "\<lparr>cl_ranges = [], cl_room = 8\<rparr>" and ?c2 = "\<lparr>cl_ranges = up_ranges p, cl_room = ?n + 8\<rparr>"
  have a1: "class_atom ucs (class_at 1 False, ?c1) = ((class_at 6 False, ?c2), Esc_short)"
    unfolding class_escape_step [OF p(1)] by (simp add: fold_push_room)
  have a2: "class_atom ucs (class_at 6 False, ?c2) = ((class_at 7 False, ?c2), Esc_cp 0x5F)"
    by (simp add: class_atom_def class_pattern_cps Let_def)
  have add: "cls_add_cp 0x5F (cls_reserve 16 (class_at 7 False, ?c2)) =
      (class_at 7 True, \<lparr>cl_ranges = up_ranges p @ [mk_range 0x5F 0x5F], cl_room = 16\<rparr>)"
    using p(2) by simp
  have grow: "cls_grow 8 (class_at 7 False, ?c2) = (16, cls_reserve 16 (class_at 7 False, ?c2))"
    using p(2) by (simp add: cls_grow_def)
  obtain cl where m: "cls_sort_merge (class_at 8 True, \<lparr>cl_ranges = up_ranges p @ [mk_range 0x5F 0x5F], cl_room = 16\<rparr>) = (class_at 8 True, cl)"
  proof -
    have "fst (cls_sort_merge (class_at 8 True, x)) = class_at 8 True" for x by (simp split: list.split)
    then show ?thesis using that by (metis prod.collapse)
  qed
  have l3: "rclass_loop ucs False 16 (class_at 7 True, \<lparr>cl_ranges = up_ranges p @ [mk_range 0x5F 0x5F], cl_room = 16\<rparr>) =
      (class_at 8 True, Some cl)"
    using m by (subst rclass_loop.simps) (simp add: rx_done_def rx_here_def class_pattern_cps del: cls_sort_merge.simps)
  have l2: "rclass_loop ucs False 8 (class_at 6 False, ?c2) = (class_at 8 True, Some cl)"
    using a2 add grow l3
    by (subst rclass_loop.simps)
      (simp add: rx_done_def rx_here_def range_follows_def class_pattern_cps del: cls_add_cp.simps cls_reserve.simps)
  have "rclass_loop ucs True 8 (class_at 1 False, ?c1) = (class_at 8 True, Some cl)"
    using a1 l2 by (subst rclass_loop.simps) (simp add: rx_done_def class_pattern_cps)
  then show ?thesis by (intro exI [of _ cl]) (simp add: rclass_def rx_here_def class_pattern_cps Let_def)
qed

text \<open>C28: a class with a property escape and one more character overruns its block: the escape replaces the
  block by one of its own size, the loop still believes the capacity is 8, doubles that and moves
  all the ranges into a block for 16.\<close>

theorem property_class_overrun:
  assumes "uc_find ucs [of_char CHR ''L''] = Some p" "16 < length (up_ranges p)"
  shows "\<exists>c. sch_regex_compile ucs (lit (''['' @ [CHR 0x5C] @ ''p{L}_]'')) = Some c \<and> co_undef c"
proof -
  have "utf8_to_cp (lit (''['' @ [CHR 0x5C] @ ''p{L}_]'')) \<lparr>rx_s = [], rx_pos = 0, rx_fold = False, rx_err = [], rx_undef = False\<rparr> =
     \<lparr>rx_s = [0x5B, 0x5C, 0x70, 0x7B, 0x4C, 0x7D, 0x5F, 0x5D], rx_pos = 0, rx_fold = False, rx_err = [], rx_undef = False\<rparr>"
    by code_simp
  then have start: "utf8_to_cp (lit (''['' @ [CHR 0x5C] @ ''p{L}_]'')) \<lparr>rx_s = [], rx_pos = 0, rx_fold = False, rx_err = [], rx_undef = False\<rparr> =
      class_at 0 False"
    by (simp add: class_at_def class_pattern_cps)
  have flags: "rx_flags (class_at 0 False) = class_at 0 False" by (simp add: rx_flags_def class_pattern_cps)
  obtain cl :: cls where cl: "rclass ucs (class_at 1 False) = (class_at 8 True, Some (RA_CLASS (cl_ranges cl) False))"
    using class_run [OF assms] by blast
  let ?r = "RA_CLASS (cl_ranges cl) False"
  have "ratom ucs alt (class_at 0 False) = Some (class_at 8 True, Some ?r)" for alt
    using cl by (simp add: ratom_def rx_done_def class_pattern_cps Let_def)
  moreover have "rquant (class_at 8 True) = (class_at 8 True, Q_none)"
    by (simp add: rquant_def rx_here_def class_pattern_cps)
  ultimately have piece: "rrepeat ucs alt (class_at 0 False) = Some (class_at 8 True, Some ?r)" for alt
    by (simp add: rrepeat_def)
  have last: "rrepeat ucs alt (class_at 8 True) = Some (class_at 8 True, None)" for alt
    by (simp add: rrepeat_def ratom_def rx_done_def class_pattern_cps)
  have "rconcat ucs alt (class_at 0 False) = Some (class_at 8 True, Some (RA_SEQ [?r]))" for alt
  proof -
    have "Suc (length class_pattern) = Suc (Suc 7)" by (simp add: class_pattern_cps)
    then show ?thesis using piece last unfolding rconcat_def by (simp add: rx_here_def class_pattern_cps)
  qed
  then have "ralternation ucs (Suc k) (class_at 0 False) = Some (class_at 8 True, Some (RA_SEQ [?r]))" for k
    by (simp add: ralternation.simps rx_here_def class_pattern_cps)
  then show ?thesis
    unfolding sch_regex_compile_def start flags Let_def by (simp add: class_pattern_cps split: prod.split)
qed

subsection \<open>Witnesses\<close>

lemma regex_match_correct_witness:
  "\<exists>c re b. sch_regex_compile [] (lit ''a'') = Some c \<and> co_regex c = Some re \<and> sch_regex_is_match re (lit ''ba'') = Some b"
proof -
  have "case sch_regex_compile [] (lit ''a'') of None \<Rightarrow> False | Some c \<Rightarrow> co_regex c \<noteq> None" by code_simp
  then obtain c re where c: "sch_regex_compile [] (lit ''a'') = Some c" "co_regex c = Some re"
    by (auto split: option.splits)
  have "length (lit ''ba'') \<le> 65534" by (simp add: lit_def)
  from regex_match_correct [OF c this] show ?thesis using c by blast
qed

lemma literal_pattern_search_witness:
  "\<exists>re. sch_regex_compile [] (concat (map utf8_bytes [0x68, 0xE9])) = Some \<lparr>co_err = [], co_undef = False, co_regex = Some re\<rparr>
    \<and> sch_regex_is_match re (concat (map utf8_bytes [0x41, 0x68, 0xE9, 0x42])) = Some (sublist [0x68, 0xE9 :: u32] [0x41, 0x68, 0xE9, 0x42])"
  using literal_pattern_search [of "[0x68, 0xE9]" "[0x41, 0x68, 0xE9, 0x42]" "[]"] by (simp add: plain_def)

lemma class_matches_ranges_witness:
  "\<exists>nc f cp. cls_match (last (nx_states nc)) cp = True \<and> emit_node (RA_CLASS [mk_range 0x30 0x39, mk_range 0x61 0x7A] False)
     \<lparr>nx_states = [], nx_err = []\<rparr> = (nc, Some f)"
proof -
  let ?cl = "\<lparr>cl_ranges = [mk_range 0x61 0x66, mk_range 0x30 0x39, mk_range 0x63 0x7A], cl_room = 8\<rparr>"
  let ?c = "\<lparr>rx_s = [], rx_pos = 0, rx_fold = False, rx_err = [], rx_undef = False\<rparr>"
  have merge: "cls_sort_merge (?c, ?cl) = (?c, \<lparr>cl_ranges = [mk_range 0x30 0x39, mk_range 0x61 0x7A], cl_room = 8\<rparr>)"
    by (simp add: mk_range_def cls_insert_def)
  obtain nc f where nc: "emit_node (RA_CLASS [mk_range 0x30 0x39, mk_range 0x61 0x7A] False) \<lparr>nx_states = [], nx_err = []\<rparr> = (nc, Some f)"
    by (simp add: nfa_leaf_def nstate_def)
  have node: "emit_node (RA_CLASS (cl_ranges \<lparr>cl_ranges = [mk_range 0x30 0x39, mk_range 0x61 0x7A], cl_room = 8\<rparr>) False)
      \<lparr>nx_states = [], nx_err = []\<rparr> = (nc, Some f)" using nc by simp
  have "cls_match (last (nx_states nc)) 0x64 = True"
    using class_matches_ranges [where cp = "0x64", OF _ _ merge _ node] by (simp add: mk_range_def)
  then show ?thesis using nc by blast
qed

lemma pattern_decoding_witness:
  "rx_s (utf8_to_cp (concat (map utf8_bytes [0x24, 0x20AC, 0x10348])) \<lparr>rx_s = [], rx_pos = 0, rx_fold = False, rx_err = [], rx_undef = False\<rparr>)
     = [0x24, 0x20AC, 0x10348]"
  using pattern_decoding [of "[0x24, 0x20AC, 0x10348]" "\<lparr>rx_s = [], rx_pos = 0, rx_fold = False, rx_err = [], rx_undef = False\<rparr>"]
  by simp

lemma decoding_overrun_witness:
  "rx_undef (utf8_to_cp (replicate 6 0x80) \<lparr>rx_s = [], rx_pos = 0, rx_fold = False, rx_err = [], rx_undef = False\<rparr>)"
  using decoding_overrun [of 6] by simp

lemma property_class_overrun_witness:
  "\<exists>c. sch_regex_compile [\<lparr>up_name = lit ''L'', up_ranges = replicate 600 (mk_range 0x41 0x5A)\<rparr>]
     (lit (''['' @ [CHR 0x5C] @ ''p{L}_]'')) = Some c \<and> co_undef c"
proof -
  let ?p = "\<lparr>up_name = lit ''L'', up_ranges = replicate 600 (mk_range 0x41 0x5A)\<rparr>"
  have "uc_find [?p] [of_char CHR ''L''] = Some ?p"
    by (simp add: uc_find_def uc_find_loop.simps lit_def Let_def)
  then show ?thesis using property_class_overrun [of "[?p]" ?p] by simp
qed

end
