(* ===== verification/Json_Read.thy ===== *)
theory Json_Read
  imports Emit_Buf Utf8
begin

text \<open>
  The JSON reader of the schema compiler, \<open>schema/json_read.c\<close>. The cursor is the list of the
  bytes from \<open>c->src + c->pos\<close> to the end of the text; a failure is the message of the
  \<open>jfail\<close> call with the cursor there (\<open>jfail\<close> keeps the first message, and every caller gives
  up at the first one). Strings go into an arena block of the size the code asks for, numbers
  into the array \<open>tmp\<close> of 64 bytes, through the sink of theory \<open>Utf8\<close>; items and members go
  into a block with a capacity that doubles. A store behind a block is a result of its own. \<open>strtod\<close> is the argument \<open>sd\<close>. Arena allocations succeed: the code uses
  their result unchecked.
\<close>

subsection \<open>Values\<close>

datatype jv_kind = JK_NULL | JK_BOOL | JK_INT | JK_NUM | JK_STRING | JK_ARRAY | JK_OBJECT

text \<open>The member \<open>num\<close> of an integer is never read, \<open>jv_num\<close> converts the integer.\<close>

datatype jv =
    JV_NULL
  | JV_BOOL bool
  | JV_INT u64
  | JV_NUM u64
  | JV_STRING bytes
  | JV_ARRAY "jv list"
  | JV_OBJECT "(bytes \<times> jv) list"

fun jv_kind_of :: "jv \<Rightarrow> jv_kind" where
  "jv_kind_of JV_NULL = JK_NULL"
| "jv_kind_of (JV_BOOL b) = JK_BOOL"
| "jv_kind_of (JV_INT i) = JK_INT"
| "jv_kind_of (JV_NUM d) = JK_NUM"
| "jv_kind_of (JV_STRING s) = JK_STRING"
| "jv_kind_of (JV_ARRAY vs) = JK_ARRAY"
| "jv_kind_of (JV_OBJECT ms) = JK_OBJECT"

text \<open>Keys are C strings: \<open>strcmp\<close> sees the bytes up to the first NUL.\<close>

definition c_str :: "bytes \<Rightarrow> bytes" where
  "c_str k = takeWhile (\<lambda>c. c \<noteq> 0) k"

fun jv_member_get :: "jv \<Rightarrow> bytes \<Rightarrow> jv option" where
  "jv_member_get (JV_OBJECT ms) key =
     foldl (\<lambda>found (k, v). if c_str k = c_str key then Some v else found) None ms"
| "jv_member_get _ key = None"

subsection \<open>Results\<close>

datatype jfault =
    JMsg bytes bytes
  | JOverrun
  | JSpin

type_synonym 'a jread = "jfault + 'a \<times> bytes"

definition jfail :: "bytes \<Rightarrow> bytes \<Rightarrow> 'a jread" where
  "jfail m p = Inl (JMsg m p)"

subsection \<open>Blanks and escapes\<close>

definition jspace :: "byte \<Rightarrow> bool" where
  "jspace ch \<longleftrightarrow> ch = SPACE \<or> ch = TAB \<or> ch = LF \<or> ch = CR"

definition jskip_ws :: "bytes \<Rightarrow> bytes" where
  "jskip_ws p = dropWhile jspace p"

definition jhex :: "byte \<Rightarrow> u32 option" where
  "jhex ch =
    (if 0x30 \<le> ch \<and> ch \<le> 0x39 then Some (ucast ch - 0x30)
     else if 0x61 \<le> ch \<and> ch \<le> 0x66 then Some (ucast ch - 0x61 + 10)
     else if 0x41 \<le> ch \<and> ch \<le> 0x46 then Some (ucast ch - 0x41 + 10)
     else None)"

fun jhex_run :: "u32 \<Rightarrow> bytes \<Rightarrow> u32 option" where
  "jhex_run cp [] = Some cp"
| "jhex_run cp (ch # cs) = (case jhex ch of None \<Rightarrow> None | Some d \<Rightarrow> jhex_run (cp * 16 + d) cs)"

definition jescape_u :: "bytes \<Rightarrow> u32 jread" where
  "jescape_u p =
    (if length p < 4 then jfail (lit ''incomplete '' @ BACKSLASH # lit ''u escape'') p
     else case jhex_run 0 (take 4 p) of
            None \<Rightarrow> jfail (lit ''invalid '' @ BACKSLASH # lit ''u escape'') p
          | Some cp \<Rightarrow>
              (let q = drop 4 p
               in if 0xD800 \<le> cp \<and> cp \<le> 0xDBFF \<and> 6 \<le> length q \<and> q ! 0 = BACKSLASH \<and> q ! 1 = 0x75 then
                    (case jhex_run 0 (take 4 (drop 2 q)) of
                       None \<Rightarrow> Inr (cp, q)
                     | Some lo \<Rightarrow>
                         (if 0xDC00 \<le> lo \<and> lo \<le> 0xDFFF
                          then Inr (0x10000 + push_bit 10 (cp - 0xD800) + (lo - 0xDC00), drop 6 q)
                          else Inr (cp, q)))
                  else Inr (cp, q)))"

definition jput_utf8 :: "u32 \<Rightarrow> sink \<Rightarrow> sink" where
  "jput_utf8 cp out =
    (if cp < 0x80 then putch (ucast cp) out
     else if cp < 0x800 then
       putch (ucast (0x80 OR (cp AND 0x3F))) (putch (ucast (0xC0 OR drop_bit 6 cp)) out)
     else if cp < 0x10000 then
       putch (ucast (0x80 OR (cp AND 0x3F)))
         (putch (ucast (0x80 OR (drop_bit 6 cp AND 0x3F)))
           (putch (ucast (0xE0 OR drop_bit 12 cp)) out))
     else
       putch (ucast (0x80 OR (cp AND 0x3F)))
         (putch (ucast (0x80 OR (drop_bit 6 cp AND 0x3F)))
           (putch (ucast (0x80 OR (drop_bit 12 cp AND 0x3F)))
             (putch (ucast (0xF0 OR drop_bit 18 cp)) out))))"

definition jsimple :: "byte \<Rightarrow> byte option" where
  "jsimple e =
    (if e = DQUOTE then Some DQUOTE
     else if e = BACKSLASH then Some BACKSLASH
     else if e = 0x2F then Some 0x2F
     else if e = 0x62 then Some 0x08
     else if e = 0x66 then Some 0x0C
     else if e = 0x6E then Some LF
     else if e = 0x72 then Some CR
     else if e = 0x74 then Some TAB
     else None)"

subsection \<open>Strings\<close>

lemma jescape_u_shorter: "jescape_u p = Inr (cp, q) \<Longrightarrow> length q + 4 \<le> length p"
  by (auto simp: jescape_u_def jfail_def Let_def split: if_splits option.splits)

text \<open>The second loop of \<open>jstring\<close>, which rebuilds the text behind the plain prefix.\<close>

function jrebuild :: "bytes \<Rightarrow> sink \<Rightarrow> sink jread" where
  "jrebuild [] out = jfail (lit ''unterminated string'') []"
| "jrebuild (ch # cs) out =
    (if ch = DQUOTE then Inr (out, cs)
     else if ch < 0x20 then jfail (lit ''control character in string'') (ch # cs)
     else if ch \<noteq> BACKSLASH then jrebuild cs (putch ch out)
     else case cs of
            [] \<Rightarrow> jfail (lit ''unterminated escape'') cs
          | e # es \<Rightarrow>
              (if e = 0x75 then
                 (case jescape_u es of
                    Inl f \<Rightarrow> Inl f
                  | Inr (cp, q) \<Rightarrow>
                      (if 0xD800 \<le> cp \<and> cp \<le> 0xDFFF then jfail (lit ''lone surrogate in '' @ BACKSLASH # lit ''u escape'') q
                       else jrebuild q (jput_utf8 cp out)))
               else case jsimple e of
                      Some c \<Rightarrow> jrebuild es (putch c out)
                    | None \<Rightarrow> jfail (lit ''invalid escape'') cs))"
  by pat_completeness auto
termination by (relation "measure (\<lambda>(p, out). length p)") (auto dest: jescape_u_shorter)

declare jrebuild.simps [simp del]

definition jplain :: "byte \<Rightarrow> bool" where
  "jplain ch \<longleftrightarrow> ch \<noteq> DQUOTE \<and> ch \<noteq> BACKSLASH \<and> \<not> ch < 0x20"

text \<open>The terminating NUL goes behind the text, into the same block.\<close>

fun jterminate :: "sink \<Rightarrow> bytes option" where
  "jterminate (Buf out n) = (if n < length out then Some (take n out) else None)"
| "jterminate _ = None"

text \<open>A copy of \<open>s\<close> and its NUL into a fresh block of \<open>cap\<close> bytes.\<close>

definition jcopy :: "nat \<Rightarrow> bytes \<Rightarrow> bytes option" where
  "jcopy cap s = jterminate (put_all s (Buf (replicate cap 0) 0))"

definition jstring :: "bytes \<Rightarrow> bytes jread" where
  "jstring p =
    (let start = tl p;
         r = dropWhile jplain start
     in case r of
          [] \<Rightarrow> jfail (lit ''unterminated string'') r
        | ch # cs \<Rightarrow>
            (if ch = DQUOTE then
               (let span = takeWhile jplain start
                in case jcopy (length span + 1) span of None \<Rightarrow> Inl JOverrun | Some s \<Rightarrow> Inr (s, cs))
             else case jrebuild r (put_all (takeWhile jplain start)
                                    (Buf (replicate (length start + 16) 0) 0)) of
                    Inl f \<Rightarrow> Inl f
                  | Inr (out, q) \<Rightarrow>
                      (case jterminate out of None \<Rightarrow> Inl JOverrun | Some s \<Rightarrow> Inr (s, q))))"

subsection \<open>Numbers\<close>

definition jdigit :: "byte \<Rightarrow> bool" where
  "jdigit d \<longleftrightarrow> 0x30 \<le> d \<and> d \<le> 0x39"

definition jnumch :: "byte \<Rightarrow> bool" where
  "jnumch d \<longleftrightarrow> jdigit d \<or> d = DOT \<or> d = 0x65 \<or> d = 0x45 \<or> d = PLUS \<or> d = MINUS"

text \<open>
  \<open>strtoll\<close> in base 10 on a sign and digits: no value without a digit (\<open>end\<close> stays on the sign)
  and none outside 64 bits (\<open>errno\<close> is set).
\<close>

definition jstrtoll :: "bytes \<Rightarrow> u64 option" where
  "jstrtoll tok =
    (let neg = (tok \<noteq> [] \<and> hd tok = MINUS);
         ds = (if neg then tl tok else tok);
         m = foldl (\<lambda>a c. a * 10 + (int (unat c) - 48)) 0 ds;
         v = (if neg then - m else m)
     in if ds = [] \<or> v < - (2 ^ 63) \<or> v \<ge> 2 ^ 63 then None else Some (word_of_int v))"

definition jnumber_value :: "(bytes \<Rightarrow> u64) \<Rightarrow> bytes \<Rightarrow> jv" where
  "jnumber_value sd tok =
    (if list_all jdigit (if tok \<noteq> [] \<and> hd tok = MINUS then tl tok else tok)
     then (case jstrtoll tok of Some i \<Rightarrow> JV_INT i | None \<Rightarrow> JV_NUM (sd tok))
     else JV_NUM (sd tok))"

text \<open>The token is copied into \<open>char tmp[64]\<close>, with a NUL behind it for \<open>strtod\<close> and \<open>strtoll\<close>.\<close>

definition jnumber :: "(bytes \<Rightarrow> u64) \<Rightarrow> bytes \<Rightarrow> jv jread" where
  "jnumber sd p =
    (let sign = (if hd p = MINUS then [MINUS] else []);
         r = drop (length sign) p;
         tok = sign @ takeWhile jnumch r;
         q = dropWhile jnumch r
     in if tok = [] \<or> 64 \<le> length tok then jfail (lit ''invalid number'') q
        else case jcopy 64 tok of
               None \<Rightarrow> Inl JOverrun
             | Some tmp \<Rightarrow> Inr (jnumber_value sd tmp, q))"

subsection \<open>Arrays and objects\<close>

text \<open>
  The end of a round: a full block is replaced by one of twice its capacity, and the element is
  stored behind the others. \<open>None\<close> is a store outside the block.
\<close>

definition jappend :: "nat \<Rightarrow> 'a list \<Rightarrow> 'a \<Rightarrow> (nat \<times> 'a list) option" where
  "jappend cap xs x =
    (let cap = (if length xs = cap then cap * 2 else cap)
     in if length xs < cap then Some (cap, xs @ [x]) else None)"

text \<open>
  The loops of \<open>jarray\<close> and \<open>jobject\<close> behind the first bracket, with the capacity of the block, over the reader of values one
  level deeper; each round takes at least one byte, so the length of the text is rounds enough.
\<close>

fun jitems :: "nat \<Rightarrow> (bytes \<Rightarrow> jv jread) \<Rightarrow> nat \<Rightarrow> jv list \<Rightarrow> bytes \<Rightarrow> jv jread" where
  "jitems 0 rd cap items p = Inl JSpin"
| "jitems (Suc k) rd cap items p =
    (case rd p of
       Inl f \<Rightarrow> Inl f
     | Inr (val, p1) \<Rightarrow>
         (case jappend cap items val of
            None \<Rightarrow> Inl JOverrun
          | Some (cap, items) \<Rightarrow>
              (let q = jskip_ws p1
               in case q of
                    [] \<Rightarrow> jfail (lit ''expected ',' or ']'' @ [SQUOTE]) q
                  | ch # cs \<Rightarrow>
                      (if ch = COMMA then jitems k rd cap items cs
                       else if ch = RBRACK then Inr (JV_ARRAY items, cs)
                       else jfail (lit ''expected ',' or ']'' @ [SQUOTE]) q))))"

fun jmembers :: "nat \<Rightarrow> (bytes \<Rightarrow> jv jread) \<Rightarrow> nat \<Rightarrow> (bytes \<times> jv) list \<Rightarrow> bytes \<Rightarrow> jv jread" where
  "jmembers 0 rd cap members p = Inl JSpin"
| "jmembers (Suc k) rd cap members p =
    (let p0 = jskip_ws p
     in if p0 = [] \<or> hd p0 \<noteq> DQUOTE then jfail (lit ''expected string key'') p0
        else case jstring p0 of
               Inl f \<Rightarrow> Inl f
             | Inr (key, p1) \<Rightarrow>
                 (let p2 = jskip_ws p1
                  in if p2 = [] \<or> hd p2 \<noteq> COLON then jfail (lit ''expected ':'' @ [SQUOTE]) p2
                     else case rd (tl p2) of
                            Inl f \<Rightarrow> Inl f
                          | Inr (val, p3) \<Rightarrow>
                              (case jappend cap members (key, val) of
                                 None \<Rightarrow> Inl JOverrun
                               | Some (cap, members) \<Rightarrow>
                                   (let q = jskip_ws p3
                                    in case q of
                                         [] \<Rightarrow> jfail (lit ''expected ',' or '}'' @ [SQUOTE]) q
                                       | ch # cs \<Rightarrow>
                                           (if ch = COMMA then jmembers k rd cap members cs
                                            else if ch = RBRACE then Inr (JV_OBJECT members, cs)
                                            else jfail (lit ''expected ',' or '}'' @ [SQUOTE]) q)))))"

definition jarray :: "(bytes \<Rightarrow> jv jread) \<Rightarrow> bytes \<Rightarrow> jv jread" where
  "jarray rd p =
    (let q = jskip_ws (tl p)
     in if q \<noteq> [] \<and> hd q = RBRACK then Inr (JV_ARRAY [], tl q)
        else jitems (length p) rd 8 [] q)"

definition jobject :: "(bytes \<Rightarrow> jv jread) \<Rightarrow> bytes \<Rightarrow> jv jread" where
  "jobject rd p =
    (let q = jskip_ws (tl p)
     in if q \<noteq> [] \<and> hd q = RBRACE then Inr (JV_OBJECT [], tl q)
        else jmembers (length p) rd 8 [] q)"

subsection \<open>Values and texts\<close>

definition JSON_MAX_DEPTH :: nat where
  "JSON_MAX_DEPTH = 128"

text \<open>\<open>jvalue\<close>: the argument is how often \<open>c->depth\<close> may still be raised.\<close>

fun jvalue :: "nat \<Rightarrow> (bytes \<Rightarrow> u64) \<Rightarrow> bytes \<Rightarrow> jv jread" where
  "jvalue 0 sd p = jfail (lit ''schema nesting too deep'') p"
| "jvalue (Suc d) sd p =
    (let q = jskip_ws p
     in case q of
          [] \<Rightarrow> jfail (lit ''unexpected end of schema'') q
        | ch # cs \<Rightarrow>
            (if ch = LBRACE then jobject (jvalue d sd) q
             else if ch = LBRACK then jarray (jvalue d sd) q
             else if ch = DQUOTE then
               (case jstring q of Inl f \<Rightarrow> Inl f | Inr (s, r) \<Rightarrow> Inr (JV_STRING s, r))
             else if prefix (lit ''true'') q then Inr (JV_BOOL True, drop 4 q)
             else if prefix (lit ''false'') q then Inr (JV_BOOL False, drop 5 q)
             else if prefix (lit ''null'') q then Inr (JV_NULL, drop 4 q)
             else if ch = MINUS \<or> jdigit ch then jnumber sd q
             else jfail (lit ''unexpected character'') q))"

text \<open>The message of a fault: \<open>%s at byte %zu\<close>.\<close>

definition at_byte :: "bytes \<Rightarrow> bytes \<Rightarrow> bytes \<Rightarrow> bytes" where
  "at_byte src m p = m @ lit '' at byte '' @ dec_digits (of_nat (length src - length p)) []"

text \<open>
  \<open>json_read\<close>: the value or a null pointer, and what the caller's buffer of \<open>err_cap\<close> bytes
  holds up to its NUL; \<open>snprintf\<close> cuts the message. The faults that are not messages stand
  for what the C code must not do.
\<close>

definition json_read ::
    "(bytes \<Rightarrow> u64) \<Rightarrow> bytes \<Rightarrow> nat \<Rightarrow> jfault + jv option \<times> bytes" where
  "json_read sd src err_cap =
    (case jvalue JSON_MAX_DEPTH sd src of
       Inl (JMsg m p) \<Rightarrow> Inr (None, take (err_cap - 1) (at_byte src m p))
     | Inl f \<Rightarrow> Inl f
     | Inr (v, p) \<Rightarrow>
         (let q = jskip_ws p
          in if q \<noteq> [] then Inr (None, take (err_cap - 1) (at_byte src (lit ''trailing content'') q))
             else Inr (Some v, [])))"

end
