(* ===== verification/Json_Props.thy ===== *)
theory Json_Props
  imports Json_Read Number_Props
begin

text \<open>
  The JSON reader ends on every text: its loops take a byte in every round, the rebuilt
  strings fit the block the code asks for, its values are no deeper than the cap, and their
  kind is the one their first byte announces.
\<close>

subsection \<open>Results of the routines\<close>

text \<open>
  A routine started at \<open>p\<close> is sound when it fails with a message at a place in \<open>p\<close> or succeeds
  and takes at least one byte.
\<close>

fun jsound :: "bytes \<Rightarrow> 'a jread \<Rightarrow> bool" where
  "jsound p (Inl (JMsg m q)) = suffix q p"
| "jsound p (Inl f) = False"
| "jsound p (Inr (a, q)) = (suffix q p \<and> length q < length p)"

lemma jsound_fail [simp]: "jsound p (jfail m q) = suffix q p"
  by (simp add: jfail_def)

lemma jsound_within:
  assumes "jsound q r" "suffix q p"
  shows "jsound p r"
proof (cases r)
  case (Inl f)
  then show ?thesis using assms by (cases f) (auto intro: suffix_order.trans)
next
  case (Inr x)
  moreover have "length q \<le> length p" using assms(2) by (rule suffix_length_le)
  ultimately show ?thesis using assms by (cases x) (auto intro: suffix_order.trans)
qed

lemma jskip_ws_suffix [simp, suffix_intros]: "suffix (jskip_ws p) p"
  by (simp add: jskip_ws_def suffix_dropWhile)

lemma jskip_ws_shorter: "length (jskip_ws p) \<le> length p"
  by (simp add: jskip_ws_def length_dropWhile_le)

lemma jskip_ws_within: "suffix p q \<Longrightarrow> suffix (jskip_ws p) q"
  by (rule suffix_order.trans [OF jskip_ws_suffix])

lemma tl_within: "suffix p q \<Longrightarrow> suffix (tl p) q"
  by (rule suffix_order.trans [OF suffix_tl])

lemma jescape_u_sound: "jsound p (jescape_u p)"
proof -
  have "suffix (drop 6 (drop 4 p)) p" "suffix (drop 4 p) p"
    by (simp_all add: suffix_drop)
  then show ?thesis
    by (auto simp: jescape_u_def Let_def split: option.split)
qed

lemma jput_utf8_bytes: "jput_utf8 cp s = put_all (utf8_bytes cp) s"
  using utf8_put_bytes [of cp s] by (simp add: jput_utf8_def utf8_put_def)

lemma utf8_bytes_short: "length (utf8_bytes cp) \<le> 4"
  by (simp add: utf8_bytes_def)

text \<open>The room of the rebuilding loop: the text ahead fits behind what is stored.\<close>

fun jroomy :: "sink \<Rightarrow> bytes \<Rightarrow> bool" where
  "jroomy (Buf out n) p = (n + length p < length out)"
| "jroomy _ p = False"

lemma jroomy_put_all:
  assumes "jroomy s p" "length bs + length q \<le> length p"
  shows "jroomy (put_all bs s) q"
proof (cases s)
  case (Buf out n)
  then have "n + length bs \<le> length out" using assms by simp
  from put_all_Buf [OF this] show ?thesis using Buf assms by simp
qed (use assms in auto)

lemma jroomy_putch: "jroomy s (c # p) \<Longrightarrow> jroomy (putch b s) p"
  using jroomy_put_all [of s "c # p" "[b]" p] by simp

fun rebuilt :: "bytes \<Rightarrow> sink jread \<Rightarrow> bool" where
  "rebuilt p (Inr (s, q)) = (jsound p (Inr (s, q)) \<and> jroomy s q)"
| "rebuilt p (Inl f) = jsound p (Inl f :: sink jread)"

lemma rebuilt_fail [simp]: "rebuilt p (jfail m q) = suffix q p"
  by (simp add: jfail_def)

lemma rebuilt_within:
  assumes "rebuilt q r" "suffix q p"
  shows "rebuilt p r"
proof (cases r)
  case (Inl f)
  then show ?thesis using assms jsound_within [of q r p] by simp
next
  case (Inr x)
  then show ?thesis using assms jsound_within [of q r p] by (cases x) simp
qed

lemma jrebuild_sound: "jroomy s p \<Longrightarrow> rebuilt p (jrebuild p s)"
proof (induction p s rule: jrebuild.induct)
  case (1 out)
  then show ?case by (simp add: jrebuild.simps)
next
  case (2 ch cs out)
  show ?case
  proof (cases "ch \<noteq> BACKSLASH")
    case True
    have "jroomy out cs" using "2.prems" by (cases out) auto
    moreover have "rebuilt (ch # cs) (jrebuild cs (putch ch out))"
      if "ch \<noteq> DQUOTE" "\<not> ch < 0x20" "ch \<noteq> BACKSLASH"
      using "2.IH"(1) [OF that jroomy_putch [OF "2.prems"]] by (rule rebuilt_within) (simp add: suffix_Cons)
    ultimately show ?thesis using True by (simp add: jrebuild.simps(2) suffix_Cons)
  next
    case False
    then have ch: "ch \<noteq> DQUOTE" "\<not> ch < 0x20" "\<not> ch \<noteq> BACKSLASH" by (simp_all add: word_less_nat_alt)
    show ?thesis
    proof (cases cs)
      case Nil
      then show ?thesis using ch by (simp add: jrebuild.simps(2) suffix_Cons)
    next
      case (Cons e es)
      have within: "suffix es (ch # cs)" by (simp add: Cons suffix_Cons)
      show ?thesis
      proof (cases "e = 0x75")
        case u: True
        show ?thesis
        proof (cases "jescape_u es")
          case (Inl f)
          have "jsound (ch # cs) (jescape_u es)"
            using jescape_u_sound within by (rule jsound_within)
          then show ?thesis using Inl ch Cons u by (cases f) (simp_all add: jrebuild.simps(2))
        next
          case (Inr x)
          obtain cp q where x: "x = (cp, q)" by force
          have q: "suffix q es" using jescape_u_sound [of es] by (simp add: Inr x)
          then have q': "suffix q (ch # cs)" using within by (rule suffix_order.trans)
          have len: "length q + 4 \<le> length es" using Inr x jescape_u_shorter by simp
          show ?thesis
          proof (cases "0xD800 \<le> cp \<and> cp \<le> 0xDFFF")
            case True
            then show ?thesis using Inr x ch Cons u q' by (simp add: jrebuild.simps(2))
          next
            case sc: False
            have "jroomy (jput_utf8 cp out) q"
              unfolding jput_utf8_bytes
              using "2.prems" by (rule jroomy_put_all) (use len utf8_bytes_short [of cp] Cons in simp)
            from "2.IH"(2) [OF ch Cons u Inr x [symmetric] sc this]
            have "rebuilt q (jrebuild q (jput_utf8 cp out))" .
            then have "rebuilt (ch # cs) (jrebuild q (jput_utf8 cp out))" using q' by (rule rebuilt_within)
            moreover have "jrebuild (ch # cs) out = jrebuild q (jput_utf8 cp out)"
              using Inr x ch Cons u sc by (subst jrebuild.simps(2)) auto
            ultimately show ?thesis by simp
          qed
        qed
      next
        case u: False
        show ?thesis
        proof (cases "jsimple e")
          case None
          then show ?thesis using ch Cons u by (simp add: jrebuild.simps(2) suffix_Cons)
        next
          case (Some c)
          have "jroomy (putch c out) es"
            using jroomy_put_all [OF "2.prems", of "[c]" es] Cons by simp
          from "2.IH"(3) [OF ch Cons u Some this]
          have "rebuilt es (jrebuild es (putch c out))" .
          then have "rebuilt (ch # cs) (jrebuild es (putch c out))" using within by (rule rebuilt_within)
          then show ?thesis using Some ch Cons u by (simp add: jrebuild.simps(2))
        qed
      qed
    qed
  qed
qed

lemma jterminate_room: "jroomy s q \<Longrightarrow> \<exists>t. jterminate s = Some t"
  by (cases s) auto

subsection \<open>The blocks\<close>

text \<open>
  What the loops build is what plain lists give: a capacity of at least one that is not
  exceeded stays so. The further proofs are over the loops without the blocks.
\<close>

lemma jcopy_fits: "length s < cap \<Longrightarrow> jcopy cap s = Some s"
  by (simp add: jcopy_def put_all_Buf)

lemma jappend_fits:
  "0 < cap \<Longrightarrow> length xs \<le> cap \<Longrightarrow>
   \<exists>cap'. jappend cap xs x = Some (cap', xs @ [x]) \<and> 0 < cap' \<and> length (xs @ [x]) \<le> cap'"
  by (auto simp: jappend_def Let_def)

fun items_run :: "nat \<Rightarrow> (bytes \<Rightarrow> jv jread) \<Rightarrow> jv list \<Rightarrow> bytes \<Rightarrow> jv jread" where
  "items_run 0 rd items p = Inl JSpin"
| "items_run (Suc k) rd items p =
    (case rd p of
       Inl f \<Rightarrow> Inl f
     | Inr (val, p1) \<Rightarrow>
         (let q = jskip_ws p1
          in case q of
               [] \<Rightarrow> jfail (lit ''expected ',' or ']'' @ [SQUOTE]) q
             | ch # cs \<Rightarrow>
                 (if ch = COMMA then items_run k rd (items @ [val]) cs
                  else if ch = RBRACK then Inr (JV_ARRAY (items @ [val]), cs)
                  else jfail (lit ''expected ',' or ']'' @ [SQUOTE]) q)))"

fun members_run :: "nat \<Rightarrow> (bytes \<Rightarrow> jv jread) \<Rightarrow> (bytes \<times> jv) list \<Rightarrow> bytes \<Rightarrow> jv jread" where
  "members_run 0 rd members p = Inl JSpin"
| "members_run (Suc k) rd members p =
    (let p0 = jskip_ws p
     in if p0 = [] \<or> hd p0 \<noteq> DQUOTE then jfail (lit ''expected string key'') p0
        else case jstring p0 of
               Inl f \<Rightarrow> Inl f
             | Inr (key, p1) \<Rightarrow>
                 (let p2 = jskip_ws p1
                  in if p2 = [] \<or> hd p2 \<noteq> COLON then jfail (lit ''expected ':'' @ [SQUOTE]) p2
                     else case rd (tl p2) of
                            Inl f \<Rightarrow> Inl f
                          | Inr (val, p3) \<Rightarrow>
                              (let q = jskip_ws p3
                               in case q of
                                    [] \<Rightarrow> jfail (lit ''expected ',' or '}'' @ [SQUOTE]) q
                                  | ch # cs \<Rightarrow>
                                      (if ch = COMMA then members_run k rd (members @ [(key, val)]) cs
                                       else if ch = RBRACE then Inr (JV_OBJECT (members @ [(key, val)]), cs)
                                       else jfail (lit ''expected ',' or '}'' @ [SQUOTE]) q))))"

lemma jitems_run:
  assumes "0 < cap" "length items \<le> cap"
  shows "jitems k rd cap items p = items_run k rd items p"
  using assms
proof (induction k arbitrary: cap items p)
  case (Suc k)
  show ?case
  proof (cases "rd p")
    case (Inr x)
    then obtain v p1 where v: "rd p = Inr (v, p1)" by (cases x) auto
    obtain cap' where "jappend cap items v = Some (cap', items @ [v])" "0 < cap'" "length (items @ [v]) \<le> cap'"
      using jappend_fits [OF Suc.prems] by blast
    then show ?thesis using Suc.IH by (simp add: v Let_def split: list.split)
  qed simp
qed simp

lemma jmembers_run:
  assumes "0 < cap" "length members \<le> cap"
  shows "jmembers k rd cap members p = members_run k rd members p"
  using assms
proof (induction k arbitrary: cap members p)
  case (Suc k)
  have room: "\<exists>cap'. jappend cap members m = Some (cap', members @ [m])
      \<and> (\<forall>cs. jmembers k rd cap' (members @ [m]) cs = members_run k rd (members @ [m]) cs)" for m
    using jappend_fits [OF Suc.prems, of m] Suc.IH by blast
  have step: "(case jappend cap members m of None \<Rightarrow> Inl JOverrun
      | Some (cap, members) \<Rightarrow>
          (let q = jskip_ws p3
           in case q of
                [] \<Rightarrow> jfail (lit ''expected ',' or '}'' @ [SQUOTE]) q
              | ch # cs \<Rightarrow>
                  (if ch = COMMA then jmembers k rd cap members cs
                   else if ch = RBRACE then Inr (JV_OBJECT members, cs)
                   else jfail (lit ''expected ',' or '}'' @ [SQUOTE]) q))) =
     (let q = jskip_ws p3
      in case q of
           [] \<Rightarrow> jfail (lit ''expected ',' or '}'' @ [SQUOTE]) q
         | ch # cs \<Rightarrow>
             (if ch = COMMA then members_run k rd (members @ [m]) cs
              else if ch = RBRACE then Inr (JV_OBJECT (members @ [m]), cs)
              else jfail (lit ''expected ',' or '}'' @ [SQUOTE]) q))" for m p3
    using room [of m] by (auto simp: Let_def split: list.split)
  show ?case
    unfolding jmembers.simps members_run.simps step ..
qed simp

lemma jarray_eq: "jarray rd p =
    (let q = jskip_ws (tl p)
     in if q \<noteq> [] \<and> hd q = RBRACK then Inr (JV_ARRAY [], tl q) else items_run (length p) rd [] q)"
  by (simp add: jarray_def jitems_run Let_def)

lemma jobject_eq: "jobject rd p =
    (let q = jskip_ws (tl p)
     in if q \<noteq> [] \<and> hd q = RBRACE then Inr (JV_OBJECT [], tl q) else members_run (length p) rd [] q)"
  by (simp add: jobject_def jmembers_run Let_def)

lemma jnumber_eq: "jnumber sd p =
    (let sign = (if hd p = MINUS then [MINUS] else []);
         r = drop (length sign) p;
         tok = sign @ takeWhile jnumch r;
         q = dropWhile jnumch r
     in if tok = [] \<or> 64 \<le> length tok then jfail (lit ''invalid number'') q
        else Inr (jnumber_value sd tok, q))"
  unfolding jnumber_def Let_def by (simp add: jcopy_fits)

lemma jstring_eq: "jstring p =
    (let start = tl p;
         r = dropWhile jplain start
     in case r of
          [] \<Rightarrow> jfail (lit ''unterminated string'') r
        | ch # cs \<Rightarrow>
            (if ch = DQUOTE then Inr (takeWhile jplain start, cs)
             else case jrebuild r (put_all (takeWhile jplain start)
                                    (Buf (replicate (length start + 16) 0) 0)) of
                    Inl f \<Rightarrow> Inl f
                  | Inr (out, q) \<Rightarrow>
                      (case jterminate out of None \<Rightarrow> Inl JOverrun | Some s \<Rightarrow> Inr (s, q))))"
  unfolding jstring_def Let_def jcopy_fits [OF less_add_one] option.case ..

lemma jstring_sound:
  assumes "p = DQUOTE # cs"
  shows "jsound p (jstring p)"
proof -
  define w r where "w = takeWhile jplain cs" and "r = dropWhile jplain cs"
  have r: "suffix r p" "length w + length r = length cs"
    using suffix_dropWhile [of jplain cs] length_takeWhile_dropWhile [of jplain cs]
    by (simp_all add: assms w_def r_def suffix_Cons)
  show ?thesis
  proof (cases "r = [] \<or> hd r = DQUOTE")
    case True
    then show ?thesis using r assms
      by (cases r) (auto simp: jstring_eq Let_def simp flip: r_def w_def dest: suffix_ConsD)
  next
    case False
    define s where "s = put_all w (Buf (replicate (length cs + 16) 0) 0)"
    have "jroomy s r"
      unfolding s_def by (rule jroomy_put_all [where p = cs]) (use r in simp_all)
    then have reb: "rebuilt p (jrebuild r s)" using jrebuild_sound r(1) by (blast intro: rebuilt_within)
    have "jstring p = (case jrebuild r s of Inl f \<Rightarrow> Inl f
      | Inr (out, q) \<Rightarrow> (case jterminate out of None \<Rightarrow> Inl JOverrun | Some t \<Rightarrow> Inr (t, q)))"
      using False by (cases r) (simp_all add: assms jstring_eq Let_def s_def flip: r_def w_def)
    moreover have "jsound p (case jrebuild r s of Inl f \<Rightarrow> Inl f
      | Inr (out, q) \<Rightarrow> (case jterminate out of None \<Rightarrow> Inl JOverrun | Some t \<Rightarrow> Inr (t, q)))"
    proof (cases "jrebuild r s")
      case (Inl f)
      then show ?thesis using reb by (cases f) simp_all
    next
      case (Inr x)
      then obtain out q where x: "x = (out, q)" "jroomy out q" using reb by (cases x) auto
      then obtain t where "jterminate out = Some t" using jterminate_room by blast
      then show ?thesis using Inr x reb by simp
    qed
    ultimately show ?thesis by simp
  qed
qed

lemma jnumber_sound:
  assumes "p = c # cs" "c = MINUS \<or> jdigit c"
  shows "jsound p (jnumber sd p)"
proof -
  define r where "r = (if c = MINUS then cs else p)"
  have q: "suffix (dropWhile jnumch r) p"
    using suffix_dropWhile [of jnumch r] assms by (auto simp: r_def suffix_Cons)
  have "length (dropWhile jnumch r) < length p"
    using assms length_dropWhile_le [of jnumch cs] by (auto simp: r_def jnumch_def)
  moreover have "drop (length (if hd p = MINUS then [MINUS] else [])) p = r"
    using assms(1) by (simp add: r_def)
  ultimately show ?thesis using q unfolding jnumber_eq Let_def by simp
qed

lemma jitems_sound:
  assumes "\<And>p. jsound p (rd p)" "length p < k"
  shows "jsound p (items_run k rd items p)"
  using assms(2)
proof (induction k arbitrary: items p)
  case (Suc k)
  show ?case
  proof (cases "rd p")
    case (Inl f)
    then show ?thesis using assms(1) [of p] by (cases f) simp_all
  next
    case (Inr x)
    obtain v p1 where x: "x = (v, p1)" by force
    have p1: "suffix p1 p" "length p1 < length p" using assms(1) [of p] Inr x by simp_all
    have q: "suffix (jskip_ws p1) p" using jskip_ws_suffix p1(1) by (rule suffix_order.trans)
    show ?thesis
    proof (cases "jskip_ws p1")
      case Nil
      then show ?thesis using Inr x by simp
    next
      case (Cons ch cs)
      have cs: "suffix cs p" using q Cons by (auto dest: suffix_ConsD)
      have len: "length cs < length p1" using jskip_ws_shorter [of p1] Cons by simp
      have "jsound p (items_run k rd (items @ [v]) cs)"
        using Suc.IH cs by (rule jsound_within) (use len p1 Suc.prems in simp)
      then show ?thesis using Inr x Cons cs q len p1 by simp
    qed
  qed
qed simp

lemma jmembers_sound:
  assumes "\<And>p. jsound p (rd p)" "length p < k"
  shows "jsound p (members_run k rd members p)"
  using assms(2)
proof (induction k arbitrary: members p)
  case (Suc k)
  define p0 where "p0 = jskip_ws p"
  have p0: "suffix p0 p" "length p0 \<le> length p" by (simp_all add: p0_def jskip_ws_shorter)
  show ?case
  proof (cases "p0 = [] \<or> hd p0 \<noteq> DQUOTE")
    case True
    then show ?thesis using p0 by (auto simp: p0_def)
  next
    case False
    then obtain ks where ks: "p0 = DQUOTE # ks" by (cases p0) auto
    show ?thesis
    proof (cases "jstring p0")
      case (Inl f)
      have "jsound p (jstring p0)" using jstring_sound [OF ks] p0(1) by (rule jsound_within)
      then show ?thesis using Inl False by (cases f) (simp_all flip: p0_def)
    next
      case (Inr x)
      obtain key p1 where x: "x = (key, p1)" by force
      define p2 where "p2 = jskip_ws p1"
      have p1: "suffix p1 p0" "length p1 < length p0" using jstring_sound [OF ks] Inr x by simp_all
      have "suffix p1 p" using p1(1) p0(1) by (rule suffix_order.trans)
      then have p2: "suffix p2 p" "length p2 < length p"
        using p0(2) p1(2) jskip_ws_shorter [of p1] by (simp_all add: p2_def jskip_ws_within)
      show ?thesis
      proof (cases "p2 = [] \<or> hd p2 \<noteq> COLON")
        case True
        then show ?thesis using Inr x False p2 by (auto simp flip: p0_def p2_def)
      next
        case colon: False
        have t2: "suffix (tl p2) p" "length (tl p2) < length p"
          using p2 by (simp_all add: tl_within)
        show ?thesis
        proof (cases "rd (tl p2)")
          case (Inl f)
          have "jsound p (rd (tl p2))" using assms(1) t2(1) by (rule jsound_within)
          then show ?thesis using Inl Inr x False colon by (cases f) (simp_all flip: p0_def p2_def)
        next
          case rd: (Inr y)
          obtain v p3 where y: "y = (v, p3)" by force
          have p3: "suffix p3 p" "length p3 < length p"
            using assms(1) [of "tl p2"] rd y t2 by (simp_all add: suffix_order.trans [OF _ t2(1)])
          have q: "suffix (jskip_ws p3) p" using jskip_ws_suffix p3(1) by (rule suffix_order.trans)
          show ?thesis
          proof (cases "jskip_ws p3")
            case Nil
            then show ?thesis using Inr x False colon rd y by (simp flip: p0_def p2_def)
          next
            case (Cons ch cs)
            have cs: "suffix cs p" using q Cons by (auto dest: suffix_ConsD)
            have len: "length cs < length p3" using jskip_ws_shorter [of p3] Cons by simp
            have "jsound p (members_run k rd (members @ [(key, v)]) cs)"
              using Suc.IH cs by (rule jsound_within) (use len p3 Suc.prems in simp)
            then show ?thesis using Inr x False colon rd y Cons cs q len p3 by (simp flip: p0_def p2_def)
          qed
        qed
      qed
    qed
  qed
qed simp

lemma jarray_sound:
  assumes "\<And>p. jsound p (rd p)" "p \<noteq> []"
  shows "jsound p (jarray rd p)"
proof -
  define q where "q = jskip_ws (tl p)"
  have q: "suffix q p" "length q < length p"
    using assms(2) jskip_ws_shorter [of "tl p"]
    by (auto simp: q_def jskip_ws_within tl_within intro: le_less_trans)
  moreover have "jsound p (items_run (length p) rd [] q)"
    using jitems_sound [OF assms(1) q(2)] q(1) by (rule jsound_within)
  ultimately show ?thesis
    by (cases q) (auto simp: jarray_eq Let_def simp flip: q_def dest: suffix_ConsD)
qed

lemma jobject_sound:
  assumes "\<And>p. jsound p (rd p)" "p \<noteq> []"
  shows "jsound p (jobject rd p)"
proof -
  define q where "q = jskip_ws (tl p)"
  have q: "suffix q p" "length q < length p"
    using assms(2) jskip_ws_shorter [of "tl p"]
    by (auto simp: q_def jskip_ws_within tl_within intro: le_less_trans)
  moreover have "jsound p (members_run (length p) rd [] q)"
    using jmembers_sound [OF assms(1) q(2)] q(1) by (rule jsound_within)
  ultimately show ?thesis
    by (cases q) (auto simp: jobject_eq Let_def simp flip: q_def dest: suffix_ConsD)
qed

lemma jvalue_sound: "jsound p (jvalue d sd p)"
proof (induction d arbitrary: p)
  case (Suc d)
  define q where "q = jskip_ws p"
  have "jsound q (jvalue (Suc d) sd p)"
  proof (cases q)
    case Nil
    then show ?thesis by (simp flip: q_def)
  next
    case (Cons ch cs)
    have step: "jsound q (case jstring q of Inl f \<Rightarrow> Inl f | Inr (s, r) \<Rightarrow> Inr (JV_STRING s, r))"
      if "ch = DQUOTE"
    proof (cases "jstring q")
      case (Inl f)
      then show ?thesis using jstring_sound [of q cs] Cons that by (cases f) simp_all
    next
      case (Inr x)
      then show ?thesis using jstring_sound [of q cs] Cons that by (cases x) simp
    qed
    have drop: "suffix (drop n q) q \<and> length (drop n q) < length q" if "0 < n" for n
      using that Cons by (simp add: suffix_drop)
    have "jsound q (jobject (jvalue d sd) q)" "jsound q (jarray (jvalue d sd) q)"
      using Cons by (auto intro!: jobject_sound jarray_sound Suc.IH)
    then show ?thesis
      using step drop [of 4] drop [of 5] jnumber_sound [of q ch cs sd] Cons
      by (auto simp add: Let_def simp flip: q_def)
  qed
  then show ?case by (rule jsound_within) (simp add: q_def)
qed simp

lemma jdigit_is_dec: "jdigit c = is_dec c"
  by (simp add: jdigit_def is_dec_iff)

subsection \<open>Depth\<close>

text \<open>Values of at most \<open>d\<close> levels.\<close>

fun jv_within :: "nat \<Rightarrow> jv \<Rightarrow> bool" where
  "jv_within 0 v = False"
| "jv_within (Suc d) (JV_ARRAY vs) = list_all (jv_within d) vs"
| "jv_within (Suc d) (JV_OBJECT ms) = list_all (\<lambda>m. jv_within d (snd m)) ms"
| "jv_within (Suc d) v = True"

lemma jitems_within:
  assumes "\<And>p v q. rd p = Inr (v, q) \<Longrightarrow> P v"
  shows "list_all P items \<Longrightarrow> items_run k rd items p = Inr (v, q) \<Longrightarrow> \<exists>vs. v = JV_ARRAY vs \<and> list_all P vs"
proof (induction k arbitrary: items p)
  case (Suc k)
  then obtain w p1 where w: "rd p = Inr (w, p1)" by (auto split: sum.splits)
  have "list_all P (items @ [w])" using Suc.prems(1) assms [OF w] by simp
  from Suc.IH [OF this] this show ?case
    using Suc.prems(2) w by (auto simp: Let_def jfail_def split: list.splits if_splits)
qed simp

lemma jmembers_cases:
  assumes "members_run (Suc k) rd members p = Inr (v, q)"
  shows "\<exists>key w p2 p3 ch cs. rd p2 = Inr (w, p3) \<and> jskip_ws p3 = ch # cs \<and>
    (ch = COMMA \<and> members_run k rd (members @ [(key, w)]) cs = Inr (v, q) \<or>
     v = JV_OBJECT (members @ [(key, w)]))"
proof -
  define p0 where "p0 = jskip_ws p"
  have p0: "\<not> (p0 = [] \<or> hd p0 \<noteq> DQUOTE)"
    using assms by (auto simp: jfail_def simp flip: p0_def split: if_splits)
  then obtain key p1 where key: "jstring p0 = Inr (key, p1)"
    using assms by (auto simp: simp flip: p0_def split: sum.splits)
  define p2 where "p2 = jskip_ws p1"
  have p2: "\<not> (p2 = [] \<or> hd p2 \<noteq> COLON)"
    using assms p0 key by (auto simp: jfail_def simp flip: p0_def p2_def split: if_splits)
  then obtain w p3 where w: "rd (tl p2) = Inr (w, p3)"
    using assms p0 key by (auto simp flip: p0_def p2_def split: sum.splits)
  obtain ch cs where ch: "jskip_ws p3 = ch # cs"
    using assms p0 key p2 w by (cases "jskip_ws p3") (auto simp: jfail_def simp flip: p0_def p2_def)
  have "ch = COMMA \<and> members_run k rd (members @ [(key, w)]) cs = Inr (v, q) \<or>
     v = JV_OBJECT (members @ [(key, w)])"
    using assms p0 key p2 w ch by (auto simp: jfail_def simp flip: p0_def p2_def split: if_splits)
  then show ?thesis using w ch by blast
qed

lemma jmembers_within:
  assumes "\<And>p v q. rd p = Inr (v, q) \<Longrightarrow> P v"
  shows "list_all (\<lambda>m. P (snd m)) members \<Longrightarrow> members_run k rd members p = Inr (v, q) \<Longrightarrow>
    \<exists>ms. v = JV_OBJECT ms \<and> list_all (\<lambda>m. P (snd m)) ms"
proof (induction k arbitrary: members p)
  case (Suc k)
  obtain key w p2 p3 ch cs where w: "rd p2 = Inr (w, p3)"
    "ch = COMMA \<and> members_run k rd (members @ [(key, w)]) cs = Inr (v, q) \<or> v = JV_OBJECT (members @ [(key, w)])"
    using jmembers_cases [OF Suc.prems(2)] by blast
  have all: "list_all (\<lambda>m. P (snd m)) (members @ [(key, w)])" using Suc.prems(1) assms [OF w(1)] by simp
  from Suc.IH [OF all] all w(2) show ?case by blast
qed simp

lemma jvalue_cases:
  assumes "jvalue (Suc d) sd p = Inr (v, q)"
  shows "\<exists>c cs. jskip_ws p = c # cs \<and>
    (c = LBRACE \<and> jobject (jvalue d sd) (c # cs) = Inr (v, q) \<or>
     c = LBRACK \<and> jarray (jvalue d sd) (c # cs) = Inr (v, q) \<or>
     c = DQUOTE \<and> (\<exists>s. v = JV_STRING s) \<or>
     (c = 0x74 \<or> c = 0x66) \<and> (\<exists>b. v = JV_BOOL b) \<or>
     c = 0x6E \<and> v = JV_NULL \<or>
     (c = MINUS \<or> jdigit c) \<and> jnumber sd (c # cs) = Inr (v, q))"
proof -
  obtain c cs where c: "jskip_ws p = c # cs"
    using assms by (cases "jskip_ws p") (auto simp: jfail_def)
  have w: "prefix (lit ''true'') (c # cs) \<Longrightarrow> c = 0x74" "prefix (lit ''false'') (c # cs) \<Longrightarrow> c = 0x66"
    "prefix (lit ''null'') (c # cs) \<Longrightarrow> c = 0x6E"
    by (simp_all add: lit_def)
  consider "c = LBRACE" | "c = LBRACK" | "c = DQUOTE" | "c \<noteq> LBRACE" "c \<noteq> LBRACK" "c \<noteq> DQUOTE" by blast
  then show ?thesis
  proof cases
    case 3
    then show ?thesis using assms c by (auto split: sum.splits)
  next
    case 4
    then show ?thesis
      using assms c w unfolding jvalue.simps Let_def
      by (simp only: list.case if_False c) (auto simp add: jfail_def split: if_splits)
  qed (use assms c in simp_all)
qed

lemma jarray_within:
  assumes "\<And>p v q. rd p = Inr (v, q) \<Longrightarrow> P v" "jarray rd p = Inr (v, q)"
  shows "\<exists>vs. v = JV_ARRAY vs \<and> list_all P vs"
  using assms(2) jitems_within [of rd P "[]" "length p" "jskip_ws (tl p)" v q] assms(1)
  by (auto simp: jarray_eq Let_def split: if_splits)

lemma jobject_within:
  assumes "\<And>p v q. rd p = Inr (v, q) \<Longrightarrow> P v" "jobject rd p = Inr (v, q)"
  shows "\<exists>ms. v = JV_OBJECT ms \<and> list_all (\<lambda>m. P (snd m)) ms"
  using assms(2) jmembers_within [of rd P "[]" "length p" "jskip_ws (tl p)" v q] assms(1)
  by (auto simp: jobject_eq Let_def split: if_splits)

lemma jnumber_kinds: "jnumber sd p = Inr (v, q) \<Longrightarrow> (\<exists>i. v = JV_INT i) \<or> (\<exists>x. v = JV_NUM x)"
  by (auto simp: jnumber_eq Let_def jnumber_value_def jfail_def split: if_splits option.splits)

lemma jvalue_within: "jvalue d sd p = Inr (v, q) \<Longrightarrow> jv_within d v"
proof (induction d arbitrary: p v q)
  case (Suc d)
  from jvalue_cases [OF Suc.prems] show ?case
    using jobject_within [where rd = "jvalue d sd" and P = "jv_within d", OF Suc.IH]
      jarray_within [where rd = "jvalue d sd" and P = "jv_within d", OF Suc.IH]
      jnumber_kinds [of sd _ v q]
    by (elim exE conjE disjE) fastforce+
qed (simp add: jfail_def)

subsection \<open>The kind of a value\<close>

text \<open>The first bytes of the texts of each kind.\<close>

fun kind_start :: "jv_kind \<Rightarrow> byte \<Rightarrow> bool" where
  "kind_start JK_NULL c = (c = 0x6E)"
| "kind_start JK_BOOL c = (c = 0x74 \<or> c = 0x66)"
| "kind_start JK_INT c = (c = MINUS \<or> is_dec c)"
| "kind_start JK_NUM c = (c = MINUS \<or> is_dec c)"
| "kind_start JK_STRING c = (c = DQUOTE)"
| "kind_start JK_ARRAY c = (c = LBRACK)"
| "kind_start JK_OBJECT c = (c = LBRACE)"

lemma jvalue_kind:
  assumes "jvalue d sd p = Inr (v, q)"
  shows "\<exists>c cs. jskip_ws p = c # cs \<and> kind_start (jv_kind_of v) c"
proof -
  obtain d' where d: "d = Suc d'" using assms by (cases d) (auto simp: jfail_def)
  from jvalue_cases [OF assms [unfolded d]] show ?thesis
    using jobject_within [of "jvalue d' sd" "\<lambda>_. True"] jarray_within [of "jvalue d' sd" "\<lambda>_. True"]
      jnumber_kinds [of sd _ v q]
    by (elim exE conjE disjE) (fastforce simp: jdigit_is_dec)+
qed

subsection \<open>Properties\<close>

lemma jskip_ws_split: "\<exists>ws. p = ws @ jskip_ws p \<and> list_all jspace ws"
  by (rule exI [of _ "takeWhile jspace p"])
     (auto simp: jskip_ws_def list_all_iff dest: set_takeWhileD)

lemma json_read_message:
  assumes "suffix p src"
  shows "\<exists>pos \<le> length src. at_byte src m p = m @ lit '' at byte '' @ dec_digits (of_nat pos) []"
  using suffix_length_le [OF assms] by (intro exI [of _ "length src - length p"]) (simp add: at_byte_def)

text \<open>C30: when the arena grants every block, the reader returns on every text: with a value of at
  most 128 levels, or with a message that names a place in the text and is cut to the caller's
  buffer. No store is outside its block: not the bytes of a string and its NUL, plain or
  rebuilt, not the token of a number and its NUL in the array of 64 bytes, not an item or a
  member in its growing block. And no loop spins.\<close>

theorem json_read_ends:
  "(\<exists>v. json_read sd src err_cap = Inr (Some v, []) \<and> jv_within 128 v) \<or>
   (\<exists>m pos. pos \<le> length src \<and> json_read sd src err_cap
     = Inr (None, take (err_cap - 1) (m @ lit '' at byte '' @ dec_digits (of_nat pos) [])))"
proof (cases "jvalue 128 sd src")
  case (Inl f)
  then obtain m p where f: "f = JMsg m p" "suffix p src"
    using jvalue_sound [of src 128 sd] by (cases f) simp_all
  then have "json_read sd src err_cap = Inr (None, take (err_cap - 1) (at_byte src m p))"
    using Inl by (simp add: json_read_def JSON_MAX_DEPTH_def del: jvalue.simps)
  then show ?thesis using json_read_message [OF f(2), of m] by metis
next
  case (Inr x)
  then obtain v p where x: "x = (v, p)" "suffix p src" using jvalue_sound [of src 128 sd] by (cases x) simp_all
  have "jv_within 128 v" using Inr x jvalue_within by blast
  moreover have "json_read sd src err_cap = (if jskip_ws p \<noteq> []
      then Inr (None, take (err_cap - 1) (at_byte src (lit ''trailing content'') (jskip_ws p)))
      else Inr (Some v, []))"
    using Inr x by (simp add: json_read_def JSON_MAX_DEPTH_def Let_def del: jvalue.simps)
  ultimately show ?thesis
    using json_read_message [OF jskip_ws_within [OF x(2)], of "lit ''trailing content''"] by metis
qed

text \<open>C31: the kind of the value read is the one announced by the first byte behind the blanks.\<close>

theorem json_read_kind:
  assumes "json_read sd src err_cap = Inr (Some v, msg)"
  shows "\<exists>ws c cs. src = ws @ c # cs \<and> list_all jspace ws \<and> kind_start (jv_kind_of v) c"
proof -
  obtain p where p: "jvalue JSON_MAX_DEPTH sd src = Inr (v, p)"
    using assms by (auto simp: json_read_def Let_def split: sum.splits jfault.splits if_splits)
  show ?thesis using jvalue_kind [OF p] jskip_ws_split [of src] by metis
qed

theorem json_read_kind_witness:
  "\<exists>ws c cs. lit '' [1]'' = ws @ c # cs \<and> list_all jspace ws \<and> kind_start JK_ARRAY c"
proof -
  have "json_read (\<lambda>_. 0) (lit '' [1]'') 64 = Inr (Some (JV_ARRAY [JV_INT 1]), [])" by code_simp
  from json_read_kind [OF this] show ?thesis by simp
qed


end
