(* ===== verification/Json_Round_Trip.thy ===== *)
theory Json_Round_Trip
  imports Json_Props Round_Trip
begin

text \<open>
  The natural JSON emitter and the JSON reader: what the first writes for a document, the
  second reads back, strings byte for byte and integers exactly; and what the reader takes
  for a number, which is more than JSON has.
\<close>

subsection \<open>Strings\<close>

lemma jsimple_short: "short_escape c = Some e \<Longrightarrow> e = [BACKSLASH, e ! 1] \<and> e ! 1 \<noteq> 0x75 \<and> jsimple (e ! 1) = Some c"
  by (auto simp: short_escape_def jsimple_def split: if_splits)

lemma jhex_hex_chars:
  "list_all (\<lambda>d. jhex (hex_char d) = Some (ucast d :: u32)) (map word_of_nat [0..<16])"
  by code_simp

lemma jhex_hex_char:
  assumes "d < 16"
  shows "jhex (hex_char d) = Some (ucast d)"
proof -
  have "unat d < 16" using assms by (simp add: word_less_nat_alt)
  then have "d \<in> set (map word_of_nat [0..<16])"
    by (auto simp: image_iff intro!: bexI [of _ "unat d"])
  then show ?thesis using jhex_hex_chars unfolding list_all_iff by blast
qed

lemma jrebuild_u_escape:
  assumes "c < 0x80"
  shows "jrebuild (u_escape c @ r) s = jrebuild r (putch c s)"
proof -
  let ?h = "hex_char (drop_bit 4 c)" and ?l = "hex_char (c AND 0xF)"
  have cp: "(ucast c :: u32) < 0x80" using assms by (simp add: word_less_nat_alt unat_ucast_32)
  have z: "jhex 0x30 = Some 0" by (simp add: jhex_def)
  have "jhex_run 0 [0x30, 0x30, ?h, ?l] = Some (ucast c)"
    using nibble_sum [of c] by (simp add: z jhex_hex_char)
  moreover have "\<not> (0xD800 \<le> (ucast c :: u32))"
    using cp by (auto simp: word_less_nat_alt word_le_nat_alt)
  ultimately have "jescape_u ([0x30, 0x30, ?h, ?l] @ r) = Inr (ucast c, r)"
    by (simp add: jescape_u_def Let_def)
  moreover have "jput_utf8 (ucast c) s = putch c s" using cp by (simp add: jput_utf8_def ucast_ucast_byte)
  ultimately show ?thesis
    using \<open>\<not> (0xD800 \<le> (ucast c :: u32))\<close> by (simp add: u_escape_def jrebuild.simps(2))
qed

lemma jrebuild_escape: "jrebuild (json_escape c @ r) s = jrebuild r (putch c s)"
proof (cases "short_escape c")
  case (Some e)
  from jsimple_short [OF this] obtain x where "e = [BACKSLASH, x]" "x \<noteq> 0x75" "jsimple x = Some c"
    by blast
  then show ?thesis using Some by (simp add: json_escape_def jrebuild.simps(2))
next
  case None
  then have c: "c \<noteq> DQUOTE" "c \<noteq> BACKSLASH" by (auto simp: short_escape_def)
  show ?thesis
  proof (cases "c < 0x20")
    case True
    then have "c < 0x80" by (simp add: word_less_nat_alt)
    then show ?thesis using True None jrebuild_u_escape by (simp add: json_escape_def)
  next
    case False
    then show ?thesis using None c by (simp add: json_escape_def jrebuild.simps(2))
  qed
qed

lemma jrebuild_escapes:
  "jrebuild (concat (map json_escape w) @ DQUOTE # r) s = Inr (put_all w s, r)"
proof (induction w arbitrary: s)
  case Nil
  then show ?case by (simp add: jrebuild.simps(2))
next
  case (Cons c w)
  then show ?case using jrebuild_escape [of c "concat (map json_escape w) @ DQUOTE # r" s] by simp
qed

lemma json_escape_plain: "jplain c \<Longrightarrow> json_escape c = [c]"
  by (simp add: json_escape_def short_escape_def jplain_def word_less_nat_alt)
     (auto simp: word_less_nat_alt)

lemma json_escape_not_plain: "\<not> jplain c \<Longrightarrow> \<exists>x xs. json_escape c = BACKSLASH # x # xs"
  by (auto simp: json_escape_def short_escape_def jplain_def u_escape_def)

lemma json_escape_longer: "length w \<le> length (concat (map json_escape w))"
proof (induction w)
  case (Cons c w)
  have "1 \<le> length (json_escape c)"
    using json_escape_plain [of c] json_escape_not_plain [of c] by (cases "jplain c") auto
  then show ?case using Cons by simp
qed simp

lemma json_escape_plains: "list_all jplain w \<Longrightarrow> concat (map json_escape w) = w"
  by (induction w) (simp_all add: json_escape_plain)

lemma jstring_escaped: "jstring (DQUOTE # concat (map json_escape w) @ DQUOTE # r) = Inr (w, r)"
proof -
  define u v where "u = takeWhile jplain w" and "v = dropWhile jplain w"
  define start where "start = concat (map json_escape w) @ DQUOTE # r"
  have w: "w = u @ v" by (simp add: u_def v_def)
  have plain: "\<forall>c \<in> set u. jplain c" using set_takeWhileD by (fastforce simp: u_def)
  then have u: "concat (map json_escape u) = u" by (simp add: json_escape_plains list_all_iff)
  define rest where "rest = concat (map json_escape v) @ DQUOTE # r"
  have start: "start = u @ rest" by (simp add: start_def w u rest_def)
  have "\<exists>c cs. rest = c # cs \<and> \<not> jplain c \<and> (c = DQUOTE \<longleftrightarrow> v = [])"
  proof (cases v)
    case Nil
    then show ?thesis by (simp add: rest_def jplain_def)
  next
    case (Cons x xs)
    then have "\<not> jplain x" by (metis hd_dropWhile list.discI list.sel(1) v_def)
    then obtain y ys where "json_escape x = BACKSLASH # y # ys" using json_escape_not_plain by blast
    then show ?thesis using Cons by (simp add: rest_def jplain_def)
  qed
  then obtain c cs where c: "rest = c # cs" "\<not> jplain c" "c = DQUOTE \<longleftrightarrow> v = []" by blast
  have split: "takeWhile jplain start = u" "dropWhile jplain start = rest"
    using plain c by (simp_all add: start takeWhile_append dropWhile_append3)
  show ?thesis
  proof (cases "v = []")
    case True
    then show ?thesis
      using split w unfolding jstring_eq start_def [symmetric] by (simp add: Let_def rest_def)
  next
    case False
    let ?s = "Buf (replicate (length start + 16) 0) 0"
    have "jrebuild rest (put_all u ?s) = Inr (put_all w ?s, r)"
      by (simp add: rest_def jrebuild_escapes w put_all_append)
    moreover have len: "length w \<le> length start" using json_escape_longer [of w] by (simp add: start_def)
    then have "put_all w ?s = Buf (w @ drop (length w) (replicate (length start + 16) 0)) (length w)"
      using put_all_Buf [of 0 w "replicate (length start + 16) 0"] by simp
    then have "jterminate (put_all w ?s) = Some w" using len by simp
    ultimately show ?thesis
      using split c False unfolding jstring_eq start_def [symmetric] by (simp add: Let_def)
  qed
qed

lemma jstring_text: "jstring (json_text s @ r) = Inr (s, r)"
  using jstring_escaped [of s r] by (simp add: json_text_def)

subsection \<open>Scalars and containers\<close>

text \<open>What may follow a value: no byte that continues a number.\<close>

definition ends_value :: "bytes \<Rightarrow> bool" where
  "ends_value r \<longleftrightarrow> (case r of [] \<Rightarrow> True | c # cs \<Rightarrow> \<not> jnumch c)"

text \<open>A text that a reader of values takes for a value, and leaves what follows.\<close>

definition jreads :: "(bytes \<Rightarrow> jv jread) \<Rightarrow> bytes \<Rightarrow> jv \<Rightarrow> bool" where
  "jreads rd t v \<longleftrightarrow> (\<forall>r. ends_value r \<longrightarrow> rd (t @ r) = Inr (v, r))"

lemma jreadsD: "jreads rd t v \<Longrightarrow> ends_value r \<Longrightarrow> rd (t @ r) = Inr (v, r)"
  by (simp add: jreads_def)

lemma jskip_ws_punct: "\<not> jspace c \<Longrightarrow> jskip_ws (c # r) = c # r"
  by (simp add: jskip_ws_def)

lemma punctuation:
  "ends_value (COMMA # r)" "ends_value (RBRACK # r)" "ends_value (RBRACE # r)"
  "jskip_ws (COMMA # r) = COMMA # r" "jskip_ws (RBRACK # r) = RBRACK # r"
  "jskip_ws (RBRACE # r) = RBRACE # r" "jskip_ws (COLON # r) = COLON # r"
  "jskip_ws (DQUOTE # r) = DQUOTE # r"
  by (simp_all add: ends_value_def jnumch_def jdigit_def jskip_ws_def jspace_def word_le_nat_alt)

lemma jitems_joined:
  assumes "list_all2 (jreads rd) (t # ts) (v # vs)" "length ts < k"
  shows "items_run k rd items (joined [COMMA] (t # ts) @ RBRACK # r) = Inr (JV_ARRAY (items @ v # vs), r)"
  using assms
proof (induction k arbitrary: t ts v vs items)
  case (Suc k)
  show ?case
  proof (cases ts)
    case Nil
    then have "vs = []" "jreads rd t v" using Suc.prems by simp_all
    then show ?thesis using Nil by (simp add: jreadsD punctuation)
  next
    case (Cons t' ts')
    then obtain v' vs' where vs: "vs = v' # vs'" using Suc.prems by (cases vs) auto
    have "items_run k rd (items @ [v]) (joined [COMMA] (t' # ts') @ RBRACK # r)
      = Inr (JV_ARRAY ((items @ [v]) @ v' # vs'), r)"
      by (rule Suc.IH) (use Suc.prems Cons vs in simp_all)
    moreover have "jreads rd t v" using Suc.prems by simp
    ultimately show ?thesis using Cons vs by (simp add: jreadsD punctuation)
  qed
qed simp

definition jreads_member :: "(bytes \<Rightarrow> jv jread) \<Rightarrow> bytes \<Rightarrow> bytes \<times> jv \<Rightarrow> bool" where
  "jreads_member rd t n \<longleftrightarrow> (\<exists>s. t = member_text (fst n) s \<and> jreads rd s (snd n))"

lemma jmembers_joined:
  assumes "list_all2 (jreads_member rd) (t # ts) (n # ns)" "length ts < k"
  shows "members_run k rd members (joined [COMMA] (t # ts) @ RBRACE # r) = Inr (JV_OBJECT (members @ n # ns), r)"
  using assms
proof (induction k arbitrary: t ts n ns members)
  case (Suc k)
  obtain key v s where m: "t = member_text key s" "n = (key, v)" "jreads rd s v"
    using Suc.prems by (cases n) (auto simp: jreads_member_def)
  have head: "jskip_ws (json_text key @ x) = json_text key @ x" "json_text key @ x \<noteq> []"
    "hd (json_text key @ x) = DQUOTE" for x
    by (simp_all add: json_text_def punctuation)
  show ?case
  proof (cases ts)
    case Nil
    then have "ns = []" using Suc.prems by simp
    then show ?thesis using Nil m head by (simp add: member_text_def jreadsD punctuation jstring_text)
  next
    case (Cons t' ts')
    then obtain n' ns' where ns: "ns = n' # ns'" using Suc.prems by (cases ns) auto
    have "members_run k rd (members @ [(key, v)]) (joined [COMMA] (t' # ts') @ RBRACE # r)
      = Inr (JV_OBJECT ((members @ [(key, v)]) @ n' # ns'), r)"
      by (rule Suc.IH) (use Suc.prems Cons ns in simp_all)
    then show ?thesis using Cons ns m head by (simp add: member_text_def jreadsD punctuation jstring_text)
  qed
qed simp

text \<open>The first byte of the text of a value: neither a blank nor a bracket that closes an array.\<close>

definition starts_value :: "bytes \<Rightarrow> bool" where
  "starts_value t \<longleftrightarrow> (case t of [] \<Rightarrow> False | c # cs \<Rightarrow> \<not> jspace c \<and> c \<noteq> RBRACK)"

lemma joined_length: "length ts \<le> length (joined [COMMA] ts) + 1"
proof -
  have "length ts \<le> length (concat (map (\<lambda>y. [COMMA] @ y) ts))" for ts by (induction ts) simp_all
  from this [of "tl ts"] show ?thesis by (cases ts) (simp_all del: append_Cons append_Nil)
qed

lemma jarray_joined:
  assumes "list_all2 (\<lambda>t v. jreads rd t v \<and> starts_value t) ts vs"
  shows "jarray rd (in_braces LBRACK RBRACK (joined [COMMA] ts) @ r) = Inr (JV_ARRAY vs, r)"
proof (cases ts)
  case Nil
  then show ?thesis using assms by (simp add: jarray_eq in_braces_def punctuation)
next
  case (Cons t ts')
  then obtain v vs' where vs: "vs = v # vs'" using assms by (cases vs) auto
  obtain c cs where c: "t = c # cs" "\<not> jspace c" "c \<noteq> RBRACK"
    using assms Cons vs by (cases t) (auto simp: starts_value_def)
  have "list_all2 (jreads rd) ts vs" using assms by (rule list_all2_mono) simp
  then show ?thesis
    using jitems_joined [of rd t ts' v vs' "length (in_braces LBRACK RBRACK (joined [COMMA] ts) @ r)" "[]" r]
      joined_length [of ts] \<open>list_all2 (jreads rd) ts vs\<close> Cons vs c
    by (simp add: jarray_eq in_braces_def Let_def jskip_ws_punct)
qed

lemma jobject_joined:
  assumes "list_all2 (jreads_member rd) ts ns"
  shows "jobject rd (in_braces LBRACE RBRACE (joined [COMMA] ts) @ r) = Inr (JV_OBJECT ns, r)"
proof (cases ts)
  case Nil
  then show ?thesis using assms by (simp add: jobject_eq in_braces_def punctuation)
next
  case (Cons t ts')
  then obtain n ns' where ns: "ns = n # ns'" using assms by (cases ns) auto
  obtain cs where c: "t = DQUOTE # cs"
    using assms Cons ns by (auto simp: jreads_member_def member_text_def json_text_def)
  then show ?thesis
    using jmembers_joined [of rd t ts' n ns' "length (in_braces LBRACE RBRACE (joined [COMMA] ts) @ r)" "[]" r]
      joined_length [of ts] assms Cons ns c
    by (simp add: jobject_eq in_braces_def Let_def punctuation)
qed

subsection \<open>Numbers\<close>

lemma is_dec_jnumch: "is_dec c \<Longrightarrow> jnumch c"
  by (simp add: jnumch_def jdigit_is_dec)

lemma jnumber_token:
  assumes "c = MINUS \<or> jdigit c" "list_all jnumch cs" "length cs < 63" "ends_value r"
  shows "jnumber sd (c # cs @ r) = Inr (jnumber_value sd (c # cs), r)"
proof -
  have stop: "takeWhile jnumch r = []" "dropWhile jnumch r = r"
    using assms(4) by (cases r; simp add: ends_value_def)+
  have all: "\<forall>x \<in> set cs. jnumch x" using assms(2) by (simp add: list_all_iff)
  show ?thesis
  proof (cases "c = MINUS")
    case True
    then show ?thesis using assms stop all
      by (simp add: jnumber_eq Let_def takeWhile_append2 dropWhile_append2)
  next
    case False
    then have "jnumch c" using assms(1) by (simp add: jnumch_def)
    then show ?thesis using False assms stop all
      by (simp add: jnumber_eq Let_def takeWhile_append2 dropWhile_append2)
  qed
qed

lemma jvalue_number:
  assumes "c = MINUS \<or> jdigit c" "list_all jnumch cs" "length cs < 63"
  shows "jreads (jvalue (Suc d) sd) (c # cs) (jnumber_value sd (c # cs))"
  unfolding jreads_def
proof (intro allI impI)
  fix r assume r: "ends_value r"
  have c: "c \<noteq> LBRACE" "c \<noteq> LBRACK" "c \<noteq> DQUOTE" "c \<noteq> 0x74" "c \<noteq> 0x66" "c \<noteq> 0x6E" "\<not> jspace c"
    using assms(1) by (auto simp: jdigit_def jspace_def)
  have s: "jskip_ws (c # cs @ r) = c # cs @ r" using c(7) by (rule jskip_ws_punct)
  have w: "\<not> prefix (lit ''true'') (c # cs @ r)" "\<not> prefix (lit ''false'') (c # cs @ r)"
    "\<not> prefix (lit ''null'') (c # cs @ r)"
    using c by (simp_all add: lit_def)
  show "jvalue (Suc d) sd ((c # cs) @ r) = Inr (jnumber_value sd (c # cs), r)"
    using c assms(1) by (simp add: s w Let_def jnumber_token [OF assms r])
qed

lemma foldl_digits_value:
  assumes "\<forall>c \<in> set w. is_dec c"
  shows "foldl (\<lambda>a c. a * 10 + (int (unat c) - 48)) (int a) w
    = int (foldl (\<lambda>v c. v * 10 + unat (hexval c)) a w)"
  using assms
proof (induction w arbitrary: a)
  case (Cons c w)
  then have c: "is_dec c" by simp
  then have "int (unat c) - 48 = int (unat (hexval c))"
    using hexval_dec(3) [OF c] by (simp add: is_dec_iff word_le_nat_alt)
  then have "int a * 10 + (int (unat c) - 48) = int (a * 10 + unat (hexval c))" by simp
  then show ?case using Cons.IH [of "a * 10 + unat (hexval c)"] Cons.prems by simp
qed simp

text \<open>The value of an integer token, and the conversion that is exact when it fits.\<close>

definition int_token_value :: "bytes \<Rightarrow> int" where
  "int_token_value tok =
    (if tok \<noteq> [] \<and> hd tok = MINUS then - int (digits_value 10 (tl tok)) else int (digits_value 10 tok))"

lemma jnumber_value_integer:
  assumes "ds \<noteq> []" "\<forall>c \<in> set ds. is_dec c" "tok = ds \<or> tok = MINUS # ds"
  shows "jnumber_value sd tok =
    (if - (2 ^ 63) \<le> int_token_value tok \<and> int_token_value tok < 2 ^ 63
     then JV_INT (word_of_int (int_token_value tok)) else JV_NUM (sd tok))"
proof -
  have hd: "hd ds \<noteq> MINUS" using assms(1,2) by (cases ds) (auto simp: is_dec_iff)
  have m: "foldl (\<lambda>a c. a * 10 + (int (unat c) - 48)) 0 ds = int (digits_value 10 ds)"
    using foldl_digits_value [OF assms(2), of 0] by (simp add: digits_value_def)
  have all: "list_all jdigit ds" using assms(2) by (simp add: list_all_iff jdigit_is_dec)
  show ?thesis
  proof (cases "tok = ds")
    case True
    then show ?thesis using assms(1) hd all m
      by (simp add: jnumber_value_def jstrtoll_def int_token_value_def Let_def)
  next
    case False
    then have "tok = MINUS # ds" using assms(3) by simp
    then show ?thesis using assms(1) all m
      by (simp add: jnumber_value_def jstrtoll_def int_token_value_def Let_def)
  qed
qed

lemma dec_digits_short: "length (dec_digits mag []) \<le> 20"
proof -
  obtain w where w: "dec_digits mag [] = w" "w \<noteq> []" "10 ^ (length w - 1) \<le> max 1 (unat mag)"
    using dec_digits_spec [of mag "[]"] by auto
  have "max 1 (unat mag) < 10 ^ 20" using unat_lt_2_64 [of mag] by simp
  with w(3) have "(10 :: nat) ^ (length w - 1) < 10 ^ 20" by linarith
  then have "length w - 1 < 20" by (rule power_less_imp_less_exp [rotated]) simp
  then show ?thesis using w by simp
qed

lemma dec_digits_set: "dec_digits mag [] \<noteq> []" "\<forall>c \<in> set (dec_digits mag []). is_dec c"
  using dec_digits_decimal(1) [of mag] by (simp_all add: decimal_digits_def)

lemma i64_text_value: "jnumber_value sd (i64_text v) = JV_INT v"
proof -
  define m where "m = (if v <s 0 then - v else v)"
  define n where "n = unat m"
  have "int_token_value (i64_text v) = (if v <s 0 then - int (unat m) else int (unat m))"
    using dec_digits_set [of m] dec_digits_decimal(2) [of m]
    by (cases "dec_digits m []") (auto simp: int_token_value_def i64_text_eq m_def is_dec_iff)
  then have val: "int_token_value (i64_text v) = (if v <s 0 then - int n else int n)" by (simp only: n_def)
  have "n < 2 ^ 63 \<or> (v <s 0 \<and> n \<le> 2 ^ 63)"
    using magnitude_range [of v] by (auto simp: m_def n_def)
  then have range: "- (2 ^ 63) \<le> int_token_value (i64_text v)" "int_token_value (i64_text v) < 2 ^ 63"
    by (auto simp: val)
  have "word_of_int (int_token_value (i64_text v)) = v"
    by (simp add: val n_def m_def)
  then show ?thesis
    using jnumber_value_integer [OF dec_digits_set, of "i64_text v" m sd] range
    by (simp add: i64_text_eq m_def)
qed

lemma i64_text_read: "jreads (jvalue (Suc d) sd) (i64_text v) (JV_INT v)"
proof -
  define m where "m = (if v <s 0 then - v else v)"
  have ds: "dec_digits m [] \<noteq> []" "\<forall>c \<in> set (dec_digits m []). is_dec c" "length (dec_digits m []) \<le> 20"
    by (rule dec_digits_set dec_digits_short)+
  obtain c cs where c: "i64_text v = c # cs" by (cases "i64_text v") (use ds in \<open>auto simp: i64_text_eq m_def split: if_splits\<close>)
  have "c = MINUS \<or> jdigit c" "list_all jnumch cs" "length cs < 63"
    using c ds by (auto simp: i64_text_eq m_def jdigit_is_dec list_all_iff is_dec_jnumch
      split: if_splits) 
  from jvalue_number [OF this] show ?thesis by (simp add: i64_text_value flip: c)
qed

text \<open>
  The text of \<open>teptris_ryu_d2s_buffered_n\<close> for a finite number: a sign, digits with a point
  among them, and an exponent behind the letter E.
\<close>

definition ryu_form :: "bytes \<Rightarrow> bool" where
  "ryu_form t \<longleftrightarrow>
    (let u = (if t \<noteq> [] \<and> hd t = MINUS then tl t else t);
         ds = takeWhile (\<lambda>c. c \<noteq> 0x45) u
     in ds \<noteq> [] \<and> jdigit (hd ds) \<and> list_all (\<lambda>c. jdigit c \<or> c = DOT) ds \<and> length ds \<le> 18)"

lemma jnumch_marks: "jnumch DOT" "jnumch 0x65" "jnumch MINUS" "jnumch 0x30" "\<not> jdigit DOT" "\<not> jdigit 0x65"
    "jdigit 0x30"
  by (simp_all add: jnumch_def jdigit_def)

lemma int_text_token: "list_all jnumch (int_text v)" "length (int_text v) \<le> 21"
  using dec_digits_set(2) [of "of_int (- v)"] dec_digits_set(2) [of "of_int v"]
    dec_digits_short [of "of_int (- v)"] dec_digits_short [of "of_int v"]
  by (auto simp: int_text_def list_all_iff is_dec_jnumch jnumch_marks)

lemma float_body_token:
  assumes digits: "digits \<noteq> []" "list_all jdigit digits" "length digits \<le> 18"
    and body: "body =
      (if e10 \<ge> 0 \<and> e10 + int (length digits) \<le> 16 then digits @ replicate (nat e10) 0x30 @ [DOT, 0x30]
       else if e10 < 0 \<and> - e10 \<le> int (length digits) then
         (let ip = nat (int (length digits) + e10)
          in if ip > 0 then take ip digits @ [DOT] @ drop ip digits
             else [0x30, DOT] @ digits)
       else if e10 < 0 \<and> - e10 - int (length digits) \<le> 6 then
         [0x30, DOT] @ replicate (nat (- e10 - int (length digits))) 0x30 @ digits
       else [hd digits] @ (if int (length digits) > 1 then DOT # tl digits else []) @ [0x65] @ int_text sci)"
  shows "body \<noteq> [] \<and> jdigit (hd body) \<and> list_all jnumch body \<and> length body < 60 \<and> \<not> list_all jdigit body"
proof -
  obtain x xs where x: "digits = x # xs" "jdigit x" "list_all jdigit xs" "length xs \<le> 17"
    using digits by (cases digits) auto
  have num: "list_all jnumch digits" using digits(2) by (auto simp: list_all_iff jnumch_def)
  consider (fixed) "e10 \<ge> 0" "e10 + int (length digits) \<le> 16"
    | (point) "e10 < 0" "- e10 \<le> int (length digits)"
    | (zeros) "e10 < 0" "\<not> - e10 \<le> int (length digits)" "- e10 - int (length digits) \<le> 6"
    | (sci) "\<not> (e10 \<ge> 0 \<and> e10 + int (length digits) \<le> 16)" "\<not> (e10 < 0 \<and> - e10 \<le> int (length digits))"
      "\<not> (e10 < 0 \<and> - e10 - int (length digits) \<le> 6)"
    by blast
  then show ?thesis
  proof cases
    case fixed
    then have b: "body = digits @ replicate (nat e10) 0x30 @ [DOT, 0x30]" by (simp add: body)
    show ?thesis using fixed num x by (auto simp: b list_all_iff jnumch_marks)
  next
    case point
    then show ?thesis
    proof (cases "nat (int (length digits) + e10) > 0")
      case True
      define ip where "ip = nat (int (length digits) + e10)"
      have b: "body = take ip digits @ [DOT] @ drop ip digits" using point True by (simp add: body ip_def Let_def)
      have "hd body = x" using True x by (cases ip) (simp_all add: b ip_def)
      moreover have "length body \<le> 19" using digits by (simp add: b)
      moreover have "list_all jnumch body"
        using num by (auto simp: b list_all_iff jnumch_marks dest: in_set_takeD in_set_dropD)
      ultimately show ?thesis using x by (simp add: b jnumch_marks)
    next
      case False
      then have b: "body = [0x30, DOT] @ digits" using point by (simp add: body Let_def)
      show ?thesis using digits num by (simp add: b jnumch_marks)
    qed
  next
    case zeros
    then have b: "body = [0x30, DOT] @ replicate (nat (- e10 - int (length digits))) 0x30 @ digits"
      by (simp add: body)
    show ?thesis using zeros digits num by (simp add: b list_all_iff jnumch_marks)
  next
    case sci
    then have b: "body = [hd digits] @ (if int (length digits) > 1 then DOT # tl digits else []) @ [0x65] @ int_text sci"
      unfolding body by (simp only: if_False)
    show ?thesis using x num int_text_token [of sci] by (simp add: b jnumch_marks)
  qed
qed

lemma float_text_token:
  assumes "ryu_form t"
  shows "\<exists>body. (float_text t = body \<or> float_text t = MINUS # body) \<and> body \<noteq> [] \<and> jdigit (hd body) \<and>
    list_all jnumch body \<and> length body < 60 \<and> \<not> list_all jdigit body"
proof -
  define u where "u = (if t \<noteq> [] \<and> hd t = MINUS then tl t else t)"
  define ds where "ds = takeWhile (\<lambda>c. c \<noteq> 0x45) u"
  define digits where "digits = filter (\<lambda>c. c \<noteq> DOT) ds"
  define r where "r = dropWhile (\<lambda>c. c \<noteq> 0x45) u"
  define sci where "sci = (if r \<noteq> [] then strtol10 (tl r) else 0)"
  have ds: "ds \<noteq> []" "jdigit (hd ds)" "list_all (\<lambda>c. jdigit c \<or> c = DOT) ds" "length ds \<le> 18"
    using assms by (simp_all add: ryu_form_def Let_def flip: u_def ds_def)
  have "hd ds \<noteq> DOT" using ds(2) jnumch_marks(5) by metis
  moreover have "hd ds \<in> set ds" using ds(1) by simp
  ultimately have "hd ds \<in> set digits" by (simp add: digits_def)
  then have nonempty: "digits \<noteq> []" by auto
  have dec: "list_all jdigit digits" using ds(3) by (auto simp: digits_def list_all_iff)
  have short: "length digits \<le> 18"
    unfolding digits_def using ds(4) by (rule le_trans [OF length_filter_le])
  note digits = nonempty dec short
  define e10 where "e10 = sci - int (length digits) + 1"
  define body where "body =
      (if e10 \<ge> 0 \<and> e10 + int (length digits) \<le> 16 then digits @ replicate (nat e10) 0x30 @ [DOT, 0x30]
       else if e10 < 0 \<and> - e10 \<le> int (length digits) then
         (let ip = nat (int (length digits) + e10)
          in if ip > 0 then take ip digits @ [DOT] @ drop ip digits
             else [0x30, DOT] @ digits)
       else if e10 < 0 \<and> - e10 - int (length digits) \<le> 6 then
         [0x30, DOT] @ replicate (nat (- e10 - int (length digits))) 0x30 @ digits
       else [hd digits] @ (if int (length digits) > 1 then DOT # tl digits else []) @ [0x65] @ int_text sci)"
  have "float_text t = (if t \<noteq> [] \<and> hd t = MINUS then [MINUS] else []) @ body"
    by (simp only: float_text_def Let_def body_def e10_def sci_def r_def digits_def ds_def u_def)
  then have "float_text t = body \<or> float_text t = MINUS # body" by (simp split: if_splits)
  then show ?thesis using float_body_token [OF digits body_def] by blast
qed

lemma float_text_read:
  assumes "ryu_form t"
  shows "jreads (jvalue (Suc d) sd) (float_text t) (JV_NUM (sd (float_text t)))"
proof -
  obtain body where b: "float_text t = body \<or> float_text t = MINUS # body" "body \<noteq> []" "jdigit (hd body)"
    "list_all jnumch body" "length body < 60" "\<not> list_all jdigit body"
    using float_text_token [OF assms] by blast
  obtain c cs where c: "body = c # cs" using b(2) by (cases body) auto
  have "c \<noteq> MINUS" using b(3) c by (auto simp: jdigit_def)
  then have val: "jnumber_value sd (float_text t) = JV_NUM (sd (float_text t))"
    using b(1,6) c by (auto simp: jnumber_value_def)
  obtain c' cs' where c': "float_text t = c' # cs'" using b(1) c by auto
  have "c' = MINUS \<or> jdigit c'" "list_all jnumch cs'" "length cs' < 63"
    using b c c' by auto
  from jvalue_number [OF this, of d sd] show ?thesis by (simp only: val c' [symmetric])
qed

subsection \<open>Dates\<close>

definition plain_date :: "datetime \<Rightarrow> bool" where
  "plain_date dt \<longleftrightarrow> dt_year dt \<le> 9999 \<and>
    (if dt_offset_seconds dt <s 0 then - dt_offset_seconds dt else dt_offset_seconds dt) < 360000"

lemma jplain_small: "unat (v :: u32) < 40 \<Longrightarrow> jplain (ucast (0x30 + v))"
proof -
  assume d: "unat v < 40"
  then have "unat (ucast (0x30 + v) :: byte) = 48 + unat v"
    by (simp add: unat_ucast_8 unat_word_ariths)
  then show ?thesis using d by (auto simp: jplain_def word_less_nat_alt word_unat_eq_iff)
qed

lemma jplain_mod: "jplain (ucast (0x30 + v mod 10 :: u32))"
  by (rule jplain_small) (simp add: unat_mod less_le_trans [OF mod_less_divisor])

lemma jplain_div: "v < 400 \<Longrightarrow> jplain (ucast (0x30 + v div 10 :: u32))"
  by (rule jplain_small) (simp add: unat_div word_less_nat_alt less_mult_imp_div_less)

lemma put_digits2_plain: "v < 400 \<Longrightarrow> list_all jplain (put_digits2 v)"
  by (simp add: put_digits2_def jplain_div jplain_mod)

lemma put_digits2_byte: "list_all jplain (put_digits2 (ucast (b :: byte)))"
  using unat_lt_2_8 [of b] by (intro put_digits2_plain) (simp add: word_less_nat_alt unat_ucast_32)

lemma nano_digits_plain: "list_all jplain acc \<Longrightarrow> list_all jplain (nano_digits n v acc)"
  by (induction n v acc rule: nano_digits.induct) (simp_all add: jplain_mod)

lemma list_all_dropWhile: "list_all P xs \<Longrightarrow> list_all P (dropWhile Q xs)"
  using set_dropWhileD by (fastforce simp: list_all_iff)

lemma dt_text_plain:
  assumes "plain_date dt"
  shows "list_all jplain (dt_text dt k)"
proof -
  have marks: "jplain MINUS" "jplain COLON" "jplain DOT" "jplain PLUS" "jplain 0x54" "jplain 0x5A"
    by (simp_all add: jplain_def word_less_nat_alt)
  have year: "list_all jplain (put_digits4 (dt_year dt))"
    using assms by (auto simp: put_digits4_def plain_date_def word_less_nat_alt word_le_nat_alt unat_div unat_mod
      intro!: put_digits2_plain)
  have off: "list_all jplain (offset_text (dt_offset_seconds dt))"
    using assms marks by (auto simp: offset_text_def plain_date_def Let_def word_less_nat_alt unat_div unat_mod
      intro!: put_digits2_plain)
  note parts = marks year off put_digits2_byte nano_digits_plain
  show ?thesis unfolding dt_text_def Let_def
    by (auto simp: parts intro!: list_all_dropWhile)
qed

lemma quoted_text_plain: "list_all jplain s \<Longrightarrow> quoted_text s = json_text s"
  by (simp add: quoted_text_def json_text_def json_escape_plains)

lemma json_text_read: "jreads (jvalue (Suc d) sd) (json_text s) (JV_STRING s)"
  unfolding jreads_def
  using jstring_text [of s] by (auto simp: json_text_def Let_def punctuation)

lemma word_read:
  assumes "(t, v) \<in> {(lit ''true'', JV_BOOL True), (lit ''false'', JV_BOOL False), (lit ''null'', JV_NULL)}"
  shows "jreads (jvalue (Suc d) sd) t v"
  using assms unfolding jreads_def
  by (auto simp: lit_def Let_def jskip_ws_def jspace_def)

subsection \<open>Documents\<close>

text \<open>
  The JSON value of a node within \<open>k\<close> levels: members in order, integers exact, floats as
  \<open>strtod\<close> reads their text, a null for what JSON has no number for, dates as strings (here
  with years of four digits and offsets below a hundred hours).
\<close>

fun json_scalar :: "(bytes \<Rightarrow> u64) \<Rightarrow> (u64 \<Rightarrow> bytes) \<Rightarrow> kind \<Rightarrow> payload \<Rightarrow> jv option" where
  "json_scalar sd d2s K_STRING v = Some (JV_STRING (payload_str v))"
| "json_scalar sd d2s K_INTEGER v = Some (JV_INT (payload_int v))"
| "json_scalar sd d2s K_FLOAT v =
     Some (if f64_isnan (payload_float v) \<or> f64_isinf (payload_float v) then JV_NULL
           else JV_NUM (sd (float_text (d2s (payload_float v)))))"
| "json_scalar sd d2s K_BOOLEAN v = Some (JV_BOOL (payload_bool v))"
| "json_scalar sd d2s kd v =
     (if plain_date (payload_dt v) then Some (JV_STRING (dt_text (payload_dt v) kd)) else None)"

fun json_tree :: "nat \<Rightarrow> (bytes \<Rightarrow> u64) \<Rightarrow> (u64 \<Rightarrow> bytes) \<Rightarrow> node list \<Rightarrow> addr \<Rightarrow> jv option" where
  "json_tree 0 sd d2s ns i = None"
| "json_tree (Suc k) sd d2s ns i =
    (let v = n_as (ns ! i)
     in case n_kind (ns ! i) of
          K_TABLE \<Rightarrow>
            map_option JV_OBJECT
              (mapo (\<lambda>e. map_option (Pair (v_bytes (e_key e))) (json_tree k sd d2s ns (e_value e)))
                (t_entries (payload_table v)))
        | K_ARRAY \<Rightarrow> map_option JV_ARRAY (mapo (json_tree k sd d2s ns) (ar_items (payload_array v)))
        | kd \<Rightarrow> json_scalar sd d2s kd v)"

definition reads_back :: "(bytes \<Rightarrow> jv jread) \<Rightarrow> bytes \<Rightarrow> jv \<Rightarrow> bool" where
  "reads_back rd t v \<longleftrightarrow> jreads rd t v \<and> starts_value t"

lemma mapo_related:
  assumes "\<And>x v. x \<in> set xs \<Longrightarrow> g x = Some v \<Longrightarrow> \<exists>t. f x = Some t \<and> R t v" "mapo g xs = Some vs"
  shows "\<exists>ts. mapo f xs = Some ts \<and> list_all2 R ts vs"
  using assms
proof (induction xs arbitrary: vs)
  case (Cons x xs)
  obtain v vs' where v: "g x = Some v" "mapo g xs = Some vs'" "vs = v # vs'"
    using Cons.prems(2) by (auto split: option.splits)
  obtain t where "f x = Some t" "R t v" using Cons.prems(1) [of x v] v(1) by auto
  moreover obtain ts where "mapo f xs = Some ts" "list_all2 R ts vs'"
    using Cons.IH [OF _ v(2)] Cons.prems(1) by auto
  ultimately show ?case using v by auto
qed simp

lemma scalar_starts:
  "starts_value (json_text s)" "starts_value (lit ''true'')" "starts_value (lit ''false'')"
  "starts_value (lit ''null'')"
  by (simp_all add: starts_value_def json_text_def lit_def jspace_def)

lemma number_starts:
  assumes "c = MINUS \<or> jdigit c"
  shows "starts_value (c # cs)"
  using assms by (auto simp: starts_value_def jspace_def jdigit_def)

lemma i64_text_starts: "starts_value (i64_text v)"
proof -
  define m where "m = (if v <s 0 then - v else v)"
  obtain x xs where "dec_digits m [] = x # xs" "is_dec x"
    using dec_digits_set [of m] by (cases "dec_digits m []") auto
  then show ?thesis by (auto simp: i64_text_eq m_def [symmetric] jdigit_is_dec intro!: number_starts)
qed

lemma float_text_starts:
  assumes "ryu_form t"
  shows "starts_value (float_text t)"
proof -
  obtain body where b: "float_text t = body \<or> float_text t = MINUS # body" "body \<noteq> []" "jdigit (hd body)"
    using float_text_token [OF assms] by blast
  then show ?thesis by (cases body) (auto intro: number_starts)
qed

lemma json_scalar_read:
  assumes d2s: "\<And>f. \<not> f64_isnan f \<Longrightarrow> \<not> f64_isinf f \<Longrightarrow> ryu_form (d2s f)"
    and v: "json_scalar sd d2s kd p = Some v"
  shows "reads_back (jvalue (Suc d) sd) (natural_scalar d2s kd p) v"
proof -
  have date: "reads_back (jvalue (Suc d) sd) (quoted_text (dt_text (payload_dt p) k)) (JV_STRING (dt_text (payload_dt p) k))"
    if "plain_date (payload_dt p)" for k
    using quoted_text_plain [OF dt_text_plain [OF that]]
    by (simp add: reads_back_def json_text_read scalar_starts)
  show ?thesis
  proof (cases kd)
    case K_FLOAT
    then show ?thesis
      using v d2s [of "payload_float p"] word_read [of "lit ''null''" JV_NULL d sd]
      by (auto simp: reads_back_def f64_text_def float_text_read float_text_starts scalar_starts)
  next
    case K_BOOLEAN
    then show ?thesis
      using v word_read [of "lit ''true''" "JV_BOOL True" d sd] word_read [of "lit ''false''" "JV_BOOL False" d sd]
      by (cases "payload_bool p") (auto simp: reads_back_def scalar_starts)
  qed (use v date in \<open>auto simp: reads_back_def json_text_read i64_text_read scalar_starts i64_text_starts
        split: if_splits\<close>)
qed

lemma scalar_arms:
  assumes "n_kind (ns ! i) \<noteq> K_TABLE" "n_kind (ns ! i) \<noteq> K_ARRAY"
  shows "json_tree (Suc k) sd d2s ns i = json_scalar sd d2s (n_kind (ns ! i)) (n_as (ns ! i))"
    "json_value_text (Suc k) sc ns i = Some (sc (n_kind (ns ! i)) (n_as (ns ! i)))"
  using assms by (cases "n_kind (ns ! i)"; simp only: json_tree.simps json_value_text.simps Let_def kind.case)+

lemma json_tree_read:
  assumes d2s: "\<And>f. \<not> f64_isnan f \<Longrightarrow> \<not> f64_isinf f \<Longrightarrow> ryu_form (d2s f)"
  shows "json_tree k sd d2s ns i = Some v \<Longrightarrow>
    \<exists>t. json_value_text k (natural_scalar d2s) ns i = Some t \<and> reads_back (jvalue k sd) t v"
proof (induction k arbitrary: i v)
  case (Suc k)
  let ?p = "n_as (ns ! i)"
  show ?case
  proof (cases "n_kind (ns ! i) = K_TABLE \<or> n_kind (ns ! i) = K_ARRAY")
    case False
    then have s: "json_scalar sd d2s (n_kind (ns ! i)) ?p = Some v"
      "json_value_text (Suc k) (natural_scalar d2s) ns i = Some (natural_scalar d2s (n_kind (ns ! i)) ?p)"
      using Suc.prems scalar_arms by simp_all
    show ?thesis using s(2) json_scalar_read [OF d2s s(1), where d = k] by blast
  next
    case True
    then show ?thesis
    proof
      assume kd: "n_kind (ns ! i) = K_ARRAY"
      obtain vs where vs: "mapo (json_tree k sd d2s ns) (ar_items (payload_array ?p)) = Some vs" "v = JV_ARRAY vs"
        using Suc.prems by (auto simp: kd)
      obtain ts where ts: "mapo (json_value_text k (natural_scalar d2s) ns) (ar_items (payload_array ?p)) = Some ts"
        "list_all2 (reads_back (jvalue k sd)) ts vs"
        using mapo_related [of _ "json_tree k sd d2s ns" "json_value_text k (natural_scalar d2s) ns"
          "reads_back (jvalue k sd)", OF _ vs(1)] Suc.IH by blast
      have "list_all2 (\<lambda>t v. jreads (jvalue k sd) t v \<and> starts_value t) ts vs"
        using ts(2) by (rule list_all2_mono) (simp add: reads_back_def)
      from jarray_joined [OF this]
      have "jreads (jvalue (Suc k) sd) (in_braces LBRACK RBRACK (joined [COMMA] ts)) v"
        by (simp add: jreads_def vs(2) in_braces_def Let_def jskip_ws_def jspace_def)
      then show ?thesis using ts(1)
        by (simp add: kd reads_back_def starts_value_def in_braces_def jspace_def del: jvalue.simps)
    next
      assume kd: "n_kind (ns ! i) = K_TABLE"
      let ?key = "\<lambda>e. v_bytes (e_key e)"
      obtain ms where ms: "mapo (\<lambda>e. map_option (Pair (?key e)) (json_tree k sd d2s ns (e_value e)))
          (t_entries (payload_table ?p)) = Some ms" "v = JV_OBJECT ms"
        using Suc.prems by (auto simp: kd)
      have member: "\<exists>t. map_option (member_text (?key e)) (json_value_text k (natural_scalar d2s) ns (e_value e)) = Some t
          \<and> jreads_member (jvalue k sd) t m"
        if m: "map_option (Pair (?key e)) (json_tree k sd d2s ns (e_value e)) = Some m" for e m
      proof -
        obtain w where w: "json_tree k sd d2s ns (e_value e) = Some w" "m = (?key e, w)" using m by blast
        from Suc.IH [OF w(1)] show ?thesis by (auto simp: w(2) jreads_member_def reads_back_def)
      qed
      obtain ts where ts: "mapo (\<lambda>e. map_option (member_text (?key e)) (json_value_text k (natural_scalar d2s) ns (e_value e)))
          (t_entries (payload_table ?p)) = Some ts" "list_all2 (jreads_member (jvalue k sd)) ts ms"
        using mapo_related [of _ _ "\<lambda>e. map_option (member_text (?key e)) (json_value_text k (natural_scalar d2s) ns (e_value e))"
          "jreads_member (jvalue k sd)", OF _ ms(1)] member by blast
      from jobject_joined [OF ts(2)]
      have "jreads (jvalue (Suc k) sd) (in_braces LBRACE RBRACE (joined [COMMA] ts)) v"
        by (simp add: jreads_def ms(2) in_braces_def Let_def jskip_ws_def jspace_def)
      then show ?thesis using ts(1)
        by (simp add: kd reads_back_def starts_value_def in_braces_def jspace_def del: jvalue.simps)
    qed
  qed
qed simp

subsection \<open>Properties\<close>

definition int_token :: "bytes \<Rightarrow> bool" where
  "int_token tok \<longleftrightarrow> (let ds = (if tok \<noteq> [] \<and> hd tok = MINUS then tl tok else tok)
     in ds \<noteq> [] \<and> list_all is_dec ds)"

lemma jnumber_value_token:
  "jnumber_value sd tok =
    (if int_token tok \<and> - (2 ^ 63) \<le> int_token_value tok \<and> int_token_value tok < 2 ^ 63
     then JV_INT (word_of_int (int_token_value tok)) else JV_NUM (sd tok))"
proof (cases "int_token tok")
  case True
  define ds where "ds = (if tok \<noteq> [] \<and> hd tok = MINUS then tl tok else tok)"
  have ds: "ds \<noteq> []" "\<forall>c \<in> set ds. is_dec c"
    using True unfolding int_token_def Let_def ds_def [symmetric] by (auto simp: list_all_iff)
  have "tok = ds \<or> tok = MINUS # ds" by (cases tok) (auto simp: ds_def)
  from jnumber_value_integer [OF ds this, of sd] True show ?thesis by simp
next
  case False
  define ds where "ds = (if tok \<noteq> [] \<and> hd tok = MINUS then tl tok else tok)"
  have "list_all jdigit ds = list_all is_dec ds" by (simp add: list_all_iff jdigit_is_dec)
  moreover have "ds = [] \<or> \<not> list_all is_dec ds"
    using False unfolding int_token_def Let_def ds_def [symmetric] by simp
  moreover have "jstrtoll tok = None" if "ds = []"
    unfolding jstrtoll_def Let_def ds_def [symmetric] using that by simp
  ultimately have "jnumber_value sd tok = JV_NUM (sd tok)"
    unfolding jnumber_value_def ds_def [symmetric] by auto
  with False show ?thesis by simp
qed

text \<open>C32: a sign or digit and up to 62 digits, points, signs and exponent letters in any order are read as
  one number: exactly as an integer when they are digits (behind a sign) that fit 64 bits, and
  else as what \<open>strtod\<close> makes of a prefix; so \<open>1-2\<close>, \<open>01\<close> and a lone \<open>-\<close> pass.\<close>

theorem json_read_numbers:
  assumes "c = MINUS \<or> is_dec c" "list_all jnumch cs" "length cs < 63"
  shows "json_read sd (c # cs) err_cap =
    Inr (Some (if int_token (c # cs) \<and> - (2 ^ 63) \<le> int_token_value (c # cs) \<and> int_token_value (c # cs) < 2 ^ 63
      then JV_INT (word_of_int (int_token_value (c # cs))) else JV_NUM (sd (c # cs))), [])"
proof -
  have "jreads (jvalue (Suc 127) sd) (c # cs) (jnumber_value sd (c # cs))"
    using assms by (intro jvalue_number) (simp_all add: jdigit_is_dec)
  from jreadsD [OF this, of "[]"]
  have "jvalue JSON_MAX_DEPTH sd (c # cs) = Inr (jnumber_value sd (c # cs), [])"
    by (simp add: ends_value_def JSON_MAX_DEPTH_def del: jvalue.simps)
  then have "json_read sd (c # cs) err_cap = Inr (Some (jnumber_value sd (c # cs)), [])"
    by (simp add: json_read_def jskip_ws_def)
  then show ?thesis unfolding jnumber_value_token .
qed

theorem json_read_numbers_witness:
  "json_read (\<lambda>_. 7) (lit ''1-2'') 64 = Inr (Some (JV_NUM 7), []) \<and>
   json_read (\<lambda>_. 7) (lit ''-'') 64 = Inr (Some (JV_NUM 7), []) \<and>
   json_read (\<lambda>_. 7) (lit ''-012'') 64 = Inr (Some (JV_INT (- 12)), [])"
proof (intro conjI)
  have "lit ''1-2'' = 0x31 # lit ''-2''" "\<not> int_token (lit ''1-2'')" "list_all jnumch (lit ''-2'')"
    "is_dec 0x31" "length (lit ''-2'') < 63"
    by code_simp+
  then show "json_read (\<lambda>_. 7) (lit ''1-2'') 64 = Inr (Some (JV_NUM 7), [])"
    using json_read_numbers [of "0x31" "lit ''-2''" "\<lambda>_. 7" 64] by simp
  have "lit ''-'' = [MINUS]" "\<not> int_token (lit ''-'')" by code_simp+
  then show "json_read (\<lambda>_. 7) (lit ''-'') 64 = Inr (Some (JV_NUM 7), [])"
    using json_read_numbers [of MINUS "[]" "\<lambda>_. 7" 64] by simp
  have "lit ''-012'' = MINUS # lit ''012''" "int_token (lit ''-012'')" "list_all jnumch (lit ''012'')"
    "length (lit ''012'') < 63" "int_token_value (lit ''-012'') = - 12"
    by code_simp+
  then show "json_read (\<lambda>_. 7) (lit ''-012'') 64 = Inr (Some (JV_INT (- 12)), [])"
    using json_read_numbers [of MINUS "lit ''012''" "\<lambda>_. 7" 64] by simp
qed

text \<open>C33: the JSON reader reads back the text of the natural JSON emitter: for a document within 128
  levels it returns the value of the tree, every string and key byte for byte and every
  integer exactly. The number printer is assumed to write its documented form.\<close>

theorem json_round_trip:
  assumes d2s: "\<And>f. \<not> f64_isnan f \<Longrightarrow> \<not> f64_isinf f \<Longrightarrow> ryu_form (d2s f)"
    and root: "d_root doc = Some r"
    and tree: "json_tree 128 sd d2s (d_nodes doc) r = Some v"
  shows "\<exists>t. json_value_text 128 (natural_scalar d2s) (d_nodes doc) r = Some t \<and>
    (6 * length t + 512 \<le> avail \<longrightarrow>
      emit_document_json_natural 128 d2s avail doc = Some (Emitted ST_OK (Some (t @ [0])) (length t))) \<and>
    json_read sd t err_cap = Inr (Some v, [])"
proof -
  obtain t where t: "json_value_text 128 (natural_scalar d2s) (d_nodes doc) r = Some t"
    "reads_back (jvalue 128 sd) t v"
    using json_tree_read [OF d2s tree] by blast
  obtain b where b: "emit_json_nat_value 128 d2s (d_nodes doc) (emit_start avail) r = Some b"
    "renders (emit_start avail) t b"
    using emit_json_nat_writes [of "emit_start avail" 128 d2s "d_nodes doc" r] by (auto simp: t(1) elim: option.rel_cases)
  have "jvalue 128 sd (t @ []) = Inr (v, [])"
    using t(2) jreadsD [of "jvalue 128 sd" t v "[]"] by (simp add: reads_back_def ends_value_def del: jvalue.simps)
  then have "json_read sd t err_cap = Inr (Some v, [])"
    by (simp add: json_read_def JSON_MAX_DEPTH_def jskip_ws_def del: jvalue.simps)
  then show ?thesis
    using t(1) b(1) emit_end_renders [OF b(2)]
    by (auto simp: emit_document_json_natural_def root simp del: jvalue.simps)
qed

fun json_check :: "run \<Rightarrow> bool" where
  "json_check (Done st doc) \<longleftrightarrow> st = ST_OK \<and> d_root doc = Some 0 \<and>
     json_tree 128 (\<lambda>_. 0) (\<lambda>_. lit ''0E0'') (d_nodes doc) 0
       = Some (JV_OBJECT [(lit ''a'', JV_INT (- 1))])"
| "json_check _ \<longleftrightarrow> False"

lemma json_checked: "json_check (teptris_parse no_floats 100000 (lit ''a=-1'') None)"
  by code_simp

theorem json_round_trip_witness:
  "\<exists>doc t. teptris_parse no_floats 100000 (lit ''a=-1'') None = Done ST_OK doc \<and>
     json_value_text 128 (natural_scalar (\<lambda>_. lit ''0E0'')) (d_nodes doc) 0 = Some t \<and>
     json_read (\<lambda>_. 0) t 64
       = Inr (Some (JV_OBJECT [(lit ''a'', JV_INT (- 1))]), [])"
proof -
  obtain doc where doc: "teptris_parse no_floats 100000 (lit ''a=-1'') None = Done ST_OK doc"
    "json_check (Done ST_OK doc)"
    using json_checked by (cases "teptris_parse no_floats 100000 (lit ''a=-1'') None") auto
  have "ryu_form (lit ''0E0'')" by code_simp
  then show ?thesis
    using json_round_trip [of "\<lambda>_. lit ''0E0''" doc 0 "\<lambda>_. 0"
        "JV_OBJECT [(lit ''a'', JV_INT (- 1))]" 4096 64] doc
    by auto
qed


end
