(* ===== verification/Formats.thy ===== *)
theory Formats
  imports Regex_Nfa
begin

text \<open>
  The string formats of the schema validator, \<open>schema/formats.c\<close>, with the table of their
  names from \<open>schema/schema.c\<close>. A string is its bytes with their number; where the code
  passes a pointer into the string and the length from there, the model passes the rest of
  the list. The bytes are compared with ASCII codes only, so the sign of \<open>char\<close> plays no
  part.
\<close>

subsection \<open>Characters\<close>

definition fmt_digit :: "byte \<Rightarrow> bool" where
  "fmt_digit c \<longleftrightarrow> 0x30 \<le> c \<and> c \<le> 0x39"

definition fmt_alpha :: "byte \<Rightarrow> bool" where
  "fmt_alpha c \<longleftrightarrow> (0x61 \<le> c \<and> c \<le> 0x7A) \<or> (0x41 \<le> c \<and> c \<le> 0x5A)"

definition fmt_hex :: "byte \<Rightarrow> bool" where
  "fmt_hex c \<longleftrightarrow> fmt_digit c \<or> (0x61 \<le> c \<and> c \<le> 0x66) \<or> (0x41 \<le> c \<and> c \<le> 0x46)"

definition is_ascii_alnum :: "byte \<Rightarrow> bool" where
  "is_ascii_alnum c \<longleftrightarrow> fmt_digit c \<or> fmt_alpha c"

definition all_digits :: "bytes \<Rightarrow> nat \<Rightarrow> nat \<Rightarrow> bool" where
  "all_digits s from n \<longleftrightarrow> list_all fmt_digit (take n (drop from s))"

definition digit_of :: "byte \<Rightarrow> int" where
  "digit_of c = int (unat c) - 48"

definition two_digits :: "bytes \<Rightarrow> nat \<Rightarrow> int" where
  "two_digits s from = digit_of (s ! from) * 10 + digit_of (s ! (from + 1))"

text \<open>The step over a character, cut to one byte at the end of the string.\<close>

function fmt_cp_count :: "bytes \<Rightarrow> nat" where
  "fmt_cp_count s =
    (if s = [] then 0
     else (let b = hd s; step = (if b < 0x80 then 1 else if b < 0xE0 then 2 else if b < 0xF0 then 3 else 4)
           in Suc (fmt_cp_count (drop (if step > length s then 1 else step) s))))"
  by pat_completeness auto
termination by (relation "measure length") auto

declare fmt_cp_count.simps [simp del]

definition is_ascii_space :: "byte \<Rightarrow> bool" where
  "is_ascii_space c \<longleftrightarrow> c = SPACE \<or> c = TAB \<or> c = LF \<or> c = CR \<or> c = 0x0B \<or> c = 0x0C"

subsection \<open>Dates and times\<close>

definition fmt_leap_year :: "int \<Rightarrow> bool" where
  "fmt_leap_year y \<longleftrightarrow> (y mod 4 = 0 \<and> y mod 100 \<noteq> 0) \<or> y mod 400 = 0"

definition fmt_days_in_month :: "int \<Rightarrow> int \<Rightarrow> int" where
  "fmt_days_in_month y m =
    (if m = 2 \<and> fmt_leap_year y then 29
     else [31, 28, 31, 30, 31, 30, 31, 31, 30, 31, 30, 31] ! nat (m - 1))"

definition check_date :: "bytes \<Rightarrow> bool" where
  "check_date s \<longleftrightarrow>
    \<not> (length s \<noteq> 10 \<or> s ! 4 \<noteq> MINUS \<or> s ! 7 \<noteq> MINUS) \<and>
    \<not> (\<not> all_digits s 0 4 \<or> \<not> all_digits s 5 2 \<or> \<not> all_digits s 8 2) \<and>
    (let y = digit_of (s ! 0) * 1000 + digit_of (s ! 1) * 100 + digit_of (s ! 2) * 10 + digit_of (s ! 3);
         m = two_digits s 5;
         d = two_digits s 8
     in m \<ge> 1 \<and> m \<le> 12 \<and> d \<ge> 1 \<and> d \<le> fmt_days_in_month y m)"

definition check_hms :: "bytes \<Rightarrow> nat" where
  "check_hms s =
    (if length s < 8 \<or> s ! 2 \<noteq> COLON \<or> s ! 5 \<noteq> COLON then 0
     else if \<not> all_digits s 0 2 \<or> \<not> all_digits s 3 2 \<or> \<not> all_digits s 6 2 then 0
     else if two_digits s 0 > 23 \<or> two_digits s 3 > 59 \<or> two_digits s 6 > 59 then 0
     else 8)"

definition check_offset :: "bytes \<Rightarrow> nat" where
  "check_offset s =
    (if length s = 0 then 0
     else if s ! 0 = 0x5A \<or> s ! 0 = 0x7A then 1
     else if s ! 0 \<noteq> PLUS \<and> s ! 0 \<noteq> MINUS then 0
     else if length s < 6 \<or> s ! 3 \<noteq> COLON then 0
     else if \<not> all_digits s 1 2 \<or> \<not> all_digits s 4 2 then 0
     else if two_digits s 1 \<le> 23 \<and> two_digits s 4 \<le> 59 then 6 else 0)"

text \<open>The optional fraction: how many digits it has, and what is left.\<close>

definition fraction :: "bytes \<Rightarrow> (nat \<times> bytes) option" where
  "fraction p =
    (if p \<noteq> [] \<and> hd p = DOT then Some (length (takeWhile fmt_digit (tl p)), dropWhile fmt_digit (tl p))
     else None)"

definition fraction_rest :: "bytes \<Rightarrow> bytes option" where
  "fraction_rest p = (case fraction p of None \<Rightarrow> Some p | Some (n, q) \<Rightarrow> if n = 0 then None else Some q)"

definition offset_ends :: "bytes \<Rightarrow> bool" where
  "offset_ends p \<longleftrightarrow> length p > 0 \<and> check_offset p = length p"

definition check_datetime :: "bytes \<Rightarrow> bool" where
  "check_datetime s \<longleftrightarrow>
    \<not> length s < 20 \<and> check_date (take 10 s) \<and> \<not> (s ! 10 \<noteq> 0x54 \<and> s ! 10 \<noteq> 0x74) \<and>
    check_hms (drop 11 s) \<noteq> 0 \<and>
    (case fraction_rest (drop (11 + check_hms (drop 11 s)) s) of
       None \<Rightarrow> False
     | Some p \<Rightarrow> offset_ends p)"

definition check_datetime_local :: "bytes \<Rightarrow> bool" where
  "check_datetime_local s \<longleftrightarrow>
    \<not> (length s < 19 \<or> \<not> check_date (take 10 s)) \<and> \<not> (s ! 10 \<noteq> 0x54 \<and> s ! 10 \<noteq> 0x74) \<and>
    check_hms (drop 11 s) \<noteq> 0 \<and>
    fraction_rest (drop (11 + check_hms (drop 11 s)) s) = Some []"

definition check_time :: "bytes \<Rightarrow> bool" where
  "check_time s \<longleftrightarrow>
    check_hms s \<noteq> 0 \<and>
    (case fraction (drop (check_hms s) s) of
       None \<Rightarrow> offset_ends (drop (check_hms s) s)
     | Some (n, q) \<Rightarrow> n = 6 \<and> offset_ends q)"

definition check_time_local :: "bytes \<Rightarrow> bool" where
  "check_time_local s \<longleftrightarrow>
    check_hms s \<noteq> 0 \<and> fraction_rest (drop (check_hms s) s) = Some []"

subsection \<open>Mail, hosts and addresses\<close>

text \<open>The loop of \<open>check_email\<close>, with the character before the cursor.\<close>

fun email_loop :: "byte \<Rightarrow> bytes \<Rightarrow> bool" where
  "email_loop prev [] = False"
| "email_loop prev (c # cs) =
    (if c = 0x40 then prev \<noteq> DOT
     else if c = DOT \<and> prev = DOT then False
     else email_loop c cs)"

definition check_email :: "bytes \<Rightarrow> bool" where
  "check_email s =
    (case s of
       [] \<Rightarrow> False
     | c # cs \<Rightarrow> if c = DOT then False else email_loop c cs)"

text \<open>The labels: the bytes since the last dot, in order.\<close>

fun label_loop :: "bytes \<Rightarrow> bytes \<Rightarrow> bool" where
  "label_loop lbl [] = (\<not> fmt_cp_count lbl > 63)"
| "label_loop lbl (c # cs) =
    (if c = DOT then (if fmt_cp_count lbl > 63 then False else label_loop [] cs)
     else label_loop (lbl @ [c]) cs)"

definition check_hostname :: "bytes \<Rightarrow> bool" where
  "check_hostname s \<longleftrightarrow>
    \<not> (s = [] \<or> hd s = MINUS \<or> last s = MINUS) \<and> \<not> fmt_cp_count s > 255 \<and>
    list_all (\<lambda>c. is_ascii_alnum c \<or> c = MINUS \<or> c = DOT) s \<and> label_loop [] s"

definition ipv4_group :: "bytes \<Rightarrow> bytes option" where
  "ipv4_group p =
    (let ds = takeWhile fmt_digit p; n = length ds
     in if n < 1 \<or> n > 3 then None
        else if n > 1 \<and> hd ds = 0x30 then None
        else if foldl (\<lambda>v c. v * 10 + digit_of c) 0 ds > 255 then None
        else Some (dropWhile fmt_digit p))"

text \<open>The groups from number \<open>g\<close> on.\<close>

fun ipv4_loop :: "nat \<Rightarrow> nat \<Rightarrow> bytes \<Rightarrow> bytes option" where
  "ipv4_loop g 0 p = Some p"
| "ipv4_loop g (Suc k) p =
    (if g > 0 \<and> (p = [] \<or> hd p \<noteq> DOT) then None
     else case ipv4_group (if g > 0 then tl p else p) of
            None \<Rightarrow> None
          | Some q \<Rightarrow> ipv4_loop (Suc g) k q)"

definition check_ipv4 :: "bytes \<Rightarrow> bool" where
  "check_ipv4 s \<longleftrightarrow> ipv4_loop 0 4 s = Some []"

definition group_ok :: "bytes \<Rightarrow> bool" where
  "group_ok t \<longleftrightarrow> \<not> (length t < 1 \<or> length t > 4) \<and> list_all fmt_hex t"

text \<open>The tokens between the colons; more than nine are refused.\<close>

fun split_on :: "byte \<Rightarrow> bytes \<Rightarrow> bytes \<Rightarrow> bytes list" where
  "split_on sep acc [] = [acc]"
| "split_on sep acc (c # cs) = (if c = sep then acc # split_on sep [] cs else split_on sep (acc @ [c]) cs)"

definition empty_positions :: "bytes list \<Rightarrow> nat list" where
  "empty_positions toks = filter (\<lambda>i. toks ! i = []) [0..<length toks]"

fun ipv6_groups :: "bool \<Rightarrow> bytes list \<Rightarrow> nat option" where
  "ipv6_groups v4 [] = Some 0"
| "ipv6_groups v4 (t # ts) =
    (if t = [] then ipv6_groups v4 ts
     else if ts = [] \<and> v4 then (if check_ipv4 t then Some 2 else None)
     else if \<not> group_ok t then None
     else map_option Suc (ipv6_groups v4 ts))"

definition check_ipv6 :: "bytes \<Rightarrow> bool" where
  "check_ipv6 s =
    (let toks = split_on COLON [] s; n = length toks; es = empty_positions toks; ne = length es;
         v4 = (last toks \<noteq> [] \<and> DOT \<in> set (last toks))
     in if n > 9 then False
        else if ne = 0 \<and> n \<noteq> (if v4 then 7 else 8) then False
        else if ne = 1 \<and> (es ! 0 = 0 \<or> es ! 0 = n - 1) then False
        else if ne = 2 \<and> es ! 1 \<noteq> es ! 0 + 1 then False
        else if ne = 3 \<and> n \<noteq> 3 then False
        else if ne > 3 then False
        else case ipv6_groups v4 toks of
               None \<Rightarrow> False
             | Some groups \<Rightarrow> if ne = 0 then groups = 8 else groups \<le> 7)"

subsection \<open>URIs and pointers\<close>

definition check_uri :: "bytes \<Rightarrow> bool" where
  "check_uri s =
    (case s of
       [] \<Rightarrow> False
     | c # cs \<Rightarrow>
         (if \<not> fmt_alpha c then False
          else (let r = dropWhile (\<lambda>c. is_ascii_alnum c \<or> c = PLUS \<or> c = MINUS \<or> c = DOT) cs
                in if r = [] \<or> hd r \<noteq> COLON then False
                   else list_all (\<lambda>c. \<not> (c < 0x21 \<or> c = 0x7F)) s)))"

fun uri_ref_loop :: "bool \<Rightarrow> bytes \<Rightarrow> bool" where
  "uri_ref_loop hash [] = True"
| "uri_ref_loop hash (c # cs) =
    (if c = BACKSLASH then False
     else if is_ascii_space c then False
     else if c = HASH then (if hash then False else uri_ref_loop True cs)
     else uri_ref_loop hash cs)"

definition check_uri_reference :: "bytes \<Rightarrow> bool" where
  "check_uri_reference s = uri_ref_loop False s"

fun pointer_loop :: "bytes \<Rightarrow> bool" where
  "pointer_loop [] = True"
| "pointer_loop (c # cs) =
    (if c = 0x7E then
       (case cs of
          [] \<Rightarrow> False
        | d # ds \<Rightarrow> if d \<noteq> 0x30 \<and> d \<noteq> 0x31 then False else pointer_loop ds)
     else pointer_loop cs)"

definition check_json_pointer :: "bytes \<Rightarrow> bool" where
  "check_json_pointer s = (case s of [] \<Rightarrow> True | c # cs \<Rightarrow> if c \<noteq> 0x2F then False else pointer_loop cs)"

definition check_relative_json_pointer :: "bytes \<Rightarrow> bool" where
  "check_relative_json_pointer s =
    (case s of
       [] \<Rightarrow> False
     | c # cs \<Rightarrow>
         if c = 0x30 \<or> 0x31 \<le> c \<and> c \<le> 0x39 then
           (let r = (if c = 0x30 then cs else dropWhile fmt_digit cs)
            in case r of
                 [] \<Rightarrow> False
               | x # xs \<Rightarrow>
                   if x = HASH then xs = []
                   else if x \<noteq> 0x2F then False
                   else check_json_pointer r)
         else False)"

subsection \<open>Identifiers and durations\<close>

fun uuid_loop :: "nat \<Rightarrow> nat \<Rightarrow> nat \<Rightarrow> bytes \<Rightarrow> bool" where
  "uuid_loop len i hex_seen [] = (hex_seen = 32)"
| "uuid_loop len i hex_seen (c # cs) =
    (if len = 36 \<and> (i = 8 \<or> i = 13 \<or> i = 18 \<or> i = 23) then
       (if c \<noteq> MINUS then False else uuid_loop len (Suc i) hex_seen cs)
     else if \<not> fmt_hex c then False
     else uuid_loop len (Suc i) (Suc hex_seen) cs)"

definition check_uuid :: "bytes \<Rightarrow> bool" where
  "check_uuid s = (if length s \<noteq> 32 \<and> length s \<noteq> 36 then False else uuid_loop (length s) 0 0 s)"

text \<open>The number of a component, with an optional fraction behind a point or comma.\<close>

definition dur_number :: "bytes \<Rightarrow> bytes option" where
  "dur_number p =
    (if takeWhile fmt_digit p = [] then None
     else (let r = dropWhile fmt_digit p
           in if r \<noteq> [] \<and> (hd r = DOT \<or> hd r = COMMA)
              then (if takeWhile fmt_digit (tl r) = [] then None else Some (dropWhile fmt_digit (tl r)))
              else Some r))"

definition unit_ok :: "bool \<Rightarrow> byte \<Rightarrow> bool" where
  "unit_ok in_time u \<longleftrightarrow>
    (if u = 0x59 \<or> u = 0x57 \<or> u = 0x44 then \<not> in_time
     else if u = 0x4D then True
     else if u = 0x48 \<or> u = 0x53 then in_time
     else False)"

lemma dur_number_shorter: "dur_number p = Some q \<Longrightarrow> length q \<le> length p"
  using length_dropWhile_le [of fmt_digit p] length_dropWhile_le [of fmt_digit "tl (dropWhile fmt_digit p)"]
  by (auto simp: dur_number_def Let_def split: if_splits)

function duration_loop :: "bool \<Rightarrow> bool \<Rightarrow> bytes \<Rightarrow> bool" where
  "duration_loop any in_time [] = any"
| "duration_loop any in_time (c # cs) =
    (if \<not> in_time \<and> c = 0x54 then duration_loop any True cs
     else case dur_number (c # cs) of
            None \<Rightarrow> False
          | Some [] \<Rightarrow> False
          | Some (u # us) \<Rightarrow> if unit_ok in_time u then duration_loop True in_time us else False)"
  by pat_completeness auto
termination by (relation "measure (\<lambda>(any, in_time, p). length p)") (auto dest: dur_number_shorter)

definition check_duration :: "bytes \<Rightarrow> bool" where
  "check_duration s =
    (if s = [] then False
     else (let p = (if hd s = PLUS \<or> hd s = MINUS then tl s else s)
           in if p = [] \<or> hd p \<noteq> 0x50 then False else duration_loop False False (tl p)))"

subsection \<open>URI templates\<close>

definition percent_ok :: "bytes \<Rightarrow> bool" where
  "percent_ok p \<longleftrightarrow> \<not> length p \<le> 2 \<and> fmt_hex (p ! 1) \<and> fmt_hex (p ! 2)"

function var_name :: "nat \<Rightarrow> bytes \<Rightarrow> (nat \<times> bytes) option" where
  "var_name n p =
    (if p = [] \<or> hd p = RBRACE \<or> hd p = COMMA \<or> hd p = COLON \<or> hd p = 0x2A then Some (n, p)
     else if hd p = 0x25 then (if percent_ok p then var_name (Suc n) (drop 3 p) else None)
     else if is_ascii_alnum (hd p) \<or> hd p = UNDERSCORE then var_name (Suc n) (tl p)
     else None)"
  by pat_completeness auto
termination by (relation "measure (\<lambda>(n, p). length p)") auto

declare var_name.simps [simp del]

definition var_modifier :: "bytes \<Rightarrow> bytes option" where
  "var_modifier p =
    (if p \<noteq> [] \<and> hd p = COLON then
       (let ds = takeWhile fmt_digit (tl p)
        in if length ds < 1 \<or> length ds > 4 then None
           else if hd ds = 0x30 then None
           else Some (dropWhile fmt_digit (tl p)))
     else if p \<noteq> [] \<and> hd p = 0x2A then Some (tl p)
     else Some p)"

text \<open>One variable with its modifier and a comma behind it.\<close>

definition varspec :: "bytes \<Rightarrow> bytes option" where
  "varspec p =
    (case var_name 0 p of
       None \<Rightarrow> None
     | Some (n, q) \<Rightarrow>
         (if n = 0 then None
          else case var_modifier q of
                 None \<Rightarrow> None
               | Some r \<Rightarrow> Some (if r \<noteq> [] \<and> hd r = COMMA then tl r else r)))"

lemma var_name_shorter: "var_name n p = Some (m, q) \<Longrightarrow> n \<le> m \<and> length q + (m - n) \<le> length p"
proof (induction n p rule: var_name.induct)
  case (1 n p)
  show ?case
  proof (cases "p = [] \<or> hd p = RBRACE \<or> hd p = COMMA \<or> hd p = COLON \<or> hd p = 0x2A")
    case True
    then show ?thesis using "1.prems" by (simp add: var_name.simps [of n p])
  next
    case False
    then have p: "0 < length p" by simp
    consider "hd p = 0x25" "percent_ok p" "var_name (Suc n) (drop 3 p) = Some (m, q)"
      | "hd p \<noteq> 0x25" "is_ascii_alnum (hd p) \<or> hd p = UNDERSCORE" "var_name (Suc n) (tl p) = Some (m, q)"
      using "1.prems" False by (auto simp: var_name.simps [of n p] split: if_splits)
    then show ?thesis
    proof cases
      case 1
      have "Suc n \<le> m \<and> length q + (m - Suc n) \<le> length (drop 3 p)"
        by (rule "1.IH"(1) [OF False 1])
      moreover have "length (drop 3 p) < length p" using p by simp
      ultimately show ?thesis by linarith
    next
      case 2
      have "Suc n \<le> m \<and> length q + (m - Suc n) \<le> length (tl p)"
        by (rule "1.IH"(2) [OF False 2])
      moreover have "length (tl p) < length p" using p by simp
      ultimately show ?thesis by linarith
    qed
  qed
qed

lemma varspec_shorter: "varspec p = Some r \<Longrightarrow> length r < length p"
proof -
  assume "varspec p = Some r"
  then obtain n q r' where q: "var_name 0 p = Some (n, q)" "n \<noteq> 0" "var_modifier q = Some r'"
    "r = (if r' \<noteq> [] \<and> hd r' = COMMA then tl r' else r')"
    by (auto simp: varspec_def split: option.splits if_splits)
  have "length r' \<le> length q"
    using q(3) length_dropWhile_le [of fmt_digit "tl q"]
    by (auto simp: var_modifier_def Let_def split: if_splits)
  then show ?thesis using var_name_shorter [OF q(1)] q(2,4) by (auto split: if_splits)
qed

text \<open>The inside of an expression up to the closing brace, which goes as well.\<close>

function varspecs :: "bool \<Rightarrow> bytes \<Rightarrow> bytes option" where
  "varspecs any p =
    (if p = [] then None
     else if hd p = RBRACE then (if any then Some (tl p) else None)
     else case varspec p of None \<Rightarrow> None | Some r \<Rightarrow> varspecs True r)"
  by pat_completeness auto
termination by (relation "measure (\<lambda>(any, p). length p)") (auto dest: varspec_shorter)

declare varspecs.simps [simp del]

definition operator_rest :: "bytes \<Rightarrow> bytes" where
  "operator_rest p = (if p \<noteq> [] \<and> hd p \<in> set (lit ''+./;?&=,!@|'') then tl p else p)"

definition template_bad :: "byte \<Rightarrow> bool" where
  "template_bad c \<longleftrightarrow> c \<le> 0x20 \<or> c = 0x7F \<or> c = DQUOTE \<or> c = SQUOTE \<or> c = 0x3C \<or> c = 0x3E \<or>
     c = BACKSLASH \<or> c = 0x5E \<or> c = 0x60 \<or> c = 0x7C \<or> c = RBRACE"

lemma varspecs_shorter: "varspecs any p = Some r \<Longrightarrow> length r < length p"
proof (induction any p rule: varspecs.induct)
  case (1 any p)
  show ?case
  proof (cases "p = [] \<or> hd p = RBRACE")
    case True
    then show ?thesis using "1.prems" by (auto simp: varspecs.simps [of any p] split: if_splits)
  next
    case False
    then obtain x where x: "varspec p = Some x" "varspecs True x = Some r"
      using "1.prems" by (auto simp: varspecs.simps [of any p] split: option.splits)
    have "length r < length x" using "1.IH" False x by blast
    then show ?thesis using varspec_shorter [OF x(1)] by simp
  qed
qed

function check_uri_template :: "bytes \<Rightarrow> bool" where
  "check_uri_template p =
    (if p = [] then True
     else if hd p = 0x25 then (if percent_ok p then check_uri_template (drop 3 p) else False)
     else if hd p = LBRACE then
       (case varspecs False (operator_rest (tl p)) of None \<Rightarrow> False | Some r \<Rightarrow> check_uri_template r)
     else if template_bad (hd p) then False
     else check_uri_template (tl p))"
  by pat_completeness auto
termination
proof (relation "measure length", goal_cases)
  case (3 p r)
  have "length (operator_rest (tl p)) \<le> length p" by (simp add: operator_rest_def)
  then show ?case using varspecs_shorter [OF 3(4)] by simp
qed auto

declare check_uri_template.simps [simp del]

subsection \<open>Versions\<close>

definition semver_numeric :: "bytes \<Rightarrow> bool" where
  "semver_numeric s \<longleftrightarrow>
    \<not> (length s = 0 \<or> length s > 19) \<and> \<not> (s ! 0 = 0x30 \<and> length s > 1) \<and> all_digits s 0 (length s)"

definition pre_ident_ok :: "bytes \<Rightarrow> bool" where
  "pre_ident_ok s \<longleftrightarrow> list_all (\<lambda>c. is_ascii_alnum c \<or> c = MINUS) s \<and> length s > 0"

definition pre_list_ok :: "bytes \<Rightarrow> bool" where
  "pre_list_ok s \<longleftrightarrow>
    list_all (\<lambda>t. pre_ident_ok t \<and> (list_all fmt_digit t \<longrightarrow> semver_numeric t)) (split_on DOT [] s)"

text \<open>The parts of the version from number \<open>part\<close> on.\<close>

fun version_parts :: "nat \<Rightarrow> nat \<Rightarrow> bytes \<Rightarrow> bytes option" where
  "version_parts part 0 p = Some p"
| "version_parts part (Suc k) p =
    (let num = takeWhile fmt_digit p; r = dropWhile fmt_digit p
     in if \<not> semver_numeric num then None
        else if part < 2 then
          (if r = [] \<or> hd r \<noteq> DOT then None else version_parts (Suc part) k (tl r))
        else version_parts (Suc part) k r)"

definition semver_build :: "bytes \<Rightarrow> bool" where
  "semver_build p =
    (if p = [] then True
     else if hd p \<noteq> PLUS then False
     else if PLUS \<in> set (tl p) then False
     else pre_list_ok (tl p))"

definition check_semver :: "bytes \<Rightarrow> bool" where
  "check_semver s =
    (case version_parts 0 3 s of
       None \<Rightarrow> False
     | Some p \<Rightarrow>
         (if p = [] then True
          else if hd p = MINUS then
            (if pre_list_ok (takeWhile (\<lambda>c. c \<noteq> PLUS) (tl p))
             then semver_build (dropWhile (\<lambda>c. c \<noteq> PLUS) (tl p)) else False)
          else semver_build p))"

definition req_blanks :: "bytes \<Rightarrow> bytes" where
  "req_blanks p = dropWhile (\<lambda>c. c = SPACE \<or> c = TAB) p"

definition req_operator :: "bytes \<Rightarrow> bytes" where
  "req_operator p =
    (if p \<noteq> [] \<and> (hd p = EQUALS \<or> hd p = 0x3E \<or> hd p = 0x3C \<or> hd p = 0x5E \<or> hd p = 0x7E)
     then (if tl p \<noteq> [] \<and> hd (tl p) = EQUALS then tl (tl p) else tl p) else p)"

definition req_wildcard :: "bytes \<Rightarrow> bool" where
  "req_wildcard p \<longleftrightarrow> p \<noteq> [] \<and> (hd p = 0x2A \<or> hd p = 0x78 \<or> hd p = 0x58)"

text \<open>A number or a wildcard behind the dot.\<close>

definition req_part :: "bytes \<Rightarrow> bytes option" where
  "req_part p =
    (let num = takeWhile fmt_digit p
     in if num \<noteq> [] then (if semver_numeric num then Some (dropWhile fmt_digit p) else None)
        else if req_wildcard p then Some (tl p) else None)"

definition req_pre :: "bytes \<Rightarrow> bytes option" where
  "req_pre p =
    (if p \<noteq> [] \<and> hd p = MINUS then
       (if pre_list_ok (takeWhile (\<lambda>c. c \<noteq> PLUS) (tl p))
        then Some (dropWhile (\<lambda>c. c \<noteq> PLUS) (tl p)) else None)
     else Some p)"

definition req_minor :: "bytes \<Rightarrow> bytes option" where
  "req_minor p =
    (if p \<noteq> [] \<and> hd p = DOT then
       (case req_part (tl p) of
          None \<Rightarrow> None
        | Some q \<Rightarrow>
            (if q \<noteq> [] \<and> hd q = DOT then
               (case req_part (tl q) of None \<Rightarrow> None | Some r \<Rightarrow> req_pre r)
             else Some q))
     else Some p)"

text \<open>
  One comparator behind its blanks: a failure, the end of the list with the answer, or the
  rest behind the comma.
\<close>

datatype req_step = Req_Bad | Req_End | Req_More bytes

definition req_end :: "bytes \<Rightarrow> req_step" where
  "req_end p =
    (let q = req_blanks p
     in if q = [] then Req_End else if hd q \<noteq> COMMA then Req_Bad else Req_More (tl q))"

definition req_comparator :: "bytes \<Rightarrow> req_step" where
  "req_comparator p =
    (if hd p = COMMA then Req_Bad
     else (let q = req_blanks (req_operator p); num = takeWhile fmt_digit q
           in if q = [] then Req_Bad
              else if num \<noteq> [] then
                (if \<not> semver_numeric num then Req_Bad
                 else case req_minor (dropWhile fmt_digit q) of
                        None \<Rightarrow> Req_Bad
                      | Some r \<Rightarrow> req_end r)
              else if req_wildcard q then req_end (tl q)
              else Req_Bad))"

lemma req_shorter:
  "length (req_blanks p) \<le> length p" "length (req_operator p) \<le> length p"
  "req_part p = Some r \<Longrightarrow> length r \<le> length p" "req_pre p = Some r \<Longrightarrow> length r \<le> length p"
  "req_end p = Req_More r \<Longrightarrow> length r < length p"
proof -
  show b: "length (req_blanks p) \<le> length p" for p by (simp add: req_blanks_def length_dropWhile_le)
  show "length (req_operator p) \<le> length p" by (simp add: req_operator_def)
  show "req_part p = Some r \<Longrightarrow> length r \<le> length p"
    using length_dropWhile_le [of fmt_digit p] by (auto simp: req_part_def Let_def split: if_splits)
  show "req_pre p = Some r \<Longrightarrow> length r \<le> length p"
    using length_dropWhile_le [of "\<lambda>c. c \<noteq> PLUS" "tl p"] by (auto simp: req_pre_def split: if_splits)
  show "req_end p = Req_More r \<Longrightarrow> length r < length p"
    using b [of p] by (cases "req_blanks p") (auto simp: req_end_def split: if_splits)
qed

lemma req_minor_shorter: "req_minor p = Some r \<Longrightarrow> length r \<le> length p"
proof -
  assume r: "req_minor p = Some r"
  show "length r \<le> length p"
  proof (cases "p \<noteq> [] \<and> hd p = DOT")
    case False
    then show ?thesis using r by (auto simp: req_minor_def)
  next
    case True
    then obtain q where q: "req_part (tl p) = Some q" using r by (auto simp: req_minor_def split: option.splits)
    then have len: "length q \<le> length p" using req_shorter(3) [OF q] by simp
    show ?thesis
    proof (cases "q \<noteq> [] \<and> hd q = DOT")
      case False
      then show ?thesis using True q r len by (auto simp: req_minor_def)
    next
      case dot: True
      then obtain x where x: "req_part (tl q) = Some x" "req_pre x = Some r"
        using True q r by (auto simp: req_minor_def split: option.splits)
      then show ?thesis using req_shorter(3) [OF x(1)] req_shorter(4) [OF x(2)] len by simp
    qed
  qed
qed

lemma req_comparator_shorter: "req_comparator p = Req_More r \<Longrightarrow> length r < length p"
proof -
  assume r: "req_comparator p = Req_More r"
  define q where "q = req_blanks (req_operator p)"
  have q: "length q \<le> length p"
    unfolding q_def by (rule le_trans [OF req_shorter(1) req_shorter(2)])
  consider x where "req_minor (dropWhile fmt_digit q) = Some x" "req_end x = Req_More r"
    | "req_end (tl q) = Req_More r"
    using r by (auto simp: req_comparator_def Let_def simp flip: q_def split: if_splits option.splits)
  then show "length r < length p"
  proof cases
    case 1
    then show ?thesis
      using req_minor_shorter [OF 1(1)] req_shorter(5) [OF 1(2)] length_dropWhile_le [of fmt_digit q] q by simp
  next
    case 2
    then show ?thesis using req_shorter(5) [OF 2] q by simp
  qed
qed

function req_loop :: "bool \<Rightarrow> bytes \<Rightarrow> bool" where
  "req_loop any p =
    (let q = req_blanks p
     in if q = [] then any
        else case req_comparator q of
               Req_Bad \<Rightarrow> False
             | Req_End \<Rightarrow> True
             | Req_More r \<Rightarrow> req_loop True r)"
  by pat_completeness auto
termination
proof (relation "measure (\<lambda>(any, p). length p)", goal_cases)
  case (2 any p q r)
  then show ?case using req_comparator_shorter [of q r] req_shorter(1) [of p] by simp
qed simp

declare req_loop.simps [simp del]

definition check_semver_req :: "bytes \<Rightarrow> bool" where
  "check_semver_req s = req_loop False s"

subsection \<open>The formats by name\<close>

datatype fmt =
    FMT_NONE | FMT_DATETIME | FMT_DATE | FMT_TIME | FMT_DATETIME_LOCAL | FMT_TIME_LOCAL
  | FMT_EMAIL | FMT_IDN_EMAIL | FMT_HOSTNAME | FMT_IDN_HOSTNAME | FMT_IPV4 | FMT_IPV6 | FMT_URI | FMT_IRI
  | FMT_URI_REFERENCE | FMT_IRI_REFERENCE | FMT_JSON_POINTER | FMT_RELATIVE_JSON_POINTER | FMT_REGEX
  | FMT_URI_TEMPLATE | FMT_UUID | FMT_DURATION | FMT_SEMVER | FMT_SEMVER_REQUIREMENT

definition format_names :: "(string \<times> fmt) list" where
  "format_names =
    [(''date-time'', FMT_DATETIME), (''date'', FMT_DATE), (''time'', FMT_TIME),
     (''date-time-local'', FMT_DATETIME_LOCAL), (''partial-date-time'', FMT_DATETIME_LOCAL),
     (''time-local'', FMT_TIME_LOCAL), (''partial-time'', FMT_TIME_LOCAL),
     (''email'', FMT_EMAIL), (''idn-email'', FMT_IDN_EMAIL), (''hostname'', FMT_HOSTNAME),
     (''idn-hostname'', FMT_IDN_HOSTNAME), (''ipv4'', FMT_IPV4), (''ipv6'', FMT_IPV6),
     (''uri'', FMT_URI), (''iri'', FMT_IRI), (''uri-reference'', FMT_URI_REFERENCE),
     (''iri-reference'', FMT_IRI_REFERENCE), (''json-pointer'', FMT_JSON_POINTER),
     (''relative-json-pointer'', FMT_RELATIVE_JSON_POINTER), (''regex'', FMT_REGEX),
     (''uri-template'', FMT_URI_TEMPLATE), (''uuid'', FMT_UUID), (''duration'', FMT_DURATION),
     (''semver'', FMT_SEMVER), (''semver-requirement'', FMT_SEMVER_REQUIREMENT)]"

definition format_kind :: "string \<Rightarrow> fmt" where
  "format_kind name = (case map_of format_names name of None \<Rightarrow> FMT_NONE | Some f \<Rightarrow> f)"

text \<open>The trial compilation of a pattern may run out of its fuel, hence the option.\<close>

fun sch_format_string_check :: "uc_prop list \<Rightarrow> fmt \<Rightarrow> bytes \<Rightarrow> bool option" where
  "sch_format_string_check ucs FMT_DATE s = Some (check_date s)"
| "sch_format_string_check ucs FMT_DATETIME s = Some (check_datetime s)"
| "sch_format_string_check ucs FMT_DATETIME_LOCAL s = Some (check_datetime_local s)"
| "sch_format_string_check ucs FMT_TIME s = Some (check_time s)"
| "sch_format_string_check ucs FMT_TIME_LOCAL s = Some (check_time_local s)"
| "sch_format_string_check ucs FMT_EMAIL s = Some (check_email s)"
| "sch_format_string_check ucs FMT_IDN_EMAIL s = Some (check_email s)"
| "sch_format_string_check ucs FMT_HOSTNAME s = Some (check_hostname s)"
| "sch_format_string_check ucs FMT_IDN_HOSTNAME s = Some (check_hostname s)"
| "sch_format_string_check ucs FMT_IPV4 s = Some (check_ipv4 s)"
| "sch_format_string_check ucs FMT_IPV6 s = Some (check_ipv6 s)"
| "sch_format_string_check ucs FMT_URI s = Some (check_uri s)"
| "sch_format_string_check ucs FMT_IRI s = Some (check_uri s)"
| "sch_format_string_check ucs FMT_URI_REFERENCE s = Some (check_uri_reference s)"
| "sch_format_string_check ucs FMT_IRI_REFERENCE s = Some (check_uri_reference s)"
| "sch_format_string_check ucs FMT_JSON_POINTER s = Some (check_json_pointer s)"
| "sch_format_string_check ucs FMT_RELATIVE_JSON_POINTER s = Some (check_relative_json_pointer s)"
| "sch_format_string_check ucs FMT_REGEX s = map_option (\<lambda>co. co_regex co \<noteq> None) (sch_regex_compile ucs s)"
| "sch_format_string_check ucs FMT_URI_TEMPLATE s = Some (check_uri_template s)"
| "sch_format_string_check ucs FMT_UUID s = Some (check_uuid s)"
| "sch_format_string_check ucs FMT_DURATION s = Some (check_duration s)"
| "sch_format_string_check ucs FMT_SEMVER s = Some (check_semver s)"
| "sch_format_string_check ucs FMT_SEMVER_REQUIREMENT s = Some (check_semver_req s)"
| "sch_format_string_check ucs FMT_NONE s = Some True"

end
