(* ===== verification/Format_Props.thy ===== *)
theory Format_Props
  imports Formats Emitter Number_Props
begin

text \<open>
  The address formats against reference definitions: \<open>check_ipv4\<close> accepts the dotted quads and
  nothing else, \<open>check_ipv6\<close> the forms of the grammar and two that are none.
\<close>

subsection \<open>Canonical decimals\<close>

lemma fmt_digit_is_dec: "fmt_digit c = is_dec c"
  by (simp add: fmt_digit_def is_dec_iff)

definition canonical :: "bytes \<Rightarrow> bool" where
  "canonical w \<longleftrightarrow> w \<noteq> [] \<and> (\<forall>c \<in> set w. is_dec c) \<and> (hd w = 0x30 \<longrightarrow> length w = 1)"

lemma digit_value_inj:
  assumes "is_dec c" "is_dec d" "unat (hexval c) = unat (hexval d)"
  shows "c = d"
  using hexval_dec(3) [OF assms(1)] hexval_dec(3) [OF assms(2)] assms
  by (simp add: is_dec_iff word_le_nat_alt word_unat_eq_iff) arith

lemma digits_value_pos:
  assumes "w \<noteq> []" "\<forall>c \<in> set w. is_dec c" "hd w \<noteq> 0x30"
  shows "0 < digits_value 10 w"
proof -
  obtain c cs where w: "w = c # cs" "is_dec c" "c \<noteq> 0x30" using assms by (cases w) auto
  have "unat c \<noteq> 48" using w(3) by (simp add: word_unat_eq_iff)
  then have "0 < unat (hexval c)" using hexval_dec(3) [OF w(2)] w(2) by (simp add: is_dec_iff word_le_nat_alt)
  then show ?thesis by (simp add: w(1) digits_value_Cons)
qed

lemma digits_value_snoc: "digits_value 10 (w @ [c]) = digits_value 10 w * 10 + unat (hexval c)"
  by (simp add: digits_value_def)

lemma canonical_unique:
  "canonical w \<Longrightarrow> canonical u \<Longrightarrow> digits_value 10 w = digits_value 10 u \<Longrightarrow> w = u"
proof (induction w arbitrary: u rule: rev_induct)
  case Nil
  then show ?case by (simp add: canonical_def)
next
  case (snoc x xs)
  obtain ys y where u: "u = ys @ [y]" using snoc.prems(2) by (cases u rule: rev_cases) (auto simp: canonical_def)
  have dec: "is_dec x" "is_dec y" "\<forall>c \<in> set xs. is_dec c" "\<forall>c \<in> set ys. is_dec c"
    using snoc.prems(1,2) by (auto simp: canonical_def u)
  have eq: "digits_value 10 xs * 10 + unat (hexval x) = digits_value 10 ys * 10 + unat (hexval y)"
    using snoc.prems(3) by (simp add: u digits_value_snoc)
  have small: "unat (hexval x) < 10" "unat (hexval y) < 10" using dec hexval_dec(2) by blast+
  have same1: "unat (hexval x) = unat (hexval y)"
    using arg_cong [OF eq, of "\<lambda>n. n mod 10"] small by simp
  then have same2: "digits_value 10 xs = digits_value 10 ys" using eq by simp
  note same = same1 same2
  have hd: "zs \<noteq> [] \<Longrightarrow> hd zs \<noteq> 0x30" if "canonical (zs @ [z])" for zs z
    using that by (auto simp: canonical_def)
  have pos: "0 < digits_value 10 zs" if "canonical (zs @ [z])" "zs \<noteq> []" for zs z
    using that hd [OF that] by (intro digits_value_pos) (auto simp: canonical_def)
  have "digits_value 10 ([] :: bytes) = 0" by (simp add: digits_value_def)
  then have "xs = [] \<longleftrightarrow> ys = []"
    using same(2) pos [of xs x] pos [of ys y] snoc.prems(1,2) u by (metis less_irrefl)
  then have "xs = ys"
  proof (cases "xs = []")
    case False
    then have "ys \<noteq> []" using \<open>xs = [] \<longleftrightarrow> ys = []\<close> by simp
    then have "canonical xs" "canonical ys"
      using False dec hd [of xs x] hd [of ys y] snoc.prems(1,2) u by (auto simp: canonical_def)
    then show ?thesis using snoc.IH same(2) by blast
  qed simp
  then show ?case using digit_value_inj [OF dec(1,2) same(1)] u by simp
qed

lemma dec_digits_canonical: "canonical (dec_digits mag [])" "digits_value 10 (dec_digits mag []) = unat mag"
  using dec_digits_decimal [of mag] by (simp_all add: decimal_digits_def canonical_def)

text \<open>The decimal text of a number below 256.\<close>

definition octet_text :: "nat \<Rightarrow> bytes" where
  "octet_text v = dec_digits (of_nat v) []"

lemma octet_canonical:
  assumes "v < 256"
  shows "canonical (octet_text v)" "digits_value 10 (octet_text v) = v"
proof -
  have "unat (of_nat v :: u64) = v" using assms by (simp add: unsigned_of_nat take_bit_eq_mod)
  then show "canonical (octet_text v)" "digits_value 10 (octet_text v) = v"
    using dec_digits_canonical [of "of_nat v"] by (simp_all add: octet_text_def)
qed

lemma canonical_length:
  assumes "canonical w" "digits_value 10 w < 1000"
  shows "length w \<le> 3"
proof (cases w)
  case (Cons c cs)
  show ?thesis
  proof (cases "cs = []")
    case False
    then have "c \<noteq> 0x30" using assms(1) Cons by (auto simp: canonical_def)
    then have "0 < digits_value 10 [c]" using assms(1) Cons by (intro digits_value_pos) (auto simp: canonical_def)
    then have "1 \<le> unat (hexval c)" by (simp add: digits_value_def)
    then have "1 * 10 ^ length cs \<le> unat (hexval c) * 10 ^ length cs" by (rule mult_le_mono1)
    then have "10 ^ length cs \<le> unat (hexval c) * 10 ^ length cs + digits_value 10 cs"
      unfolding mult_1 by (rule trans_le_add1)
    then have "10 ^ length cs \<le> digits_value 10 w" by (simp only: Cons digits_value_Cons)
    then have "(10 :: nat) ^ length cs < 10 ^ 3" using assms(2) by simp
    then have "length cs < 3" by (rule power_less_imp_less_exp [rotated]) simp
    then show ?thesis using Cons by simp
  qed (use Cons in simp)
qed simp

subsection \<open>Dotted quads\<close>

lemma foldl_digit_of:
  assumes "\<forall>c \<in> set w. is_dec c"
  shows "foldl (\<lambda>v c. v * 10 + digit_of c) (int a) w = int (foldl (\<lambda>v c. v * 10 + unat (hexval c)) a w)"
  using assms
proof (induction w arbitrary: a)
  case (Cons c w)
  then have c: "is_dec c" by simp
  then have "digit_of c = int (unat (hexval c))"
    using hexval_dec(3) [OF c] by (simp add: digit_of_def is_dec_iff word_le_nat_alt)
  then have "int a * 10 + digit_of c = int (a * 10 + unat (hexval c))" by simp
  then show ?case using Cons.IH [of "a * 10 + unat (hexval c)"] Cons.prems by simp
qed simp

definition no_digit :: "bytes \<Rightarrow> bool" where
  "no_digit q \<longleftrightarrow> (case q of [] \<Rightarrow> True | c # cs \<Rightarrow> \<not> fmt_digit c)"

lemma ipv4_group_iff:
  "ipv4_group p = Some q \<longleftrightarrow> (\<exists>v < 256. p = octet_text v @ q \<and> no_digit q)"
proof
  assume q: "ipv4_group p = Some q"
  define ds where "ds = takeWhile fmt_digit p"
  have dec: "\<forall>c \<in> set ds. is_dec c" by (auto simp: ds_def fmt_digit_is_dec dest: set_takeWhileD)
  have cond: "\<not> (length ds < 1 \<or> length ds > 3)" "\<not> (length ds > 1 \<and> hd ds = 0x30)"
    "\<not> foldl (\<lambda>v c. v * 10 + digit_of c) 0 ds > 255" "q = dropWhile fmt_digit p"
    using q unfolding ipv4_group_def Let_def ds_def [symmetric] by (metis option.discI option.inject)+
  then have res: "1 \<le> length ds" "length ds \<le> 3" "length ds > 1 \<longrightarrow> hd ds \<noteq> 0x30"
    "foldl (\<lambda>v c. v * 10 + digit_of c) 0 ds \<le> 255" "q = dropWhile fmt_digit p"
    by linarith+
  have can: "canonical ds" using res(1,3) dec by (cases ds) (auto simp: canonical_def)
  have val: "foldl (\<lambda>v c. v * 10 + digit_of c) 0 ds = int (digits_value 10 ds)"
    using foldl_digit_of [OF dec, of 0] by (simp add: digits_value_def)
  then have v: "digits_value 10 ds < 256" using res(4) by simp
  then have "ds = octet_text (digits_value 10 ds)"
    using canonical_unique [OF can] octet_canonical by simp
  moreover have "p = ds @ q" by (simp add: ds_def res(5))
  moreover have "no_digit q"
  proof (cases "dropWhile fmt_digit p")
    case (Cons c cs)
    then have "\<not> fmt_digit c" by (metis hd_dropWhile list.discI list.sel(1))
    then show ?thesis using Cons by (simp add: no_digit_def res(5))
  next
    case Nil
    then show ?thesis unfolding res(5) by (simp only: no_digit_def list.case)
  qed
  ultimately show "\<exists>v < 256. p = octet_text v @ q \<and> no_digit q" using v by metis
next
  assume "\<exists>v < 256. p = octet_text v @ q \<and> no_digit q"
  then obtain v where v: "v < 256" "p = octet_text v @ q" "no_digit q" by blast
  note can = octet_canonical [OF v(1)]
  have dec: "\<forall>c \<in> set (octet_text v). is_dec c" using can(1) by (simp add: canonical_def)
  have ds: "takeWhile fmt_digit p = octet_text v" "dropWhile fmt_digit p = q"
    using v(2,3) dec by (cases q; simp add: no_digit_def takeWhile_append dropWhile_append3 fmt_digit_is_dec)+
  have "foldl (\<lambda>v c. v * 10 + digit_of c) 0 (octet_text v) = int v"
    using foldl_digit_of [OF dec, of 0] can(2) by (simp add: digits_value_def)
  moreover have "length (octet_text v) \<le> 3" using can v(1) by (intro canonical_length) simp_all
  moreover have "octet_text v \<noteq> []" "hd (octet_text v) = 0x30 \<longrightarrow> length (octet_text v) = 1"
    using can(1) by (simp_all add: canonical_def)
  ultimately show "ipv4_group p = Some q"
    using v(1) by (cases "octet_text v") (auto simp: ipv4_group_def Let_def ds)
qed

lemma no_digit_dot: "no_digit (DOT # p)"
  by (simp add: no_digit_def fmt_digit_def)

lemma ipv4_rest:
  "0 < g \<Longrightarrow> ipv4_loop g k p = Some [] \<longleftrightarrow>
    (\<exists>vs. length vs = k \<and> list_all (\<lambda>v. v < 256) vs \<and> p = concat (map (\<lambda>v. DOT # octet_text v) vs))"
proof (induction g k p rule: ipv4_loop.induct)
  case (1 g p)
  then show ?case by simp
next
  case (2 g k p)
  show ?case
  proof
    assume l: "ipv4_loop g (Suc k) p = Some []"
    obtain p' where p: "p = DOT # p'" using l "2.prems" by (cases p) (auto split: if_splits)
    obtain q where q: "ipv4_group p' = Some q" "ipv4_loop (Suc g) k q = Some []"
      using l "2.prems" p by (auto split: option.splits)
    obtain v where v: "v < 256" "p' = octet_text v @ q" using q(1) ipv4_group_iff by blast
    obtain vs where vs: "length vs = k" "list_all (\<lambda>v. v < 256) vs" "q = concat (map (\<lambda>v. DOT # octet_text v) vs)"
      using "2.IH" [of q] "2.prems" p q by auto
    show "\<exists>vs. length vs = Suc k \<and> list_all (\<lambda>v. v < 256) vs \<and> p = concat (map (\<lambda>v. DOT # octet_text v) vs)"
      using v vs p by (intro exI [of _ "v # vs"]) simp
  next
    assume "\<exists>vs. length vs = Suc k \<and> list_all (\<lambda>v. v < 256) vs \<and> p = concat (map (\<lambda>v. DOT # octet_text v) vs)"
    then obtain v vs where v: "v < 256" "list_all (\<lambda>v. v < 256) vs" "length vs = k"
      "p = DOT # octet_text v @ concat (map (\<lambda>v. DOT # octet_text v) vs)"
      by (auto simp: length_Suc_conv)
    define q where "q = concat (map (\<lambda>v. DOT # octet_text v) vs)"
    have "no_digit q" by (cases vs) (simp_all add: q_def no_digit_dot no_digit_def fmt_digit_def)
    then have g: "ipv4_group (tl p) = Some q" using v by (auto simp: ipv4_group_iff q_def)
    have "ipv4_loop (Suc g) k q = Some []" using "2.IH" [of q] "2.prems" v g q_def by auto
    then show "ipv4_loop g (Suc k) p = Some []" using "2.prems" v(4) g by simp
  qed
qed

text \<open>C34: an address of version 4 is four numbers below 256 in plain decimal with dots between them,
  and every such text is accepted.\<close>

theorem check_ipv4_iff:
  "check_ipv4 s \<longleftrightarrow> (\<exists>a b c d. a < 256 \<and> b < 256 \<and> c < 256 \<and> d < 256 \<and>
     s = octet_text a @ [DOT] @ octet_text b @ [DOT] @ octet_text c @ [DOT] @ octet_text d)"
proof -
  have "check_ipv4 s \<longleftrightarrow> (\<exists>q. ipv4_group s = Some q \<and> ipv4_loop 1 3 q = Some [])"
  proof -
    have "(4 :: nat) = Suc 3" by simp
    then have "ipv4_loop 0 4 s = (case ipv4_group s of None \<Rightarrow> None | Some q \<Rightarrow> ipv4_loop 1 3 q)"
      by (simp only: ipv4_loop.simps(2) if_False simp_thms less_irrefl One_nat_def)
    then show ?thesis unfolding check_ipv4_def by (cases "ipv4_group s") simp_all
  qed
  also have "\<dots> \<longleftrightarrow> (\<exists>a vs. a < 256 \<and> length vs = 3 \<and> list_all (\<lambda>v. v < 256) vs \<and>
      s = octet_text a @ concat (map (\<lambda>v. DOT # octet_text v) vs))" (is "?l = ?r")
  proof
    show "?l \<Longrightarrow> ?r" by (auto simp: ipv4_group_iff ipv4_rest)
    assume ?r
    then obtain a vs where r: "a < 256" "length vs = 3" "list_all (\<lambda>v. v < 256) vs"
      "s = octet_text a @ concat (map (\<lambda>v. DOT # octet_text v) vs)" by blast
    have "no_digit (concat (map (\<lambda>v. DOT # octet_text v) vs))"
      using r(2) by (cases vs) (simp_all add: no_digit_dot)
    then show ?l using r by (auto simp: ipv4_group_iff ipv4_rest)
  qed
  also have "\<dots> \<longleftrightarrow> (\<exists>a b c d. a < 256 \<and> b < 256 \<and> c < 256 \<and> d < 256 \<and>
     s = octet_text a @ [DOT] @ octet_text b @ [DOT] @ octet_text c @ [DOT] @ octet_text d)"
    (is "?l = ?r")
  proof
    assume ?l
    then obtain a b c d where "a < 256" "b < 256" "c < 256" "d < 256"
      "s = octet_text a @ concat (map (\<lambda>v. DOT # octet_text v) [b, c, d])"
      by (auto simp: numeral_3_eq_3 length_Suc_conv)
    then show ?r by (intro exI [of _ a] exI [of _ b] exI [of _ c] exI [of _ d]) simp
  next
    assume ?r
    then obtain a b c d where r: "a < 256" "b < 256" "c < 256" "d < 256"
      "s = octet_text a @ [DOT] @ octet_text b @ [DOT] @ octet_text c @ [DOT] @ octet_text d" by blast
    then show ?l by (intro exI [of _ a] exI [of _ "[b, c, d]"]) simp
  qed
  finally show ?thesis .
qed

subsection \<open>Tokens\<close>

lemma split_on_acc: "split_on sep acc s = (acc @ hd (split_on sep [] s)) # tl (split_on sep [] s)"
proof (induction s arbitrary: acc)
  case (Cons c cs)
  show ?case using Cons [of "acc @ [c]"] Cons [of "[c]"] by simp
qed simp

lemma split_on_not_Nil: "split_on sep acc s \<noteq> []"
  by (subst split_on_acc) simp

lemma split_on_run: "sep \<notin> set w \<Longrightarrow> split_on sep acc (w @ s) = split_on sep (acc @ w) s"
  by (induction w arbitrary: acc) auto

lemma joined_Cons: "joined [sep] (x # y # ys) = x @ sep # joined [sep] (y # ys)"
  by simp

lemma split_on_joined:
  "list_all (\<lambda>t. sep \<notin> set t) (t # ts) \<Longrightarrow> split_on sep [] (joined [sep] (t # ts)) = t # ts"
proof (induction ts arbitrary: t)
  case Nil
  then show ?case using split_on_run [of sep t "[]" "[]"] by simp
next
  case (Cons u us)
  have "split_on sep [] (joined [sep] (t # u # us)) = split_on sep t (sep # joined [sep] (u # us))"
    unfolding joined_Cons using Cons.prems split_on_run [of sep t "[]" "sep # joined [sep] (u # us)"] by simp
  then show ?case using Cons.IH [of u] Cons.prems by simp
qed

lemma joined_split_on: "joined [sep] (split_on sep acc s) = acc @ s"
proof (induction s arbitrary: acc)
  case (Cons c cs)
  obtain t ts where "split_on sep [] cs = t # ts" using split_on_not_Nil [of sep "[]" cs] by (cases "split_on sep [] cs") auto
  then show ?case using Cons [of "[]"] Cons [of "acc @ [c]"] by auto
qed simp

lemma split_on_clean: "sep \<notin> set acc \<Longrightarrow> list_all (\<lambda>t. sep \<notin> set t) (split_on sep acc s)"
  by (induction s arbitrary: acc) auto

lemma joined_append:
  "xs \<noteq> [] \<Longrightarrow> ys \<noteq> [] \<Longrightarrow> joined [sep] (xs @ ys) = joined [sep] xs @ sep # joined [sep] ys"
  by (cases xs; cases ys) simp_all

subsection \<open>Empty tokens\<close>

lemma empty_positions_append:
  "empty_positions (xs @ ys) = empty_positions xs @ map ((+) (length xs)) (empty_positions ys)"
proof -
  have "[0..<length (xs @ ys)] = [0..<length xs] @ map ((+) (length xs)) [0..<length ys]"
    by (rule nth_equalityI) (auto simp: nth_append)
  moreover have "filter (\<lambda>i. (xs @ ys) ! i = []) [0..<length xs] = filter (\<lambda>i. xs ! i = []) [0..<length xs]"
    by (rule filter_cong) (auto simp: nth_append)
  ultimately show ?thesis by (simp add: empty_positions_def filter_map comp_def)
qed

lemma empty_positions_Cons:
  "empty_positions (t # ts) = (if t = [] then [0] else []) @ map Suc (empty_positions ts)"
  using empty_positions_append [of "[t]" ts] by (simp add: empty_positions_def)

lemma empty_positions_none: "[] \<notin> set ts \<Longrightarrow> empty_positions ts = []"
  by (auto simp: empty_positions_def filter_empty_conv) (metis nth_mem)

lemma empty_positions_some: "[] \<in> set ts \<Longrightarrow> empty_positions ts \<noteq> []"
  by (auto simp: empty_positions_def filter_empty_conv in_set_conv_nth)

text \<open>The weights of the groups of a part of an address: two for a dotted quad at its end.\<close>

fun weight :: "bytes list \<Rightarrow> nat option" where
  "weight [] = Some 0"
| "weight [t] = (if group_ok t then Some 1 else if check_ipv4 t then Some 2 else None)"
| "weight (t # ts) = (if group_ok t then map_option Suc (weight ts) else None)"

definition quad_last :: "bytes list \<Rightarrow> bool" where
  "quad_last ts \<longleftrightarrow> last ts \<noteq> [] \<and> DOT \<in> set (last ts)"

lemma group_ok_facts: "group_ok t \<Longrightarrow> t \<noteq> [] \<and> DOT \<notin> set t \<and> COLON \<notin> set t"
  by (auto simp: group_ok_def list_all_iff fmt_hex_def fmt_digit_def)

lemma octet_plain: "v < 256 \<Longrightarrow> COLON \<notin> set (octet_text v)"
  using octet_canonical(1) [of v] by (auto simp: canonical_def is_dec_iff)

lemma ipv4_facts: "check_ipv4 t \<Longrightarrow> t \<noteq> [] \<and> DOT \<in> set t \<and> COLON \<notin> set t"
proof -
  assume "check_ipv4 t"
  then obtain q where q: "ipv4_group t = Some q" "ipv4_loop 1 3 q = Some []"
    unfolding check_ipv4_def by (auto simp: eval_nat_numeral split: option.splits)
  then obtain a vs where r: "a < 256" "t = octet_text a @ q" "length vs = 3" "list_all (\<lambda>v. v < 256) vs"
      "q = concat (map (\<lambda>v. DOT # octet_text v) vs)"
    by (auto simp: ipv4_group_iff ipv4_rest)
  show ?thesis
    using r octet_plain by (cases vs) (auto simp: list_all_iff)
qed

lemma weight_clean: "weight ts = Some n \<Longrightarrow> list_all (\<lambda>t. t \<noteq> [] \<and> COLON \<notin> set t) ts"
  by (induction ts arbitrary: n rule: weight.induct)
    (auto dest: group_ok_facts ipv4_facts split: if_splits)

lemma weight_length: "weight ts = Some n \<Longrightarrow> length ts \<le> n \<and> n \<le> Suc (length ts)"
  by (induction ts arbitrary: n rule: weight.induct) (auto split: if_splits)

lemma ipv6_groups_weight:
  "[] \<notin> set ts \<Longrightarrow> ts \<noteq> [] \<Longrightarrow> ipv6_groups (quad_last ts) ts = weight ts"
proof (induction ts rule: weight.induct)
  case (2 t)
  then show ?case by (auto simp: quad_last_def dest: group_ok_facts ipv4_facts)
next
  case (3 t u us)
  then have "t \<noteq> []" "[] \<notin> set (u # us)" by auto
  moreover have "quad_last (t # u # us) = quad_last (u # us)" by (simp add: quad_last_def)
  moreover have "ipv6_groups (quad_last (u # us)) (u # us) = weight (u # us)" if "group_ok t"
    using "3.IH" [OF that] \<open>[] \<notin> set (u # us)\<close> by simp
  ultimately show ?case by (simp only: ipv6_groups.simps(2) [of _ t "u # us"] weight.simps(3)) simp
qed simp

text \<open>Groups before an empty token are hexadecimal.\<close>

lemma ipv6_groups_front:
  "[] \<notin> set l \<Longrightarrow> r \<noteq> [] \<Longrightarrow>
    ipv6_groups v4 (l @ r) = (if list_all group_ok l then map_option ((+) (length l)) (ipv6_groups v4 r) else None)"
  by (induction l; cases "ipv6_groups v4 r") auto

subsection \<open>Addresses of version 6\<close>

definition ipv6_full :: "bytes list \<Rightarrow> bool" where
  "ipv6_full ts \<longleftrightarrow> weight ts = Some 8"

definition ipv6_gap :: "bytes list \<Rightarrow> bytes list \<Rightarrow> bool" where
  "ipv6_gap l r \<longleftrightarrow> list_all group_ok l \<and> (\<exists>n. weight r = Some n \<and> length l + n \<le> 7)"

text \<open>\<open>check_ipv6\<close> on the tokens.\<close>

definition ipv6_tokens :: "bytes list \<Rightarrow> bool" where
  "ipv6_tokens toks =
    (let n = length toks; es = empty_positions toks; ne = length es; v4 = quad_last toks
     in if n > 9 then False
        else if ne = 0 \<and> n \<noteq> (if v4 then 7 else 8) then False
        else if ne = 1 \<and> (es ! 0 = 0 \<or> es ! 0 = n - 1) then False
        else if ne = 2 \<and> es ! 1 \<noteq> es ! 0 + 1 then False
        else if ne = 3 \<and> n \<noteq> 3 then False
        else if ne > 3 then False
        else case ipv6_groups v4 toks of
               None \<Rightarrow> False
             | Some groups \<Rightarrow> if ne = 0 then groups = 8 else groups \<le> 7)"

lemma check_ipv6_tokens: "check_ipv6 s = ipv6_tokens (split_on COLON [] s)"
  by (simp add: check_ipv6_def ipv6_tokens_def quad_last_def Let_def)

lemma weight_quad: "weight ts = Some n \<Longrightarrow> ts \<noteq> [] \<Longrightarrow> n = (if quad_last ts then Suc (length ts) else length ts)"
proof (induction ts arbitrary: n rule: weight.induct)
  case (2 t)
  then show ?case by (auto simp: quad_last_def dest: group_ok_facts ipv4_facts split: if_splits)
next
  case (3 t u us)
  then show ?case by (auto simp: quad_last_def split: if_splits)
qed simp

lemma tokens_full:
  assumes "[] \<notin> set ts" "ts \<noteq> []"
  shows "ipv6_tokens ts \<longleftrightarrow> ipv6_full ts"
proof -
  have g: "ipv6_groups (quad_last ts) ts = weight ts" using assms by (rule ipv6_groups_weight)
  have e: "empty_positions ts = []" using assms(1) by (rule empty_positions_none)
  have "weight ts = Some 8 \<Longrightarrow> length ts = (if quad_last ts then 7 else 8)"
    using weight_quad [of ts 8] assms(2) by (auto split: if_splits)
  then show ?thesis
    by (auto simp: ipv6_tokens_def ipv6_full_def Let_def e g split: option.splits if_splits)
qed

lemma quad_last_append: "r \<noteq> [] \<Longrightarrow> quad_last (l @ r) = quad_last r" "r \<noteq> [] \<Longrightarrow> quad_last (t # r) = quad_last r"
  by (simp_all add: quad_last_def)

lemma empties_at:
  "[] \<notin> set l \<Longrightarrow> empty_positions (l @ [] # r) = length l # map (\<lambda>i. length l + Suc i) (empty_positions r)"
  by (simp add: empty_positions_append empty_positions_Cons empty_positions_none comp_def)

lemma ipv6_groups_tail:
  assumes "[] \<notin> set r" "r \<noteq> []"
  shows "ipv6_groups (quad_last r) ([] # r) = weight r" "ipv6_groups (quad_last r) ([] # [] # r) = weight r"
  using ipv6_groups_weight [OF assms] by simp_all

lemma tokens_one:
  assumes "[] \<notin> set l" "[] \<notin> set r"
  shows "ipv6_tokens (l @ [] # r) \<longleftrightarrow> l \<noteq> [] \<and> r \<noteq> [] \<and> ipv6_gap l r"
proof -
  have e: "empty_positions (l @ [] # r) = [length l]"
    using assms by (simp add: empties_at empty_positions_none)
  show ?thesis
  proof (cases "l = [] \<or> r = []")
    case True
    then show ?thesis by (auto simp: ipv6_tokens_def Let_def e)
  next
    case False
    have g: "ipv6_groups (quad_last (l @ [] # r)) (l @ [] # r)
        = (if list_all group_ok l then map_option ((+) (length l)) (weight r) else None)"
      using False assms ipv6_groups_front [of l "[] # r"] ipv6_groups_tail [of r]
      by (simp add: quad_last_append del: ipv6_groups.simps)
    show ?thesis
    proof (cases "weight r")
      case None
      then show ?thesis by (simp add: ipv6_tokens_def Let_def e g ipv6_gap_def)
    next
      case (Some n)
      have "length r \<le> n" using weight_length [OF Some] by simp
      then show ?thesis using False Some by (auto simp: ipv6_tokens_def Let_def e g ipv6_gap_def)
    qed
  qed
qed

lemma tokens_two:
  assumes "[] \<notin> set l" "[] \<notin> set r"
  shows "ipv6_tokens (l @ [] # [] # r) \<longleftrightarrow> ipv6_gap l r"
proof -
  have e: "empty_positions (l @ [] # [] # r) = [length l, Suc (length l)]"
    using assms by (simp add: empties_at empty_positions_Cons empty_positions_none)
  have g: "ipv6_groups (quad_last (l @ [] # [] # r)) (l @ [] # [] # r)
      = (if list_all group_ok l then map_option ((+) (length l)) (weight r) else None)"
  proof (cases "r = []")
    case True
    then show ?thesis using assms ipv6_groups_front [of l "[[], []]"] by simp
  next
    case False
    then show ?thesis
      using assms ipv6_groups_front [of l "[] # [] # r"] ipv6_groups_tail [of r]
      by (simp add: quad_last_append del: ipv6_groups.simps)
  qed
  show ?thesis
  proof (cases "weight r")
    case None
    then show ?thesis by (simp add: ipv6_tokens_def Let_def e g ipv6_gap_def)
  next
    case (Some n)
    have "length r \<le> n" using weight_length [OF Some] by simp
    then show ?thesis using Some by (auto simp: ipv6_tokens_def Let_def e g ipv6_gap_def)
  qed
qed

lemma tokens_apart:
  assumes "[] \<notin> set l" "[] \<notin> set m" "m \<noteq> []" "[] \<notin> set r"
  shows "\<not> ipv6_tokens (l @ [] # m @ [] # r)"
proof -
  have "empty_positions (l @ [] # m @ [] # r) = [length l, length l + Suc (length m)]"
    using assms by (simp add: empties_at empty_positions_none)
  then show ?thesis using assms(3) by (simp add: ipv6_tokens_def Let_def)
qed

lemma tokens_many:
  assumes "[] \<notin> set l" "[] \<notin> set m" "[] \<in> set r"
  shows "ipv6_tokens (l @ [] # m @ [] # r) \<longleftrightarrow> l = [] \<and> m = [] \<and> r = [[]]"
proof -
  have e: "empty_positions (l @ [] # m @ [] # r)
      = length l # (length l + Suc (length m)) # map (\<lambda>i. length l + Suc (length m + Suc i)) (empty_positions r)"
    using assms by (simp add: empties_at comp_def)
  have ne: "0 < length (empty_positions r)" using empty_positions_some [OF assms(3)] by simp
  have r: "r \<noteq> []" using assms(3) by auto
  show ?thesis
  proof
    assume t: "ipv6_tokens (l @ [] # m @ [] # r)"
    define es where "es = empty_positions (l @ [] # m @ [] # r)"
    have "\<not> length es > 3" "\<not> (length es = 3 \<and> length (l @ [] # m @ [] # r) \<noteq> 3)"
      using t unfolding ipv6_tokens_def Let_def es_def [symmetric] by (simp_all split: if_splits)
    moreover have "length es = Suc (Suc (length (empty_positions r)))" by (simp add: es_def e)
    ultimately have "length (l @ [] # m @ [] # r) = 3" using ne by simp
    then have "l = [] \<and> m = [] \<and> length r = 1" using r by (cases r) auto
    then show "l = [] \<and> m = [] \<and> r = [[]]" using assms(3) by (cases r) auto
  next
    assume "l = [] \<and> m = [] \<and> r = [[]]"
    then show "ipv6_tokens (l @ [] # m @ [] # r)" by (simp add: ipv6_tokens_def empty_positions_Cons) (simp add: empty_positions_def)
  qed
qed

lemma joined_empty_Cons: "joined [sep] ([] # r) = (if r = [] then [] else sep # joined [sep] r)"
  by (cases r) simp_all

lemma gap_clean:
  assumes "ipv6_gap l r"
  shows "[] \<notin> set l" "[] \<notin> set r" "list_all (\<lambda>t. COLON \<notin> set t) (l @ r)"
  using assms weight_clean [of r] group_ok_facts by (fastforce simp: ipv6_gap_def list_all_iff)+

text \<open>The tokens of a text without a colon in them are its tokens.\<close>

lemma check_ipv6_joined:
  "list_all (\<lambda>t. COLON \<notin> set t) ts \<Longrightarrow> ts \<noteq> [] \<Longrightarrow> check_ipv6 (joined [COLON] ts) = ipv6_tokens ts"
  using split_on_joined [of COLON] by (cases ts) (auto simp: check_ipv6_tokens)

definition ipv6_text :: "bytes list \<Rightarrow> bytes list \<Rightarrow> nat \<Rightarrow> bytes" where
  "ipv6_text l r colons = joined [COLON] l @ replicate colons COLON @ joined [COLON] r"

lemma ipv6_accepts:
  "weight ts = Some 8 \<Longrightarrow> check_ipv6 (joined [COLON] ts)"
  "ipv6_gap l r \<Longrightarrow> check_ipv6 (ipv6_text l r 2)"
  "ipv6_gap l r \<Longrightarrow> l \<noteq> [] \<Longrightarrow> r \<noteq> [] \<Longrightarrow> check_ipv6 (ipv6_text l r 3)"
  "check_ipv6 [COLON]"
proof -
  assume w: "weight ts = Some 8"
  then have "ts \<noteq> []" "[] \<notin> set ts" "list_all (\<lambda>t. COLON \<notin> set t) ts"
    using weight_clean [OF w] by (auto simp: list_all_iff)
  then show "check_ipv6 (joined [COLON] ts)"
    using w tokens_full [of ts] by (simp add: check_ipv6_joined ipv6_full_def)
next
  assume g: "ipv6_gap l r" "l \<noteq> []" "r \<noteq> []"
  note c = gap_clean [OF g(1)]
  have "ipv6_text l r 3 = joined [COLON] (l @ [] # [] # r)"
    using g(2,3) by (simp add: ipv6_text_def joined_append joined_empty_Cons numeral_eq_Suc del: joined.simps(2))
  then show "check_ipv6 (ipv6_text l r 3)"
    using c g(1) tokens_two [OF c(1,2)] by (simp add: check_ipv6_joined)
next
  show "check_ipv6 [COLON]" by code_simp
next
  assume g: "ipv6_gap l r"
  note c = gap_clean [OF g]
  consider "l \<noteq> []" "r \<noteq> []" | "l \<noteq> []" "r = []" | "l = []" "r \<noteq> []" | "l = []" "r = []" by blast
  then show "check_ipv6 (ipv6_text l r 2)"
  proof cases
    case 1
    have "ipv6_text l r 2 = joined [COLON] (l @ [] # r)"
      using 1 by (simp add: ipv6_text_def joined_append joined_empty_Cons numeral_eq_Suc del: joined.simps(2))
    then show ?thesis using 1 c g tokens_one [OF c(1,2)] by (simp add: check_ipv6_joined)
  next
    case 2
    have "ipv6_text l r 2 = joined [COLON] (l @ [] # [] # r)"
      using 2 by (simp add: ipv6_text_def joined_append joined_empty_Cons numeral_eq_Suc del: joined.simps(2))
    then show ?thesis using c g tokens_two [OF c(1,2)] by (simp add: check_ipv6_joined)
  next
    case 3
    have "ipv6_text l r 2 = joined [COLON] (l @ [] # [] # r)"
      using 3 by (simp add: ipv6_text_def joined_empty_Cons numeral_eq_Suc del: joined.simps(2))
    then show ?thesis using c g tokens_two [OF c(1,2)] by (simp add: check_ipv6_joined)
  next
    case 4
    have "check_ipv6 [COLON, COLON]" by code_simp
    then show ?thesis using 4 by (simp add: ipv6_text_def numeral_eq_Suc)
  qed
qed

text \<open>C35: an address of version 6 is eight groups, or at most seven with one double colon in place of the
  rest (a dotted quad at the end counts as two); beside these forms of the grammar, which are
  all accepted, exactly two more pass: a triple colon between groups, and a lone colon.\<close>

theorem check_ipv6_iff:
  "check_ipv6 s \<longleftrightarrow>
    (\<exists>ts. weight ts = Some 8 \<and> s = joined [COLON] ts) \<or>
    (\<exists>l r. ipv6_gap l r \<and> s = ipv6_text l r 2) \<or>
    (\<exists>l r. ipv6_gap l r \<and> l \<noteq> [] \<and> r \<noteq> [] \<and> s = ipv6_text l r 3) \<or>
    s = [COLON]" (is "_ \<longleftrightarrow> ?forms")
proof
  assume c: "check_ipv6 s"
  define ts where "ts = split_on COLON [] s"
  have s: "s = joined [COLON] ts" using joined_split_on [of COLON "[]" s] by (simp add: ts_def)
  have t: "ipv6_tokens ts" using c by (simp add: check_ipv6_tokens ts_def)
  have ne: "ts \<noteq> []" by (simp add: ts_def split_on_not_Nil)
  show ?forms
  proof (cases "[] \<in> set ts")
    case False
    then have "weight ts = Some 8" using t ne tokens_full by (simp add: ipv6_full_def)
    then show ?thesis using s by blast
  next
    case True
    then obtain l r1 where l: "ts = l @ [] # r1" "[] \<notin> set l" by (meson split_list_first)
    show ?thesis
    proof (cases "[] \<in> set r1")
      case False
      then have g: "l \<noteq> []" "r1 \<noteq> []" "ipv6_gap l r1" using tokens_one [OF l(2)] t l(1) by simp_all
      then have "s = ipv6_text l r1 2"
        by (simp add: s l(1) ipv6_text_def joined_append joined_empty_Cons numeral_eq_Suc del: joined.simps(2))
      then show ?thesis using g by blast
    next
      case True
      then obtain m r where m: "r1 = m @ [] # r" "[] \<notin> set m" by (meson split_list_first)
      show ?thesis
      proof (cases "[] \<in> set r")
        case True
        then have "l = [] \<and> m = [] \<and> r = [[]]" using tokens_many [OF l(2) m(2)] t l(1) m(1) by simp
        then have "s = ipv6_text [] [] 2" by (simp add: s l(1) m(1) ipv6_text_def numeral_eq_Suc)
        moreover have "ipv6_gap [] []" by (simp add: ipv6_gap_def)
        ultimately show ?thesis by blast
      next
        case False
        then have "m = []" using tokens_apart [OF l(2) m(2)] t l(1) m(1) by auto
        then have g: "ipv6_gap l r" using tokens_two [OF l(2) False] t l(1) m(1) by simp
        have ts: "ts = l @ [] # [] # r" by (simp add: l(1) m(1) \<open>m = []\<close>)
        consider "l \<noteq> []" "r \<noteq> []" | "(l = []) \<noteq> (r = [])" | "l = []" "r = []" by blast
        then show ?thesis
        proof cases
          case 1
          then have "s = ipv6_text l r 3"
            by (simp add: s ts ipv6_text_def joined_append joined_empty_Cons numeral_eq_Suc del: joined.simps(2))
          then show ?thesis using g 1 by blast
        next
          case 2
          then have "s = ipv6_text l r 2"
            by (cases "l = []") (simp_all add: s ts ipv6_text_def joined_append joined_empty_Cons numeral_eq_Suc del: joined.simps(2))
          then show ?thesis using g by blast
        next
          case 3
          then show ?thesis by (simp add: s ts)
        qed
      qed
    qed
  qed
next
  assume ?forms
  then show "check_ipv6 s" using ipv6_accepts by blast
qed

end
