(* ===== verification/Uri.thy ===== *)
theory Uri
  imports Json_Read
begin

text \<open>
  The resource model of the schema compiler, \<open>schema/refs.c\<close>: joining a reference with a base
  URI, splitting off the fragment, and the table of loaded resources. A C string is the list
  of its bytes before the NUL; where the code works inside a buffer, the model has the bytes
  of the buffer with the NUL and the positions of the two pointers.
\<close>

abbreviation (input) SLASH :: byte where "SLASH \<equiv> 0x2F"

definition URI_MAX :: nat where
  "URI_MAX = 1024"

text \<open>What \<open>snprintf\<close> of \<open>%s\<close> leaves in a buffer of the given size.\<close>

definition fmt_s :: "nat \<Rightarrow> bytes \<Rightarrow> bytes" where
  "fmt_s cap s = take (cap - 1) s"

definition str_chr :: "byte \<Rightarrow> bytes \<Rightarrow> nat option" where
  "str_chr c s = (if c \<in> set s then Some (length (takeWhile (\<lambda>x. x \<noteq> c) s)) else None)"

definition str_rchr :: "byte \<Rightarrow> bytes \<Rightarrow> nat option" where
  "str_rchr c s =
    (if c \<in> set s then Some (length s - 1 - length (takeWhile (\<lambda>x. x \<noteq> c) (rev s))) else None)"

subsection \<open>Dot segments\<close>

definition mem_at :: "bytes \<Rightarrow> nat \<Rightarrow> byte" where
  "mem_at m i = (if i < length m then m ! i else 0)"

text \<open>The last slash of the string at \<open>w\<close>.\<close>

definition last_slash :: "bytes \<Rightarrow> nat \<Rightarrow> nat option" where
  "last_slash m w = map_option ((+) w) (str_rchr SLASH (takeWhile (\<lambda>c. c \<noteq> 0) (drop w m)))"

function copy_segment :: "bytes \<Rightarrow> nat \<Rightarrow> nat \<Rightarrow> bytes \<times> nat \<times> nat" where
  "copy_segment m w r =
    (if r < length m \<and> mem_at m r \<noteq> 0 \<and> mem_at m r \<noteq> SLASH
     then copy_segment (m[w := mem_at m r]) (Suc w) (Suc r) else (m, w, r))"
  by pat_completeness auto
termination by (relation "measure (\<lambda>(m, w, r). length m - r)") auto

declare copy_segment.simps [simp del]

lemma copy_segment_progress:
  "copy_segment m w r = (m', w', r') \<Longrightarrow> length m' = length m \<and> r \<le> r' \<and>
     (r < length m \<and> mem_at m r \<noteq> 0 \<and> mem_at m r \<noteq> SLASH \<longrightarrow> r < r') \<and>
     (\<not> (r < length m \<and> mem_at m r \<noteq> 0 \<and> mem_at m r \<noteq> SLASH) \<longrightarrow> r' = r \<and> m' = m)"
proof (induction m w r rule: copy_segment.induct)
  case (1 m w r)
  show ?case
  proof (cases "r < length m \<and> mem_at m r \<noteq> 0 \<and> mem_at m r \<noteq> SLASH")
    case True
    then have "copy_segment (m[w := mem_at m r]) (Suc w) (Suc r) = (m', w', r')"
      using "1.prems" by (simp add: copy_segment.simps [of m w r])
    from "1.IH" [OF True this] have "length m' = length m" "Suc r \<le> r'" by (simp_all only: length_list_update)
    then show ?thesis using True by simp
  next
    case False
    then show ?thesis using "1.prems" by (auto simp: copy_segment.simps [of m w r] split: if_splits)
  qed
qed

lemma copy_segment_step:
  assumes "copy_segment m w r = (x, a, b)" "r < length m" "mem_at m r \<noteq> 0"
  shows "length x = length m" "r \<le> b" "mem_at x b \<noteq> SLASH \<Longrightarrow> r < b"
  using copy_segment_progress [OF assms(1)] assms by auto

text \<open>What the arm of a double dot does to the string at \<open>w\<close>.\<close>

definition pop_segment :: "bytes \<Rightarrow> nat \<Rightarrow> bytes" where
  "pop_segment m w =
    (case last_slash m w of
       Some slash \<Rightarrow> if slash > 0 then m[slash := 0] else m[Suc slash := 0]
     | None \<Rightarrow> m[w := 0])"

function dot_loop :: "bytes \<Rightarrow> nat \<Rightarrow> nat \<Rightarrow> bytes \<times> nat" where
  "dot_loop m w r =
    (if \<not> (r < length m \<and> mem_at m r \<noteq> 0) then (m, w)
     else if mem_at m r = DOT \<and> mem_at m (r + 1) = SLASH then dot_loop m w (r + 2)
     else if mem_at m r = DOT \<and> mem_at m (r + 1) = DOT \<and> mem_at m (r + 2) = SLASH
     then dot_loop (pop_segment m w) w (r + 3)
     else case copy_segment m w r of
            (m1, w1, r1) \<Rightarrow>
              (if mem_at m1 r1 = SLASH then dot_loop (m1[w1 := SLASH]) (Suc w1) (Suc r1)
               else dot_loop m1 w1 r1))"
  by pat_completeness auto
termination
proof (relation "measure (\<lambda>(m, w, r). length m - r)", goal_cases)
  case (3 m w r)
  have "length (pop_segment m w) = length m" by (simp add: pop_segment_def split: option.split)
  then show ?case using 3 by auto
next
  case (4 m w r x a b)
  then show ?case using copy_segment_step [of m w r] by (cases "copy_segment m w r") fastforce
next
  case (5 m w r x a b)
  then show ?case using copy_segment_step [of m w r] by (cases "copy_segment m w r") fastforce
qed auto

declare dot_loop.simps [simp del]

text \<open>The string left in the buffer that held \<open>s\<close>.\<close>

definition remove_dot_segments :: "bytes \<Rightarrow> bytes" where
  "remove_dot_segments s = (case dot_loop (s @ [0]) 0 0 of (m, w) \<Rightarrow> c_str (m[w := 0]))"

subsection \<open>Joining\<close>

definition uri_dir :: "bytes \<Rightarrow> nat \<Rightarrow> bytes" where
  "uri_dir base cap =
    (case str_rchr SLASH base of
       None \<Rightarrow> fmt_s cap base
     | Some i \<Rightarrow> (let n = i + 1 in take (if n \<ge> cap then cap - 1 else n) base))"

definition is_alpha :: "byte \<Rightarrow> bool" where
  "is_alpha p \<longleftrightarrow> (0x61 \<le> p \<and> p \<le> 0x7A) \<or> (0x41 \<le> p \<and> p \<le> 0x5A)"

definition scheme_char :: "byte \<Rightarrow> bool" where
  "scheme_char p \<longleftrightarrow> is_alpha p \<or> (0x30 \<le> p \<and> p \<le> 0x39) \<or> p = PLUS \<or> p = MINUS \<or> p = DOT"

definition has_scheme :: "bytes \<Rightarrow> bool" where
  "has_scheme ref \<longleftrightarrow>
    ref \<noteq> [] \<and> is_alpha (hd ref) \<and>
    (let p = dropWhile scheme_char ref in p \<noteq> [] \<and> hd p = COLON)"

definition is_http :: "bytes \<Rightarrow> bool" where
  "is_http s \<longleftrightarrow> prefix (lit ''http://'') s \<or> prefix (lit ''https://'') s"

definition is_file :: "bytes \<Rightarrow> bool" where
  "is_file s \<longleftrightarrow> prefix (lit ''file://'') s"

text \<open>The bytes behind the first \<open>://\<close>, as their position; the base starts with an http scheme.\<close>

definition authority_at :: "bytes \<Rightarrow> nat" where
  "authority_at base = (if prefix (lit ''http://'') base then 7 else 8)"

definition ref_path :: "bytes \<Rightarrow> bytes" where
  "ref_path ref = takeWhile (\<lambda>c. c \<noteq> HASH) ref"

text \<open>Joining with an absolute path.\<close>

definition join_absolute :: "bytes \<Rightarrow> bytes \<Rightarrow> nat \<Rightarrow> bool \<times> bytes" where
  "join_absolute base ref cap =
    (if is_http base then
       (let a = authority_at base;
            n = (case str_chr SLASH (drop a base) of Some i \<Rightarrow> a + i | None \<Rightarrow> length base)
        in if n \<ge> cap \<or> length ref + n + 1 \<ge> cap then (False, []) else (True, take n base @ ref))
     else (True, fmt_s cap (lit ''file://'' @ remove_dot_segments (fmt_s URI_MAX ref))))"

text \<open>Joining in the space of http names, up to the last slash of the base.\<close>

definition join_http :: "bytes \<Rightarrow> bytes \<Rightarrow> nat \<Rightarrow> bool \<times> bytes" where
  "join_http base ref cap =
    (let a = authority_at base
     in case str_rchr SLASH (drop a base) of
          None \<Rightarrow> (False, [])
        | Some i \<Rightarrow>
            (let n = a + i + 1; path_part = ref_path ref
             in if n \<ge> cap then (False, [])
                else if length path_part \<ge> URI_MAX then (False, take n base)
                else if n + length path_part + 1 > cap then (False, take n base)
                else (True, take n base @ remove_dot_segments path_part)))"

definition join_file :: "bytes \<Rightarrow> bytes \<Rightarrow> nat \<Rightarrow> bool \<times> bytes" where
  "join_file base ref cap =
    (let dir = uri_dir base URI_MAX; path_part = ref_path ref; out = dir @ path_part
     in if length dir \<ge> cap then (False, [])
        else if length path_part \<ge> URI_MAX then (False, dir)
        else if length dir + length path_part + 1 > cap then (False, dir)
        else (True, if is_file out then take 7 out @ remove_dot_segments (drop 7 out) else out))"

text \<open>
  \<open>teptris_uri_join\<close>: the answer with the string in \<open>out\<close>. An absolute path is compared with
  the base before the test for a null base: no result then.
\<close>

definition teptris_uri_join :: "bytes option \<Rightarrow> bytes option \<Rightarrow> nat \<Rightarrow> (bool \<times> bytes) option" where
  "teptris_uri_join base rf cap =
    (case rf of
       None \<Rightarrow> Some (False, [])
     | Some ref \<Rightarrow>
         (if is_http ref then Some (False, [])
          else if has_scheme ref then Some (True, fmt_s cap ref)
          else if is_file ref then Some (True, fmt_s cap ref)
          else if ref \<noteq> [] \<and> hd ref = SLASH then
            (case base of None \<Rightarrow> None | Some b \<Rightarrow> Some (join_absolute b ref cap))
          else case base of
                 None \<Rightarrow> Some (False, [])
               | Some b \<Rightarrow>
                   Some (if b = [] then (False, [])
                         else if is_http b then join_http b ref cap
                         else if \<not> is_file b then (True, fmt_s cap ref)
                         else join_file b ref cap)))"

definition teptris_uri_split :: "bytes \<Rightarrow> nat \<Rightarrow> nat \<Rightarrow> bytes \<times> bytes" where
  "teptris_uri_split uri doc_cap frag_cap =
    (let doc = takeWhile (\<lambda>c. c \<noteq> HASH) uri; frag = tl (dropWhile (\<lambda>c. c \<noteq> HASH) uri)
     in (take (if length doc \<ge> doc_cap then doc_cap - 1 else length doc) doc, fmt_s frag_cap frag))"

definition teptris_file_uri_to_path :: "bytes \<Rightarrow> nat \<Rightarrow> bytes" where
  "teptris_file_uri_to_path uri cap = fmt_s cap (if is_file uri then drop 7 uri else uri)"

subsection \<open>Resources\<close>

definition RESOURCE_MAX_BYTES :: nat where
  "RESOURCE_MAX_BYTES = 1048576"

text \<open>
  \<open>sch_load_resource\<close>: the table maps absolute names to loaded texts, \<open>files\<close> is what opening and
  reading a file yields. Only file-backed resources enter the table here.
\<close>

definition sch_load_resource ::
    "(bytes \<Rightarrow> u64) \<Rightarrow> (bytes \<Rightarrow> bytes option) \<Rightarrow> (bytes \<times> jv) list \<Rightarrow> bytes \<Rightarrow> jv option \<times> (bytes \<times> jv) list" where
  "sch_load_resource sd files resources abs_uri =
    (case map_of resources abs_uri of
       Some root \<Rightarrow> (Some root, resources)
     | None \<Rightarrow>
         (if length resources \<ge> 64 then (None, resources)
          else case files (teptris_file_uri_to_path abs_uri URI_MAX) of
                 None \<Rightarrow> (None, resources)
               | Some content \<Rightarrow>
                   (let txt = take RESOURCE_MAX_BYTES content
                    in if txt = [] then (None, resources)
                       else case json_read sd txt 160 of
                              Inr (Some root, msg) \<Rightarrow> (Some root, resources @ [(abs_uri, root)])
                            | _ \<Rightarrow> (None, resources))))"

end
