(* ===== verification/Uri_Props.thy ===== *)
theory Uri_Props
  imports Uri
begin

text \<open>
  Dot segments: a path is segments, each closed by a slash, and a last name. The single dots
  are taken out as they should; a double dot does not take the segment before it away, and
  cuts the rest of the path at its last slash.
\<close>

subsection \<open>Segments\<close>

definition segments :: "bytes list \<Rightarrow> bytes \<Rightarrow> bytes" where
  "segments ss fin = concat (map (\<lambda>s. s @ [SLASH]) ss) @ fin"

definition plain_name :: "bytes \<Rightarrow> bool" where
  "plain_name s \<longleftrightarrow> SLASH \<notin> set s \<and> 0 \<notin> set s"

lemma segments_Cons: "segments (s # ss) fin = s @ SLASH # segments ss fin"
  by (simp add: segments_def)

lemma segments_no_NUL: "list_all plain_name ss \<Longrightarrow> plain_name fin \<Longrightarrow> 0 \<notin> set (segments ss fin)"
  by (auto simp: segments_def plain_name_def list_all_iff)

lemma mem_at_append: "mem_at (a @ x # b) (length a) = x"
  by (simp add: mem_at_def)

lemma mem_at_second: "mem_at (a @ x # y # b) (Suc (length a)) = y"
  by (simp add: mem_at_def nth_append)

lemma mem_at_third: "mem_at (a @ x # y # z # b) (Suc (Suc (length a))) = z"
  by (simp add: mem_at_def nth_append)

text \<open>Copying a name over the bytes that taken-out segments left.\<close>

lemma copy_segment_name:
  assumes "SLASH \<notin> set s" "0 \<notin> set s" "c = 0 \<or> c = SLASH"
  shows "\<exists>gap'. length gap' = length gap \<and> set gap' \<subseteq> set gap \<union> set s \<and>
    copy_segment (out @ gap @ s @ c # rest) (length out) (length (out @ gap))
      = (out @ s @ gap' @ c # rest, length (out @ s), length (out @ s @ gap'))"
  using assms
proof (induction s arbitrary: out gap)
  case Nil
  have "mem_at (out @ gap @ c # rest) (length (out @ gap)) = c"
    using mem_at_append [of "out @ gap" c rest] by simp
  then show ?case
    using Nil by (intro exI [of _ gap]) (auto simp: copy_segment.simps [of "out @ gap @ c # rest"])
next
  case (Cons x s)
  let ?m = "out @ gap @ (x # s) @ c # rest"
  have x: "mem_at ?m (length (out @ gap)) = x" "length (out @ gap) < length ?m"
    using mem_at_append [of "out @ gap" x "s @ c # rest"] by simp_all
  have step: "copy_segment ?m (length out) (length (out @ gap))
      = copy_segment (?m[length out := x]) (Suc (length out)) (Suc (length (out @ gap)))"
    using x Cons.prems by (subst copy_segment.simps) simp
  obtain gap1 where gap1: "gap @ [x] = hd (gap @ [x]) # gap1" "length gap1 = length gap"
    "?m[length out := x] = (out @ [x]) @ gap1 @ s @ c # rest" "set gap1 \<subseteq> set gap \<union> {x}"
  proof (cases gap)
    case Nil
    then show ?thesis using that [of "[]"] by simp
  next
    case (Cons y ys)
    then show ?thesis using that [of "ys @ [x]"] by (auto simp: list_update_append)
  qed
  obtain gap' where gap': "length gap' = length gap1" "set gap' \<subseteq> set gap1 \<union> set s"
    "copy_segment ((out @ [x]) @ gap1 @ s @ c # rest) (length (out @ [x])) (length ((out @ [x]) @ gap1))
      = ((out @ [x]) @ s @ gap' @ c # rest, length ((out @ [x]) @ s), length ((out @ [x]) @ s @ gap'))"
    using Cons.IH [of gap1 "out @ [x]"] Cons.prems by auto
  have "copy_segment ?m (length out) (length (out @ gap))
      = (out @ (x # s) @ gap' @ c # rest, length (out @ x # s), length (out @ (x # s) @ gap'))"
    unfolding step gap1(3) using gap'(3) gap1(2) by simp
  then show ?case using gap' gap1 by (intro exI [of _ gap']) auto
qed

definition dot_free :: "bytes \<Rightarrow> bool" where
  "dot_free s \<longleftrightarrow> s \<noteq> [DOT] \<and> s \<noteq> [DOT, DOT]"

lemma no_dot_arm:
  assumes "plain_name s" "dot_free s \<or> c = 0" "c = 0 \<or> c = SLASH"
  shows "\<not> (mem_at (a @ s @ c # b) (length a) = DOT \<and> mem_at (a @ s @ c # b) (length a + 1) = SLASH)"
    "\<not> (mem_at (a @ s @ c # b) (length a) = DOT \<and> mem_at (a @ s @ c # b) (length a + 1) = DOT \<and>
        mem_at (a @ s @ c # b) (length a + 2) = SLASH)"
proof -
  consider "s = []" | x where "s = [x]" | x y where "s = [x, y]" | x y z t where "s = x # y # z # t"
    by (cases s; cases "tl s"; cases "tl (tl s)") auto
  then show "\<not> (mem_at (a @ s @ c # b) (length a) = DOT \<and> mem_at (a @ s @ c # b) (length a + 1) = SLASH)"
    "\<not> (mem_at (a @ s @ c # b) (length a) = DOT \<and> mem_at (a @ s @ c # b) (length a + 1) = DOT \<and>
        mem_at (a @ s @ c # b) (length a + 2) = SLASH)"
    using assms by (cases; auto simp: mem_at_def nth_append plain_name_def dot_free_def)+
qed

lemma dot_loop_segment:
  assumes "plain_name s" "dot_free s"
  shows "\<exists>gap'. (0 \<notin> set gap \<longrightarrow> 0 \<notin> set gap') \<and>
    dot_loop (out @ gap @ s @ SLASH # rest) (length out) (length (out @ gap))
    = dot_loop ((out @ s @ [SLASH]) @ gap' @ rest) (length (out @ s @ [SLASH])) (length ((out @ s @ [SLASH]) @ gap'))"
proof -
  let ?m = "out @ gap @ s @ SLASH # rest"
  obtain gap' where gap': "length gap' = length gap"
    "copy_segment ?m (length out) (length (out @ gap))
      = (out @ s @ gap' @ SLASH # rest, length (out @ s), length (out @ s @ gap'))"
    "0 \<notin> set gap \<longrightarrow> 0 \<notin> set gap'"
    using copy_segment_name [of s SLASH gap out rest] assms unfolding plain_name_def by blast
  note arms = no_dot_arm [of s SLASH "out @ gap" rest, simplified]
  have "mem_at ?m (length (out @ gap)) \<noteq> 0"
    using assms(1) mem_at_append [of "out @ gap" "hd (s @ SLASH # rest)" "tl (s @ SLASH # rest)"]
    by (cases s) (auto simp: plain_name_def)
  then have "dot_loop ?m (length out) (length (out @ gap))
      = dot_loop ((out @ s @ gap' @ SLASH # rest)[length (out @ s) := SLASH]) (Suc (length (out @ s)))
          (Suc (length (out @ s @ gap')))"
    using arms assms gap'(2) mem_at_append [of "out @ s @ gap'" SLASH rest]
    by (subst dot_loop.simps) (simp, blast)
  moreover have "\<exists>gap2. length gap2 = length gap' \<and> (0 \<notin> set gap \<longrightarrow> 0 \<notin> set gap2) \<and>
      (out @ s @ gap' @ SLASH # rest)[length (out @ s) := SLASH] = (out @ s @ [SLASH]) @ gap2 @ rest"
  proof (cases gap')
    case Nil
    then show ?thesis by (intro exI [of _ "[]"]) (simp add: list_update_append)
  next
    case (Cons y ys)
    then show ?thesis using gap'(3) by (intro exI [of _ "ys @ [SLASH]"]) (simp add: list_update_append)
  qed
  then obtain gap2 where gap2: "length gap2 = length gap'" "0 \<notin> set gap \<longrightarrow> 0 \<notin> set gap2"
    "(out @ s @ gap' @ SLASH # rest)[length (out @ s) := SLASH] = (out @ s @ [SLASH]) @ gap2 @ rest" by blast
  ultimately show ?thesis by (intro exI [of _ gap2]) simp
qed

lemma dot_loop_single:
  "dot_loop (out @ gap @ [DOT] @ SLASH # rest) (length out) (length (out @ gap))
    = dot_loop (out @ (gap @ [DOT, SLASH]) @ rest) (length out) (length (out @ gap @ [DOT, SLASH]))"
  using mem_at_append [of "out @ gap" DOT "SLASH # rest"] mem_at_second [of "out @ gap" DOT SLASH rest]
  by (subst dot_loop.simps) simp

lemma dot_loop_last:
  assumes "plain_name fin"
  shows "\<exists>m. dot_loop (out @ gap @ fin @ 0 # rest) (length out) (length (out @ gap)) = (m, length (out @ fin))
    \<and> take (length (out @ fin)) m = out @ fin \<and> length (out @ fin) < length m"
proof (cases "fin = []")
  case True
  then show ?thesis
    using mem_at_append [of "out @ gap" 0 rest] by (subst dot_loop.simps) simp
next
  case False
  let ?m = "out @ gap @ fin @ 0 # rest"
  obtain gap' where gap': "length gap' = length gap"
    "copy_segment ?m (length out) (length (out @ gap))
      = (out @ fin @ gap' @ 0 # rest, length (out @ fin), length (out @ fin @ gap'))"
    using copy_segment_name [of fin 0 gap out rest] assms by (auto simp: plain_name_def)
  note arms = no_dot_arm [of fin 0 "out @ gap" rest, simplified]
  have nz: "mem_at ?m (length (out @ gap)) \<noteq> 0"
    using assms False mem_at_append [of "out @ gap" "hd fin" "tl fin @ 0 # rest"]
    by (cases fin) (auto simp: plain_name_def)
  have nul: "mem_at (out @ fin @ gap' @ 0 # rest) (length (out @ fin @ gap')) = 0"
    using mem_at_append [of "out @ fin @ gap'" 0 rest] by simp
  have "dot_loop ?m (length out) (length (out @ gap))
      = dot_loop (out @ fin @ gap' @ 0 # rest) (length (out @ fin)) (length (out @ fin @ gap'))"
    using arms assms gap'(2) nz nul by (subst dot_loop.simps) (simp, blast)
  also have "\<dots> = (out @ fin @ gap' @ 0 # rest, length (out @ fin))"
    using nul by (subst dot_loop.simps) simp
  finally show ?thesis by simp
qed

lemma dot_loop_plain:
  assumes "list_all plain_name ss" "[DOT, DOT] \<notin> set ss" "plain_name fin"
  shows "\<exists>m. dot_loop (out @ gap @ segments ss fin @ 0 # rest) (length out) (length (out @ gap))
      = (m, length (out @ segments (filter (\<lambda>s. s \<noteq> [DOT]) ss) fin))
    \<and> take (length (out @ segments (filter (\<lambda>s. s \<noteq> [DOT]) ss) fin)) m = out @ segments (filter (\<lambda>s. s \<noteq> [DOT]) ss) fin
    \<and> length (out @ segments (filter (\<lambda>s. s \<noteq> [DOT]) ss) fin) < length m"
  using assms
proof (induction ss arbitrary: out gap)
  case Nil
  then show ?case using dot_loop_last [of fin out gap rest] by (simp add: segments_def)
next
  case (Cons s ss)
  show ?case
  proof (cases "s = [DOT]")
    case True
    then show ?thesis
      using Cons.IH [of out "gap @ [DOT, SLASH]"] Cons.prems dot_loop_single [of out gap "segments ss fin @ 0 # rest"]
      by (simp add: segments_Cons)
  next
    case False
    then have "plain_name s" "dot_free s" using Cons.prems by (auto simp: dot_free_def)
    from dot_loop_segment [OF this, of gap out "segments ss fin @ 0 # rest"]
    obtain gap' where "dot_loop (out @ gap @ s @ SLASH # segments ss fin @ 0 # rest) (length out) (length (out @ gap))
      = dot_loop ((out @ s @ [SLASH]) @ gap' @ segments ss fin @ 0 # rest) (length (out @ s @ [SLASH]))
          (length ((out @ s @ [SLASH]) @ gap'))" by blast
    then show ?thesis
      using Cons.IH [of "out @ s @ [SLASH]" gap'] Cons.prems False by (simp add: segments_Cons)
  qed
qed

lemma str_rchr_last: "c \<notin> set b \<Longrightarrow> str_rchr c (a @ c # b) = Some (length a)"
  by (simp add: str_rchr_def takeWhile_append)

lemma dot_loop_double:
  assumes "list_all plain_name ss" "plain_name fin" "0 \<notin> set gap"
  shows "\<exists>gap' rest'. dot_loop (out @ gap @ segments ([DOT, DOT] # ss) fin @ 0 # rest) (length out) (length (out @ gap))
    = dot_loop (out @ gap' @ segments (butlast ss) (if ss = [] then fin else last ss) @ 0 # rest') (length out)
        (length (out @ gap'))"
proof -
  let ?m = "out @ gap @ DOT # DOT # SLASH # segments ss fin @ 0 # rest"
  have str: "takeWhile (\<lambda>c. c \<noteq> 0) (drop (length out) ?m) = gap @ DOT # DOT # SLASH # segments ss fin"
    using assms segments_no_NUL [OF assms(1,2)] by (simp add: takeWhile_append)
  have fin: "SLASH \<notin> set fin" using assms(2) by (simp add: plain_name_def)
  have "dot_loop ?m (length out) (length (out @ gap)) = dot_loop (pop_segment ?m (length out)) (length out) (length (out @ gap) + 3)"
    using mem_at_append [of "out @ gap" DOT "DOT # SLASH # segments ss fin @ 0 # rest"]
      mem_at_second [of "out @ gap" DOT DOT "SLASH # segments ss fin @ 0 # rest"]
      mem_at_third [of "out @ gap" DOT DOT SLASH "segments ss fin @ 0 # rest"]
    by (subst dot_loop.simps) simp
  moreover have "\<exists>gap' rest'. length gap' = length gap + 3 \<and> pop_segment ?m (length out)
      = out @ gap' @ segments (butlast ss) (if ss = [] then fin else last ss) @ 0 # rest'"
  proof (cases ss rule: rev_cases)
    case Nil
    have "last_slash ?m (length out) = Some (length (out @ gap) + 2)"
      using str_rchr_last [OF fin, of "gap @ [DOT, DOT]"] unfolding last_slash_def str
      by (simp add: Nil segments_def)
    then have "pop_segment ?m (length out) = out @ (gap @ [DOT, DOT, 0]) @ fin @ 0 # rest"
      by (simp add: pop_segment_def Nil segments_def list_update_append)
    then show ?thesis using Nil
      by (intro exI [of _ "gap @ [DOT, DOT, 0]"] exI [of _ rest]) (simp add: segments_def)
  next
    case (snoc ss' z)
    have seg: "segments ss fin = segments ss' z @ SLASH # fin" by (simp add: snoc segments_def)
    have "last_slash ?m (length out) = Some (length (out @ gap @ [DOT, DOT, SLASH] @ segments ss' z))"
      using str_rchr_last [OF fin, of "gap @ [DOT, DOT, SLASH] @ segments ss' z"] unfolding last_slash_def str
      by (simp add: seg)
    then have "pop_segment ?m (length out)
        = out @ (gap @ [DOT, DOT, SLASH]) @ segments ss' z @ 0 # fin @ 0 # rest"
      by (simp add: pop_segment_def seg list_update_append)
    then show ?thesis using snoc
      by (intro exI [of _ "gap @ [DOT, DOT, SLASH]"] exI [of _ "fin @ 0 # rest"]) simp
  qed
  then obtain gap' rest' where "length gap' = length gap + 3" "pop_segment ?m (length out)
      = out @ gap' @ segments (butlast ss) (if ss = [] then fin else last ss) @ 0 # rest'" by blast
  ultimately show ?thesis by (intro exI [of _ gap'] exI [of _ rest']) (simp add: segments_Cons add.assoc)
qed

lemma dot_loop_front:
  assumes "list_all plain_name s1" "[DOT, DOT] \<notin> set s1" "0 \<notin> set gap"
  shows "\<exists>gap'. 0 \<notin> set gap' \<and>
    dot_loop (out @ gap @ segments (s1 @ ss) fin @ rest) (length out) (length (out @ gap))
    = dot_loop ((out @ segments (filter (\<lambda>s. s \<noteq> [DOT]) s1) []) @ gap' @ segments ss fin @ rest)
        (length (out @ segments (filter (\<lambda>s. s \<noteq> [DOT]) s1) []))
        (length ((out @ segments (filter (\<lambda>s. s \<noteq> [DOT]) s1) []) @ gap'))"
  using assms
proof (induction s1 arbitrary: out gap)
  case Nil
  then show ?case by (intro exI [of _ gap]) (simp add: segments_def)
next
  case (Cons s s1)
  show ?case
  proof (cases "s = [DOT]")
    case True
    then show ?thesis
      using Cons.IH [of "gap @ [DOT, SLASH]" out] Cons.prems
        dot_loop_single [of out gap "segments (s1 @ ss) fin @ rest"]
      by (simp add: segments_Cons)
  next
    case False
    then have "plain_name s" "dot_free s" using Cons.prems by (auto simp: dot_free_def)
    from dot_loop_segment [OF this, of gap out "segments (s1 @ ss) fin @ rest"] Cons.prems(3)
    obtain gap' where g: "0 \<notin> set gap'"
      "dot_loop (out @ gap @ s @ SLASH # segments (s1 @ ss) fin @ rest) (length out) (length (out @ gap))
      = dot_loop ((out @ s @ [SLASH]) @ gap' @ segments (s1 @ ss) fin @ rest) (length (out @ s @ [SLASH]))
          (length ((out @ s @ [SLASH]) @ gap'))" by blast
    then show ?thesis
      using Cons.IH [of gap' "out @ s @ [SLASH]"] Cons.prems False by (simp add: segments_Cons)
  qed
qed

lemma segments_append: "segments (a @ b) fin = segments a [] @ segments b fin"
  by (simp add: segments_def)

text \<open>The string that the loop leaves.\<close>

lemma dot_string:
  assumes "dot_loop (s @ [0]) 0 0 = (m, length t)" "take (length t) m = t" "length t < length m" "0 \<notin> set t"
  shows "remove_dot_segments s = t"
proof -
  have "m[length t := 0] = t @ 0 # drop (Suc (length t)) m"
    using assms(2,3) by (metis upd_conv_take_nth_drop)
  then show ?thesis using assms(1,4) by (simp add: remove_dot_segments_def c_str_def takeWhile_append)
qed

text \<open>C36: single dots are taken out of a path, but a double dot is not resolved: it goes by itself,
  the segment before it stays, and what follows it is cut at its last slash.\<close>

theorem double_dot_kept:
  assumes "list_all plain_name (s1 @ s2)" "plain_name fin" "[DOT, DOT] \<notin> set (s1 @ s2)"
  shows "remove_dot_segments (segments s1 fin) = segments (filter (\<lambda>s. s \<noteq> [DOT]) s1) fin \<and>
    remove_dot_segments (segments (s1 @ [DOT, DOT] # s2) fin)
      = segments (filter (\<lambda>s. s \<noteq> [DOT]) (s1 @ butlast s2)) (if s2 = [] then fin else last s2)"
proof -
  let ?f = "filter (\<lambda>s. s \<noteq> [DOT])"
  have names: "list_all plain_name s1" "list_all plain_name s2" "[DOT, DOT] \<notin> set s1" "[DOT, DOT] \<notin> set s2"
    using assms by auto
  have clean: "0 \<notin> set (segments (?f ss) x)" if "list_all plain_name ss" "plain_name x" for ss x
    using that by (intro segments_no_NUL) (auto simp: list_all_iff)
  have single: "remove_dot_segments (segments s1 fin) = segments (?f s1) fin"
    using dot_loop_plain [OF names(1,3) assms(2), of "[]" "[]" "[]"] clean [OF names(1) assms(2)]
    by (auto intro: dot_string)
  define l where "l = segments (?f s1) []"
  define x where "x = (if s2 = [] then fin else last s2)"
  have x: "plain_name x" using assms(2) names(2) by (auto simp: x_def list_all_iff)
  have s2: "list_all plain_name (butlast s2)" "[DOT, DOT] \<notin> set (butlast s2)"
    using names(2,4) by (auto simp: list_all_iff dest: in_set_butlastD)
  obtain gap where gap: "0 \<notin> set gap"
    "dot_loop (segments (s1 @ [DOT, DOT] # s2) fin @ [0]) 0 0
      = dot_loop (l @ gap @ segments ([DOT, DOT] # s2) fin @ [0]) (length l) (length (l @ gap))"
    using dot_loop_front [OF names(1,3), of "[]" "[]" "[DOT, DOT] # s2" fin "[0]"] by (auto simp: l_def)
  obtain gap' rest' where g: "dot_loop (l @ gap @ segments ([DOT, DOT] # s2) fin @ [0]) (length l) (length (l @ gap))
      = dot_loop (l @ gap' @ segments (butlast s2) x @ 0 # rest') (length l) (length (l @ gap'))"
    using dot_loop_double [OF names(2) assms(2) gap(1), of l "[]"] unfolding x_def by blast
  have t: "l @ segments (?f (butlast s2)) x = segments (?f (s1 @ butlast s2)) x"
    by (simp add: l_def segments_append [of "?f s1"])
  obtain m where "dot_loop (segments (s1 @ [DOT, DOT] # s2) fin @ [0]) 0 0
      = (m, length (segments (?f (s1 @ butlast s2)) x))"
    "take (length (segments (?f (s1 @ butlast s2)) x)) m = segments (?f (s1 @ butlast s2)) x"
    "length (segments (?f (s1 @ butlast s2)) x) < length m"
    using dot_loop_plain [OF s2 x, of l gap' rest'] unfolding t gap(2) g by blast
  moreover have "0 \<notin> set (segments (?f (s1 @ butlast s2)) x)"
    using names(1) s2(1) x by (intro clean) simp_all
  ultimately have "remove_dot_segments (segments (s1 @ [DOT, DOT] # s2) fin)
      = segments (?f (s1 @ butlast s2)) (if s2 = [] then fin else last s2)"
    unfolding x_def [symmetric] by (rule dot_string)
  with single show ?thesis by blast
qed

theorem double_dot_kept_witness:
  "remove_dot_segments (lit ''/a/b/../c/d'') = lit ''/a/b/c''"
proof -
  have "lit ''/a/b/../c/d'' = segments ([[], lit ''a'', lit ''b''] @ [DOT, DOT] # [lit ''c'']) (lit ''d'')"
    "lit ''/a/b/c'' = segments [[], lit ''a'', lit ''b''] (lit ''c'')"
    by code_simp+
  moreover have "list_all plain_name ([[], lit ''a'', lit ''b''] @ [lit ''c''])" "plain_name (lit ''d'')"
    "[DOT, DOT] \<notin> set ([[], lit ''a'', lit ''b''] @ [lit ''c''])"
    by code_simp+
  note double_dot_kept [OF this, THEN conjunct2]
  moreover have "filter (\<lambda>s. s \<noteq> [DOT]) ([[], lit ''a'', lit ''b''] @ butlast [lit ''c'']) = [[], lit ''a'', lit ''b'']"
    by code_simp
  ultimately show ?thesis by simp
qed

end
