(* ===== verification/Edit.thy ===== *)
theory Edit
  imports Parse_Props
begin

text \<open>
  The format-preserving edit of one value, \<open>edit/edit.c\<close>. A pointer into a span is the list
  of the bytes from it to the end of the span, as everywhere in this development: the end of
  the source for the value scan, the end of the line for the key match. The C strings
  \<open>keypath\<close> and \<open>replacement\<close> are the bytes in front of their terminator.
\<close>

subsection \<open>Blanks\<close>

definition edit_is_ws :: "byte \<Rightarrow> bool" where
  "edit_is_ws c \<longleftrightarrow> c = SPACE \<or> c = TAB"

definition edit_skip_ws :: "bytes \<Rightarrow> bytes" where
  "edit_skip_ws p = dropWhile edit_is_ws p"

text \<open>The loops that move the end of a span back over its trailing blanks.\<close>

definition edit_rtrim :: "bytes \<Rightarrow> bytes" where
  "edit_rtrim s = rev (dropWhile edit_is_ws (rev s))"

definition is_quote :: "byte \<Rightarrow> bool" where
  "is_quote c \<longleftrightarrow> c = SQUOTE \<or> c = DQUOTE"

lemma edit_skip_ws_length: "length (edit_skip_ws p) \<le> length p"
  by (simp add: edit_skip_ws_def length_dropWhile_le)

subsection \<open>Matching a key path\<close>

text \<open>
  The quoted arm of \<open>edit_match_component\<close>, \<open>q\<close> the quote and \<open>ci\<close> the count of component
  bytes compared; an escape compares its backslash only and is stepped over.
\<close>

function match_quoted :: "byte \<Rightarrow> bytes \<Rightarrow> nat \<Rightarrow> bytes \<Rightarrow> bytes option" where
  "match_quoted q ckey ci [] = None"
| "match_quoted q ckey ci (c # cs) =
    (if c = q then (if ci = length ckey then Some cs else None)
     else if c = LF then None
     else if q = DQUOTE \<and> c = BACKSLASH \<and> cs \<noteq> [] then
       (if ci < length ckey \<and> ckey ! ci \<noteq> c then None
        else match_quoted q ckey (Suc ci) (tl cs))
     else if ci \<ge> length ckey \<or> ckey ! ci \<noteq> c then None
     else match_quoted q ckey (Suc ci) cs)"
  by pat_completeness auto
termination
  by (relation "measure (\<lambda>(q, ckey, ci, p). length p)") auto

definition ends_component :: "bytes \<Rightarrow> bool" where
  "ends_component p \<longleftrightarrow>
    (case p of [] \<Rightarrow> True | c # cs \<Rightarrow> c = DOT \<or> edit_is_ws c \<or> c = EQUALS \<or> c = RBRACK)"

definition edit_match_component :: "bytes \<Rightarrow> bytes \<Rightarrow> bytes option" where
  "edit_match_component p ckey =
    (case p of
       [] \<Rightarrow> None
     | c # cs \<Rightarrow>
         (if is_quote c then match_quoted c ckey 0 cs
          else if ckey = [] then None
          else if length p < length ckey \<or> take (length ckey) p \<noteq> ckey then None
          else if ends_component (drop (length ckey) p) then Some (drop (length ckey) p)
          else None))"

text \<open>
  One component of the path: its bytes, whether the end of the path was reached with a quote
  open, and the path from its dot on.
\<close>

fun path_scan :: "bool \<Rightarrow> bytes \<Rightarrow> bytes \<times> bool \<times> bytes" where
  "path_scan quoted [] = ([], quoted, [])"
| "path_scan quoted (c # cs) =
    (if c = DOT \<and> \<not> quoted then ([], quoted, c # cs)
     else (let (a, q, r) = path_scan (if is_quote c then \<not> quoted else quoted) cs
           in (c # a, q, r)))"

lemma path_scan_length: "path_scan quoted p = (a, q, r) \<Longrightarrow> length r \<le> length p"
  by (induction quoted p arbitrary: a q r rule: path_scan.induct)
    (auto split: if_splits prod.splits intro: le_SucI)

lemma path_scan_rest:
  assumes "path_scan False (edit_skip_ws path) = (a, q, c # r)"
  shows "length r < length path"
  using path_scan_length [OF assms] edit_skip_ws_length [of path] by simp

function edit_match_path :: "bytes \<Rightarrow> bytes \<Rightarrow> bytes option" where
  "edit_match_path p path =
    (case path_scan False (edit_skip_ws path) of (span, quoted, pc) \<Rightarrow>
       (if quoted then None
        else (let ckey = edit_skip_ws (edit_rtrim span)
              in if ckey = [] then None
                 else case edit_match_component p ckey of
                        None \<Rightarrow> None
                      | Some p1 \<Rightarrow>
                          (let p2 = edit_skip_ws p1
                           in case pc of
                                [] \<Rightarrow> Some p2
                              | c # pc' \<Rightarrow>
                                  (if c = DOT then
                                     edit_match_path
                                       (if starts DOT p2 then edit_skip_ws (tl p2) else p2) pc'
                                   else Some p2)))))"
  by pat_completeness auto
termination
  by (relation "measure (\<lambda>(p, path). length path)") (auto dest: path_scan_rest [OF sym])

declare edit_match_path.simps [simp del]

subsection \<open>Section headers\<close>

text \<open>The path between the brackets of a header line, trimmed.\<close>

definition edit_section_header :: "bytes \<Rightarrow> bytes option" where
  "edit_section_header p0 =
    (let p = edit_skip_ws p0
     in if \<not> starts LBRACK p then None
        else (let p1 = (if starts LBRACK (tl p) then tl (tl p) else tl p);
                  start = edit_skip_ws p1;
                  span = takeWhile (\<lambda>c. c \<noteq> RBRACK \<and> c \<noteq> LF) start
              in if starts RBRACK (drop (length span) start) then Some (edit_rtrim span)
                 else None))"

subsection \<open>The span of a value\<close>

text \<open>
  \<open>edit_skip_string\<close>: the scan after the opening quotes. A single-line string ends at its
  first quote, a multi-line one at the end of a run of at least three.
\<close>

function skip_string_body :: "byte \<Rightarrow> bool \<Rightarrow> bytes \<Rightarrow> bytes option" where
  "skip_string_body q ml [] = None"
| "skip_string_body q ml (c # cs) =
    (if q = DQUOTE \<and> c = BACKSLASH then
       (if cs = [] then None else skip_string_body q ml (tl cs))
     else if c = q then
       (let run = length (takeWhile (\<lambda>b. b = q) (c # cs))
        in if \<not> ml then Some cs
           else if run \<ge> 3 then Some (drop run (c # cs))
           else skip_string_body q ml (drop run (c # cs)))
     else skip_string_body q ml cs)"
  by pat_completeness auto
termination
  by (relation "measure (\<lambda>(q, ml, p). length p)") auto

definition edit_skip_string :: "bytes \<Rightarrow> bytes option" where
  "edit_skip_string p =
    (let q = hd p;
         ml = (length p > 2 \<and> p ! 1 = q \<and> p ! 2 = q)
     in skip_string_body q ml (drop (if ml then 3 else 1) p))"

lemma skip_string_body_suffix: "skip_string_body q ml p = Some r \<Longrightarrow> suffix r p"
proof (induction q ml p arbitrary: r rule: skip_string_body.induct)
  case (2 q ml c cs)
  let ?run = "length (takeWhile (\<lambda>b. b = q) (c # cs))"
  have run: "suffix (drop ?run (c # cs)) (c # cs)" by (rule suffix_drop)
  consider (esc) "q = DQUOTE" "c = BACKSLASH" | (close) "c = q" "\<not> (q = DQUOTE \<and> c = BACKSLASH)" "\<not> ml"
    | (run) "c = q" "\<not> (q = DQUOTE \<and> c = BACKSLASH)" "ml"
    | (other) "c \<noteq> q" "\<not> (q = DQUOTE \<and> c = BACKSLASH)"
    by blast
  then show ?case
  proof cases
    case esc
    then show ?thesis
      using 2 by (auto split: if_splits intro: suffix_ConsI suffix_order.trans [OF _ suffix_tl])
  next
    case close
    then show ?thesis using 2(4) by (auto simp: Let_def split: if_splits intro: suffix_ConsI)
  next
    case run
    have "skip_string_body q ml (c # cs) =
        (if ?run \<ge> 3 then Some (drop ?run (c # cs)) else skip_string_body q ml (drop ?run (c # cs)))"
      using run by (simp only: skip_string_body.simps Let_def if_False if_True simp_thms)
    then have "skip_string_body q ml (drop ?run (c # cs)) = Some r \<and> \<not> ?run \<ge> 3 \<or> r = drop ?run (c # cs)"
      using 2(4) by (metis option.inject)
    then have "suffix r (drop ?run (c # cs))" using 2(2) run by blast
    then show ?thesis using \<open>suffix (drop ?run (c # cs)) (c # cs)\<close> suffix_order.trans by blast
  next
    case other
    then show ?thesis using 2 by (auto intro: suffix_ConsI)
  qed
qed simp

lemma edit_skip_string_suffix:
  assumes "edit_skip_string (c # cs) = Some r"
  shows "suffix r cs"
proof -
  define ml where "ml \<longleftrightarrow> length (c # cs) > 2 \<and> (c # cs) ! 1 = c \<and> (c # cs) ! 2 = c"
  have "skip_string_body c ml (drop (if ml then 3 else 1) (c # cs)) = Some r"
    using assms unfolding edit_skip_string_def Let_def list.sel ml_def .
  then have "suffix r (drop (if ml then 3 else 1) (c # cs))" by (rule skip_string_body_suffix)
  moreover have "suffix (drop (if ml then 3 else 1) (c # cs)) cs"
    using suffix_drop [of 2 cs] by (simp add: numeral_3_eq_3 numeral_2_eq_2)
  ultimately show ?thesis by (rule suffix_order.trans)
qed

lemma edit_skip_string_length: "edit_skip_string (c # cs) = Some r \<Longrightarrow> length r \<le> length cs"
  by (drule edit_skip_string_suffix) (rule suffix_length_le)

text \<open>The scan of an inline table or array, outside its strings; \<open>depth\<close> is the \<open>int\<close> of the code.\<close>

function scan_collection :: "int \<Rightarrow> bytes \<Rightarrow> bytes option" where
  "scan_collection depth [] = None"
| "scan_collection depth (c # cs) =
    (if is_quote c then
       (case edit_skip_string (c # cs) of
          None \<Rightarrow> None
        | Some p \<Rightarrow> scan_collection depth p)
     else if c = LBRACE \<or> c = LBRACK then scan_collection (depth + 1) cs
     else if c = RBRACE \<or> c = RBRACK then
       (if depth - 1 = 0 then Some cs else scan_collection (depth - 1) cs)
     else scan_collection depth cs)"
  by pat_completeness auto
termination
proof (relation "measure (\<lambda>(depth, p). length p)", goal_cases)
  case (2 depth c cs p)
  then show ?case using edit_skip_string_length [of c cs p] by simp
qed auto

definition scalar_rtrim :: "bytes \<Rightarrow> bytes" where
  "scalar_rtrim s = rev (dropWhile (\<lambda>c. edit_is_ws c \<or> c = CR) (rev s))"

text \<open>
  \<open>edit_value_span\<close>: the pointers to the start and past the end of the value, and whether
  the splice has to be parsed; no result is its \<open>-1\<close>.
\<close>

definition edit_value_span :: "bytes \<Rightarrow> (bytes \<times> bytes \<times> bool) option" where
  "edit_value_span p =
    (let vs = edit_skip_ws p
     in case vs of
          [] \<Rightarrow> None
        | c # cs \<Rightarrow>
            (if is_quote c then
               (case edit_skip_string vs of
                  None \<Rightarrow> None
                | Some ve \<Rightarrow> Some (vs, ve, True))
             else if c = LBRACE \<or> c = LBRACK then
               (case scan_collection 0 vs of
                  None \<Rightarrow> None
                | Some ve \<Rightarrow> Some (vs, ve, True))
             else (let span = scalar_rtrim (takeWhile (\<lambda>c. c \<noteq> LF \<and> c \<noteq> HASH) vs)
                   in Some (vs, drop (length span) vs, False))))"

subsection \<open>The target\<close>

fun last_dot :: "bool \<Rightarrow> nat \<Rightarrow> nat option \<Rightarrow> bytes \<Rightarrow> nat option" where
  "last_dot quoted i dot [] = dot"
| "last_dot quoted i dot (c # cs) =
    (if is_quote c then last_dot (\<not> quoted) (Suc i) dot cs
     else if c = DOT \<and> \<not> quoted then last_dot quoted (Suc i) (Some i) cs
     else last_dot quoted (Suc i) dot cs)"

text \<open>The table path and the last component.\<close>

definition edit_split_target :: "bytes \<Rightarrow> bytes \<times> bytes" where
  "edit_split_target keypath =
    (case last_dot False 0 None keypath of
       None \<Rightarrow> ([], keypath)
     | Some i \<Rightarrow> (take i keypath, drop (Suc i) keypath))"

definition edit_section_matches :: "bytes \<Rightarrow> bytes \<Rightarrow> bool" where
  "edit_section_matches pfx sec =
    (let ps = edit_rtrim (edit_skip_ws pfx)
     in if ps = [] then sec = []
        else if length sec \<noteq> length ps then False
        else sec = ps)"

definition edit_strip_section_prefix :: "bytes \<Rightarrow> bytes \<Rightarrow> bytes option" where
  "edit_strip_section_prefix keypath sec =
    (let kp = edit_rtrim (edit_skip_ws keypath)
     in if sec = [] \<or> length kp \<le> length sec then None
        else if kp ! length sec \<noteq> DOT \<or> take (length sec) kp \<noteq> sec then None
        else (let rest = drop (length sec + 1) kp
              in if rest \<noteq> [] then Some rest else None))"

subsection \<open>The search for the line\<close>

text \<open>The three ways in which a line can carry the target.\<close>

definition edit_key_match :: "bytes \<Rightarrow> bytes \<Rightarrow> bytes \<Rightarrow> bytes option" where
  "edit_key_match keypath sec t =
    (case (if sec = [] then edit_match_path t keypath else None) of
       Some after \<Rightarrow> Some after
     | None \<Rightarrow>
         (case edit_split_target keypath of (pfx, lastc) \<Rightarrow>
            (case (if lastc \<noteq> [] \<and> edit_section_matches pfx sec
                   then edit_match_path t lastc else None) of
               Some after \<Rightarrow> Some after
             | None \<Rightarrow>
                 (if sec \<noteq> [] then
                    (case edit_strip_section_prefix keypath sec of
                       None \<Rightarrow> None
                     | Some rest \<Rightarrow> edit_match_path t rest)
                  else None))))"

text \<open>
  What one line does: it carries the target, with the pointer into the source past its \<open>=\<close>,
  or the scan goes on with the section it leaves open.
\<close>

datatype edit_line = Found bytes | Go_On bytes

definition edit_line :: "bytes \<Rightarrow> bytes \<Rightarrow> bytes \<Rightarrow> edit_line" where
  "edit_line keypath sec p =
    (let line = takeWhile (\<lambda>c. c \<noteq> LF) p;
         t = edit_skip_ws line
     in if t \<noteq> [] \<and> hd t \<noteq> HASH then
          (case edit_section_header t of
             Some h \<Rightarrow> Go_On h
           | None \<Rightarrow>
               (case edit_key_match keypath sec t of
                  None \<Rightarrow> Go_On sec
                | Some after \<Rightarrow>
                    (let eq = edit_skip_ws after
                     in if starts EQUALS eq
                        then Found (drop (length line - length (tl eq)) p)
                        else Go_On sec)))
        else Go_On sec)"

function edit_find :: "bytes \<Rightarrow> bytes \<Rightarrow> bytes \<Rightarrow> bytes option" where
  "edit_find keypath sec p =
    (if p = [] then None
     else case edit_line keypath sec p of
            Found v \<Rightarrow> Some v
          | Go_On sec' \<Rightarrow>
              (case dropWhile (\<lambda>c. c \<noteq> LF) p of
                 [] \<Rightarrow> None
               | nl # q \<Rightarrow> edit_find keypath sec' q))"
  by pat_completeness auto
termination
proof (relation "measure (\<lambda>(keypath, sec, p). length p)", goal_cases)
  case (2 keypath sec p sec' nl q)
  then show ?case using length_dropWhile_le [of "\<lambda>c. c \<noteq> LF" p] by simp
qed simp

declare edit_find.simps [simp del]

subsection \<open>The edit\<close>

text \<open>
  The status with the buffer handed back; a parse of the model that is undefined or runs out
  of fuel is handed on as such.
\<close>

datatype edited =
    Edited status "bytes option"
  | Edit_Undef
  | Edit_NoFuel

definition edit_replacement_max :: nat where
  "edit_replacement_max = 16384"

text \<open>A parse whose document is freed at once.\<close>

fun probe_status :: "run \<Rightarrow> (status \<Rightarrow> edited) \<Rightarrow> edited" where
  "probe_status (Done st doc) k = k st"
| "probe_status Run_Undef k = Edit_Undef"
| "probe_status Run_NoFuel k = Edit_NoFuel"

definition edit_probe :: "bytes \<Rightarrow> bytes" where
  "edit_probe replacement = lit ''k = '' @ replacement @ [LF]"

text \<open>
  The splice at the value pointer \<open>v\<close>; \<open>alloc\<close> is the success of its \<open>malloc\<close>, \<open>avail\<close> the
  memory of the parse that verifies it.
\<close>

definition edit_splice :: "fops \<Rightarrow> nat \<Rightarrow> bool \<Rightarrow> bytes \<Rightarrow> bytes \<Rightarrow> bytes \<Rightarrow> edited" where
  "edit_splice fo avail alloc src replacement v =
    (case edit_value_span v of
       None \<Rightarrow> Edited ERR_ARG None
     | Some (vs, ve, verified) \<Rightarrow>
         (if \<not> alloc then Edited ERR_ALLOC None
          else (let out = take (length src - length vs) src @ replacement @ ve
                in if verified then
                     probe_status (teptris_parse fo avail out None)
                       (\<lambda>st. if st \<noteq> ST_OK then Edited ERR_ARG None
                             else Edited ST_OK (Some out))
                   else Edited ST_OK (Some out))))"

text \<open>
  \<open>teptris_edit_scalar\<close>; a missing argument is a null pointer, \<open>outs\<close> says that \<open>buf\<close> and
  \<open>out_len\<close> are not null. The \<open>malloc\<close> results and the memory of the two parses are
  arguments.
\<close>

record edit_memory =
  em_probe :: bool
  em_probe_avail :: nat
  em_out :: bool
  em_verify_avail :: nat

definition teptris_edit_scalar ::
    "fops \<Rightarrow> edit_memory \<Rightarrow> bytes option \<Rightarrow> bytes option \<Rightarrow> bytes option \<Rightarrow> bool \<Rightarrow> edited" where
  "teptris_edit_scalar fo em src keypath replacement outs =
    (case (src, keypath, replacement) of
       (Some s, Some kp, Some r) \<Rightarrow>
         (if \<not> outs then Edited ERR_ARG None
          else if r = [] \<or> length r > edit_replacement_max then Edited ERR_ARG None
          else if \<not> em_probe em then Edited ERR_ALLOC None
          else probe_status (teptris_parse fo (em_probe_avail em) (edit_probe r) None)
                 (\<lambda>st. if st \<noteq> ST_OK then Edited ERR_ARG None
                       else case edit_find kp [] s of
                              None \<Rightarrow> Edited ERR_STATE None
                            | Some v \<Rightarrow>
                                edit_splice fo (em_verify_avail em) (em_out em) s r v))
     | _ \<Rightarrow> Edited ERR_ARG None)"

end
