(* ===== verification/Edit_Props.thy ===== *)
theory Edit_Props
  imports Edit
begin

text \<open>
  What the scalar edit promises: the bytes outside the value are untouched, and a bare key of
  the root table that has a plain value is found behind any comments, blank lines and other
  keys and replaced. A last section shows what the edit does not check.
\<close>

subsection \<open>Every pointer stays in its span\<close>

lemma edit_skip_ws_suffix: "suffix (edit_skip_ws p) p"
  by (simp add: edit_skip_ws_def suffix_dropWhile)

lemma match_quoted_suffix: "match_quoted q ckey ci p = Some r \<Longrightarrow> suffix r p"
proof (induction q ckey ci p rule: match_quoted.induct)
  case (2 q ckey ci c cs)
  then show ?case
    by (auto split: if_splits intro: suffix_ConsI suffix_order.trans [OF _ suffix_tl])
qed simp

lemma edit_match_component_suffix: "edit_match_component p ckey = Some r \<Longrightarrow> suffix r p"
  by (auto simp: edit_match_component_def suffix_drop dest: match_quoted_suffix
      split: list.splits if_splits intro: suffix_ConsI)

text \<open>One component, and what is left of the path behind its dot.\<close>

lemma edit_match_path_step:
  assumes "path_scan False (edit_skip_ws path) = (span, quoted, pc)"
  shows "edit_match_path p path =
    (if quoted \<or> edit_skip_ws (edit_rtrim span) = [] then None
     else case edit_match_component p (edit_skip_ws (edit_rtrim span)) of
            None \<Rightarrow> None
          | Some p1 \<Rightarrow>
              (case pc of
                 [] \<Rightarrow> Some (edit_skip_ws p1)
               | c # pc' \<Rightarrow>
                   (if c = DOT then
                      edit_match_path
                        (if starts DOT (edit_skip_ws p1) then edit_skip_ws (tl (edit_skip_ws p1))
                         else edit_skip_ws p1) pc'
                    else Some (edit_skip_ws p1))))"
  by (subst edit_match_path.simps) (simp only: assms prod.case Let_def if_bool_eq_disj split: if_split, simp)

lemma edit_match_path_suffix: "edit_match_path p path = Some r \<Longrightarrow> suffix r p"
proof (induction "length path" arbitrary: p path rule: less_induct)
  case less
  obtain span quoted pc where scan: "path_scan False (edit_skip_ws path) = (span, quoted, pc)"
    by (metis surj_pair)
  obtain p1 where p1: "edit_match_component p (edit_skip_ws (edit_rtrim span)) = Some p1"
    using less(2) by (auto simp: edit_match_path_step [OF scan] split: if_splits option.splits)
  have sfx: "suffix (edit_skip_ws p1) p"
    using edit_match_component_suffix [OF p1] edit_skip_ws_suffix suffix_order.trans by blast
  define p2 where "p2 = (if starts DOT (edit_skip_ws p1) then edit_skip_ws (tl (edit_skip_ws p1))
      else edit_skip_ws p1)"
  have next_p: "suffix p2 p"
    using suffix_order.trans [OF edit_skip_ws_suffix suffix_order.trans [OF suffix_tl sfx]] sfx
    by (simp add: p2_def)
  have "r = edit_skip_ws p1 \<or> (\<exists>pc'. pc = DOT # pc' \<and> edit_match_path p2 pc' = Some r)"
    using less(2) p1
    by (auto simp: edit_match_path_step [OF scan] p2_def split: if_splits list.splits)
  moreover have "length pc' < length path" if "pc = DOT # pc'" for pc'
    using path_scan_rest scan that by blast
  ultimately show ?case using less(1) [of _ p2] next_p sfx by (auto intro: suffix_order.trans)
qed

lemma edit_key_match_suffix: "edit_key_match keypath sec t = Some r \<Longrightarrow> suffix r t"
  by (auto simp: edit_key_match_def dest: edit_match_path_suffix
      split: option.splits prod.splits if_splits)

text \<open>The pointer that a line hands over stands behind an equals sign of the source.\<close>

lemma edit_line_found:
  assumes "edit_line keypath sec p = Found v"
  shows "\<exists>pre. p = pre @ EQUALS # v"
proof -
  let ?line = "takeWhile (\<lambda>c. c \<noteq> LF) p"
  obtain after where m: "edit_key_match keypath sec (edit_skip_ws ?line) = Some after"
    and eq: "starts EQUALS (edit_skip_ws after)"
    and v: "v = drop (length ?line - length (tl (edit_skip_ws after))) p"
    using assms by (auto simp: edit_line_def Let_def split: if_splits option.splits)
  obtain u where u: "edit_skip_ws after = EQUALS # u"
    using eq by (auto simp: starts_def split: list.splits)
  have "suffix (EQUALS # u) ?line"
    using edit_key_match_suffix [OF m] edit_skip_ws_suffix u suffix_order.trans by metis
  then obtain a where a: "?line = a @ EQUALS # u" by (auto simp: suffix_def)
  have p: "p = ?line @ dropWhile (\<lambda>c. c \<noteq> LF) p" by simp
  have "v = u @ dropWhile (\<lambda>c. c \<noteq> LF) p"
    unfolding v u list.sel a by (subst p) (simp add: a del: takeWhile_dropWhile_id)
  then have "p = a @ EQUALS # v" using p a by simp
  then show ?thesis ..
qed

lemma edit_find_found:
  "edit_find keypath sec p = Some v \<Longrightarrow> \<exists>pre. p = pre @ EQUALS # v"
proof (induction keypath sec p rule: edit_find.induct)
  case (1 keypath sec p)
  show ?case
  proof (cases "edit_line keypath sec p")
    case (Found w)
    then show ?thesis
      using 1(2) edit_line_found [OF Found] by (simp add: edit_find.simps split: if_splits)
  next
    case (Go_On sec')
    obtain nl q where q: "dropWhile (\<lambda>c. c \<noteq> LF) p = nl # q"
      and found: "edit_find keypath sec' q = Some v"
      using 1(2) Go_On by (auto simp: edit_find.simps [of keypath sec p] split: if_splits list.splits)
    have "p \<noteq> []" using q by auto
    then obtain pre where "q = pre @ EQUALS # v" using 1(1) [OF _ Go_On q found] by blast
    then have "p = (takeWhile (\<lambda>c. c \<noteq> LF) p @ nl # pre) @ EQUALS # v"
      by (subst takeWhile_dropWhile_id [symmetric, of p "\<lambda>c. c \<noteq> LF"]) (simp add: q)
    then show ?thesis ..
  qed
qed

lemma scan_collection_suffix: "scan_collection d p = Some r \<Longrightarrow> suffix r p"
proof (induction d p rule: scan_collection.induct)
  case (2 d c cs)
  then show ?case
    by (auto split: if_splits option.splits dest!: edit_skip_string_suffix
        intro: suffix_ConsI suffix_order.trans)
qed simp

lemma scalar_rtrim_prefix: "prefix (scalar_rtrim s) s"
  by (metis scalar_rtrim_def suffix_dropWhile suffix_to_prefix rev_rev_ident)

text \<open>A span of the source: the blanks in front of the value, the value, and the rest.\<close>

lemma edit_value_span_parts:
  assumes "edit_value_span v = Some (vs, ve, verified)"
  shows "\<exists>blanks old. v = blanks @ vs \<and> vs = old @ ve \<and> (\<forall>c \<in> set blanks. edit_is_ws c)
    \<and> (\<not> verified \<longrightarrow> LF \<notin> set old \<and> HASH \<notin> set old)"
proof -
  let ?blanks = "takeWhile edit_is_ws v"
  have vs: "vs = edit_skip_ws v"
    using assms by (auto simp: edit_value_span_def Let_def split: list.splits if_splits option.splits)
  have v: "v = ?blanks @ vs" "\<forall>c \<in> set ?blanks. edit_is_ws c"
    by (auto simp: vs edit_skip_ws_def dest: set_takeWhileD)
  show ?thesis
  proof (cases verified)
    case True
    have "suffix ve vs"
      using assms True unfolding vs
      by (auto simp: edit_value_span_def Let_def split: list.splits if_splits option.splits
          dest: edit_skip_string_suffix scan_collection_suffix intro: suffix_ConsI)
    then show ?thesis using v True by (auto simp: suffix_def)
  next
    case False
    define span where "span = scalar_rtrim (takeWhile (\<lambda>c. c \<noteq> LF \<and> c \<noteq> HASH) vs)"
    have ve: "ve = drop (length span) vs"
      using assms False unfolding vs span_def
      by (auto simp: edit_value_span_def Let_def split: list.splits if_splits option.splits)
    have "prefix span (takeWhile (\<lambda>c. c \<noteq> LF \<and> c \<noteq> HASH) vs)"
      unfolding span_def by (rule scalar_rtrim_prefix)
    then have sub: "set span \<subseteq> set (takeWhile (\<lambda>c. c \<noteq> LF \<and> c \<noteq> HASH) vs)" "prefix span vs"
      using takeWhile_is_prefix prefix_order.trans by (auto dest: set_mono_prefix) blast
    have "vs = span @ ve" using sub(2) by (auto simp: ve prefix_def)
    moreover have "LF \<notin> set span \<and> HASH \<notin> set span" using sub(1) by (auto dest: set_takeWhileD)
    ultimately show ?thesis using v by blast
  qed
qed


subsection \<open>The result of an edit\<close>

lemma edit_splice_cases:
  assumes "edit_splice fo avail alloc src r v = Edited st res"
    and src: "src = pre @ EQUALS # v"
  shows "st \<in> {ST_OK, ERR_ARG, ERR_ALLOC} \<and>
    (res = None \<longleftrightarrow> st \<noteq> ST_OK) \<and>
    (\<forall>out. res = Some out \<longrightarrow>
      (\<exists>blanks old post. v = blanks @ old @ post \<and> (\<forall>c \<in> set blanks. edit_is_ws c)
        \<and> out = pre @ EQUALS # blanks @ r @ post
        \<and> (LF \<notin> set old \<and> HASH \<notin> set old
           \<or> (\<exists>doc. teptris_parse fo avail out None = Done ST_OK doc))))"
proof (cases "edit_value_span v")
  case None
  then show ?thesis using assms(1) by (auto simp: edit_splice_def)
next
  case (Some w)
  obtain vs ve verified where w: "edit_value_span v = Some (vs, ve, verified)"
    using Some by (cases w) auto
  obtain blanks old where parts: "v = blanks @ vs" "vs = old @ ve" "\<forall>c \<in> set blanks. edit_is_ws c"
    "\<not> verified \<Longrightarrow> LF \<notin> set old \<and> HASH \<notin> set old"
    using edit_value_span_parts [OF w] by blast
  have out: "take (length src - length vs) src @ r @ ve = pre @ EQUALS # blanks @ r @ ve"
    by (simp add: src parts(1))
  show ?thesis
  proof (cases "alloc \<and> verified")
    case True
    then have "probe_status (teptris_parse fo avail (pre @ EQUALS # blanks @ r @ ve) None)
        (\<lambda>st. if st \<noteq> ST_OK then Edited ERR_ARG None
              else Edited ST_OK (Some (pre @ EQUALS # blanks @ r @ ve))) = Edited st res"
      using assms(1) unfolding edit_splice_def w Let_def option.case prod.case out by simp
    then show ?thesis
      using parts
      by (cases "teptris_parse fo avail (pre @ EQUALS # blanks @ r @ ve) None") (auto split: if_splits)
  next
    case False
    then have "\<not> alloc \<and> Edited st res = Edited ERR_ALLOC None
        \<or> \<not> verified \<and> Edited st res = Edited ST_OK (Some (pre @ EQUALS # blanks @ r @ ve))"
      using assms(1) unfolding edit_splice_def w Let_def option.case prod.case out by (auto split: if_splits)
    then show ?thesis using parts by auto
  qed
qed

lemma edit_scalar_cases:
  assumes "teptris_edit_scalar fo em (Some src) (Some kp) (Some r) True = Edited st res"
  shows "(st \<in> {ERR_ARG, ERR_ALLOC, ERR_STATE} \<and> res = None) \<or>
    ((\<exists>doc. teptris_parse fo (em_probe_avail em) (edit_probe r) None = Done ST_OK doc) \<and>
     (\<exists>v. edit_find kp [] src = Some v \<and>
        edit_splice fo (em_verify_avail em) (em_out em) src r v = Edited st res))"
  using assms
  by (cases "teptris_parse fo (em_probe_avail em) (edit_probe r) None")
    (auto simp: teptris_edit_scalar_def split: if_splits option.splits)

text \<open>C37: an edit hands back a buffer exactly when it succeeds; the buffer is then the source with
  one span replaced, the one behind an equals sign and its blanks, every other byte unchanged;
  the replacement parses as a value, and either the span lies within a line, before any
  comment, or the whole result parses.\<close>

theorem edit_keeps_rest:
  assumes "teptris_edit_scalar fo em (Some src) (Some kp) (Some r) True = Edited st res"
  shows "(res = None \<longleftrightarrow> st \<noteq> ST_OK) \<and>
    (\<forall>out. res = Some out \<longrightarrow>
      (\<exists>doc. teptris_parse fo (em_probe_avail em) (edit_probe r) None = Done ST_OK doc) \<and>
      (\<exists>pre blanks old post.
         src = pre @ [EQUALS] @ blanks @ old @ post
         \<and> out = pre @ [EQUALS] @ blanks @ r @ post
         \<and> (\<forall>c \<in> set blanks. edit_is_ws c)
         \<and> (LF \<notin> set old \<and> HASH \<notin> set old
            \<or> (\<exists>doc. teptris_parse fo (em_verify_avail em) out None = Done ST_OK doc))))"
  using edit_scalar_cases [OF assms]
proof (elim disjE conjE exE)
  fix v doc
  assume probe: "teptris_parse fo (em_probe_avail em) (edit_probe r) None = Done ST_OK doc"
    and v: "edit_find kp [] src = Some v"
    and splice: "edit_splice fo (em_verify_avail em) (em_out em) src r v = Edited st res"
  obtain pre where src: "src = pre @ EQUALS # v" using edit_find_found [OF v] by blast
  show ?thesis using edit_splice_cases [OF splice src] probe src by fastforce
qed auto


subsection \<open>A bare key of the root is found\<close>

definition bare_word :: "bytes \<Rightarrow> bool" where
  "bare_word k \<longleftrightarrow> k \<noteq> [] \<and> (\<forall>c \<in> set k. is_barekey c)"

text \<open>
  A line in front of the target: blank, a comment, or another key that is a bare word, with
  whatever follows it.
\<close>

definition passed_line :: "bytes \<Rightarrow> bytes \<Rightarrow> bool" where
  "passed_line k l \<longleftrightarrow> LF \<notin> set l \<and>
    (let t = edit_skip_ws l
     in t = [] \<or> hd t = HASH \<or>
        (\<exists>k' u. t = k' @ u \<and> bare_word k' \<and> k' \<noteq> k \<and> ends_component u))"

lemma barekey_not:
  assumes "is_barekey c"
  shows "c \<noteq> DOT" "\<not> edit_is_ws c" "\<not> is_quote c" "c \<noteq> EQUALS" "c \<noteq> RBRACK" "c \<noteq> LBRACK"
    "c \<noteq> HASH" "c \<noteq> LF"
  using assms by (auto simp: is_barekey_iff edit_is_ws_def is_quote_def)

lemma blank_not_newline: "edit_is_ws c \<Longrightarrow> c \<noteq> LF"
  by (auto simp: edit_is_ws_def)

lemma bare_word_skip: "bare_word k \<Longrightarrow> edit_skip_ws (k @ u) = k @ u"
  by (cases k) (auto simp: bare_word_def edit_skip_ws_def barekey_not)

lemma bare_word_rtrim: "bare_word k \<Longrightarrow> edit_rtrim k = k"
  by (cases k rule: rev_cases) (auto simp: bare_word_def edit_rtrim_def barekey_not)

lemma path_scan_bare: "\<forall>c \<in> set k. is_barekey c \<Longrightarrow> path_scan False k = (k, False, [])"
  by (induction k) (auto simp: barekey_not)

lemma last_dot_bare: "\<forall>c \<in> set k. is_barekey c \<Longrightarrow> last_dot False i d k = d"
  by (induction k arbitrary: i) (auto simp: barekey_not)

lemma match_bare_path:
  assumes "bare_word k"
  shows "edit_match_path p k = map_option edit_skip_ws (edit_match_component p k)"
proof -
  have "path_scan False (edit_skip_ws k) = (k, False, [])"
    using bare_word_skip [OF assms, of "[]"] assms by (simp add: path_scan_bare bare_word_def)
  moreover have "edit_skip_ws (edit_rtrim k) = k" "k \<noteq> []"
    using bare_word_skip [OF assms, of "[]"] bare_word_rtrim [OF assms] assms by (simp_all add: bare_word_def)
  ultimately show ?thesis by (auto simp: edit_match_path_step split: option.split)
qed

text \<open>A bare key matches a line that starts with a bare word just when it is that word.\<close>

lemma match_component_bare:
  assumes k: "bare_word k" and k': "bare_word k'" and u: "ends_component u"
  shows "edit_match_component (k' @ u) k = (if k' = k then Some u else None)"
proof -
  obtain c cs where cs: "k' = c # cs" "is_barekey c" using k' by (cases k') (auto simp: bare_word_def)
  have "k' = k" if pre: "take (length k) (k' @ u) = k" and len: "length k \<le> length (k' @ u)"
    and e: "ends_component (drop (length k) (k' @ u))"
  proof (cases "length k < length k'")
    case True
    then obtain d ds where d: "drop (length k) k' = d # ds" by (metis Cons_nth_drop_Suc)
    then have "d \<in> set k'" by (metis in_set_dropD list.set_intros(1))
    then show ?thesis
      using e d True k' barekey_not [of d] by (simp add: bare_word_def ends_component_def)
  next
    case False
    show ?thesis
    proof (cases "length k = length k'")
      case True
      then show ?thesis using pre by simp
    next
      case neq: False
      then obtain d ds where d: "u = d # ds" using False len by (cases u) auto
      have "take (length k) (k' @ u) = k' @ d # take (length k - Suc (length k')) ds"
        using False neq by (simp add: d take_Cons')
      then have "d \<in> set k" using pre by (metis in_set_conv_decomp)
      then show ?thesis
        using u d k barekey_not [of d] by (simp add: bare_word_def ends_component_def)
    qed
  qed
  then show ?thesis
    using cs k u barekey_not [of c] by (auto simp: edit_match_component_def bare_word_def)
qed

lemma key_match_bare:
  assumes "bare_word k" "bare_word k'" "ends_component u"
  shows "edit_key_match k [] (k' @ u) = (if k' = k then Some (edit_skip_ws u) else None)"
proof -
  have "edit_split_target k = ([], k)"
    using assms(1) by (simp add: edit_split_target_def last_dot_bare bare_word_def)
  then show ?thesis
    by (simp add: edit_key_match_def match_bare_path [OF assms(1)] match_component_bare [OF assms])
qed

lemma header_bare:
  assumes "bare_word k"
  shows "edit_section_header (k @ u) = None"
proof -
  have "\<not> starts LBRACK (edit_skip_ws (k @ u))"
    using assms unfolding bare_word_skip [OF assms]
    by (cases k) (auto simp: starts_def bare_word_def barekey_not)
  then show ?thesis by (simp add: edit_section_header_def)
qed

text \<open>The lines in front of the target leave the search in the root.\<close>

lemma passed_line_goes_on:
  assumes "bare_word k" "passed_line k l"
  shows "edit_line k [] (l @ LF # rest) = Go_On []"
proof -
  have line: "takeWhile (\<lambda>c. c \<noteq> LF) (l @ LF # rest) = l"
    using assms(2) by (auto simp: passed_line_def takeWhile_append)
  consider (skip) "edit_skip_ws l = [] \<or> hd (edit_skip_ws l) = HASH"
    | (key) k' u where "edit_skip_ws l = k' @ u" "bare_word k'" "k' \<noteq> k" "ends_component u"
    using assms(2) by (auto simp: passed_line_def Let_def)
  then show ?thesis
  proof cases
    case skip
    then show ?thesis by (auto simp: edit_line_def line Let_def)
  next
    case key
    then show ?thesis
      using assms(1) by (simp add: edit_line_def line Let_def header_bare key_match_bare)
  qed
qed

lemma find_passes:
  assumes "bare_word k" "\<forall>l \<in> set ls. passed_line k l"
  shows "edit_find k [] (concat (map (\<lambda>l. l @ [LF]) ls) @ rest) = edit_find k [] rest"
  using assms(2)
proof (induction ls)
  case (Cons l ls)
  let ?q = "concat (map (\<lambda>l. l @ [LF]) ls) @ rest"
  have "dropWhile (\<lambda>c. c \<noteq> LF) (l @ LF # ?q) = LF # ?q"
    using Cons(2) by (auto simp: passed_line_def dropWhile_append)
  then show ?case
    using Cons passed_line_goes_on [OF assms(1), of l ?q]
    by (subst edit_find.simps) simp
qed simp


subsection \<open>A plain value is replaced\<close>

text \<open>
  A value without quotes or brackets: it stays within its line and neither starts nor ends
  with a blank; \<open>value_tail\<close> is what may follow it, blanks, then a comment, a line end or
  the end of the source.
\<close>

definition plain_value :: "bytes \<Rightarrow> bool" where
  "plain_value v \<longleftrightarrow> v \<noteq> [] \<and> LF \<notin> set v \<and> HASH \<notin> set v
    \<and> \<not> edit_is_ws (hd v) \<and> \<not> is_quote (hd v) \<and> hd v \<noteq> LBRACE \<and> hd v \<noteq> LBRACK
    \<and> \<not> edit_is_ws (last v) \<and> last v \<noteq> CR"

definition value_tail :: "bytes \<Rightarrow> bool" where
  "value_tail u \<longleftrightarrow>
    (case dropWhile (\<lambda>c. edit_is_ws c \<or> c = CR) u of [] \<Rightarrow> True | c # cs \<Rightarrow> c = LF \<or> c = HASH)"

lemma scalar_rtrim_blanks:
  assumes "\<forall>c \<in> set b. edit_is_ws c \<or> c = CR" "v \<noteq> []" "\<not> edit_is_ws (last v)" "last v \<noteq> CR"
  shows "scalar_rtrim (v @ b) = v"
  using assms by (cases v rule: rev_cases) (auto simp: scalar_rtrim_def dropWhile_append)

lemma value_span_plain:
  assumes v: "plain_value v" and b: "\<forall>c \<in> set b. edit_is_ws c" and u: "value_tail u"
  shows "edit_value_span (b @ v @ u) = Some (v @ u, u, False)"
proof -
  let ?b = "takeWhile (\<lambda>c. edit_is_ws c \<or> c = CR) u"
  let ?e = "dropWhile (\<lambda>c. edit_is_ws c \<or> c = CR) u"
  obtain c cs where c: "v = c # cs" using v by (cases v) (auto simp: plain_value_def)
  have skip: "edit_skip_ws (b @ v @ u) = v @ u"
    using v b by (simp add: edit_skip_ws_def dropWhile_append c plain_value_def)
  have blank: "\<forall>c \<in> set ?b. edit_is_ws c \<or> c = CR" by (auto dest: set_takeWhileD)
  then have noend: "\<forall>c \<in> set ?b. c \<noteq> LF \<and> c \<noteq> HASH" by (auto simp: edit_is_ws_def)
  then have "takeWhile (\<lambda>c. c \<noteq> LF \<and> c \<noteq> HASH) ((v @ ?b) @ ?e)
      = (v @ ?b) @ takeWhile (\<lambda>c. c \<noteq> LF \<and> c \<noteq> HASH) ?e"
    using v by (intro takeWhile_append2) (auto simp: plain_value_def)
  moreover have "takeWhile (\<lambda>c. c \<noteq> LF \<and> c \<noteq> HASH) ?e = []"
    using u unfolding value_tail_def by (cases ?e) (simp_all del: dropWhile_eq_Nil_conv)
  ultimately have "takeWhile (\<lambda>c. c \<noteq> LF \<and> c \<noteq> HASH) (v @ u) = v @ ?b" by simp
  then have "scalar_rtrim (takeWhile (\<lambda>c. c \<noteq> LF \<and> c \<noteq> HASH) (v @ u)) = v"
    using v scalar_rtrim_blanks [OF blank, of v] by (simp add: plain_value_def)
  then show ?thesis
    using v unfolding edit_value_span_def skip Let_def by (simp add: c plain_value_def)
qed

text \<open>The line of the target.\<close>

lemma target_line_found:
  assumes k: "bare_word k" and blanks: "\<forall>c \<in> set b0 \<union> set b1. edit_is_ws c"
  shows "edit_line k [] (b0 @ k @ b1 @ EQUALS # w) = Found w"
proof -
  let ?line = "b0 @ k @ b1 @ EQUALS # takeWhile (\<lambda>c. c \<noteq> LF) w"
  have no_lf: "\<forall>c \<in> set (b0 @ k @ b1). c \<noteq> LF"
    using k blanks blank_not_newline barekey_not(8) unfolding bare_word_def set_append by blast
  have line: "takeWhile (\<lambda>c. c \<noteq> LF) (b0 @ k @ b1 @ EQUALS # w) = ?line"
    using no_lf takeWhile_append2 [of "b0 @ k @ b1" "\<lambda>c. c \<noteq> LF" "EQUALS # w"] by simp
  have skip: "edit_skip_ws ?line = k @ b1 @ EQUALS # takeWhile (\<lambda>c. c \<noteq> LF) w"
    using bare_word_skip [OF k] blanks by (simp add: edit_skip_ws_def dropWhile_append)
  have b1: "edit_skip_ws (b1 @ EQUALS # u) = EQUALS # u" for u
    using blanks by (simp add: edit_skip_ws_def dropWhile_append edit_is_ws_def)
  have eq: "edit_skip_ws (EQUALS # u) = EQUALS # u" for u
    by (simp add: edit_skip_ws_def edit_is_ws_def)
  have ends: "ends_component (b1 @ EQUALS # u)" for u
    using blanks by (cases b1) (auto simp: ends_component_def)
  have hd: "k @ u \<noteq> [] \<and> hd (k @ u) \<noteq> HASH" for u
    using k by (cases k) (auto simp: bare_word_def barekey_not)
  have "edit_line k [] (b0 @ k @ b1 @ EQUALS # w) =
      Found (drop (length ?line - length (takeWhile (\<lambda>c. c \<noteq> LF) w)) (b0 @ k @ b1 @ EQUALS # w))"
    unfolding edit_line_def Let_def line skip header_bare [OF k]
    using hd by (simp add: key_match_bare [OF k k ends] b1 eq starts_def)
  then show ?thesis by simp
qed

text \<open>C38: an edit of a bare key reaches it: behind blank lines, comments and other bare keys, with
  any blanks around the key and the equals sign, a plain value is replaced by every text that
  parses as a value, and the call succeeds when its memory is there.\<close>

theorem edit_reaches:
  assumes k: "bare_word k" and passed: "\<forall>l \<in> set ls. passed_line k l"
    and blanks: "\<forall>c \<in> set b0 \<union> set b1 \<union> set b2. edit_is_ws c"
    and v: "plain_value v" and u: "value_tail u"
    and r: "r \<noteq> []" "length r \<le> edit_replacement_max"
    and probe: "teptris_parse fo (em_probe_avail em) (edit_probe r) None = Done ST_OK doc"
    and memory: "em_probe em" "em_out em"
    and pre: "pre = concat (map (\<lambda>l. l @ [LF]) ls) @ b0 @ k @ b1 @ [EQUALS] @ b2"
  shows "teptris_edit_scalar fo em (Some (pre @ v @ u)) (Some k) (Some r) True
    = Edited ST_OK (Some (pre @ r @ u))"
proof -
  have "edit_find k [] (pre @ v @ u) = edit_find k [] (b0 @ k @ b1 @ EQUALS # b2 @ v @ u)"
    using find_passes [OF k passed] by (simp add: pre)
  also have "\<dots> = Some (b2 @ v @ u)"
    using target_line_found [OF k, of b0 b1 "b2 @ v @ u"] blanks by (subst edit_find.simps) simp
  finally have found: "edit_find k [] (pre @ v @ u) = Some (b2 @ v @ u)" .
  have span: "edit_value_span (b2 @ v @ u) = Some (v @ u, u, False)"
    using value_span_plain [OF v _ u] blanks by blast
  show ?thesis
    using r memory by (simp add: teptris_edit_scalar_def probe found edit_splice_def span)
qed

subsection \<open>What a plain span does not check\<close>

definition edit_ample :: edit_memory where
  "edit_ample = \<lparr>em_probe = True, em_probe_avail = 100000, em_out = True, em_verify_avail = 100000\<rparr>"

text \<open>
  The probe puts a line end behind the replacement, and behind a plain value the result is not
  parsed. A replacement that ends with a carriage return passes, and the edit of a last line
  without a line end hands back a text that the parser refuses.
\<close>

lemma edit_accepts_broken:
  "teptris_edit_scalar no_floats edit_ample (Some (lit ''a=0'')) (Some (lit ''a''))
     (Some (lit ''true'' @ [CR])) True = Edited ST_OK (Some (lit ''a=true'' @ [CR]))
   \<and> run_status (teptris_parse no_floats 100000 (lit ''a=true'' @ [CR]) None) = Some ERR_SYNTAX"
proof
  let ?r = "lit ''true'' @ [CR]"
  have "run_status (teptris_parse no_floats 100000 (edit_probe ?r) None) = Some ST_OK"
    by code_simp
  then obtain doc where doc: "teptris_parse no_floats 100000 (edit_probe ?r) None = Done ST_OK doc"
    unfolding run_status_Done by blast
  have "edit_find (lit ''a'') [] (lit ''a=0'') = Some (lit ''0'')" by code_simp
  moreover have "edit_value_span (lit ''0'') = Some (lit ''0'', [], False)" by code_simp
  moreover have "?r \<noteq> [] \<and> length ?r \<le> edit_replacement_max"
    by (simp add: lit_def edit_replacement_max_def)
  ultimately show "teptris_edit_scalar no_floats edit_ample (Some (lit ''a=0'')) (Some (lit ''a'')) (Some ?r) True
      = Edited ST_OK (Some (lit ''a=true'' @ [CR]))"
    using doc by (simp add: teptris_edit_scalar_def edit_ample_def edit_splice_def lit_def)
  show "run_status (teptris_parse no_floats 100000 (lit ''a=true'' @ [CR]) None) = Some ERR_SYNTAX"
    by code_simp
qed

text \<open>
  The scan goes by lines and does not follow strings over line ends: text inside a multi-line
  string that looks like the target is edited.
\<close>

lemma edit_finds_string_text:
  "edit_find (lit ''a'') []
     (lit ''x='' @ [DQUOTE, DQUOTE, DQUOTE, LF] @ lit ''a=0'' @ [LF, DQUOTE, DQUOTE, DQUOTE, LF] @ lit ''a=1'')
   = Some (lit ''0'' @ [LF, DQUOTE, DQUOTE, DQUOTE, LF] @ lit ''a=1'')"
  by code_simp

subsection \<open>Witnesses\<close>

lemma edit_sample_probe:
  "\<exists>doc. teptris_parse no_floats 100000 (edit_probe (lit ''true'')) None = Done ST_OK doc"
  unfolding run_status_Done [symmetric] by code_simp

lemma edit_reaches_witness:
  "teptris_edit_scalar no_floats edit_ample
     (Some (lit ''# c'' @ [LF] @ lit ''x = [1]'' @ [LF] @ lit '' a  = false # t'' @ [LF]))
     (Some (lit ''a'')) (Some (lit ''true'')) True
   = Edited ST_OK (Some (lit ''# c'' @ [LF] @ lit ''x = [1]'' @ [LF] @ lit '' a  = true # t'' @ [LF]))"
proof -
  let ?ls = "[lit ''# c'', lit ''x = [1]'']"
  obtain doc where probe: "teptris_parse no_floats (em_probe_avail edit_ample) (edit_probe (lit ''true'')) None
      = Done ST_OK doc"
    using edit_sample_probe by (auto simp: edit_ample_def)
  have "lit ''x = [1]'' = lit ''x'' @ lit '' = [1]''" by (simp add: lit_def)
  moreover have "bare_word (lit ''x'')" "lit ''x'' \<noteq> lit ''a''" "ends_component (lit '' = [1]'')"
    by code_simp+
  moreover have "edit_skip_ws (lit ''x = [1]'') = lit ''x = [1]''" "LF \<notin> set (lit ''x = [1]'')"
    by code_simp+
  ultimately have "passed_line (lit ''a'') (lit ''x = [1]'')"
    unfolding passed_line_def Let_def by metis
  moreover have "passed_line (lit ''a'') (lit ''# c'')"
    by (simp add: passed_line_def lit_def edit_skip_ws_def edit_is_ws_def)
  ultimately have passed: "\<forall>l \<in> set ?ls. passed_line (lit ''a'') l" by simp
  have k: "bare_word (lit ''a'')" by code_simp
  have v: "plain_value (lit ''false'')" by code_simp
  have u: "value_tail (lit '' # t'' @ [LF])" by code_simp
  have r: "lit ''true'' \<noteq> []" "length (lit ''true'') \<le> edit_replacement_max"
    by (simp_all add: lit_def edit_replacement_max_def)
  show ?thesis
    using edit_reaches [OF k passed _ v u r probe, of "lit '' ''" "lit ''  ''" "lit '' ''"]
    by (simp add: edit_ample_def lit_def edit_is_ws_def)
qed

lemma edit_keeps_rest_witness:
  "\<exists>pre blanks old post.
     lit ''a = false'' = pre @ [EQUALS] @ blanks @ old @ post
     \<and> lit ''a = true'' = pre @ [EQUALS] @ blanks @ lit ''true'' @ post"
proof -
  obtain doc where "teptris_parse no_floats 100000 (edit_probe (lit ''true'')) None = Done ST_OK doc"
    using edit_sample_probe by blast
  moreover have "edit_find (lit ''a'') [] (lit ''a = false'') = Some (lit '' false'')" by code_simp
  moreover have "edit_value_span (lit '' false'') = Some (lit ''false'', [], False)" by code_simp
  ultimately have "teptris_edit_scalar no_floats edit_ample (Some (lit ''a = false'')) (Some (lit ''a''))
      (Some (lit ''true'')) True = Edited ST_OK (Some (lit ''a = true''))"
    by (simp add: teptris_edit_scalar_def edit_ample_def edit_splice_def edit_replacement_max_def lit_def)
  from edit_keeps_rest [OF this] show ?thesis by blast
qed

end
