(* ===== verification/Build.thy ===== *)
theory Build
  imports Parse_Props
begin

text \<open>
  The document builder, \<open>build.c\<close>: documents assembled from values instead of text. Its state
  is the document and the stack of open containers; the live frames \<open>stack[0..depth]\<close> are a
  list whose last element is the current container. A result \<open>None\<close> of an operation means
  that a probe of the hash index would not end; the lemmas of \<open>Build_Props\<close> show that it
  always does.
\<close>

subsection \<open>The state\<close>

definition builder_max_depth :: nat where
  "builder_max_depth = 512"

datatype arr_nature = Arr_Undecided | Arr_Inline | Arr_Aot_Sections

record bframe =
  bf_node :: addr
  bf_is_array :: bool
  bf_nature :: arr_nature

record builder =
  b_doc :: "document option"
  b_stack :: "bframe list"

definition b_current :: "builder \<Rightarrow> bframe" where
  "b_current b = last (b_stack b)"

definition b_set_nature :: "arr_nature \<Rightarrow> builder \<Rightarrow> builder" where
  "b_set_nature n b = b\<lparr>b_stack := butlast (b_stack b) @ [(b_current b)\<lparr>bf_nature := n\<rparr>]\<rparr>"

definition b_set_doc :: "document \<Rightarrow> builder \<Rightarrow> builder" where
  "b_set_doc doc b = b\<lparr>b_doc := Some doc\<rparr>"

text \<open>A copy of the caller's bytes in the arena, with a terminator.\<close>

definition doc_strdup :: "document \<Rightarrow> bytes \<Rightarrow> (view \<times> document) option" where
  "doc_strdup doc s =
    (case arena_alloc (d_arena doc) (of_nat (length s + 1)) of
       None \<Rightarrow> None
     | Some (p, a) \<Rightarrow> Some (View None s, doc\<lparr>d_arena := a\<rparr>))"

text \<open>The year and the offset are signed.\<close>

definition datetime_ok :: "kind \<Rightarrow> datetime \<Rightarrow> bool" where
  "datetime_ok k dt =
    (if dt_hour dt > 23 \<or> dt_minute dt > 59 \<or> dt_second dt > 60 \<or> dt_nanosecond dt > 999999999
        \<or> sint (dt_offset_seconds dt) < -86399 \<or> sint (dt_offset_seconds dt) > 86399 then False
     else if k = K_TIME_LOCAL then
       dt_year dt = 0 \<and> dt_month dt = 0 \<and> dt_day dt = 0 \<and> dt_offset_seconds dt = 0
     else if sint (dt_year dt) > 9999 \<or> dt_month dt < 1 \<or> dt_month dt > 12
        \<or> dt_day dt < 1 \<or> dt_day dt > 31 then False
     else if k = K_DATE_LOCAL \<and> (dt_hour dt \<noteq> 0 \<or> dt_minute dt \<noteq> 0 \<or> dt_second dt \<noteq> 0
        \<or> dt_nanosecond dt \<noteq> 0) then False
     else if k \<noteq> K_DATETIME_OFFSET \<and> dt_offset_seconds dt \<noteq> 0 then False
     else True)"

subsection \<open>Attaching a node\<close>

text \<open>
  The array arm of \<open>attach\<close>: what the element decides about the array, with the document and
  the builder that the decision leaves, and no result when it is refused.
\<close>

definition decide_nature :: "builder \<Rightarrow> document \<Rightarrow> bool \<Rightarrow> (builder \<times> document) option" where
  "decide_nature b doc element_is_table =
    (let f = b_current b
     in if element_is_table then
          (if bf_nature f = Arr_Undecided
           then Some (b_set_nature Arr_Aot_Sections b,
                      set_flags doc (bf_node f) (n_flags (the_node doc (bf_node f)) OR ARR_AOT))
           else Some (b, doc))
        else if bf_nature f = Arr_Aot_Sections then None
        else if bf_nature f = Arr_Undecided then Some (b_set_nature Arr_Inline b, doc)
        else Some (b, doc))"

definition attach ::
    "builder \<Rightarrow> document \<Rightarrow> bytes option \<Rightarrow> bool \<Rightarrow> addr \<Rightarrow> (status \<times> builder) option" where
  "attach b doc key element_is_table n =
    (let f = b_current b
     in if bf_is_array f then
          (case decide_nature b doc element_is_table of
             None \<Rightarrow> Some (ERR_ARG, b_set_doc doc b)
           | Some (b1, doc1) \<Rightarrow>
               (case dom_array_push doc1 (bf_node f) n of
                  (st, doc2) \<Rightarrow> Some (st, b_set_doc doc2 b1)))
        else
          (case key of
             None \<Rightarrow> Some (ERR_ARG, b_set_doc doc b)
           | Some k \<Rightarrow>
               (case doc_strdup doc k of
                  None \<Rightarrow> Some (ERR_ALLOC, b_set_doc doc b)
                | Some (kview, doc1) \<Rightarrow>
                    (case table_find_h (the_table doc1 (bf_node f)) (v_bytes kview) of
                       None \<Rightarrow> None
                     | Some (Some e, hash) \<Rightarrow> Some (ERR_ARG, b_set_doc doc1 b)
                     | Some (None, hash) \<Rightarrow>
                         (case dom_table_insert_slot doc1 (bf_node f) kview hash n None of
                            None \<Rightarrow> None
                          | Some (st, doc2) \<Rightarrow> Some (st, b_set_doc doc2 b))))))"

text \<open>The node of \<open>put_scalar\<close> is the third component; it counts when the status is fine.\<close>

definition put_scalar :: "builder \<Rightarrow> bytes option \<Rightarrow> kind \<Rightarrow> (status \<times> builder \<times> addr) option" where
  "put_scalar b key k =
    (case b_doc b of
       None \<Rightarrow> Some (ERR_STATE, b, 0)
     | Some doc \<Rightarrow>
         (case dom_new_node doc k of
            None \<Rightarrow> Some (ERR_ALLOC, b, 0)
          | Some (n, doc1) \<Rightarrow>
              map_option (\<lambda>(st, b1). (st, b1, n)) (attach b doc1 key False n)))"

definition push_container ::
    "builder \<Rightarrow> document \<Rightarrow> bytes option \<Rightarrow> addr \<Rightarrow> bool \<Rightarrow> (status \<times> builder) option" where
  "push_container b doc key n n_is_array =
    (case attach b doc key (\<not> n_is_array) n of
       None \<Rightarrow> None
     | Some (st, b1) \<Rightarrow>
         (if st \<noteq> ST_OK then Some (st, b1)
          else if length (b_stack b1) \<ge> builder_max_depth then Some (ERR_DEPTH, b1)
          else Some (ST_OK, b1\<lparr>b_stack := b_stack b1
                 @ [\<lparr>bf_node = n, bf_is_array = n_is_array, bf_nature = Arr_Undecided\<rparr>]\<rparr>)))"

subsection \<open>The operations\<close>

text \<open>\<open>calloc\<close> of the builder and of the document succeed or not; \<open>avail\<close> is the memory of the arena.\<close>

definition builder_new :: "bool \<Rightarrow> bool \<Rightarrow> nat \<Rightarrow> builder option" where
  "builder_new alloc_b alloc_doc avail =
    (if \<not> alloc_b \<or> \<not> alloc_doc then None
     else case dom_new_table (new_document avail (of_nat builder_max_depth)) TBL_EXPLICIT of
            None \<Rightarrow> None
          | Some (root, doc) \<Rightarrow>
              Some \<lparr>b_doc = Some (doc\<lparr>d_root := Some root\<rparr>),
                    b_stack = [\<lparr>bf_node = root, bf_is_array = False, bf_nature = Arr_Undecided\<rparr>]\<rparr>)"

text \<open>The store into the node that \<open>put_scalar\<close> attached.\<close>

definition fill_node :: "builder \<Rightarrow> addr \<Rightarrow> payload \<Rightarrow> builder" where
  "fill_node b n v =
    (case b_doc b of None \<Rightarrow> b | Some doc \<Rightarrow> b_set_doc (set_payload doc n v) b)"

definition builder_put_string :: "builder \<Rightarrow> bytes option \<Rightarrow> bytes \<Rightarrow> (status \<times> builder) option" where
  "builder_put_string b key val =
    (case put_scalar b key K_STRING of
       None \<Rightarrow> None
     | Some (st, b1, n) \<Rightarrow>
         (if st \<noteq> ST_OK then Some (st, b1)
          else case b_doc b1 of
                 None \<Rightarrow> Some (ST_OK, b1)
               | Some doc \<Rightarrow>
                   (case doc_strdup doc val of
                      None \<Rightarrow> Some (ERR_ALLOC, b1)
                    | Some (v, doc1) \<Rightarrow>
                        Some (ST_OK, fill_node (b_set_doc doc1 b1) n (P_Str (v_bytes v))))))"

definition builder_put_integer :: "builder \<Rightarrow> bytes option \<Rightarrow> u64 \<Rightarrow> (status \<times> builder) option" where
  "builder_put_integer b key v =
    map_option (\<lambda>(st, b1, n). if st \<noteq> ST_OK then (st, b1) else (ST_OK, fill_node b1 n (P_Int v)))
      (put_scalar b key K_INTEGER)"

definition builder_put_float :: "builder \<Rightarrow> bytes option \<Rightarrow> u64 \<Rightarrow> (status \<times> builder) option" where
  "builder_put_float b key v =
    map_option (\<lambda>(st, b1, n). if st \<noteq> ST_OK then (st, b1) else (ST_OK, fill_node b1 n (P_Float v)))
      (put_scalar b key K_FLOAT)"

definition builder_put_boolean :: "builder \<Rightarrow> bytes option \<Rightarrow> bool \<Rightarrow> (status \<times> builder) option" where
  "builder_put_boolean b key v =
    map_option (\<lambda>(st, b1, n). if st \<noteq> ST_OK then (st, b1) else (ST_OK, fill_node b1 n (P_Bool v)))
      (put_scalar b key K_BOOLEAN)"

definition is_datetime_kind :: "kind \<Rightarrow> bool" where
  "is_datetime_kind k \<longleftrightarrow> k = K_DATETIME_OFFSET \<or> k = K_DATETIME_LOCAL \<or> k = K_DATE_LOCAL \<or> k = K_TIME_LOCAL"

definition builder_put_datetime ::
    "builder \<Rightarrow> bytes option \<Rightarrow> kind \<Rightarrow> datetime \<Rightarrow> (status \<times> builder) option" where
  "builder_put_datetime b key k dt =
    (if \<not> is_datetime_kind k then Some (ERR_ARG, b)
     else if \<not> datetime_ok k dt then Some (ERR_ARG, b)
     else map_option (\<lambda>(st, b1, n). if st \<noteq> ST_OK then (st, b1) else (ST_OK, fill_node b1 n (P_Dt dt)))
            (put_scalar b key k))"

definition table_flags :: "bframe \<Rightarrow> document \<Rightarrow> byte" where
  "table_flags f doc =
    (if bf_is_array f then (if bf_nature f = Arr_Inline then TBL_INLINE else TBL_EXPLICIT)
     else if has_flag (the_node doc (bf_node f)) TBL_INLINE then TBL_INLINE
     else TBL_EXPLICIT)"

definition builder_open_table :: "builder \<Rightarrow> bytes option \<Rightarrow> (status \<times> builder) option" where
  "builder_open_table b key =
    (case b_doc b of
       None \<Rightarrow> Some (ERR_STATE, b)
     | Some doc \<Rightarrow>
         (case dom_new_table doc (table_flags (b_current b) doc) of
            None \<Rightarrow> Some (ERR_ALLOC, b)
          | Some (t, doc1) \<Rightarrow> push_container b doc1 key t False))"

text \<open>The parent is the frame below the new one.\<close>

definition inline_territory :: "builder \<Rightarrow> bool" where
  "inline_territory b =
    (let parent = last (butlast (b_stack b))
     in case b_doc b of
          None \<Rightarrow> False
        | Some doc \<Rightarrow>
            (bf_is_array parent \<and> bf_nature parent = Arr_Inline)
            \<or> (\<not> bf_is_array parent \<and> has_flag (the_node doc (bf_node parent)) TBL_INLINE))"

definition builder_open_array :: "builder \<Rightarrow> bytes option \<Rightarrow> (status \<times> builder) option" where
  "builder_open_array b key =
    (case b_doc b of
       None \<Rightarrow> Some (ERR_STATE, b)
     | Some doc \<Rightarrow>
         (case dom_new_array doc 0 of
            None \<Rightarrow> Some (ERR_ALLOC, b)
          | Some (a, doc1) \<Rightarrow>
              map_option
                (\<lambda>(st, b1).
                   if st \<noteq> ST_OK then (st, b1)
                   else (ST_OK, if inline_territory b1 then b_set_nature Arr_Inline b1 else b1))
                (push_container b doc1 key a True)))"

definition builder_open_inline_array :: "builder \<Rightarrow> bytes option \<Rightarrow> (status \<times> builder) option" where
  "builder_open_inline_array b key =
    (case b_doc b of
       None \<Rightarrow> Some (ERR_STATE, b)
     | Some doc \<Rightarrow>
         (case dom_new_array doc 0 of
            None \<Rightarrow> Some (ERR_ALLOC, b)
          | Some (a, doc1) \<Rightarrow>
              map_option
                (\<lambda>(st, b1). if st \<noteq> ST_OK then (st, b1) else (ST_OK, b_set_nature Arr_Inline b1))
                (push_container b doc1 key a True)))"

definition builder_close :: "builder \<Rightarrow> status \<times> builder" where
  "builder_close b =
    (if b_doc b = None \<or> length (b_stack b) = 1 then (ERR_STATE, b)
     else (ST_OK, b\<lparr>b_stack := butlast (b_stack b)\<rparr>))"

text \<open>The document handed over, if there is one.\<close>

definition builder_finish :: "builder \<Rightarrow> status \<times> document option \<times> builder" where
  "builder_finish b =
    (case b_doc b of
       None \<Rightarrow> (ERR_STATE, None, b)
     | Some doc \<Rightarrow>
         (if length (b_stack b) \<noteq> 1 then (ERR_STATE, None, b)
          else (ST_OK, Some doc, b\<lparr>b_doc := None\<rparr>)))"

subsection \<open>A sequence of calls\<close>

text \<open>A client that goes on after every refused call, and stops when memory runs out.\<close>

datatype build_call =
    Put_String "bytes option" bytes
  | Put_Integer "bytes option" u64
  | Put_Float "bytes option" u64
  | Put_Boolean "bytes option" bool
  | Put_Datetime "bytes option" kind datetime
  | Open_Table "bytes option"
  | Open_Array "bytes option"
  | Open_Inline_Array "bytes option"
  | Close

fun build_step :: "builder \<Rightarrow> build_call \<Rightarrow> (status \<times> builder) option" where
  "build_step b (Put_String key v) = builder_put_string b key v"
| "build_step b (Put_Integer key v) = builder_put_integer b key v"
| "build_step b (Put_Float key v) = builder_put_float b key v"
| "build_step b (Put_Boolean key v) = builder_put_boolean b key v"
| "build_step b (Put_Datetime key k dt) = builder_put_datetime b key k dt"
| "build_step b (Open_Table key) = builder_open_table b key"
| "build_step b (Open_Array key) = builder_open_array b key"
| "build_step b (Open_Inline_Array key) = builder_open_inline_array b key"
| "build_step b Close = Some (builder_close b)"

fun build_calls :: "builder \<Rightarrow> build_call list \<Rightarrow> (status list \<times> builder) option" where
  "build_calls b [] = Some ([], b)"
| "build_calls b (c # cs) =
    (case build_step b c of
       None \<Rightarrow> None
     | Some (st, b1) \<Rightarrow>
         (if st = ERR_ALLOC then Some ([st], b1)
          else map_option (\<lambda>(sts, b2). (st # sts, b2)) (build_calls b1 cs)))"

end
