(* ===== verification/Build_Props.thy ===== *)
theory Build_Props
  imports Build
begin

text \<open>
  The invariant of the builder: the document is well formed in the sense of the parser's
  documents, every open frame names its own container node, and the nature of an open array
  agrees with the flag of its node. Every call keeps it, as long as no call reports a failure
  of allocation, so that a finished document is well formed.
\<close>

subsection \<open>The invariant\<close>

definition frame_ok :: "node list \<Rightarrow> bframe \<Rightarrow> bool" where
  "frame_ok ns f \<longleftrightarrow> bf_node f < length ns
     \<and> n_kind (ns ! bf_node f) = (if bf_is_array f then K_ARRAY else K_TABLE)
     \<and> (bf_is_array f \<longrightarrow>
          (bf_nature f = Arr_Aot_Sections \<longleftrightarrow> has_flag (ns ! bf_node f) ARR_AOT)
          \<and> (bf_nature f = Arr_Undecided \<longrightarrow> ar_items (payload_array (n_as (ns ! bf_node f))) = []))"

definition stack_ok :: "node list \<Rightarrow> bframe list \<Rightarrow> bool" where
  "stack_ok ns stk \<longleftrightarrow> stk \<noteq> [] \<and> length stk \<le> builder_max_depth
     \<and> distinct (map bf_node stk) \<and> (\<forall>f \<in> set stk. frame_ok ns f)"

definition building :: "nat \<Rightarrow> document \<Rightarrow> bframe list \<Rightarrow> bool" where
  "building m doc stk \<longleftrightarrow> nodes_ok m (d_nodes doc) \<and> stack_ok (d_nodes doc) stk
     \<and> d_root doc = Some (bf_node (hd stk)) \<and> \<not> bf_is_array (hd stk) \<and> d_err doc = no_error"

definition builder_ok :: "nat \<Rightarrow> builder \<Rightarrow> bool" where
  "builder_ok m b \<longleftrightarrow> (\<forall>doc. b_doc b = Some doc \<longrightarrow> building m doc (b_stack b))"

lemma building_mono: "building m doc stk \<Longrightarrow> m \<le> m' \<Longrightarrow> building m' doc stk"
  by (auto simp: building_def intro: nodes_ok_mono)

lemma building_top:
  assumes "building m doc stk"
  shows "stk \<noteq> []" "frame_ok (d_nodes doc) (last stk)" "nodes_ok m (d_nodes doc)"
  using assms by (auto simp: building_def stack_ok_def)

lemma frame_ok_append: "frame_ok ns f \<Longrightarrow> frame_ok (ns @ [n]) f"
  by (auto simp: frame_ok_def nth_append)

lemma building_arena: "building m (doc\<lparr>d_arena := a\<rparr>) stk = building m doc stk"
  by (simp add: building_def)

text \<open>A fresh node: nothing refers to it yet.\<close>

lemma building_append:
  assumes ok: "building m doc stk"
    and doc': "d_nodes doc' = d_nodes doc @ [n]" "d_err doc' = d_err doc" "d_root doc' = d_root doc"
    and n: "n_as n = zero_payload (n_kind n)" "n_kind n = K_ARRAY \<longrightarrow> \<not> has_flag n ARR_AOT"
  shows "building m doc' stk"
proof -
  have kp: "kind_payload (n_kind n) (n_as n)" "payload_refs (n_as n) = {}"
    "payload_table (n_as n) = empty_table"
    unfolding n(1) by (cases "n_kind n"; simp add: empty_table_def empty_array_def)+
  have te: "t_entries empty_table = []" by (simp add: empty_table_def)
  have "nodes_ok m (d_nodes doc @ [n])"
    using building_top(3) [OF ok] kp n(2)
    by (intro nodes_ok_append) (auto simp: table_wf_empty aot_ok_def te)
  then show ?thesis
    using ok doc' by (auto simp: building_def stack_ok_def intro: frame_ok_append)
qed

text \<open>A change of the current container's node, and with it perhaps of its frame's nature.\<close>

lemma frames_update:
  assumes ok: "stack_ok ns stk" and i: "i = bf_node (last stk)"
    and f: "f' = (last stk)\<lparr>bf_nature := nat'\<rparr>" and top: "frame_ok (ns[i := x]) f'"
  shows "stack_ok (ns[i := x]) (butlast stk @ [f'])"
proof -
  have ne: "stk \<noteq> []" using ok by (simp add: stack_ok_def)
  have nodes: "map bf_node (butlast stk @ [f']) = map bf_node stk"
    using arg_cong [OF append_butlast_last_id [OF ne], of "map bf_node"] by (simp add: f)
  have "distinct (map bf_node (butlast stk @ [last stk]))"
    using ok ne by (simp add: stack_ok_def)
  then have "i \<notin> bf_node ` set (butlast stk)" by (simp add: i)
  then have other: "bf_node g \<noteq> i" if "g \<in> set (butlast stk)" for g
    using that by blast
  have "frame_ok (ns[i := x]) g" if "g \<in> set (butlast stk)" for g
    using ok that other [OF that] in_set_butlastD [OF that] by (auto simp: stack_ok_def frame_ok_def)
  then show ?thesis
    using ok top nodes ne by (auto simp: stack_ok_def)
qed

lemma hd_frame:
  "stk \<noteq> [] \<Longrightarrow> bf_node (hd (butlast stk @ [(last stk)\<lparr>bf_nature := k\<rparr>])) = bf_node (hd stk)
    \<and> bf_is_array (hd (butlast stk @ [(last stk)\<lparr>bf_nature := k\<rparr>])) = bf_is_array (hd stk)"
  by (cases stk) auto

text \<open>The result of a push, under a change of the flags made before it.\<close>

lemma dom_array_push_eq:
  assumes "dom_array_push doc i v = (st, doc')"
  shows "(st = ST_OK \<and> d_err doc' = d_err doc \<and> d_root doc' = d_root doc \<and>
      (\<exists>ar. ar_items ar = ar_items (the_array doc i) @ [v] \<and>
        d_nodes doc' = (d_nodes doc)[i := (the_node doc i)\<lparr>n_as := P_Array ar\<rparr>]))
    \<or> (st = ERR_ALLOC \<and> doc' = doc)"
  using dom_array_push_cases [of doc i v] assms by (auto simp: set_payload_nodes)


text \<open>What attaching leaves: only the node of the current container may differ.\<close>

definition same_nodes :: "document \<Rightarrow> document \<Rightarrow> addr \<Rightarrow> bool" where
  "same_nodes doc doc' i \<longleftrightarrow> length (d_nodes doc') = length (d_nodes doc)
     \<and> (\<forall>j. n_kind (the_node doc' j) = n_kind (the_node doc j))
     \<and> (\<forall>j. j \<noteq> i \<longrightarrow> the_node doc' j = the_node doc j)"

lemma same_nodes_refl: "same_nodes doc doc i"
  by (simp add: same_nodes_def)

lemma same_nodes_update:
  "d_nodes doc' = (d_nodes doc)[i := x] \<Longrightarrow> n_kind x = n_kind (the_node doc i) \<Longrightarrow> same_nodes doc doc' i"
  by (cases "i < length (d_nodes doc)") (auto simp: same_nodes_def nth_list_update list_update_beyond)

definition attached_ok ::
    "nat \<Rightarrow> builder \<Rightarrow> document \<Rightarrow> (status \<times> builder) option \<Rightarrow> bool" where
  "attached_ok m b doc r \<longleftrightarrow>
    (\<exists>st b' doc'. r = Some (st, b') \<and> b_doc b' = Some doc'
       \<and> st \<in> {ST_OK, ERR_ALLOC, ERR_ARG}
       \<and> map bf_node (b_stack b') = map bf_node (b_stack b)
       \<and> same_nodes doc doc' (bf_node (b_current b))
       \<and> (st \<noteq> ERR_ALLOC \<longrightarrow> building (Suc m) doc' (b_stack b')))"

lemma attached_unchanged:
  assumes "building m doc (b_stack b)" "d_nodes doc' = d_nodes doc" "d_err doc' = d_err doc"
    "d_root doc' = d_root doc" "st \<in> {ST_OK, ERR_ALLOC, ERR_ARG}"
  shows "attached_ok m b doc (Some (st, b_set_doc doc' b))"
  using assms building_mono [of m doc "b_stack b" "Suc m"]
  by (auto simp: attached_ok_def b_set_doc_def same_nodes_def building_def)

text \<open>A push into the array at the top, with the flags and the nature that go with it.\<close>

lemma push_ok:
  assumes ok: "building m doc (b_stack b)" and arr: "bf_is_array (b_current b)"
    and n: "n < length (d_nodes doc)"
    and doc': "d_nodes doc' = (d_nodes doc)[bf_node (b_current b) :=
        (the_node doc (bf_node (b_current b)))\<lparr>n_flags := fl, n_as := P_Array ar\<rparr>]"
      "d_err doc' = d_err doc" "d_root doc' = d_root doc"
    and items: "ar_items ar = ar_items (the_array doc (bf_node (b_current b))) @ [n]"
    and nat': "nat' \<noteq> Arr_Undecided"
    and fl: "nat' = Arr_Aot_Sections \<longleftrightarrow> fl AND ARR_AOT \<noteq> 0"
    and tables: "nat' = Arr_Aot_Sections \<Longrightarrow> n_kind (the_node doc n) = K_TABLE
        \<and> (ar_items (the_array doc (bf_node (b_current b))) = []
           \<or> has_flag (the_node doc (bf_node (b_current b))) ARR_AOT)"
  shows "building (Suc m) doc' (b_stack (b_set_nature nat' b))"
proof -
  let ?i = "bf_node (b_current b)"
  let ?x = "(the_node doc ?i)\<lparr>n_flags := fl, n_as := P_Array ar\<rparr>"
  have top: "?i < length (d_nodes doc)" "n_kind (the_node doc ?i) = K_ARRAY"
    using building_top(2) [OF ok] arr by (auto simp: frame_ok_def b_current_def)
  note arrn = node_ok_array [OF building_top(3) [OF ok] top]
  have "aot_ok (d_nodes doc) ?x"
    using tables fl arrn(3) items by (auto simp: aot_ok_def has_flag_def)
  moreover have "\<forall>v \<in> payload_refs (n_as ?x). v < length (d_nodes doc)"
    using arrn(2) n by (auto simp: items)
  ultimately have "nodes_ok (Suc m) (d_nodes doc')"
    unfolding doc' using top
    by (intro nodes_ok_update [OF building_top(3) [OF ok]])
      (auto simp: table_wf_empty, simp add: empty_table_def)
  moreover have "stack_ok (d_nodes doc') (b_stack (b_set_nature nat' b))"
    unfolding doc' b_set_nature_def using ok top fl nat'
    by (auto simp: building_def b_current_def frame_ok_def has_flag_def arr [unfolded b_current_def]
        intro!: frames_update [of _ _ _ _ nat'])
  ultimately show ?thesis
    using ok doc'(2,3) hd_frame [OF building_top(1) [OF ok]]
    by (simp add: building_def b_set_nature_def b_current_def)
qed


text \<open>Both arms of \<open>attach\<close>.\<close>

lemma attach_array_ok:
  assumes ok: "building m doc (b_stack b)" and arr: "bf_is_array (b_current b)"
    and n: "n < length (d_nodes doc)" "tbl \<Longrightarrow> n_kind (the_node doc n) = K_TABLE"
  shows "attached_ok m b doc (attach b doc key tbl n)"
proof -
  let ?i = "bf_node (b_current b)"
  have top: "?i < length (d_nodes doc)" "n_kind (the_node doc ?i) = K_ARRAY"
    and flag: "bf_nature (b_current b) = Arr_Aot_Sections \<longleftrightarrow> has_flag (the_node doc ?i) ARR_AOT"
    and empty: "bf_nature (b_current b) = Arr_Undecided \<Longrightarrow> ar_items (the_array doc ?i) = []"
    using building_top(2) [OF ok] arr by (auto simp: frame_ok_def b_current_def)
  have same: "b_set_nature (bf_nature (b_current b)) b = b"
    using building_top(1) [OF ok] by (simp add: b_set_nature_def b_current_def)
  have nodes: "map bf_node (b_stack (b_set_nature k b)) = map bf_node (b_stack b)" for k
    using arg_cong [OF append_butlast_last_id [OF building_top(1) [OF ok]], of "map bf_node"]
    by (simp add: b_set_nature_def b_current_def)
  have step: "attached_ok m b doc (case dom_array_push doc1 ?i n of (st, doc2) \<Rightarrow> Some (st, b_set_doc doc2 (b_set_nature k b)))"
    if doc1: "d_nodes doc1 = (d_nodes doc)[?i := (the_node doc ?i)\<lparr>n_flags := fl\<rparr>]"
        "d_err doc1 = d_err doc" "d_root doc1 = d_root doc"
      and k: "k \<noteq> Arr_Undecided" "k = Arr_Aot_Sections \<longleftrightarrow> fl AND ARR_AOT \<noteq> 0"
        "k = Arr_Aot_Sections \<Longrightarrow> tbl \<and> (ar_items (the_array doc ?i) = [] \<or> has_flag (the_node doc ?i) ARR_AOT)"
    for doc1 fl k
  proof -
    obtain st doc2 where push: "dom_array_push doc1 ?i n = (st, doc2)" by (metis surj_pair)
    show ?thesis
      using dom_array_push_eq [OF push]
    proof (elim disjE conjE exE)
      fix ar
      assume st: "st = ST_OK" and d: "d_err doc2 = d_err doc1" "d_root doc2 = d_root doc1"
        and ar: "ar_items ar = ar_items (the_array doc1 ?i) @ [n]"
          "d_nodes doc2 = (d_nodes doc1)[?i := (the_node doc1 ?i)\<lparr>n_as := P_Array ar\<rparr>]"
      have d2: "d_nodes doc2 = (d_nodes doc)[?i := (the_node doc ?i)\<lparr>n_flags := fl, n_as := P_Array ar\<rparr>]"
        using top by (simp add: ar doc1)
      have "ar_items ar = ar_items (the_array doc ?i) @ [n]" using top by (simp add: ar doc1)
      then have "building (Suc m) doc2 (b_stack (b_set_nature k b))"
        using k n by (intro push_ok [OF ok arr n(1) d2 _ _ _ k(1,2)]) (auto simp: d doc1)
      then show ?thesis
        using st nodes same_nodes_update [OF d2] by (simp add: push attached_ok_def b_set_doc_def)
    next
      assume "st = ERR_ALLOC" "doc2 = doc1"
      then show ?thesis
        using nodes same_nodes_update [OF doc1(1)] by (simp add: push attached_ok_def b_set_doc_def)
    qed
  qed
  have self: "d_nodes doc = (d_nodes doc)[?i := (the_node doc ?i)\<lparr>n_flags := n_flags (the_node doc ?i)\<rparr>]"
    by simp
  consider (first) "tbl" "bf_nature (b_current b) = Arr_Undecided"
    | (refuse) "\<not> tbl" "bf_nature (b_current b) = Arr_Aot_Sections"
    | (inline) "\<not> tbl" "bf_nature (b_current b) = Arr_Undecided"
    | (keep) "bf_nature (b_current b) \<noteq> Arr_Undecided" "tbl \<or> bf_nature (b_current b) \<noteq> Arr_Aot_Sections"
    by blast
  then show ?thesis
  proof cases
    case first
    have "(n_flags (the_node doc ?i) OR ARR_AOT) AND ARR_AOT \<noteq> (0 :: byte)"
      by (simp add: word_ao_dist)
    then show ?thesis
      using step [of "set_flags doc ?i (n_flags (the_node doc ?i) OR ARR_AOT)" _ Arr_Aot_Sections]
        first empty by (simp add: attach_def Let_def arr decide_nature_def set_flags_nodes)
  next
    case refuse
    then show ?thesis
      using attached_unchanged [OF ok refl refl refl, of ERR_ARG]
      by (simp add: attach_def arr decide_nature_def)
  next
    case inline
    then show ?thesis
      using step [OF self refl refl, of Arr_Inline] flag
      by (simp add: attach_def Let_def arr decide_nature_def has_flag_def)
  next
    case keep
    have "decide_nature b doc tbl = Some (b_set_nature (bf_nature (b_current b)) b, doc)"
      unfolding same using keep by (auto simp: decide_nature_def Let_def)
    then show ?thesis
      using step [OF self refl refl, of "bf_nature (b_current b)"] flag keep
      by (auto simp: attach_def Let_def arr has_flag_def)
  qed
qed

lemma attach_table_ok:
  assumes ok: "building m doc (b_stack b)" and tab: "\<not> bf_is_array (b_current b)"
    and n: "n < length (d_nodes doc)" and m: "m + 1 < 2 ^ 32 - 1"
  shows "attached_ok m b doc (attach b doc key tbl n)"
proof -
  let ?i = "bf_node (b_current b)"
  have top: "?i < length (d_nodes doc)" "n_kind (the_node doc ?i) = K_TABLE"
    using building_top(2) [OF ok] tab by (auto simp: frame_ok_def b_current_def)
  note wf = node_ok_table(2) [OF building_top(3) [OF ok] top]
  show ?thesis
  proof (cases key)
    case None
    then show ?thesis
      using attached_unchanged [OF ok refl refl refl, of ERR_ARG] by (simp add: attach_def tab)
  next
    case (Some k)
    show ?thesis
    proof (cases "doc_strdup doc k")
      case None
      then show ?thesis
        using attached_unchanged [OF ok refl refl refl, of ERR_ALLOC] Some by (simp add: attach_def tab)
    next
      case dup: (Some r)
      then obtain a where r: "r = (View None k, doc\<lparr>d_arena := a\<rparr>)"
        by (auto simp: doc_strdup_def split: option.splits prod.splits)
      let ?doc1 = "doc\<lparr>d_arena := a\<rparr>"
      have look: "table_find_h (the_table ?doc1 ?i) k = Some (entry_for (the_table doc ?i) k, key_hash k)"
        using table_find_h_spec [OF wf] by simp
      show ?thesis
      proof (cases "entry_for (the_table doc ?i) k")
        case new: None
        obtain st doc' where ins: "dom_table_insert_slot ?doc1 ?i (View None k) (key_hash k) n None = Some (st, doc')"
          and frame: "doc_frame ?doc1 doc'" and nodes: "nodes_ok (Suc m) (d_nodes doc')"
          and st: "st = ST_OK \<or> st = ERR_ALLOC"
          using dom_insert_ok [of m ?doc1 ?i "View None k" None n] building_top(3) [OF ok] top new n m
          by (auto simp: slot_ok_None)
        obtain tb where tb: "d_nodes doc' = (d_nodes doc)[?i := (the_node doc ?i)\<lparr>n_as := P_Table tb\<rparr>]"
          using ins by (auto simp: dom_table_insert_slot_def set_payload_nodes split: option.splits prod.splits)
        have "stack_ok (d_nodes doc') (butlast (b_stack b) @ [last (b_stack b)])"
          unfolding tb using ok top tab
          by (intro frames_update [of _ _ _ _ "bf_nature (last (b_stack b))"])
            (auto simp: building_def b_current_def frame_ok_def)
        then have "building (Suc m) doc' (b_stack b)"
          using nodes frame ok building_top(1) [OF ok] by (auto simp: building_def doc_frame_def)
        then show ?thesis
          using st same_nodes_update [OF tb] ins look new dup r Some
          by (auto simp: attach_def tab attached_ok_def b_set_doc_def)
      next
        case (Some e)
        then show ?thesis
          using attached_unchanged [OF ok, of ?doc1 ERR_ARG] look dup r \<open>key = Some k\<close>
          by (simp add: attach_def tab)
      qed
    qed
  qed
qed

lemma attach_ok:
  assumes "building m doc (b_stack b)" "n < length (d_nodes doc)"
    "tbl \<Longrightarrow> n_kind (the_node doc n) = K_TABLE" "m + 1 < 2 ^ 32 - 1"
  shows "attached_ok m b doc (attach b doc key tbl n)"
  using assms attach_array_ok attach_table_ok by (cases "bf_is_array (b_current b)") blast+


subsection \<open>Every call keeps the invariant\<close>

text \<open>A call returns, and unless it ran out of memory, the invariant holds again.\<close>

definition call_ok :: "nat \<Rightarrow> (status \<times> builder) option \<Rightarrow> bool" where
  "call_ok m r \<longleftrightarrow> (\<exists>st b'. r = Some (st, b') \<and> (st \<noteq> ERR_ALLOC \<longrightarrow> builder_ok m b'))"

lemma call_ok_unchanged: "builder_ok m b \<Longrightarrow> call_ok (Suc m) (Some (st, b))"
  by (auto simp: call_ok_def builder_ok_def intro: building_mono)

text \<open>The node of a scalar, and its value.\<close>

lemma put_scalar_ok:
  assumes ok: "builder_ok m b" and m: "m + 1 < 2 ^ 32 - 1" and k: "k \<noteq> K_ARRAY"
  shows "\<exists>st b' n. put_scalar b key k = Some (st, b', n)
    \<and> (st \<noteq> ERR_ALLOC \<longrightarrow> builder_ok (Suc m) b')
    \<and> (st = ST_OK \<longrightarrow> (\<exists>doc'. b_doc b' = Some doc' \<and> n < length (d_nodes doc') \<and> n_kind (the_node doc' n) = k))"
proof (cases "b_doc b")
  case None
  then show ?thesis using ok by (simp add: put_scalar_def builder_ok_def)
next
  case (Some doc)
  show ?thesis
  proof (cases "dom_new_node doc k")
    case None
    then show ?thesis using Some by (simp add: put_scalar_def)
  next
    case new: (Some r)
    then obtain n doc1 where r: "dom_new_node doc k = Some (n, doc1)" by (cases r) auto
    note eq = dom_new_node_eq [OF r]
    have b1: "building m doc1 (b_stack b)"
      using building_append [of m doc "b_stack b" doc1, OF _ eq(2-4)] ok Some k
      by (auto simp: builder_ok_def)
    have "attached_ok m b doc1 (attach b doc1 key False n)"
      using attach_ok [OF b1 _ _ m, of n False] eq(1,2) by simp
    then show ?thesis
      using eq(1,2) by (auto simp: put_scalar_def Some r attached_ok_def same_nodes_def builder_ok_def)
  qed
qed

lemma fill_node_ok:
  assumes ok: "builder_ok m b" and doc: "b_doc b = Some doc"
    and n: "n < length (d_nodes doc)" "kind_payload (n_kind (the_node doc n)) v"
      "n_kind (the_node doc n) \<notin> {K_ARRAY, K_TABLE}"
  shows "builder_ok m (fill_node b n v)"
proof -
  let ?x = "(the_node doc n)\<lparr>n_as := v\<rparr>"
  have b: "building m doc (b_stack b)" using ok doc by (simp add: builder_ok_def)
  have v: "payload_refs v = {}" "payload_table v = empty_table"
    using n(2,3) by (cases v; auto simp: kind_payload_table)+
  have "nodes_ok m ((d_nodes doc)[n := ?x])"
    using n v by (intro nodes_ok_update [OF building_top(3) [OF b]])
      (auto simp: table_wf_empty aot_ok_def, simp add: empty_table_def)
  moreover have "frame_ok ((d_nodes doc)[n := ?x]) f" if "f \<in> set (b_stack b)" for f
    using b that n(3) by (cases "bf_node f = n") (auto simp: building_def stack_ok_def frame_ok_def)
  ultimately show ?thesis
    using b by (auto simp: fill_node_def doc b_set_doc_def builder_ok_def building_def stack_ok_def set_payload_nodes)
qed

lemma put_filled_ok:
  assumes ok: "builder_ok m b" and m: "m + 1 < 2 ^ 32 - 1"
    and k: "kind_payload k v" "k \<notin> {K_ARRAY, K_TABLE}"
  shows "call_ok (Suc m)
    (map_option (\<lambda>(st, b1, n). if st \<noteq> ST_OK then (st, b1) else (ST_OK, fill_node b1 n v)) (put_scalar b key k))"
proof -
  obtain st b' n where put: "put_scalar b key k = Some (st, b', n)"
    and ok': "st \<noteq> ERR_ALLOC \<Longrightarrow> builder_ok (Suc m) b'"
    and node: "st = ST_OK \<Longrightarrow> \<exists>doc'. b_doc b' = Some doc' \<and> n < length (d_nodes doc')
        \<and> n_kind (the_node doc' n) = k"
    using put_scalar_ok [OF ok m, of k key] k(2) by auto
  have "builder_ok (Suc m) (fill_node b' n v)" if "st = ST_OK"
    using node [OF that] ok' that k fill_node_ok [of "Suc m" b' _ n v] by auto
  then show ?thesis using put ok' by (simp add: call_ok_def)
qed

lemma put_string_ok:
  assumes ok: "builder_ok m b" and m: "m + 1 < 2 ^ 32 - 1"
  shows "call_ok (Suc m) (builder_put_string b key val)"
proof -
  obtain st b' n where put: "put_scalar b key K_STRING = Some (st, b', n)"
    and ok': "st \<noteq> ERR_ALLOC \<Longrightarrow> builder_ok (Suc m) b'"
    and node: "st = ST_OK \<Longrightarrow> \<exists>doc'. b_doc b' = Some doc' \<and> n < length (d_nodes doc')
        \<and> n_kind (the_node doc' n) = K_STRING"
    using put_scalar_ok [OF ok m, of K_STRING key] by auto
  show ?thesis
  proof (cases "st = ST_OK")
    case False
    then show ?thesis using put ok' by (simp add: builder_put_string_def call_ok_def)
  next
    case True
    then obtain doc' where doc': "b_doc b' = Some doc'" "n < length (d_nodes doc')"
      "n_kind (the_node doc' n) = K_STRING" using node by blast
    show ?thesis
    proof (cases "doc_strdup doc' val")
      case None
      then show ?thesis using put True doc' by (simp add: builder_put_string_def call_ok_def)
    next
      case (Some r)
      then obtain a where r: "r = (View None val, doc'\<lparr>d_arena := a\<rparr>)"
        by (auto simp: doc_strdup_def split: option.splits prod.splits)
      have "builder_ok (Suc m) (b_set_doc (doc'\<lparr>d_arena := a\<rparr>) b')"
        using ok' True doc' by (simp add: builder_ok_def b_set_doc_def building_arena)
      then have "builder_ok (Suc m) (fill_node (b_set_doc (doc'\<lparr>d_arena := a\<rparr>) b') n (P_Str val))"
        using doc' by (intro fill_node_ok [of _ _ "doc'\<lparr>d_arena := a\<rparr>"]) (simp_all add: b_set_doc_def)
      then show ?thesis
        using put True doc' Some r by (simp add: builder_put_string_def call_ok_def)
    qed
  qed
qed

text \<open>Opening a container: the attached node becomes the top frame.\<close>

lemma push_container_ok:
  assumes ok: "building m doc (b_stack b)" and m: "m + 1 < 2 ^ 32 - 1"
    and doc1: "d_nodes doc1 = d_nodes doc @ [x]" "d_err doc1 = d_err doc" "d_root doc1 = d_root doc"
    and x: "n_as x = zero_payload (n_kind x)" "n_kind x = (if arr then K_ARRAY else K_TABLE)"
      "arr \<Longrightarrow> n_flags x = 0"
    and n: "n = length (d_nodes doc)"
  shows "\<exists>st b'. push_container b doc1 key n arr = Some (st, b')
    \<and> (st \<noteq> ERR_ALLOC \<longrightarrow> builder_ok (Suc m) b')
    \<and> (st = ST_OK \<longrightarrow> bf_is_array (b_current b') = arr \<and> b_doc b' \<noteq> None \<and> length (b_stack b') > 1
        \<and> (arr \<longrightarrow> \<not> has_flag (the_node (the (b_doc b')) (bf_node (b_current b'))) ARR_AOT))"
proof -
  have b1: "building m doc1 (b_stack b)"
    using building_append [OF ok doc1 x(1)] x(2,3) by (auto simp: has_flag_def split: if_splits)
  have "attached_ok m b doc1 (attach b doc1 key (\<not> arr) n)"
    using attach_ok [OF b1 _ _ m, of n "\<not> arr"] doc1(1) n x(2) by simp
  then obtain st b' doc' where att: "attach b doc1 key (\<not> arr) n = Some (st, b')" "b_doc b' = Some doc'"
    and nodes: "map bf_node (b_stack b') = map bf_node (b_stack b)"
    and same: "same_nodes doc1 doc' (bf_node (b_current b))"
    and ok': "st \<noteq> ERR_ALLOC \<Longrightarrow> building (Suc m) doc' (b_stack b')"
    unfolding attached_ok_def by blast
  let ?f = "\<lparr>bf_node = n, bf_is_array = arr, bf_nature = Arr_Undecided\<rparr>"
  have below: "\<forall>f \<in> set (b_stack b). bf_node f < n"
    using ok by (auto simp: building_def stack_ok_def frame_ok_def n)
  have fresh_n: "n \<notin> bf_node ` set (b_stack b')"
    using below arg_cong [OF nodes, of set] by auto
  have "bf_node (b_current b) \<noteq> n"
    using below building_top(1) [OF ok] by (auto simp: b_current_def)
  then have node: "the_node doc' n = x" "n < length (d_nodes doc')"
    using same doc1(1) n by (auto simp: same_nodes_def)
  have frame: "frame_ok (d_nodes doc') ?f"
    using node x by (auto simp: frame_ok_def has_flag_def empty_array_def)
  show ?thesis
  proof (cases "st = ST_OK \<and> length (b_stack b') < builder_max_depth")
    case True
    then have "building (Suc m) doc' (b_stack b' @ [?f])"
      using ok' frame fresh_n by (auto simp: building_def stack_ok_def)
    then show ?thesis
      using True att frame node x building_top(1) [OF ok'] by (auto simp: push_container_def builder_ok_def b_current_def has_flag_def)
  next
    case False
    then show ?thesis
      using att ok' by (auto simp: push_container_def builder_ok_def)
  qed
qed


lemma set_inline_ok:
  assumes ok: "builder_ok m b" and doc: "b_doc b = Some doc" and arr: "bf_is_array (b_current b)"
    and flag: "\<not> has_flag (the_node doc (bf_node (b_current b))) ARR_AOT"
  shows "builder_ok m (b_set_nature Arr_Inline b)"
proof -
  have b: "building m doc (b_stack b)" using ok doc by (simp add: builder_ok_def)
  let ?f = "(last (b_stack b))\<lparr>bf_nature := Arr_Inline\<rparr>"
  let ?i = "bf_node (last (b_stack b))"
  have "frame_ok ((d_nodes doc)[?i := the_node doc ?i]) ?f"
    using building_top(2) [OF b] arr flag by (simp add: b_current_def frame_ok_def)
  then have "stack_ok ((d_nodes doc)[?i := the_node doc ?i]) (butlast (b_stack b) @ [?f])"
    using b by (intro frames_update [OF _ refl refl]) (simp_all add: building_def)
  then show ?thesis
    using b doc hd_frame [OF building_top(1) [OF b]]
    by (simp add: builder_ok_def building_def b_set_nature_def b_current_def)
qed

lemma open_ok:
  assumes ok: "builder_ok m b" and m: "m + 1 < 2 ^ 32 - 1"
  shows "call_ok (Suc m) (builder_open_table b key)"
    and "call_ok (Suc m) (builder_open_array b key)"
    and "call_ok (Suc m) (builder_open_inline_array b key)"
proof -
  show "call_ok (Suc m) (builder_open_table b key)"
  proof (cases "b_doc b")
    case None
    then show ?thesis using call_ok_unchanged [OF ok] by (simp add: builder_open_table_def)
  next
    case (Some doc)
    then have b: "building m doc (b_stack b)" using ok by (simp add: builder_ok_def)
    show ?thesis
    proof (cases "dom_new_table doc (table_flags (b_current b) doc)")
      case None
      then show ?thesis using Some by (simp add: builder_open_table_def call_ok_def)
    next
      case new: (Some r)
      then obtain t doc1 where r: "dom_new_table doc (table_flags (b_current b) doc) = Some (t, doc1)"
        by (cases r) auto
      show ?thesis
        using push_container_ok [OF b m dom_new_table_eq(2,3,4) [OF r], of False t key] dom_new_table_eq(1) [OF r]
        by (auto simp: builder_open_table_def Some r call_ok_def)
    qed
  qed
  have array: "call_ok (Suc m) (case dom_new_array doc 0 of None \<Rightarrow> Some (ERR_ALLOC, b)
      | Some (a, doc1) \<Rightarrow> map_option (\<lambda>(st, b1). if st \<noteq> ST_OK then (st, b1) else (ST_OK, g b1))
          (push_container b doc1 key a True))"
    if doc: "b_doc b = Some doc" and g: "\<And>b1. g b1 = b1 \<or> g b1 = b_set_nature Arr_Inline b1" for doc g
  proof (cases "dom_new_array doc 0")
    case None
    then show ?thesis by (simp add: call_ok_def)
  next
    case new: (Some r)
    then obtain a doc1 where r: "dom_new_array doc 0 = Some (a, doc1)" by (cases r) auto
    have b: "building m doc (b_stack b)" using ok doc by (simp add: builder_ok_def)
    obtain st b' where push: "push_container b doc1 key a True = Some (st, b')"
      and ok': "st \<noteq> ERR_ALLOC \<Longrightarrow> builder_ok (Suc m) b'"
      and top: "st = ST_OK \<Longrightarrow> bf_is_array (b_current b') \<and> b_doc b' \<noteq> None
        \<and> \<not> has_flag (the_node (the (b_doc b')) (bf_node (b_current b'))) ARR_AOT"
      using push_container_ok [OF b m dom_new_array_eq(2,3,4) [OF r], of True a key] dom_new_array_eq(1) [OF r]
      by auto
    have "builder_ok (Suc m) (g b')" if "st = ST_OK"
      using top [OF that] ok' that g [of b'] set_inline_ok [of "Suc m" b'] by auto
    then show ?thesis using push ok' by (simp add: r call_ok_def)
  qed
  show "call_ok (Suc m) (builder_open_array b key)"
    using array [of _ "\<lambda>b1. if inline_territory b1 then b_set_nature Arr_Inline b1 else b1"] call_ok_unchanged [OF ok]
    by (cases "b_doc b") (simp_all add: builder_open_array_def)
  show "call_ok (Suc m) (builder_open_inline_array b key)"
    using array [of _ "b_set_nature Arr_Inline"] call_ok_unchanged [OF ok]
    by (cases "b_doc b") (simp_all add: builder_open_inline_array_def)
qed

lemma butlast_hd: "length xs > 1 \<Longrightarrow> hd (butlast xs) = hd xs \<and> butlast xs \<noteq> []"
  by (cases xs rule: rev_cases) (auto simp: hd_append)

lemma close_ok:
  assumes "builder_ok m b"
  shows "builder_ok m (snd (builder_close b))"
proof (cases "b_doc b = None \<or> length (b_stack b) = 1")
  case False
  then obtain doc where doc: "b_doc b = Some doc" by auto
  then have b: "building m doc (b_stack b)" using assms by (simp add: builder_ok_def)
  then have "length (b_stack b) > 1" using False by (cases "b_stack b") (auto simp: building_def stack_ok_def)
  then show ?thesis
    using b doc False butlast_hd [of "b_stack b"]
    by (auto simp: builder_close_def builder_ok_def building_def stack_ok_def map_butlast
        distinct_butlast dest: in_set_butlastD)
qed (use assms in \<open>simp add: builder_close_def\<close>)

lemma build_step_ok:
  assumes ok: "builder_ok m b" and m: "m + 1 < 2 ^ 32 - 1"
  shows "call_ok (Suc m) (build_step b c)"
proof (cases c)
  case (Put_Datetime key k dt)
  have "kind_payload k (P_Dt dt) \<and> k \<notin> {K_ARRAY, K_TABLE}" if "is_datetime_kind k"
    using that by (auto simp: is_datetime_kind_def)
  then show ?thesis
    using put_filled_ok [OF ok m, of k "P_Dt dt" key] call_ok_unchanged [OF ok]
    by (simp add: Put_Datetime builder_put_datetime_def)
next
  case Close
  have "builder_ok (Suc m) (snd (builder_close b))"
    using close_ok [OF ok] building_mono [of m _ _ "Suc m"] by (auto simp: builder_ok_def)
  then show ?thesis by (cases "builder_close b") (simp add: Close call_ok_def)
qed (use put_string_ok [OF ok m] put_filled_ok [OF ok m] open_ok [OF ok m] in
    \<open>simp_all add: builder_put_integer_def builder_put_float_def builder_put_boolean_def\<close>)

lemma build_calls_ok:
  assumes "builder_ok m b" "m + length cs < 2 ^ 32 - 1"
  shows "\<exists>sts b'. build_calls b cs = Some (sts, b')
    \<and> (ERR_ALLOC \<notin> set sts \<longrightarrow> builder_ok (m + length cs) b')"
  using assms
proof (induction cs arbitrary: m b)
  case (Cons c cs)
  obtain st b1 where step: "build_step b c = Some (st, b1)" "st \<noteq> ERR_ALLOC \<Longrightarrow> builder_ok (Suc m) b1"
    using build_step_ok [OF Cons(2), of c] Cons(3) by (auto simp: call_ok_def)
  show ?case
  proof (cases "st = ERR_ALLOC")
    case False
    then obtain sts b2 where "build_calls b1 cs = Some (sts, b2)"
      "ERR_ALLOC \<notin> set sts \<Longrightarrow> builder_ok (Suc m + length cs) b2"
      using Cons(1) [OF step(2)] Cons(3) by auto
    then show ?thesis using step(1) False by auto
  qed (use step(1) in simp)
qed simp


subsection \<open>Properties\<close>

lemma builder_new_ok:
  assumes "builder_new ab ad avail = Some b"
  shows "builder_ok 0 b"
proof -
  obtain root doc where r: "dom_new_table (new_document avail (of_nat builder_max_depth)) TBL_EXPLICIT = Some (root, doc)"
    and b: "b = \<lparr>b_doc = Some (doc\<lparr>d_root := Some root\<rparr>),
       b_stack = [\<lparr>bf_node = root, bf_is_array = False, bf_nature = Arr_Undecided\<rparr>]\<rparr>"
    using assms by (auto simp: builder_new_def split: if_splits option.splits)
  note eq = dom_new_table_eq [OF r]
  have "d_nodes doc = [\<lparr>n_kind = K_TABLE, n_flags = TBL_EXPLICIT, n_as = P_Table empty_table\<rparr>]"
    using eq(2) by (simp add: new_document_def)
  moreover have "t_entries empty_table = []" by (simp add: empty_table_def)
  ultimately show ?thesis
    using eq(1,3)
    by (auto simp: b builder_ok_def building_def stack_ok_def frame_ok_def builder_max_depth_def
        nodes_ok_def node_ok_def table_wf_empty aot_ok_def new_document_def)
qed

text \<open>C39: a client of the builder that stops when memory runs out always gets its calls back; when
  none of them failed for memory, refused calls included, every document handed over is as
  well formed as a parsed one: its root is a table, payloads have the shape of their kind,
  references lead to nodes, no table has two entries with one key, and an array of tables is
  not empty and holds tables only.\<close>

theorem builder_well_formed:
  assumes new: "builder_new ab ad avail = Some b" and len: "length cs < 2 ^ 32 - 1"
  shows "\<exists>sts b'. build_calls b cs = Some (sts, b') \<and>
    (ERR_ALLOC \<in> set sts \<or>
     (\<forall>doc b''. builder_finish b' = (ST_OK, Some doc, b'') \<longrightarrow>
        root_table doc \<and> d_err doc = no_error \<and>
        (\<forall>i < length (d_nodes doc).
           kind_payload (n_kind (the_node doc i)) (n_as (the_node doc i))
           \<and> (\<forall>v \<in> payload_refs (n_as (the_node doc i)). v < length (d_nodes doc))
           \<and> distinct (map e_bytes (t_entries (the_table doc i)))
           \<and> aot_ok (d_nodes doc) (the_node doc i))))"
proof -
  obtain sts b' where calls: "build_calls b cs = Some (sts, b')"
    and ok: "ERR_ALLOC \<notin> set sts \<Longrightarrow> builder_ok (length cs) b'"
    using build_calls_ok [OF builder_new_ok [OF new], of cs] len by auto
  have "root_table doc \<and> d_err doc = no_error \<and> nodes_ok (length cs) (d_nodes doc)"
    if "builder_finish b' = (ST_OK, Some doc, b'')" "ERR_ALLOC \<notin> set sts" for doc b''
  proof -
    have doc: "b_doc b' = Some doc"
      using that(1) by (auto simp: builder_finish_def split: option.splits if_splits)
    then have "building (length cs) doc (b_stack b')" using ok that(2) by (simp add: builder_ok_def)
    then show ?thesis
      by (cases "b_stack b'") (auto simp: building_def stack_ok_def frame_ok_def root_table_def)
  qed
  then show ?thesis using calls by (auto simp: nodes_ok_def node_ok_def table_wf_def)
qed

text \<open>The builder checks datetimes less strictly than the parser: the date 30 February and a
  negative year are taken.\<close>

lemma datetime_ok_loose:
  "datetime_ok K_DATE_LOCAL (dt_zero\<lparr>dt_year := 2001, dt_month := 2, dt_day := 30\<rparr>)
   \<and> datetime_ok K_DATE_LOCAL (dt_zero\<lparr>dt_year := -5, dt_month := 1, dt_day := 1\<rparr>)"
  by (simp add: datetime_ok_def dt_zero_def)

subsection \<open>Witnesses\<close>

lemma builder_well_formed_witness:
  "\<exists>b sts b'. builder_new True True 100000 = Some b
     \<and> build_calls b [Open_Table (Some (lit ''t'')), Put_Integer (Some (lit ''n'')) 1, Close] = Some (sts, b')
     \<and> sts = [ST_OK, ST_OK, ST_OK]
     \<and> (\<forall>doc b''. builder_finish b' = (ST_OK, Some doc, b'') \<longrightarrow> root_table doc)"
proof -
  define b where "b = the (builder_new True True 100000)"
  let ?cs = "[Open_Table (Some (lit ''t'')), Put_Integer (Some (lit ''n'')) 1, Close]"
  have new: "builder_new True True 100000 = Some b"
  proof -
    have "builder_new True True 100000 \<noteq> None" by code_simp
    then show ?thesis by (auto simp: b_def)
  qed
  have "map_option fst (build_calls (the (builder_new True True 100000)) ?cs) = Some [ST_OK, ST_OK, ST_OK]"
    by code_simp
  then obtain b' where calls: "build_calls b ?cs = Some ([ST_OK, ST_OK, ST_OK], b')"
    unfolding b_def by (auto simp del: build_calls.simps)
  show ?thesis using builder_well_formed [OF new, of ?cs] calls new by (auto simp del: build_calls.simps)
qed

end
