(* ===== verification/Plan.thy ===== *)
theory Plan
  imports Api
begin

text \<open>
  The shape plans, \<open>plan/plan.c\<close>: a compiled plan is a list of rows cut into sub-plans, a walk
  picks the values of a table by the rows of a plan into a tree of result nodes, and the
  readers address that tree by row. Memory is the number of allocations that still succeed.
  Behaviour that C leaves undefined (a read outside an array, a store through a null pointer)
  is a result of its own.
\<close>

subsection \<open>Data\<close>

abbreviation (input) PLAN_ABI_VERSION :: u32 where "PLAN_ABI_VERSION \<equiv> 1"
abbreviation (input) PLAN_MAX_DEPTH :: u32 where "PLAN_MAX_DEPTH \<equiv> 512"

abbreviation (input) PLAN_SCALAR :: byte where "PLAN_SCALAR \<equiv> 1"
abbreviation (input) PLAN_COLLECTION :: byte where "PLAN_COLLECTION \<equiv> 2"
abbreviation (input) PLAN_NESTED :: byte where "PLAN_NESTED \<equiv> 3"
abbreviation (input) PLAN_RAW :: byte where "PLAN_RAW \<equiv> 4"

text \<open>The kinds of result nodes; a scalar and a raw result carry the number of their row kind.\<close>

abbreviation (input) PLAN_MISSING :: byte where "PLAN_MISSING \<equiv> 0"
abbreviation (input) PLAN_ARRAY :: byte where "PLAN_ARRAY \<equiv> 2"
abbreviation (input) PLAN_TABLE :: byte where "PLAN_TABLE \<equiv> 3"

record plan_row_spec =
  rs_name :: "bytes option"
  rs_kind :: byte
  rs_sub :: u32

record plan_spec =
  sp_abi_version :: u32
  sp_plan_count :: u32
  sp_plans :: "plan_row_spec list option"
  sp_plan_first_row :: "u32 list option"

record plan_row =
  pr_name :: bytes
  pr_kind :: byte
  pr_sub :: u32

record plan =
  p_plan_count :: u32
  p_first_row :: "u32 list"
  p_rows :: "plan_row list"

text \<open>A result node; its children are the array \<open>kids[0..n)\<close>, which may hold null pointers.\<close>

datatype rnode = RNode (rn_kind: byte) (rn_src: "addr option") (rn_kids: "rnode option list")

subsection \<open>Building a plan\<close>

text \<open>The copy of the rows, \<open>m\<close> the allocations left; the status of the first failure.\<close>

fun build_rows :: "u32 \<Rightarrow> plan_row_spec list \<Rightarrow> nat \<Rightarrow> status + plan_row list \<times> nat" where
  "build_rows cnt [] m = Inr ([], m)"
| "build_rows cnt (r # rs) m =
    (case rs_name r of
       None \<Rightarrow> Inl ERR_ARG
     | Some name \<Rightarrow>
         (if name = [] \<or> rs_kind r < PLAN_SCALAR \<or> rs_kind r > PLAN_RAW
             \<or> (rs_kind r = PLAN_NESTED \<and> rs_sub r \<ge> cnt) then Inl ERR_ARG
          else case m of
                 0 \<Rightarrow> Inl ERR_ALLOC
               | Suc m' \<Rightarrow>
                   (case build_rows cnt rs m' of
                      Inl st \<Rightarrow> Inl st
                    | Inr (rows, m2) \<Rightarrow>
                        Inr (\<lparr>pr_name = name, pr_kind = rs_kind r, pr_sub = rs_sub r\<rparr> # rows, m2))))"

text \<open>The depth gate: the rows of one plan, then the plans in order; \<open>None\<close> is a read outside.\<close>

fun relax_rows :: "plan_row list \<Rightarrow> nat \<Rightarrow> nat list \<Rightarrow> u32 list \<Rightarrow> u32 list option" where
  "relax_rows rows pi [] depths = Some depths"
| "relax_rows rows pi (ri # ris) depths =
    (if ri \<ge> length rows then None
     else let row = rows ! ri; sub = unat (pr_sub row)
          in relax_rows rows pi ris
               (if pr_kind row = PLAN_NESTED \<and> depths ! sub \<le> depths ! pi + 1
                then depths[sub := depths ! pi + 1] else depths))"

fun relax_plans :: "u32 list \<Rightarrow> plan_row list \<Rightarrow> nat list \<Rightarrow> u32 list \<Rightarrow> u32 list option" where
  "relax_plans first_row rows [] depths = Some depths"
| "relax_plans first_row rows (pi # pis) depths =
    (if Suc pi \<ge> length first_row then None
     else case relax_rows rows pi [unat (first_row ! pi)..<unat (first_row ! Suc pi)] depths of
            None \<Rightarrow> None
          | Some d \<Rightarrow> relax_plans first_row rows pis d)"

datatype built = Built status "plan option" | Build_Undef

definition plan_build :: "plan_spec option \<Rightarrow> nat \<Rightarrow> built" where
  "plan_build spec m =
    (case spec of
       None \<Rightarrow> Built ERR_ARG None
     | Some sp \<Rightarrow>
         (if sp_abi_version sp \<noteq> PLAN_ABI_VERSION \<or> sp_plan_count sp = 0 then Built ERR_ARG None
          else case (sp_plans sp, sp_plan_first_row sp) of
                 (Some plans, Some first) \<Rightarrow>
                   (let cnt = sp_plan_count sp
                    in if m = 0 then Built ERR_ALLOC None
                       else if unat cnt \<ge> length first then Build_Undef
                       else let total = unat (first ! unat cnt);
                                need = (if total \<noteq> 0 then 2 else 1)
                            in if m - 1 < need then Built ERR_ALLOC None
                               else if total > length plans then Build_Undef
                               else case build_rows cnt (take total plans) (m - 1 - need) of
                                      Inl st \<Rightarrow> Built st None
                                    | Inr (rows, m2) \<Rightarrow>
                                        (let first_row = take (unat (cnt + 1)) first
                                         in if m2 = 0 then Built ERR_ALLOC None
                                            else case relax_plans first_row rows [0..<unat cnt]
                                                        (replicate (unat cnt) 0) of
                                                   None \<Rightarrow> Build_Undef
                                                 | Some depths \<Rightarrow>
                                                     (if list_ex (\<lambda>d. d > PLAN_MAX_DEPTH) depths
                                                      then Built ERR_ARG None
                                                      else Built ST_OK (Some \<lparr>p_plan_count = cnt,
                                                        p_first_row = first_row, p_rows = rows\<rparr>))))
               | _ \<Rightarrow> Built ERR_ARG None))"

subsection \<open>The walk\<close>

datatype 'a walked =
    Walked 'a nat
  | Walk_Undef
  | Walk_NoFuel

fun walk_bind :: "'a walked \<Rightarrow> ('a \<Rightarrow> nat \<Rightarrow> 'b walked) \<Rightarrow> 'b walked" where
  "walk_bind (Walked a m) f = f a m"
| "walk_bind Walk_Undef f = Walk_Undef"
| "walk_bind Walk_NoFuel f = Walk_NoFuel"

text \<open>\<open>calloc\<close> of a result node: a null pointer when memory is out.\<close>

definition rnode_new :: "byte \<Rightarrow> addr option \<Rightarrow> nat \<Rightarrow> rnode option walked" where
  "rnode_new k src m = (if m = 0 then Walked None 0 else Walked (Some (RNode k src [])) (m - 1))"

fun walk_each :: "('a \<Rightarrow> nat \<Rightarrow> rnode option walked) \<Rightarrow> 'a list \<Rightarrow> nat \<Rightarrow> rnode option list walked" where
  "walk_each f [] m = Walked [] m"
| "walk_each f (x # xs) m =
    walk_bind (f x m) (\<lambda>k m. walk_bind (walk_each f xs m) (\<lambda>ks m. Walked (k # ks) m))"

text \<open>
  A node with children: a field of the node is set without a test of the pointer, and so are
  the elements of the block of children.
\<close>

definition with_kids :: "byte \<Rightarrow> addr \<Rightarrow> ('a \<Rightarrow> nat \<Rightarrow> rnode option walked) \<Rightarrow> 'a list \<Rightarrow> nat \<Rightarrow> rnode option walked" where
  "with_kids k src f xs m =
    walk_bind (rnode_new k (Some src) m) (\<lambda>r m.
      if r = None then Walk_Undef
      else if xs = [] then Walked (Some (RNode k (Some src) [])) m
      else if m = 0 then Walk_Undef
      else walk_bind (walk_each f xs (m - 1)) (\<lambda>ks m. Walked (Some (RNode k (Some src) ks)) m))"

definition is_container :: "kind \<Rightarrow> bool" where
  "is_container k \<longleftrightarrow> k = K_ARRAY \<or> k = K_TABLE"

text \<open>The elements an array's 32-bit count reaches.\<close>

definition walk_items :: "document \<Rightarrow> addr \<Rightarrow> addr list" where
  "walk_items doc v =
    take (unat (of_nat (node_array_length (d_nodes doc) (Some v)) :: u32)) (ar_items (the_array doc v))"

definition walk_scalar :: "document \<Rightarrow> addr \<Rightarrow> nat \<Rightarrow> rnode option walked" where
  "walk_scalar doc v m =
    (if is_container (n_kind (the_node doc v)) then rnode_new PLAN_MISSING None m
     else rnode_new PLAN_SCALAR (Some v) m)"

text \<open>\<open>walk_value\<close>, the recursion into a sub-plan as an argument.\<close>

definition walk_value ::
    "(nat \<Rightarrow> addr \<Rightarrow> nat \<Rightarrow> rnode option walked) \<Rightarrow> document \<Rightarrow> plan_row \<Rightarrow> addr \<Rightarrow> nat \<Rightarrow> rnode option walked" where
  "walk_value sub_walk doc row v m =
    (let k = n_kind (the_node doc v); sub = unat (pr_sub row)
     in if pr_kind row = PLAN_SCALAR then walk_scalar doc v m
        else if pr_kind row = PLAN_COLLECTION then
          (if k \<noteq> K_ARRAY then rnode_new PLAN_MISSING None m
           else with_kids PLAN_ARRAY v (walk_scalar doc) (walk_items doc v) m)
        else if pr_kind row = PLAN_NESTED then
          (if k = K_TABLE then sub_walk sub v m
           else if k = K_ARRAY then
             with_kids PLAN_ARRAY v
               (\<lambda>item m. if n_kind (the_node doc item) = K_TABLE then sub_walk sub item m
                         else rnode_new PLAN_MISSING None m)
               (walk_items doc v) m
           else rnode_new PLAN_MISSING None m)
        else rnode_new PLAN_RAW (Some v) m)"

text \<open>One row of a table: the lookup, then the value; the row must lie inside the array of rows.\<close>

definition walk_row ::
    "(nat \<Rightarrow> addr \<Rightarrow> nat \<Rightarrow> rnode option walked) \<Rightarrow> plan \<Rightarrow> document \<Rightarrow> addr \<Rightarrow> nat \<Rightarrow> nat \<Rightarrow> rnode option walked" where
  "walk_row sub_walk p doc t ri m =
    (if ri \<ge> length (p_rows p) then Walk_Undef
     else case node_table_get doc (Some t) (Some (pr_name (p_rows p ! ri))) of
            None \<Rightarrow> Walk_NoFuel
          | Some None \<Rightarrow> rnode_new PLAN_MISSING None m
          | Some (Some v) \<Rightarrow> walk_value sub_walk doc (p_rows p ! ri) v m)"

definition plan_rows_of :: "plan \<Rightarrow> nat \<Rightarrow> nat list" where
  "plan_rows_of p idx = [unat (p_first_row p ! idx)..<unat (p_first_row p ! Suc idx)]"

fun walk_table :: "nat \<Rightarrow> plan \<Rightarrow> document \<Rightarrow> nat \<Rightarrow> addr \<Rightarrow> nat \<Rightarrow> rnode option walked" where
  "walk_table 0 p doc idx t m = Walk_NoFuel"
| "walk_table (Suc fuel) p doc idx t m =
    (if n_kind (the_node doc t) \<noteq> K_TABLE then rnode_new PLAN_MISSING None m
     else if Suc idx \<ge> length (p_first_row p) then Walk_Undef
     else with_kids PLAN_TABLE t (walk_row (walk_table fuel p doc) p doc t) (plan_rows_of p idx) m)"

text \<open>
  \<open>teptris_plan_walk\<close>; the allocation of the result comes first. \<open>Inl\<close> is a status without a
  result.
\<close>

definition plan_walk :: "nat \<Rightarrow> plan option \<Rightarrow> document \<Rightarrow> addr option \<Rightarrow> nat \<Rightarrow> (status + rnode) walked" where
  "plan_walk fuel plan doc node m =
    (case (plan, node) of
       (Some p, Some t) \<Rightarrow>
         (if m = 0 then Walked (Inl ERR_ALLOC) 0
          else walk_bind (walk_table fuel p doc 0 t (m - 1)) (\<lambda>r m.
                 case r of None \<Rightarrow> Walked (Inl ERR_ALLOC) m | Some root \<Rightarrow> Walked (Inr root) m))
     | _ \<Rightarrow> Walked (Inl ERR_ARG) m)"

subsection \<open>Readers of the root's rows\<close>

definition child_of :: "rnode \<Rightarrow> nat \<Rightarrow> rnode option" where
  "child_of r i = (if rn_kind r \<noteq> PLAN_TABLE \<or> i \<ge> length (rn_kids r) then None else rn_kids r ! i)"

definition result_kind_at :: "rnode \<Rightarrow> nat \<Rightarrow> byte" where
  "result_kind_at r row = (case child_of r row of None \<Rightarrow> PLAN_MISSING | Some c \<Rightarrow> rn_kind c)"

definition result_value_kind_at :: "node list \<Rightarrow> rnode \<Rightarrow> nat \<Rightarrow> kind" where
  "result_value_kind_at ns r row =
    (case child_of r row of
       None \<Rightarrow> K_STRING
     | Some c \<Rightarrow> if rn_src c \<noteq> None then api_node_kind ns (rn_src c) else K_STRING)"

text \<open>The macro \<open>SCALAR_AT\<close> and its five instances.\<close>

definition scalar_at :: "(node list \<Rightarrow> addr option \<Rightarrow> status + 'a) \<Rightarrow> node list \<Rightarrow> rnode \<Rightarrow> nat \<Rightarrow> status + 'a" where
  "scalar_at get ns r row =
    (case child_of r row of
       None \<Rightarrow> Inl ERR_ARG
     | Some c \<Rightarrow> if rn_kind c \<noteq> PLAN_SCALAR then Inl ERR_ARG else get ns (rn_src c))"

definition result_string_at :: "node list \<Rightarrow> rnode \<Rightarrow> nat \<Rightarrow> status + bytes" where
  "result_string_at = scalar_at node_string"

definition result_integer_at :: "node list \<Rightarrow> rnode \<Rightarrow> nat \<Rightarrow> status + u64" where
  "result_integer_at = scalar_at node_integer"

definition result_float_at :: "node list \<Rightarrow> rnode \<Rightarrow> nat \<Rightarrow> status + u64" where
  "result_float_at = scalar_at node_float"

definition result_boolean_at :: "node list \<Rightarrow> rnode \<Rightarrow> nat \<Rightarrow> status + bool" where
  "result_boolean_at = scalar_at node_boolean"

definition result_datetime_at :: "node list \<Rightarrow> rnode \<Rightarrow> nat \<Rightarrow> status + datetime" where
  "result_datetime_at = scalar_at node_datetime"

definition result_raw_at :: "rnode \<Rightarrow> nat \<Rightarrow> addr option" where
  "result_raw_at r row =
    (case child_of r row of
       None \<Rightarrow> None
     | Some c \<Rightarrow> if rn_kind c = PLAN_RAW then rn_src c else None)"

text \<open>A borrowed view of a nested row, \<open>alloc\<close> the success of its \<open>malloc\<close>.\<close>

definition result_row_view :: "rnode \<Rightarrow> nat \<Rightarrow> bool \<Rightarrow> rnode option" where
  "result_row_view r row alloc =
    (case child_of r row of
       None \<Rightarrow> None
     | Some c \<Rightarrow> if rn_kind c \<noteq> PLAN_TABLE \<or> \<not> alloc then None else Some c)"

subsection \<open>Readers of array rows\<close>

definition result_array_len_at :: "rnode \<Rightarrow> nat \<Rightarrow> nat" where
  "result_array_len_at r row =
    (case child_of r row of
       None \<Rightarrow> 0
     | Some c \<Rightarrow> if rn_kind c = PLAN_ARRAY then length (rn_kids c) else 0)"

text \<open>
  The element the array readers address: nothing when the row is no array or the index is
  outside, else the pointer stored there.
\<close>

definition array_elem :: "rnode \<Rightarrow> nat \<Rightarrow> nat \<Rightarrow> rnode option option" where
  "array_elem r row i =
    (case child_of r row of
       None \<Rightarrow> None
     | Some c \<Rightarrow> if rn_kind c \<noteq> PLAN_ARRAY \<or> i \<ge> length (rn_kids c) then None else Some (rn_kids c ! i))"

text \<open>A result \<open>None\<close> of the readers is a read through a null pointer.\<close>

definition result_array_kind_at :: "rnode \<Rightarrow> nat \<Rightarrow> nat \<Rightarrow> byte option" where
  "result_array_kind_at r row i =
    (case array_elem r row i of
       None \<Rightarrow> Some PLAN_MISSING
     | Some k \<Rightarrow> map_option rn_kind k)"

definition result_array_value_kind_at :: "node list \<Rightarrow> rnode \<Rightarrow> nat \<Rightarrow> nat \<Rightarrow> kind option" where
  "result_array_value_kind_at ns r row i =
    (case array_elem r row i of
       None \<Rightarrow> Some K_STRING
     | Some k \<Rightarrow>
         map_option (\<lambda>k. if rn_kind k = PLAN_SCALAR \<and> rn_src k \<noteq> None
                         then api_node_kind ns (rn_src k) else K_STRING) k)"

definition array_scalar_at ::
    "(node list \<Rightarrow> addr option \<Rightarrow> status + 'a) \<Rightarrow> node list \<Rightarrow> rnode \<Rightarrow> nat \<Rightarrow> nat \<Rightarrow> (status + 'a) option" where
  "array_scalar_at get ns r row i =
    (case array_elem r row i of
       None \<Rightarrow> Some (Inl ERR_ARG)
     | Some k \<Rightarrow>
         map_option (\<lambda>k. if rn_kind k \<noteq> PLAN_SCALAR then Inl ERR_ARG else get ns (rn_src k)) k)"

definition result_array_string_at :: "node list \<Rightarrow> rnode \<Rightarrow> nat \<Rightarrow> nat \<Rightarrow> (status + bytes) option" where
  "result_array_string_at = array_scalar_at node_string"

definition result_array_integer_at :: "node list \<Rightarrow> rnode \<Rightarrow> nat \<Rightarrow> nat \<Rightarrow> (status + u64) option" where
  "result_array_integer_at = array_scalar_at node_integer"

definition result_array_float_at :: "node list \<Rightarrow> rnode \<Rightarrow> nat \<Rightarrow> nat \<Rightarrow> (status + u64) option" where
  "result_array_float_at = array_scalar_at node_float"

definition result_array_boolean_at :: "node list \<Rightarrow> rnode \<Rightarrow> nat \<Rightarrow> nat \<Rightarrow> (status + bool) option" where
  "result_array_boolean_at = array_scalar_at node_boolean"

definition result_array_datetime_at :: "node list \<Rightarrow> rnode \<Rightarrow> nat \<Rightarrow> nat \<Rightarrow> (status + datetime) option" where
  "result_array_datetime_at = array_scalar_at node_datetime"

text \<open>The root of the view is the pointer stored in the array, null or not.\<close>

definition result_array_entry_at :: "rnode \<Rightarrow> nat \<Rightarrow> nat \<Rightarrow> bool \<Rightarrow> rnode option option" where
  "result_array_entry_at r row i alloc =
    (case array_elem r row i of
       None \<Rightarrow> None
     | Some k \<Rightarrow> if alloc then Some k else None)"

subsection \<open>Readers of the plan\<close>

text \<open>
  The three readers of a row share their guard, which reads \<open>first_row[plan_idx]\<close> first:
  \<open>None\<close> is a read outside, \<open>Some None\<close> a refused index.
\<close>

definition plan_row_at :: "plan \<Rightarrow> u32 \<Rightarrow> u32 \<Rightarrow> plan_row option option" where
  "plan_row_at p plan_idx row =
    (if unat plan_idx \<ge> length (p_first_row p) then None
     else let lo = p_first_row p ! unat plan_idx
          in if plan_idx \<ge> p_plan_count p then Some None
             else if Suc (unat plan_idx) \<ge> length (p_first_row p) then None
             else if row \<ge> p_first_row p ! Suc (unat plan_idx) - lo then Some None
             else if unat (lo + row) \<ge> length (p_rows p) then None
             else Some (Some (p_rows p ! unat (lo + row))))"

definition plan_row_kind_at :: "plan \<Rightarrow> u32 \<Rightarrow> u32 \<Rightarrow> byte option" where
  "plan_row_kind_at p plan_idx row =
    map_option (\<lambda>r. case r of None \<Rightarrow> 0 | Some r \<Rightarrow> pr_kind r) (plan_row_at p plan_idx row)"

definition plan_row_sub_at :: "plan \<Rightarrow> u32 \<Rightarrow> u32 \<Rightarrow> u32 option" where
  "plan_row_sub_at p plan_idx row =
    map_option (\<lambda>r. case r of None \<Rightarrow> 0 | Some r \<Rightarrow> pr_sub r) (plan_row_at p plan_idx row)"

definition plan_row_name_at :: "plan \<Rightarrow> u32 \<Rightarrow> u32 \<Rightarrow> bytes option option" where
  "plan_row_name_at p plan_idx row = map_option (map_option pr_name) (plan_row_at p plan_idx row)"

definition plan_row_count :: "plan option \<Rightarrow> u32 \<Rightarrow> u32" where
  "plan_row_count plan plan_idx =
    (case plan of
       None \<Rightarrow> 0
     | Some p \<Rightarrow>
         if plan_idx \<ge> p_plan_count p then 0
         else p_first_row p ! Suc (unat plan_idx) - p_first_row p ! unat plan_idx)"

definition plan_abi_version :: u32 where
  "plan_abi_version = PLAN_ABI_VERSION"

end
