(* ===== verification/Plan_Props.thy ===== *)
theory Plan_Props
  imports Plan Api_Props
begin

text \<open>
  What a plan promises. A plan that \<open>plan_build\<close> accepts is well formed; a walk over a
  well-formed document without a cycle, with memory enough, returns the tree that the relation
  \<open>picks\<close> describes: row by row the value of the key of that name, if its type fits the row.
  A last section shows what a walk makes of memory that runs out.
\<close>

subsection \<open>Plans\<close>

definition plan_ok :: "plan \<Rightarrow> bool" where
  "plan_ok p \<longleftrightarrow> p_plan_count p \<noteq> 0 \<and> length (p_first_row p) = Suc (unat (p_plan_count p))
     \<and> (\<forall>idx < unat (p_plan_count p). \<forall>ri \<in> set (plan_rows_of p idx). ri < length (p_rows p))
     \<and> (\<forall>row \<in> set (p_rows p). pr_kind row = PLAN_NESTED \<longrightarrow> pr_sub row < p_plan_count p)"

lemma build_rows_subs:
  "build_rows cnt rs m = Inr (rows, m') \<Longrightarrow> \<forall>row \<in> set rows. pr_kind row = PLAN_NESTED \<longrightarrow> pr_sub row < cnt"
  by (induction rs arbitrary: m rows m')
    (auto split: option.splits if_splits nat.splits sum.splits simp: not_le)

lemma relax_rows_inside:
  "relax_rows rows pi ris depths = Some d \<Longrightarrow> \<forall>ri \<in> set ris. ri < length rows"
  by (induction rows pi ris depths rule: relax_rows.induct) (auto simp: Let_def split: if_splits)

lemma relax_plans_inside:
  "relax_plans first rows pis depths = Some d \<Longrightarrow> pi \<in> set pis \<Longrightarrow>
   Suc pi < length first \<and> (\<forall>ri \<in> set [unat (first ! pi)..<unat (first ! Suc pi)]. ri < length rows)"
proof (induction first rows pis depths rule: relax_plans.induct)
  case (2 first rows q qs depths)
  obtain d1 where q: "Suc q < length first"
    "relax_rows rows q [unat (first ! q)..<unat (first ! Suc q)] depths = Some d1"
    "relax_plans first rows qs d1 = Some d"
    using 2(2) by (auto split: if_splits option.splits simp: not_le)
  then show ?case using 2 relax_rows_inside [OF q(2)] by (auto simp del: set_upt)
qed simp

lemma plan_build_ok:
  assumes "plan_build spec m = Built ST_OK (Some p)"
  shows "plan_ok p"
proof -
  obtain sp plans first rows m1 m2 depths where sp: "spec = Some sp" "sp_plans sp = Some plans"
      "sp_plan_first_row sp = Some first" "sp_plan_count sp \<noteq> 0" "unat (sp_plan_count sp) < length first"
    and rows: "build_rows (sp_plan_count sp) (take (unat (first ! unat (sp_plan_count sp))) plans) m1 = Inr (rows, m2)"
    and depths: "relax_plans (take (unat (sp_plan_count sp + 1)) first) rows [0..<unat (sp_plan_count sp)]
        (replicate (unat (sp_plan_count sp)) 0) = Some depths"
    and p: "p = \<lparr>p_plan_count = sp_plan_count sp,
        p_first_row = take (unat (sp_plan_count sp + 1)) first, p_rows = rows\<rparr>"
    using assms unfolding plan_build_def
    by (auto simp: Let_def not_le split: option.splits if_splits sum.splits)
  have pos: "0 < unat (sp_plan_count sp)" using sp(4) by (simp add: unat_gt_0)
  note inside = relax_plans_inside [OF depths]
  have "Suc 0 < unat (sp_plan_count sp + 1)"
    using inside [of 0] pos by simp
  then have "unat (sp_plan_count sp + 1) = Suc (unat (sp_plan_count sp))"
    by (metis Suc_eq_plus1 add.commute less_nat_zero_code unat_0 unatSuc)
  then have "length (p_first_row p) = Suc (unat (p_plan_count p))" using sp(5) by (simp add: p)
  then show ?thesis
    using inside build_rows_subs [OF rows] sp(4) by (simp add: plan_ok_def p plan_rows_of_def)
qed


subsection \<open>What a plan picks\<close>

definition missing_node :: rnode where
  "missing_node = RNode PLAN_MISSING None []"

definition scalar_result :: "document \<Rightarrow> addr \<Rightarrow> rnode" where
  "scalar_result doc v =
    (if is_container (n_kind (the_node doc v)) then missing_node else RNode PLAN_SCALAR (Some v) [])"

text \<open>
  \<open>picks p doc idx t r\<close>: \<open>r\<close> is the result of sub-plan \<open>idx\<close> on the table \<open>t\<close>. The clauses
  are those of the interface: a key that is absent, or whose value has not the type of its
  row, is missing.
\<close>

inductive picks :: "plan \<Rightarrow> document \<Rightarrow> nat \<Rightarrow> addr \<Rightarrow> rnode \<Rightarrow> bool"
  and picks_value :: "plan \<Rightarrow> document \<Rightarrow> plan_row \<Rightarrow> addr \<Rightarrow> rnode \<Rightarrow> bool"
  for p :: plan and doc :: document where
  picks_table: "n_kind (the_node doc t) = K_TABLE \<Longrightarrow>
    list_all2 (\<lambda>ri k.
        (entry_for (the_table doc t) (pr_name (p_rows p ! ri)) = None \<and> k = Some missing_node)
        \<or> (\<exists>e r. entry_for (the_table doc t) (pr_name (p_rows p ! ri)) = Some e \<and> k = Some r
              \<and> picks_value p doc (p_rows p ! ri) (e_value e) r))
      (plan_rows_of p idx) ks \<Longrightarrow>
    picks p doc idx t (RNode PLAN_TABLE (Some t) ks)"
| picks_scalar: "pr_kind row = PLAN_SCALAR \<Longrightarrow> picks_value p doc row v (scalar_result doc v)"
| picks_collection: "pr_kind row = PLAN_COLLECTION \<Longrightarrow> n_kind (the_node doc v) = K_ARRAY \<Longrightarrow>
    ks = map (\<lambda>item. Some (scalar_result doc item)) (walk_items doc v) \<Longrightarrow>
    picks_value p doc row v (RNode PLAN_ARRAY (Some v) ks)"
| picks_nested: "pr_kind row = PLAN_NESTED \<Longrightarrow> picks p doc (unat (pr_sub row)) v r \<Longrightarrow>
    picks_value p doc row v r"
| picks_tables: "pr_kind row = PLAN_NESTED \<Longrightarrow> n_kind (the_node doc v) = K_ARRAY \<Longrightarrow>
    list_all2 (\<lambda>item k.
        (n_kind (the_node doc item) \<noteq> K_TABLE \<and> k = Some missing_node)
        \<or> (\<exists>r. k = Some r \<and> picks p doc (unat (pr_sub row)) item r))
      (walk_items doc v) ks \<Longrightarrow>
    picks_value p doc row v (RNode PLAN_ARRAY (Some v) ks)"
| picks_missing: "pr_kind row = PLAN_COLLECTION \<and> n_kind (the_node doc v) \<noteq> K_ARRAY
    \<or> pr_kind row = PLAN_NESTED \<and> \<not> is_container (n_kind (the_node doc v)) \<Longrightarrow>
    picks_value p doc row v missing_node"
| picks_raw: "pr_kind row \<notin> {PLAN_SCALAR, PLAN_COLLECTION, PLAN_NESTED} \<Longrightarrow>
    picks_value p doc row v (RNode PLAN_RAW (Some v) [])"
  monos list.rel_mono

subsection \<open>Memory that suffices\<close>

text \<open>\<open>settles c f x\<close>: with at least \<open>c\<close> allocations to spend, \<open>f\<close> spends \<open>c\<close> and returns \<open>x\<close>.\<close>

definition settles :: "nat \<Rightarrow> (nat \<Rightarrow> 'a walked) \<Rightarrow> 'a \<Rightarrow> bool" where
  "settles c f x \<longleftrightarrow> (\<forall>m \<ge> c. f m = Walked x (m - c))"

lemma settles_new: "settles 1 (rnode_new k s) (Some (RNode k s []))"
  by (simp add: settles_def rnode_new_def)

lemma settles_missing: "settles 1 (rnode_new PLAN_MISSING None) (Some missing_node)"
  using settles_new by (simp add: missing_node_def)

lemma settles_scalar: "settles 1 (walk_scalar doc v) (Some (scalar_result doc v))"
  using settles_new [of PLAN_SCALAR "Some v"] settles_missing
  by (simp add: settles_def walk_scalar_def scalar_result_def)

lemma settles_each:
  assumes "\<forall>x \<in> set xs. \<exists>c r. settles c (f x) r \<and> Q x r"
  shows "\<exists>c rs. settles c (walk_each f xs) rs \<and> list_all2 Q xs rs"
  using assms
proof (induction xs)
  case Nil
  then show ?case by (auto simp: settles_def intro: exI [of _ 0])
next
  case (Cons x xs)
  obtain c r where r: "settles c (f x) r" "Q x r" using Cons(2) by auto
  obtain d rs where rs: "settles d (walk_each f xs) rs" "list_all2 Q xs rs" using Cons by auto
  have "settles (c + d) (walk_each f (x # xs)) (r # rs)"
    using r(1) rs(1) by (auto simp: settles_def add.commute diff_diff_left)
  then show ?case using r(2) rs(2) by (meson list_all2_Cons)
qed

lemma settles_kids:
  assumes "\<forall>x \<in> set xs. \<exists>c r. settles c (f x) r \<and> Q x r"
  shows "\<exists>c ks. settles c (with_kids k src f xs) (Some (RNode k (Some src) ks)) \<and> list_all2 Q xs ks"
proof (cases "xs = []")
  case True
  have "settles 1 (with_kids k src f xs) (Some (RNode k (Some src) []))"
    using True by (simp add: settles_def with_kids_def rnode_new_def)
  then show ?thesis using True by auto
next
  case False
  obtain c ks where ks: "settles c (walk_each f xs) ks" "list_all2 Q xs ks"
    using settles_each [OF assms] by blast
  have "settles (c + 2) (with_kids k src f xs) (Some (RNode k (Some src) ks))"
    using ks(1) False by (auto simp: settles_def with_kids_def rnode_new_def diff_diff_left)
  then show ?thesis using ks(2) by blast
qed

lemma walk_items_refs: "set (walk_items doc v) \<subseteq> payload_refs (n_as (the_node doc v))"
  using payload_arms(1) set_take_subset by (fastforce simp: walk_items_def)

text \<open>A value, when the walks into the tables it reaches settle.\<close>

lemma settles_value:
  assumes sub: "\<And>i. i \<in> insert v (payload_refs (n_as (the_node doc v))) \<Longrightarrow> n_kind (the_node doc i) = K_TABLE \<Longrightarrow>
      pr_kind row = PLAN_NESTED \<Longrightarrow>
      \<exists>c r. settles c (w (unat (pr_sub row)) i) (Some r) \<and> picks p doc (unat (pr_sub row)) i r"
  shows "\<exists>c r. settles c (walk_value w doc row v) (Some r) \<and> picks_value p doc row v r"
proof -
  let ?sub = "unat (pr_sub row)" and ?k = "n_kind (the_node doc v)"
  have wrap: ?thesis
    if "walk_value w doc row v = g" "settles c g (Some r)" "picks_value p doc row v r" for g c r
    using that by auto
  consider (scalar) "pr_kind row = PLAN_SCALAR" | (collection) "pr_kind row = PLAN_COLLECTION" "?k = K_ARRAY"
    | (nested) "pr_kind row = PLAN_NESTED" "?k = K_TABLE" | (tables) "pr_kind row = PLAN_NESTED" "?k = K_ARRAY"
    | (missing) "pr_kind row = PLAN_COLLECTION \<and> ?k \<noteq> K_ARRAY \<or> pr_kind row = PLAN_NESTED \<and> \<not> is_container ?k"
    | (raw) "pr_kind row \<notin> {PLAN_SCALAR, PLAN_COLLECTION, PLAN_NESTED}"
    by (auto simp: is_container_def)
  then show ?thesis
  proof cases
    case scalar
    have "walk_value w doc row v = walk_scalar doc v"
      by (rule ext) (simp add: walk_value_def scalar)
    then show ?thesis using settles_scalar picks_scalar [OF scalar] by (rule wrap)
  next
    case collection
    have "\<exists>c ks. settles c (with_kids PLAN_ARRAY v (walk_scalar doc) (walk_items doc v)) (Some (RNode PLAN_ARRAY (Some v) ks))
        \<and> list_all2 (\<lambda>item k. k = Some (scalar_result doc item)) (walk_items doc v) ks"
      by (rule settles_kids) (use settles_scalar in blast)
    then obtain c ks where ks: "settles c (with_kids PLAN_ARRAY v (walk_scalar doc) (walk_items doc v))
        (Some (RNode PLAN_ARRAY (Some v) ks))"
      "list_all2 (\<lambda>item k. k = Some (scalar_result doc item)) (walk_items doc v) ks" by blast
    have "ks = map (\<lambda>item. Some (scalar_result doc item)) (walk_items doc v)"
      using ks(2) by (simp add: list_all2_conv_all_nth list_eq_iff_nth_eq)
    moreover have "walk_value w doc row v = with_kids PLAN_ARRAY v (walk_scalar doc) (walk_items doc v)"
      by (rule ext) (simp add: walk_value_def collection)
    ultimately show ?thesis using wrap [OF _ ks(1)] picks_collection [OF collection] by blast
  next
    case nested
    have "walk_value w doc row v = w ?sub v"
      by (rule ext) (simp add: walk_value_def nested)
    then show ?thesis using wrap sub [OF insertI1 nested(2,1)] picks_nested [OF nested(1)] by blast
  next
    case tables
    let ?f = "\<lambda>item m. if n_kind (the_node doc item) = K_TABLE then w ?sub item m else rnode_new PLAN_MISSING None m"
    let ?Q = "\<lambda>item k. (n_kind (the_node doc item) \<noteq> K_TABLE \<and> k = Some missing_node)
        \<or> (\<exists>r. k = Some r \<and> picks p doc ?sub item r)"
    have "\<exists>c r. settles c (?f item) r \<and> ?Q item r" if "item \<in> set (walk_items doc v)" for item
    proof (cases "n_kind (the_node doc item) = K_TABLE")
      case True
      have "item \<in> insert v (payload_refs (n_as (the_node doc v)))" using that walk_items_refs by blast
      then obtain c r where "settles c (w ?sub item) (Some r)" "picks p doc ?sub item r"
        using sub True tables(1) by blast
      then show ?thesis using True by auto
    next
      case False
      then show ?thesis using settles_missing by auto
    qed
    then obtain c ks where "settles c (with_kids PLAN_ARRAY v ?f (walk_items doc v)) (Some (RNode PLAN_ARRAY (Some v) ks))"
      "list_all2 ?Q (walk_items doc v) ks"
      using settles_kids [of "walk_items doc v" ?f ?Q PLAN_ARRAY v] by blast
    moreover have "walk_value w doc row v = with_kids PLAN_ARRAY v ?f (walk_items doc v)"
      by (rule ext) (simp add: walk_value_def tables)
    ultimately show ?thesis using wrap picks_tables [OF tables] by blast
  next
    case missing
    have "walk_value w doc row v = rnode_new PLAN_MISSING None"
      using missing by (intro ext) (auto simp: walk_value_def is_container_def)
    then show ?thesis using settles_missing picks_missing [OF missing] by (rule wrap)
  next
    case raw
    have "walk_value w doc row v = rnode_new PLAN_RAW (Some v)"
      using raw by (intro ext) (simp add: walk_value_def)
    then show ?thesis using settles_new picks_raw [OF raw] by (rule wrap)
  qed
qed


subsection \<open>The walk\<close>

lemma table_get_entry:
  assumes "nodes_ok m (d_nodes doc)" "t < length (d_nodes doc)" "n_kind (the_node doc t) = K_TABLE"
  shows "node_table_get doc (Some t) (Some key) = Some (map_option e_value (entry_for (the_table doc t) key))"
  using node_ok_table(2) [OF assms] assms(3)
  by (simp add: node_table_get_def dom_table_find_def table_find_h_spec)

lemma walk_table_settles:
  assumes p: "plan_ok p" and ok: "nodes_ok m (d_nodes doc)" and rk: "ranked (d_nodes doc) rk"
  shows "idx < unat (p_plan_count p) \<Longrightarrow> t < length (d_nodes doc) \<Longrightarrow> n_kind (the_node doc t) = K_TABLE \<Longrightarrow>
    rk t < fuel \<Longrightarrow> \<exists>c r. settles c (walk_table fuel p doc idx t) (Some r) \<and> picks p doc idx t r"
proof (induction fuel arbitrary: idx t)
  case (Suc fuel)
  let ?f = "walk_row (walk_table fuel p doc) p doc t"
  let ?Q = "\<lambda>ri k. (entry_for (the_table doc t) (pr_name (p_rows p ! ri)) = None \<and> k = Some missing_node)
        \<or> (\<exists>e r. entry_for (the_table doc t) (pr_name (p_rows p ! ri)) = Some e \<and> k = Some r
              \<and> picks_value p doc (p_rows p ! ri) (e_value e) r)"
  have "\<exists>c r. settles c (?f ri) r \<and> ?Q ri r" if "ri \<in> set (plan_rows_of p idx)" for ri
  proof -
    let ?row = "p_rows p ! ri"
    have ri: "ri < length (p_rows p)" using p Suc.prems(1) that by (simp add: plan_ok_def)
    show ?thesis
    proof (cases "entry_for (the_table doc t) (pr_name ?row)")
      case None
      then have "?f ri = rnode_new PLAN_MISSING None"
        using ri by (intro ext) (simp add: walk_row_def table_get_entry [OF ok Suc.prems(2,3)])
      then show ?thesis using settles_missing None by auto
    next
      case (Some e)
      have row: "?f ri = walk_value (walk_table fuel p doc) doc ?row (e_value e)"
        using ri Some by (intro ext) (simp add: walk_row_def table_get_entry [OF ok Suc.prems(2,3)])
      have e: "e_value e < length (d_nodes doc)" "rk (e_value e) < rk t"
        using ranked_ref [OF rk Suc.prems(2)] entry_for_Some [OF Some] payload_arms(2) by blast+
      have "\<exists>c r. settles c (walk_value (walk_table fuel p doc) doc ?row (e_value e)) (Some r)
          \<and> picks_value p doc ?row (e_value e) r"
      proof (rule settles_value)
        fix i
        assume i: "i \<in> insert (e_value e) (payload_refs (n_as (the_node doc (e_value e))))"
          "n_kind (the_node doc i) = K_TABLE" and nested: "pr_kind ?row = PLAN_NESTED"
        have "i < length (d_nodes doc) \<and> rk i \<le> rk (e_value e)"
          using i(1) e(1) ranked_ref [OF rk e(1)] by fastforce
        moreover have "unat (pr_sub ?row) < unat (p_plan_count p)"
          using p ri nested by (simp add: plan_ok_def word_less_nat_alt)
        ultimately show "\<exists>c r. settles c (walk_table fuel p doc (unat (pr_sub ?row)) i) (Some r)
            \<and> picks p doc (unat (pr_sub ?row)) i r"
          using Suc.IH i(2) e(2) Suc.prems(4) by simp
      qed
      then show ?thesis using Some row by auto
    qed
  qed
  then obtain c ks where ks: "settles c (with_kids PLAN_TABLE t ?f (plan_rows_of p idx)) (Some (RNode PLAN_TABLE (Some t) ks))"
      "list_all2 ?Q (plan_rows_of p idx) ks"
    using settles_kids [of "plan_rows_of p idx" ?f ?Q PLAN_TABLE t] by blast
  moreover have "walk_table (Suc fuel) p doc idx t = with_kids PLAN_TABLE t ?f (plan_rows_of p idx)"
    using p Suc.prems by (intro ext) (simp add: plan_ok_def)
  ultimately show ?case using picks_table [OF Suc.prems(3) ks(2)] by auto
qed simp

lemma walk_settles:
  assumes p: "plan_ok p" and root: "root_ok n doc r" and rk: "ranked (d_nodes doc) rk" "rk r < fuel"
  shows "\<exists>c res. picks p doc 0 r res \<and> (\<forall>m \<ge> c. plan_walk fuel (Some p) doc (Some r) m = Walked (Inr res) (m - c))"
proof -
  have "0 < unat (p_plan_count p)" using p by (simp add: plan_ok_def unat_gt_0)
  then obtain c res where res: "settles c (walk_table fuel p doc 0 r) (Some res)" "picks p doc 0 r res"
    using walk_table_settles [OF p _ rk(1), of n 0 r fuel] root rk(2) unfolding root_ok_def by blast
  have "plan_walk fuel (Some p) doc (Some r) m = Walked (Inr res) (m - Suc c)" if "m \<ge> Suc c" for m
    using res(1) that by (auto simp: plan_walk_def settles_def diff_diff_left)
  then show ?thesis using res(2) by blast
qed

text \<open>Reading a row of a picked tree.\<close>

lemma row_of_pick:
  assumes "picks p doc 0 t r" "i < length (plan_rows_of p 0)"
    and row: "row = p_rows p ! (unat (p_first_row p ! 0) + i)"
  shows "case entry_for (the_table doc t) (pr_name row) of
      None \<Rightarrow> child_of r i = Some missing_node
    | Some e \<Rightarrow> (\<exists>c. child_of r i = Some c \<and> picks_value p doc row (e_value e) c)"
proof -
  obtain ks where r: "r = RNode PLAN_TABLE (Some t) ks"
    and ks: "list_all2 (\<lambda>ri k.
        (entry_for (the_table doc t) (pr_name (p_rows p ! ri)) = None \<and> k = Some missing_node)
        \<or> (\<exists>e r. entry_for (the_table doc t) (pr_name (p_rows p ! ri)) = Some e \<and> k = Some r
              \<and> picks_value p doc (p_rows p ! ri) (e_value e) r))
      (plan_rows_of p 0) ks"
    by (rule picks.cases [OF assms(1)]) blast
  have "plan_rows_of p 0 ! i = unat (p_first_row p ! 0) + i"
    using assms(2) by (simp add: plan_rows_of_def)
  then show ?thesis
    using list_all2_nthD [OF ks assms(2)] list_all2_lengthD [OF ks] assms(2)
    by (auto simp: row child_of_def r)
qed

lemma picks_value_scalar:
  "picks_value p doc row v c \<Longrightarrow> pr_kind row = PLAN_SCALAR \<Longrightarrow> c = scalar_result doc v"
  by (erule picks_value.cases) auto

text \<open>
  What the five scalar readers give for the row of a node: the one of the node's type its
  payload, every other \<open>ERR_ARG\<close>.
\<close>

definition reads_as :: "kind set \<Rightarrow> (payload \<Rightarrow> 'a) \<Rightarrow> node \<Rightarrow> status + 'a" where
  "reads_as ks arm nd = (if n_kind nd \<in> ks then Inr (arm (n_as nd)) else Inl ERR_ARG)"

definition reads_scalar :: "node list \<Rightarrow> rnode \<Rightarrow> nat \<Rightarrow> node \<Rightarrow> bool" where
  "reads_scalar ns res i nd \<longleftrightarrow>
     result_string_at ns res i = reads_as {K_STRING} payload_str nd \<and>
     result_integer_at ns res i = reads_as {K_INTEGER} payload_int nd \<and>
     result_float_at ns res i = reads_as {K_FLOAT} payload_float nd \<and>
     result_boolean_at ns res i = reads_as {K_BOOLEAN} payload_bool nd \<and>
     result_datetime_at ns res i =
       reads_as {K_DATETIME_OFFSET, K_DATETIME_LOCAL, K_DATE_LOCAL, K_TIME_LOCAL} payload_dt nd"

lemmas result_readers = result_string_at_def result_integer_at_def result_float_at_def
  result_boolean_at_def result_datetime_at_def node_string_def node_integer_def node_float_def
  node_boolean_def node_datetime_def

lemma scalar_result_reads:
  assumes c: "child_of r i = Some (scalar_result doc v)"
  shows "result_kind_at r i = (if is_container (n_kind (the_node doc v)) then PLAN_MISSING else PLAN_SCALAR)"
    and "reads_scalar (d_nodes doc) r i (the_node doc v)"
  using c by (auto simp: result_kind_at_def scalar_result_def missing_node_def reads_scalar_def reads_as_def
      result_readers scalar_at_def read_scalar_def is_container_def is_dt_kind_def)

text \<open>C40: on a plan that was built, a walk over a well-formed document without a cycle returns, from
  some amount of memory on, and its result is the tree of the values the plan names. In
  particular a row whose key is absent reads as missing, and a scalar row reads back its
  value with the reader of its type: of the string, integer, float, boolean and date readers
  the one that fits gives the payload of the node, the others refuse; a table or an array
  under a scalar row reads as missing.\<close>

theorem plan_walk_picks:
  assumes built: "plan_build spec m0 = Built ST_OK (Some p)"
    and root: "root_ok n doc r" and rk: "ranked (d_nodes doc) rk" "rk r < fuel"
  shows "\<exists>c res. (\<forall>m \<ge> c. plan_walk fuel (Some p) doc (Some r) m = Walked (Inr res) (m - c)) \<and>
    picks p doc 0 r res \<and>
    (\<forall>i < length (plan_rows_of p 0).
       let row = p_rows p ! (unat (p_first_row p ! 0) + i);
           found = entry_for (the_table doc r) (pr_name row)
       in (found = None \<longrightarrow> result_kind_at res i = PLAN_MISSING) \<and>
          (\<forall>e. found = Some e \<and> pr_kind row = PLAN_SCALAR \<longrightarrow>
             result_kind_at res i =
               (if is_container (n_kind (the_node doc (e_value e))) then PLAN_MISSING else PLAN_SCALAR) \<and>
             reads_scalar (d_nodes doc) res i (the_node doc (e_value e))))"
proof -
  obtain c res where res: "picks p doc 0 r res"
    "\<forall>m \<ge> c. plan_walk fuel (Some p) doc (Some r) m = Walked (Inr res) (m - c)"
    using walk_settles [OF plan_build_ok [OF built] root rk] by blast
  have "(found = None \<longrightarrow> result_kind_at res i = PLAN_MISSING) \<and>
      (\<forall>e. found = Some e \<and> pr_kind row = PLAN_SCALAR \<longrightarrow>
         result_kind_at res i =
           (if is_container (n_kind (the_node doc (e_value e))) then PLAN_MISSING else PLAN_SCALAR) \<and>
         reads_scalar (d_nodes doc) res i (the_node doc (e_value e)))"
    if i: "i < length (plan_rows_of p 0)" "row = p_rows p ! (unat (p_first_row p ! 0) + i)"
      and found: "found = entry_for (the_table doc r) (pr_name row)" for i row found
  proof (cases found)
    case None
    then show ?thesis
      using row_of_pick [OF res(1) i] found by (simp add: result_kind_at_def missing_node_def)
  next
    case (Some e)
    then obtain k where k: "child_of res i = Some k" "picks_value p doc row (e_value e) k"
      using row_of_pick [OF res(1) i] found by auto
    then show ?thesis
      using Some scalar_result_reads [of res i doc "e_value e"] picks_value_scalar [OF k(2)] by auto
  qed
  then show ?thesis unfolding Let_def using res by blast
qed


subsection \<open>Memory that runs out, and the depth gate\<close>

definition sample_spec :: plan_spec where
  "sample_spec = \<lparr>sp_abi_version = 1, sp_plan_count = 1,
     sp_plans = Some [\<lparr>rs_name = Some (lit ''a''), rs_kind = PLAN_SCALAR, rs_sub = 0\<rparr>],
     sp_plan_first_row = Some [0, 1]\<rparr>"

definition sample_plan :: plan where
  "sample_plan = \<lparr>p_plan_count = 1, p_first_row = [0, 1],
     p_rows = [\<lparr>pr_name = lit ''a'', pr_kind = PLAN_SCALAR, pr_sub = 0\<rparr>]\<rparr>"

lemma sample_plan_built: "plan_build (Some sample_spec) 5 = Built ST_OK (Some sample_plan)"
  by code_simp

fun walk_kind :: "(status + rnode) walked \<Rightarrow> byte option" where
  "walk_kind (Walked (Inr r) m) = Some (result_kind_at r 0)"
| "walk_kind _ = None"

fun on_document :: "(document \<Rightarrow> 'a) \<Rightarrow> run \<Rightarrow> 'a option" where
  "on_document f (Done st doc) = (if st = ST_OK then Some (f doc) else None)"
| "on_document f _ = None"

text \<open>
  With one allocation too few the walk still reports success, and a key that is there reads as
  missing; with two too few it stores through a null pointer.
\<close>

lemma plan_walk_out_of_memory:
  "on_document (\<lambda>doc. (walk_kind (plan_walk 2 (Some sample_plan) doc (Some 0) 4),
       walk_kind (plan_walk 2 (Some sample_plan) doc (Some 0) 3),
       plan_walk 2 (Some sample_plan) doc (Some 0) 2 = Walk_Undef))
     (teptris_parse no_floats 100000 (lit ''a=true'') None)
   = Some (Some PLAN_SCALAR, Some PLAN_MISSING, True)"
  by code_simp

text \<open>A plan that nests itself passes the depth gate, which looks at every plan once.\<close>

lemma recursive_plan_built:
  "plan_build (Some \<lparr>sp_abi_version = 1, sp_plan_count = 1,
      sp_plans = Some [\<lparr>rs_name = Some (lit ''a''), rs_kind = PLAN_NESTED, rs_sub = 0\<rparr>],
      sp_plan_first_row = Some [0, 1]\<rparr>) 5
   = Built ST_OK (Some \<lparr>p_plan_count = 1, p_first_row = [0, 1],
      p_rows = [\<lparr>pr_name = lit ''a'', pr_kind = PLAN_NESTED, pr_sub = 0\<rparr>]\<rparr>)"
  by code_simp

subsection \<open>Witnesses\<close>

lemma plan_walk_picks_witness:
  "\<exists>doc res. teptris_parse no_floats 100000 (lit ''a=true'') None = Done ST_OK doc \<and>
     plan_build (Some sample_spec) 5 = Built ST_OK (Some sample_plan) \<and>
     (\<exists>m. plan_walk 2 (Some sample_plan) doc (Some 0) m = Walked (Inr res) 0) \<and>
     picks sample_plan doc 0 0 res"
proof -
  obtain doc where doc: "teptris_parse no_floats 100000 (lit ''a=true'') None = Done ST_OK doc"
    "root_ok 6 doc 0" "ranked (d_nodes doc) sample_rank" using sample_doc by blast
  obtain c res where "\<forall>m \<ge> c. plan_walk 2 (Some sample_plan) doc (Some 0) m = Walked (Inr res) (m - c)"
    "picks sample_plan doc 0 0 res"
    using plan_walk_picks [OF sample_plan_built doc(2,3), of 2] by (auto simp: sample_rank_def)
  then show ?thesis using doc(1) sample_plan_built by (metis diff_self_eq_0 order.refl)
qed

end
